(* ===== verification/Prelude.thy ===== *)
theory Prelude
  imports Main "HOL-Library.Word" "HOL-Library.Multiset"
begin

text \<open>
  Shared vocabulary of the development: the C integer operations the driver relies on, and the
  generic facts about lists, buckets and comparison functions that the component theories use.
\<close>

section \<open>Collections of facts\<close>

named_theorems c_arith \<open>definitions of the C arithmetic helpers\<close>

section \<open>C integers\<close>

text \<open>
  The driver is an ILP32 program: \<open>int\<close> has 32 bits. \<open>c_int\<close> is the value an
  \<open>int\<close> object holds after a wrapping operation; \<open>c_div\<close> and \<open>c_mod\<close> are C's
  division and remainder, which truncate towards zero.
\<close>

definition c_int :: "int \<Rightarrow> int" where
  [c_arith]: "c_int x = (x + 2 ^ 31) mod 2 ^ 32 - 2 ^ 31"

definition c_div :: "int \<Rightarrow> int \<Rightarrow> int" where
  [c_arith]: "c_div a b = sgn a * sgn b * (\<bar>a\<bar> div \<bar>b\<bar>)"

definition c_mod :: "int \<Rightarrow> int \<Rightarrow> int" where
  [c_arith]: "c_mod a b = a - c_div a b * b"

lemma c_int_range: "- (2 ^ 31) \<le> c_int x \<and> c_int x < 2 ^ 31"
  by (simp add: c_int_def)

lemma c_int_id: "- (2 ^ 31) \<le> x \<Longrightarrow> x < 2 ^ 31 \<Longrightarrow> c_int x = x"
  by (simp add: c_int_def)

lemma c_div_nonneg: "0 \<le> a \<Longrightarrow> 0 < b \<Longrightarrow> c_div a b = a div b"
  by (cases "a = 0") (simp_all add: c_div_def sgn_if)

section \<open>Bit masks\<close>

text \<open>The driver keeps its hash tables at a power of two and masks with the size minus one.\<close>

unbundle bit_operations_syntax

lemma and_pow2_minus_1: "(x::nat) AND (2 ^ k - 1) = x mod 2 ^ k"
  by (metis mask_eq_exp_minus_1 take_bit_eq_mask take_bit_eq_mod)

lemma and_pow2_minus_Suc0 [simp]: "(x::nat) AND (2 ^ k - Suc 0) = x mod 2 ^ k"
  using and_pow2_minus_1 [of x k] by simp

lemma unat_of_nat_small: "n < 2 ^ LENGTH('a) \<Longrightarrow> unat (of_nat n :: 'a::len word) = n"
  by (simp add: unsigned_of_nat take_bit_nat_eq_self)

text \<open>The initialisation loop \<open>for (n = 1; n < y; n *= 2)\<close>; \<open>k\<close> is the exponent of \<open>n\<close>.\<close>

function pow2_loop :: "nat \<Rightarrow> nat \<Rightarrow> nat" where
  "pow2_loop y k = (if 2 ^ k < y then pow2_loop y (Suc k) else 2 ^ k)"
  by pat_completeness auto
termination
proof (relation "measure (\<lambda>(y, k). y - k)")
  fix y k :: nat
  assume "2 ^ k < y"
  moreover have "k < 2 ^ k" by simp
  ultimately have "k < y" by linarith
  then show "((y, Suc k), y, k) \<in> measure (\<lambda>(y, k). y - k)" by simp
qed simp

declare pow2_loop.simps [simp del]

lemma pow2_loop_result: "\<exists>k'. k \<le> k' \<and> pow2_loop y k = 2 ^ k' \<and> y \<le> 2 ^ k' \<and> (k < k' \<longrightarrow> 2 ^ (k' - 1) < y)"
proof (induction y k rule: pow2_loop.induct)
  case (1 y k)
  show ?case
  proof (cases "2 ^ k < y")
    case True
    with 1 obtain k' where k': "Suc k \<le> k'" "pow2_loop y (Suc k) = 2 ^ k'" "y \<le> 2 ^ k'"
      "Suc k < k' \<longrightarrow> 2 ^ (k' - 1) < y" by blast
    moreover have "2 ^ (k' - 1) < y" using k' True by (cases "k' = Suc k") auto
    ultimately show ?thesis using True by (intro exI [of _ k']) (simp add: pow2_loop.simps [of y k])
  next
    case False
    then show ?thesis by (intro exI [of _ k]) (simp add: pow2_loop.simps [of y k])
  qed
qed

section \<open>Hash chains\<close>

text \<open>
  The search loop of the hash tables: walk the chain (\<open>pre\<close> is what has been passed, last
  first), and when an entry satisfies the test unhook it and put it at the head.
\<close>

fun chain_find :: "('a \<Rightarrow> bool) \<Rightarrow> 'a list \<Rightarrow> 'a list \<Rightarrow> 'a option \<times> 'a list" where
  "chain_find P pre [] = (None, rev pre)"
| "chain_find P pre (cur # rest) =
     (if P cur then (Some cur, cur # rev pre @ rest) else chain_find P (cur # pre) rest)"

lemma chain_find_eq:
  "chain_find P pre xs = (find P xs,
     (case find P xs of None \<Rightarrow> rev pre @ xs
      | Some a \<Rightarrow> a # rev pre @ takeWhile (\<lambda>x. \<not> P x) xs @ tl (dropWhile (\<lambda>x. \<not> P x) xs)))"
  by (induction P pre xs rule: chain_find.induct) (auto split: option.splits)

lemma chain_find_result: "fst (chain_find P pre xs) = find P xs"
  by (simp add: chain_find_eq)

lemma chain_find_set: "set (snd (chain_find P pre xs)) = set pre \<union> set xs"
  by (induction P pre xs rule: chain_find.induct) auto

lemma chain_find_distinct: "distinct (rev pre @ xs) \<Longrightarrow> distinct (snd (chain_find P pre xs))"
  by (induction P pre xs rule: chain_find.induct) auto

lemma chain_find_length: "length (snd (chain_find P pre xs)) = length pre + length xs"
  by (induction P pre xs rule: chain_find.induct) auto

lemma chain_find_mset: "mset (snd (chain_find P pre xs)) = mset pre + mset xs"
  by (induction P pre xs rule: chain_find.induct) auto

lemma find_Some_D: "find P xs = Some a \<Longrightarrow> a \<in> set xs \<and> P a"
  by (induction xs) (auto split: if_splits)

text \<open>
  A table of chains holds a set of entries: chain \<open>h\<close> lists, once each, exactly the entries
  whose hash is \<open>h\<close>.
\<close>

lemma nth_update_if: "h < length tbl \<Longrightarrow> tbl[i := y] ! h = (if h = i then y else tbl ! h)"
  by (cases "h = i") auto

lemma mset_distinct_set:
  "mset xs = mset ys \<Longrightarrow> set xs = set ys \<and> distinct xs = distinct ys"
  by (metis mset_eq_imp_distinct_iff mset_eq_setD)

lemma filter_mset_all: "\<forall>x \<in># M. P x \<Longrightarrow> filter_mset P M = M"
  by (induction M) auto

lemma filter_mset_none: "\<forall>x \<in># M. \<not> P x \<Longrightarrow> filter_mset P M = {#}"
  by (induction M) auto

definition buckets_ok :: "('a \<Rightarrow> nat) \<Rightarrow> 'a set \<Rightarrow> 'a list list \<Rightarrow> bool" where
  "buckets_ok hash A tbl \<longleftrightarrow>
     (\<forall>h < length tbl. distinct (tbl ! h) \<and> set (tbl ! h) = {a \<in> A. hash a = h})"

named_theorems buckets \<open>updates that keep a table of chains in order\<close>

lemma buckets_okD:
  assumes "buckets_ok hash A tbl" and "h < length tbl"
  shows "distinct (tbl ! h)" and "set (tbl ! h) = {a \<in> A. hash a = h}"
  using assms by (auto simp: buckets_ok_def)

lemma buckets_ok_cong:
  assumes "\<And>a. a \<in> A \<Longrightarrow> hash a = hash' a"
  shows "buckets_ok hash A tbl \<longleftrightarrow> buckets_ok hash' A tbl"
proof -
  have "{a \<in> A. hash a = h} = {a \<in> A. hash' a = h}" for h using assms by auto
  then show ?thesis by (simp add: buckets_ok_def)
qed

lemma buckets_empty [buckets]: "buckets_ok hash {} (replicate n [])"
  by (simp add: buckets_ok_def)

lemma buckets_permute [buckets]:
  assumes "buckets_ok hash A tbl" and "mset ys = mset (tbl ! h)"
  shows "buckets_ok hash A (tbl[h := ys])"
  using assms(1) mset_distinct_set [OF assms(2)] by (auto simp: buckets_ok_def nth_update_if)

lemma buckets_insert [buckets]:
  assumes "buckets_ok hash A tbl" and "a \<notin> A"
  shows "buckets_ok hash (insert a A) (tbl[hash a := a # tbl ! hash a])"
  using assms by (auto simp: buckets_ok_def nth_update_if)

lemma buckets_remove [buckets]:
  assumes "buckets_ok hash A tbl" and "mset (tbl ! hash a) = add_mset a (mset ys)"
  shows "buckets_ok hash (A - {a}) (tbl[hash a := ys])"
proof -
  have "mset (tbl ! hash a) = mset (a # ys)" using assms(2) by simp
  from mset_distinct_set [OF this]
  have "set (tbl ! hash a) = insert a (set ys)" "distinct (tbl ! hash a) \<longleftrightarrow> a \<notin> set ys \<and> distinct ys"
    by auto
  with assms(1) show ?thesis by (auto simp: buckets_ok_def nth_update_if)
qed

section \<open>Three-way comparison functions\<close>

text \<open>
  What the client of a C comparison callback (\<open>qsort\<close> style: negative, zero, positive)
  relies on. Two arguments that compare equal are interchangeable.
\<close>

locale comparator =
  fixes cmp :: "'a \<Rightarrow> 'a \<Rightarrow> int"
  assumes cmp_neg: "cmp x y < 0 \<longleftrightarrow> 0 < cmp y x"
    and cmp_trans: "cmp x y < 0 \<Longrightarrow> cmp y z < 0 \<Longrightarrow> cmp x z < 0"
    and cmp_eq_left: "cmp x y = 0 \<Longrightarrow> cmp y z < 0 \<Longrightarrow> cmp x z < 0"
begin

lemma cmp_refl: "cmp x x = 0"
  using cmp_neg [of x x] by linarith

lemma cmp_sym: "cmp x y = 0 \<Longrightarrow> cmp y x = 0"
  using cmp_neg [of x y] cmp_neg [of y x] by linarith

lemma cmp_eq_right:
  assumes xy: "cmp x y < 0" and yz: "cmp y z = 0"
  shows "cmp x z < 0"
proof (rule ccontr)
  from yz have zy: "cmp z y = 0" by (rule cmp_sym)
  assume "\<not> cmp x z < 0"
  then consider "cmp x z = 0" | "cmp z x < 0" using cmp_neg [of z x] by linarith
  then show False
  proof cases
    case 1
    then have "cmp z x = 0" by (rule cmp_sym)
    from cmp_eq_left [OF this xy] zy show False by simp
  next
    case 2
    from cmp_trans [OF 2 xy] zy show False by simp
  qed
qed

lemma cmp_asym: "cmp x y < 0 \<Longrightarrow> \<not> cmp y x < 0"
  using cmp_neg [of x y] by linarith

end

end
