(* ===== verification/Avl_Tree.thy ===== *)
theory Avl_Tree
  imports Prelude
begin

text \<open>
  The balanced trees of \<open>avltree.c\<close>. A \<open>tree *\<close> is either \<open>NULL\<close> or a node with
  its two branches, the client's data pointer and the balance field. The in-place updates through
  \<open>tree **\<close> become functions that return the new tree; the out-parameter
  \<open>*pi_balance\<close> is returned too, and \<open>None\<close> is the read through a \<open>NULL\<close>
  pointer that the rotations would do on a badly balanced tree. The client's callbacks are called
  for their effect only, so an operation returns the list of the data they are called with.
\<close>

section \<open>The trees\<close>

datatype 'a tree = Null | Node (tree_l: "'a tree") (tree_p: 'a) (tree_b: int) (tree_r: "'a tree")

definition tree_init :: "'a tree" where
  "tree_init = Null"

fun tree_srch :: "'a tree \<Rightarrow> ('a \<Rightarrow> 'a \<Rightarrow> int) \<Rightarrow> 'a \<Rightarrow> 'a option" where
  "tree_srch Null cmp x = None"
| "tree_srch (Node l p b r) cmp x =
     (if 0 < cmp x p then tree_srch r cmp x
      else if cmp x p < 0 then tree_srch l cmp x
      else Some p)"

section \<open>Insertion\<close>

text \<open>
  The rebalancing of \<open>sprout\<close> when the left (right) branch was already the longer one and
  has grown again: a single (LL, RR) or a double (LR, RL) rotation.
\<close>

fun sprout_left :: "'a tree \<Rightarrow> 'a \<Rightarrow> 'a tree \<Rightarrow> 'a tree option" where
  "sprout_left Null p r = None"
| "sprout_left (Node a q b1 c) p r =
     (if b1 = -1 then Some (Node a q 0 (Node c p 0 r))
      else (case c of
        Null \<Rightarrow> None
      | Node c1 s b2 c2 \<Rightarrow>
          Some (Node (Node a q (if b2 = 1 then -1 else 0) c1) s 0
                     (Node c2 p (if b2 = -1 then 1 else 0) r))))"

fun sprout_right :: "'a tree \<Rightarrow> 'a \<Rightarrow> 'a tree \<Rightarrow> 'a tree option" where
  "sprout_right l p Null = None"
| "sprout_right l p (Node a q b1 c) =
     (if b1 = 1 then Some (Node (Node l p 0 a) q 0 c)
      else (case a of
        Null \<Rightarrow> None
      | Node c1 s b2 c2 \<Rightarrow>
          Some (Node (Node l p (if b2 = 1 then -1 else 0) c1) s 0
                     (Node c2 q (if b2 = -1 then 1 else 0) c))))"

text \<open>
  \<open>sprout\<close> returns the new tree, the value left in \<open>*pi_balance\<close> and the data given
  to \<open>pfi_delete\<close>; \<open>del\<close> says whether the caller passed such a callback.
\<close>

fun sprout :: "('a \<Rightarrow> 'a \<Rightarrow> int) \<Rightarrow> bool \<Rightarrow> 'a \<Rightarrow> 'a tree \<Rightarrow> ('a tree \<times> bool \<times> 'a list) option" where
  "sprout cmp dl x Null = Some (Node Null x 0 Null, True, [])"
| "sprout cmp dl x (Node l p b r) =
     (if cmp x p < 0 then
        (case sprout cmp dl x l of
           None \<Rightarrow> None
         | Some (l', g, fr) \<Rightarrow>
             if \<not> g then Some (Node l' p b r, False, fr)
             else if b = 1 then Some (Node l' p 0 r, False, fr)
             else if b = 0 then Some (Node l' p (-1) r, True, fr)
             else if b = -1 then map_option (\<lambda>t. (t, False, fr)) (sprout_left l' p r)
             else Some (Node l' p b r, True, fr))
      else if 0 < cmp x p then
        (case sprout cmp dl x r of
           None \<Rightarrow> None
         | Some (r', g, fr) \<Rightarrow>
             if \<not> g then Some (Node l p b r', False, fr)
             else if b = -1 then Some (Node l p 0 r', False, fr)
             else if b = 0 then Some (Node l p 1 r', True, fr)
             else if b = 1 then map_option (\<lambda>t. (t, False, fr)) (sprout_right l p r')
             else Some (Node l p b r', True, fr))
      else Some (Node l x b r, False, if dl then [p] else []))"

definition tree_add :: "('a \<Rightarrow> 'a \<Rightarrow> int) \<Rightarrow> bool \<Rightarrow> 'a \<Rightarrow> 'a tree \<Rightarrow> ('a tree \<times> 'a list) option" where
  "tree_add cmp dl x t = map_option (\<lambda>(t', g, fr). (t', fr)) (sprout cmp dl x t)"

section \<open>Deletion\<close>

text \<open>
  \<open>balanceL\<close> (\<open>balanceR\<close>) is called with \<open>*pi_balance\<close> set, after the left
  (right) branch has become shorter.
\<close>

fun balanceL :: "'a tree \<Rightarrow> ('a tree \<times> bool) option" where
  "balanceL Null = None"
| "balanceL (Node l p b r) =
     (if b = -1 then Some (Node l p 0 r, True)
      else if b = 0 then Some (Node l p 1 r, False)
      else if b = 1 then
        (case r of
           Null \<Rightarrow> None
         | Node rl q b1 rr \<Rightarrow>
             if 0 \<le> b1 then
               (if b1 = 0 then Some (Node (Node l p 1 rl) q (-1) rr, False)
                else Some (Node (Node l p 0 rl) q 0 rr, True))
             else (case rl of
                 Null \<Rightarrow> None
               | Node c1 s b2 c2 \<Rightarrow>
                   Some (Node (Node l p (if b2 = 1 then -1 else 0) c1) s 0
                              (Node c2 q (if b2 = -1 then 1 else 0) rr), True)))
      else Some (Node l p b r, True))"

fun balanceR :: "'a tree \<Rightarrow> ('a tree \<times> bool) option" where
  "balanceR Null = None"
| "balanceR (Node l p b r) =
     (if b = 1 then Some (Node l p 0 r, True)
      else if b = 0 then Some (Node l p (-1) r, False)
      else if b = -1 then
        (case l of
           Null \<Rightarrow> None
         | Node ll q b1 lr \<Rightarrow>
             if b1 \<le> 0 then
               (if b1 = 0 then Some (Node ll q 1 (Node lr p (-1) r), False)
                else Some (Node ll q 0 (Node lr p 0 r), True))
             else (case lr of
                 Null \<Rightarrow> None
               | Node c1 s b2 c2 \<Rightarrow>
                   Some (Node (Node ll q (if b2 = 1 then -1 else 0) c1) s 0
                              (Node c2 p (if b2 = -1 then 1 else 0) r), True)))
      else Some (Node l p b r, True))"

text \<open>
  \<open>del\<close> unhooks the rightmost node of the branch and hands its data to the node that is
  being deleted.
\<close>

fun del :: "'a tree \<Rightarrow> ('a tree \<times> bool \<times> 'a) option" where
  "del Null = None"
| "del (Node l p b r) =
     (case r of
        Null \<Rightarrow> Some (l, True, p)
      | Node _ _ _ _ \<Rightarrow>
          (case del r of
             None \<Rightarrow> None
           | Some (r', g, m) \<Rightarrow>
               if g then map_option (\<lambda>(t, g'). (t, g', m)) (balanceR (Node l p b r'))
               else Some (Node l p b r', False, m)))"

text \<open>
  \<open>delete\<close> returns the tree, its return value, \<open>*pi_balance\<close> and the data given to
  \<open>pfi_uar\<close> (which the code calls on the data of the deleted entry once, either in
  \<open>del\<close> or at the end).
\<close>

fun delete :: "('a \<Rightarrow> 'a \<Rightarrow> int) \<Rightarrow> 'a \<Rightarrow> bool \<Rightarrow> 'a tree \<Rightarrow> ('a tree \<times> int \<times> bool \<times> 'a list) option" where
  "delete cmp x uar Null = Some (Null, 0, False, [])"
| "delete cmp x uar (Node l p b r) =
     (if 0 < cmp p x then
        (case delete cmp x uar l of
           None \<Rightarrow> None
         | Some (l', ret, g, fr) \<Rightarrow>
             if g then map_option (\<lambda>(t, g'). (t, ret, g', fr)) (balanceL (Node l' p b r))
             else Some (Node l' p b r, ret, False, fr))
      else if cmp p x < 0 then
        (case delete cmp x uar r of
           None \<Rightarrow> None
         | Some (r', ret, g, fr) \<Rightarrow>
             if g then map_option (\<lambda>(t, g'). (t, ret, g', fr)) (balanceR (Node l p b r'))
             else Some (Node l p b r', ret, False, fr))
      else
        (let fr = (if uar then [p] else []) in
         case r of
           Null \<Rightarrow> Some (l, 1, True, fr)
         | Node _ _ _ _ \<Rightarrow>
             (case l of
                Null \<Rightarrow> Some (r, 1, True, fr)
              | Node _ _ _ _ \<Rightarrow>
                  (case del l of
                     None \<Rightarrow> None
                   | Some (l', g, m) \<Rightarrow>
                       if g then map_option (\<lambda>(t, g'). (t, 1, g', fr)) (balanceL (Node l' m b r))
                       else Some (Node l' m b r, 1, False, fr)))))"

definition tree_delete :: "('a \<Rightarrow> 'a \<Rightarrow> int) \<Rightarrow> 'a \<Rightarrow> bool \<Rightarrow> 'a tree \<Rightarrow> ('a tree \<times> int \<times> 'a list) option" where
  "tree_delete cmp x uar t = map_option (\<lambda>(t', ret, g, fr). (t', ret, fr)) (delete cmp x uar t)"

section \<open>Traversal and disposal\<close>

text \<open>\<open>tree_trav\<close> returns its result and the data \<open>pfi_uar\<close> was called with, in order.\<close>

fun tree_trav :: "'a tree \<Rightarrow> ('a \<Rightarrow> bool) \<Rightarrow> bool \<times> 'a list" where
  "tree_trav Null f = (True, [])"
| "tree_trav (Node l p b r) f =
     (let (okl, vl) = tree_trav l f in
      if \<not> okl then (False, vl)
      else if \<not> f p then (False, vl @ [p])
      else (let (okr, vr) = tree_trav r f in (okr, vl @ p # vr)))"

fun tree_mung :: "'a tree \<Rightarrow> bool \<Rightarrow> 'a tree \<times> 'a list" where
  "tree_mung Null uar = (Null, [])"
| "tree_mung (Node l p b r) uar =
     (let (l', vl) = tree_mung l uar; (r', vr) = tree_mung r uar
      in (Null, vl @ vr @ (if uar then [p] else [])))"

section \<open>Balance\<close>

fun height :: "'a tree \<Rightarrow> nat" where
  "height Null = 0"
| "height (Node l p b r) = Suc (max (height l) (height r))"

text \<open>The balance field of every node is the difference of its branches' heights, at most one.\<close>

fun avl :: "'a tree \<Rightarrow> bool" where
  "avl Null = True"
| "avl (Node l p b r) =
     (avl l \<and> avl r \<and> b = int (height r) - int (height l) \<and> -1 \<le> b \<and> b \<le> 1)"

fun inorder :: "'a tree \<Rightarrow> 'a list" where
  "inorder Null = []"
| "inorder (Node l p b r) = inorder l @ p # inorder r"

text \<open>A branch that has grown is either a new leaf or has a longer side of its own.\<close>

definition grown :: "'a tree \<Rightarrow> 'a tree \<Rightarrow> bool \<Rightarrow> bool" where
  "grown t t' g \<longleftrightarrow> avl t' \<and> height t' = height t + (if g then 1 else 0)
     \<and> (g \<and> t \<noteq> Null \<longrightarrow> tree_b t' \<noteq> 0)"

lemma height_0 [simp]: "height t = 0 \<longleftrightarrow> t = Null"
  by (cases t) auto

lemma avl_Node:
  "avl (Node l p b r) \<longleftrightarrow> avl l \<and> avl r
    \<and> (b = 0 \<and> height l = height r \<or> b = 1 \<and> height r = Suc (height l) \<or> b = -1 \<and> height l = Suc (height r))"
  by auto

declare avl.simps(2) [simp del] avl_Node [simp]

lemma sprout_left_grown:
  assumes "avl l'" "avl r" "height l' = height r + 2" "tree_b l' \<noteq> 0"
  shows "\<exists>t. sprout_left l' p r = Some t \<and> avl t \<and> height t = height r + 2"
  using assms by (cases l') (auto split: tree.splits)

lemma sprout_right_grown:
  assumes "avl l" "avl r'" "height r' = height l + 2" "tree_b r' \<noteq> 0"
  shows "\<exists>t. sprout_right l p r' = Some t \<and> avl t \<and> height t = height l + 2"
  using assms by (cases r') (auto split: tree.splits)

text \<open>The node that has a branch of the insertion below it, in the three states of its balance field.\<close>

lemma sprout_node_left:
  assumes n: "avl (Node l p b r)" and s: "sprout cmp dl x l = Some (l', g, fr)" "grown l l' g"
    and x: "cmp x p < 0"
  shows "\<exists>t g'. sprout cmp dl x (Node l p b r) = Some (t, g', fr) \<and> grown (Node l p b r) t g'"
proof (cases g)
  case False
  with assms show ?thesis
    by (intro exI [of _ "Node l' p b r"] exI [of _ False]) (auto simp: grown_def)
next
  case True
  with s have h: "avl l'" "height l' = Suc (height l)" "l \<noteq> Null \<Longrightarrow> tree_b l' \<noteq> 0" by (auto simp: grown_def)
  from n consider "b = 1" "height r = Suc (height l)" | "b = 0" "height r = height l"
    | "b = -1" "height l = Suc (height r)" by auto
  then show ?thesis
  proof cases
    case 1
    with h n s x True show ?thesis
      by (intro exI [of _ "Node l' p 0 r"] exI [of _ False]) (simp add: grown_def)
  next
    case 2
    with h n s x True show ?thesis
      by (intro exI [of _ "Node l' p (-1) r"] exI [of _ True]) (simp add: grown_def)
  next
    case 3
    then have "l \<noteq> Null" by auto
    with 3 h n have "avl l'" "avl r" "height l' = height r + 2" "tree_b l' \<noteq> 0" by auto
    from sprout_left_grown [OF this, of p] obtain t where
      "sprout_left l' p r = Some t" "avl t" "height t = height r + 2" by blast
    with 3 s x True show ?thesis
      by (intro exI [of _ t] exI [of _ False]) (simp add: grown_def)
  qed
qed

lemma sprout_node_right:
  assumes n: "avl (Node l p b r)" and s: "sprout cmp dl x r = Some (r', g, fr)" "grown r r' g"
    and x: "0 < cmp x p"
  shows "\<exists>t g'. sprout cmp dl x (Node l p b r) = Some (t, g', fr) \<and> grown (Node l p b r) t g'"
proof (cases g)
  case False
  with assms show ?thesis
    by (intro exI [of _ "Node l p b r'"] exI [of _ False]) (auto simp: grown_def)
next
  case True
  with s have h: "avl r'" "height r' = Suc (height r)" "r \<noteq> Null \<Longrightarrow> tree_b r' \<noteq> 0" by (auto simp: grown_def)
  from n consider "b = -1" "height l = Suc (height r)" | "b = 0" "height l = height r"
    | "b = 1" "height r = Suc (height l)" by auto
  then show ?thesis
  proof cases
    case 1
    with h n s x True show ?thesis
      by (intro exI [of _ "Node l p 0 r'"] exI [of _ False]) (simp add: grown_def)
  next
    case 2
    with h n s x True show ?thesis
      by (intro exI [of _ "Node l p 1 r'"] exI [of _ True]) (simp add: grown_def)
  next
    case 3
    then have "r \<noteq> Null" by auto
    with 3 h n have "avl l" "avl r'" "height r' = height l + 2" "tree_b r' \<noteq> 0" by auto
    from sprout_right_grown [OF this, of p] obtain t where
      "sprout_right l p r' = Some t" "avl t" "height t = height l + 2" by blast
    with 3 s x True show ?thesis
      by (intro exI [of _ t] exI [of _ False]) (simp add: grown_def)
  qed
qed

lemma sprout_grown:
  "avl t \<Longrightarrow> \<exists>t' g fr. sprout cmp dl x t = Some (t', g, fr) \<and> grown t t' g"
proof (induction t)
  case Null
  then show ?case by (simp add: grown_def ex_bool_eq)
next
  case (Node l p b r)
  from Node.prems have lr: "avl l" "avl r" by auto
  consider "cmp x p < 0" | "0 < cmp x p" | "cmp x p = 0" by linarith
  then show ?case
  proof cases
    case 1
    with Node.IH(1) [OF lr(1)] sprout_node_left [OF Node.prems] show ?thesis by blast
  next
    case 2
    with Node.IH(2) [OF lr(2)] sprout_node_right [OF Node.prems] show ?thesis by blast
  next
    case 3
    with Node.prems show ?thesis
      by (intro exI [of _ "Node l x b r"] exI [of _ False]) (simp add: grown_def)
  qed
qed

definition shrunk :: "'a tree \<Rightarrow> 'a tree \<Rightarrow> bool \<Rightarrow> bool" where
  "shrunk t t' g \<longleftrightarrow> avl t' \<and> height t = height t' + (if g then 1 else 0)"

lemma balanceL_heavy:
  assumes "avl l" "avl r" "height r = height l + 2"
  shows "\<exists>t g. balanceL (Node l q 1 r) = Some (t, g) \<and> avl t
    \<and> height t + (if g then 1 else 0) = height r + 1"
proof -
  from assms(3) obtain rl p b1 rr where r: "r = Node rl p b1 rr" by (cases r) auto
  show ?thesis
  proof (cases "0 \<le> b1")
    case True
    with r assms show ?thesis by (cases "b1 = 0") (simp_all add: ex_bool_eq)
  next
    case False
    with r assms obtain c1 s b2 c2 where "rl = Node c1 s b2 c2" by (cases rl) auto
    with False r assms show ?thesis by (auto simp: ex_bool_eq)
  qed
qed

lemma balanceR_heavy:
  assumes "avl l" "avl r" "height l = height r + 2"
  shows "\<exists>t g. balanceR (Node l q (-1) r) = Some (t, g) \<and> avl t
    \<and> height t + (if g then 1 else 0) = height l + 1"
proof -
  from assms(3) obtain ll p b1 lr where l: "l = Node ll p b1 lr" by (cases l) auto
  show ?thesis
  proof (cases "b1 \<le> 0")
    case True
    with l assms show ?thesis by (cases "b1 = 0") (simp_all add: ex_bool_eq)
  next
    case False
    with l assms obtain c1 s b2 c2 where "lr = Node c1 s b2 c2" by (cases lr) auto
    with False l assms show ?thesis by (auto simp: ex_bool_eq)
  qed
qed

lemma balanceL_shrunk:
  assumes n: "avl (Node l p b r)" and l': "shrunk l l' True"
  shows "\<exists>t g. balanceL (Node l' q b r) = Some (t, g) \<and> shrunk (Node l p b r) t g"
proof -
  from l' have h: "avl l'" "height l = Suc (height l')" by (auto simp: shrunk_def)
  from n consider "b = 1" "height r = Suc (height l)" | "b = 0" "height r = height l"
    | "b = -1" "height l = Suc (height r)" by auto
  then show ?thesis
  proof cases
    case 1
    with h n have "avl l'" "avl r" "height r = height l' + 2" by auto
    from balanceL_heavy [OF this, of q] obtain t g where
      "balanceL (Node l' q 1 r) = Some (t, g)" "avl t" "height t + (if g then 1 else 0) = height r + 1"
      by blast
    with 1 show ?thesis by (intro exI [of _ t] exI [of _ g]) (simp add: shrunk_def)
  next
    case 2
    with h n show ?thesis
      by (intro exI [of _ "Node l' q 1 r"] exI [of _ False]) (simp add: shrunk_def)
  next
    case 3
    with h n show ?thesis
      by (intro exI [of _ "Node l' q 0 r"] exI [of _ True]) (simp add: shrunk_def)
  qed
qed

lemma balanceR_shrunk:
  assumes n: "avl (Node l p b r)" and r': "shrunk r r' True"
  shows "\<exists>t g. balanceR (Node l q b r') = Some (t, g) \<and> shrunk (Node l p b r) t g"
proof -
  from r' have h: "avl r'" "height r = Suc (height r')" by (auto simp: shrunk_def)
  from n consider "b = -1" "height l = Suc (height r)" | "b = 0" "height l = height r"
    | "b = 1" "height r = Suc (height l)" by auto
  then show ?thesis
  proof cases
    case 1
    with h n have "avl l" "avl r'" "height l = height r' + 2" by auto
    from balanceR_heavy [OF this, of q] obtain t g where
      "balanceR (Node l q (-1) r') = Some (t, g)" "avl t" "height t + (if g then 1 else 0) = height l + 1"
      by blast
    with 1 show ?thesis by (intro exI [of _ t] exI [of _ g]) (simp add: shrunk_def)
  next
    case 2
    with h n show ?thesis
      by (intro exI [of _ "Node l q (-1) r'"] exI [of _ False]) (simp add: shrunk_def)
  next
    case 3
    with h n show ?thesis
      by (intro exI [of _ "Node l q 0 r'"] exI [of _ True]) (simp add: shrunk_def)
  qed
qed

lemma shrunk_keep:
  "avl (Node l p b r) \<Longrightarrow> shrunk l l' False \<Longrightarrow> shrunk (Node l p b r) (Node l' q b r) False"
  "avl (Node l p b r) \<Longrightarrow> shrunk r r' False \<Longrightarrow> shrunk (Node l p b r) (Node l q b r') False"
  by (auto simp: shrunk_def)

lemma del_shrunk:
  "avl t \<Longrightarrow> t \<noteq> Null \<Longrightarrow> \<exists>t' g m. del t = Some (t', g, m) \<and> shrunk t t' g"
proof (induction t)
  case (Node l p b r)
  show ?case
  proof (cases r)
    case Null
    then show ?thesis using Node.prems by (auto simp: shrunk_def)
  next
    case (Node rl q rb rr)
    with Node.prems Node.IH(2) obtain r' g m where
      r': "del r = Some (r', g, m)" "shrunk r r' g" by auto
    show ?thesis
    proof (cases g)
      case True
      with balanceR_shrunk [OF Node.prems(1), of r' p] r' Node show ?thesis by auto
    next
      case False
      with shrunk_keep(2) [OF Node.prems(1)] r' Node show ?thesis by auto
    qed
  qed
qed simp

text \<open>What \<open>delete\<close> does at the entry it has found.\<close>

lemma delete_root:
  assumes "cmp p x = 0"
  shows "delete cmp x uar (Node l p b r) =
    (let fr = (if uar then [p] else []) in
     if r = Null then Some (l, 1, True, fr)
     else if l = Null then Some (r, 1, True, fr)
     else (case del l of
         None \<Rightarrow> None
       | Some (l', g, m) \<Rightarrow>
           if g then map_option (\<lambda>(t, g'). (t, 1, g', fr)) (balanceL (Node l' m b r))
           else Some (Node l' m b r, 1, False, fr)))"
  using assms by (cases r; cases l; cases uar) (auto simp: Let_def simp del: del.simps balanceL.simps split: option.split)

lemma delete_left:
  "0 < cmp p x \<Longrightarrow> delete cmp x uar (Node l p b r) =
     (case delete cmp x uar l of
        None \<Rightarrow> None
      | Some (l', ret, g, fr) \<Rightarrow>
          if g then map_option (\<lambda>(t, g'). (t, ret, g', fr)) (balanceL (Node l' p b r))
          else Some (Node l' p b r, ret, False, fr))"
  by simp

lemma delete_right:
  "cmp p x < 0 \<Longrightarrow> delete cmp x uar (Node l p b r) =
     (case delete cmp x uar r of
        None \<Rightarrow> None
      | Some (r', ret, g, fr) \<Rightarrow>
          if g then map_option (\<lambda>(t, g'). (t, ret, g', fr)) (balanceR (Node l p b r'))
          else Some (Node l p b r', ret, False, fr))"
  by simp

lemmas delete_node = delete_root delete_left delete_right

declare delete.simps(2) [simp del]

lemma delete_shrunk:
  "avl t \<Longrightarrow> \<exists>t' ret g fr. delete cmp x uar t = Some (t', ret, g, fr) \<and> shrunk t t' g"
proof (induction t)
  case Null
  then show ?case by (simp add: shrunk_def ex_bool_eq)
next
  case (Node l p b r)
  from Node.prems have lr: "avl l" "avl r" by auto
  consider "0 < cmp p x" | "cmp p x < 0" | "cmp p x = 0" by linarith
  then show ?case
  proof cases
    case 1
    from Node.IH(1) [OF lr(1)] obtain l' ret g fr where
      l: "delete cmp x uar l = Some (l', ret, g, fr)" "shrunk l l' g" by blast
    with 1 balanceL_shrunk [OF Node.prems, of l' p] shrunk_keep(1) [OF Node.prems]
    show ?thesis by (cases g) (auto simp: delete_left)
  next
    case 2
    from Node.IH(2) [OF lr(2)] obtain r' ret g fr where
      r: "delete cmp x uar r = Some (r', ret, g, fr)" "shrunk r r' g" by blast
    with 2 balanceR_shrunk [OF Node.prems, of r' p] shrunk_keep(2) [OF Node.prems]
    show ?thesis by (cases g) (auto simp: delete_right)
  next
    case 3
    show ?thesis
    proof (cases "l = Null \<or> r = Null")
      case True
      with 3 Node.prems show ?thesis
        by (intro exI [of _ "if r = Null then l else r"] exI [of _ "1 :: int"] exI [of _ True]
            exI [of _ "if uar then [p] else []"]) (auto simp: delete_root Let_def shrunk_def)
    next
      case False
      with del_shrunk [OF lr(1)] obtain l' g m where
        l: "del l = Some (l', g, m)" "shrunk l l' g" by auto
      with 3 False balanceL_shrunk [OF Node.prems, of l' m] shrunk_keep(1) [OF Node.prems, of l' m]
      show ?thesis by (cases g) (auto simp: delete_root Let_def simp del: balanceL.simps)
    qed
  qed
qed

section \<open>Order\<close>

text \<open>The entries read from left to right; insertion and deletion on that sequence.\<close>

fun ins_rep :: "('a \<Rightarrow> 'a \<Rightarrow> int) \<Rightarrow> 'a \<Rightarrow> 'a list \<Rightarrow> 'a list" where
  "ins_rep cmp x [] = [x]"
| "ins_rep cmp x (y # ys) =
     (if cmp x y < 0 then x # y # ys
      else if 0 < cmp x y then y # ins_rep cmp x ys
      else x # ys)"

fun del_rep :: "('a \<Rightarrow> 'a \<Rightarrow> int) \<Rightarrow> 'a \<Rightarrow> 'a list \<Rightarrow> 'a list" where
  "del_rep cmp x [] = []"
| "del_rep cmp x (y # ys) = (if cmp y x = 0 then ys else y # del_rep cmp x ys)"

abbreviation ordered :: "('a \<Rightarrow> 'a \<Rightarrow> int) \<Rightarrow> 'a list \<Rightarrow> bool" where
  "ordered cmp xs \<equiv> sorted_wrt (\<lambda>a b. cmp a b < 0) xs"

definition tree_ok :: "('a \<Rightarrow> 'a \<Rightarrow> int) \<Rightarrow> 'a tree \<Rightarrow> bool" where
  "tree_ok cmp t \<longleftrightarrow> avl t \<and> ordered cmp (inorder t)"

lemma inorder_sprout_left:
  "sprout_left l p r = Some t \<Longrightarrow> inorder t = inorder l @ p # inorder r"
  by (cases l) (auto split: if_splits tree.splits)

lemma inorder_sprout_right:
  "sprout_right l p r = Some t \<Longrightarrow> inorder t = inorder l @ p # inorder r"
  by (cases r) (auto split: if_splits tree.splits)

lemma inorder_balanceL:
  "balanceL (Node l p b r) = Some (t, g) \<Longrightarrow> inorder t = inorder l @ p # inorder r"
  by (auto split: if_splits tree.splits)

lemma inorder_balanceR:
  "balanceR (Node l p b r) = Some (t, g) \<Longrightarrow> inorder t = inorder l @ p # inorder r"
  by (auto split: if_splits tree.splits)

lemma inorder_del: "del t = Some (t', g, m) \<Longrightarrow> inorder t = inorder t' @ [m]"
proof (induction t arbitrary: t' g)
  case (Node l p b r)
  then show ?case
    by (cases r) (auto split: if_splits option.splits simp del: balanceR.simps dest!: inorder_balanceR)
qed simp

context comparator
begin

lemma ordered_append:
  "ordered cmp (xs @ p # ys) \<longleftrightarrow> ordered cmp xs \<and> ordered cmp ys
     \<and> (\<forall>a \<in> set xs. cmp a p < 0) \<and> (\<forall>b \<in> set ys. cmp p b < 0)"
  by (auto simp: sorted_wrt_append intro: cmp_trans)

lemma ins_rep_right:
  "\<forall>a \<in> set xs. cmp a x < 0 \<Longrightarrow> ins_rep cmp x (xs @ zs) = xs @ ins_rep cmp x zs"
  by (induction xs) (auto simp: cmp_neg [of _ x] dest: cmp_asym)

lemma ins_rep_left:
  "cmp x p < 0 \<Longrightarrow> ins_rep cmp x (xs @ p # ys) = ins_rep cmp x xs @ p # ys"
  by (induction xs) auto

lemma inorder_sprout:
  "sprout cmp dl x t = Some (t', g, fr) \<Longrightarrow> ordered cmp (inorder t)
    \<Longrightarrow> inorder t' = ins_rep cmp x (inorder t)"
proof (induction t arbitrary: t' g fr)
  case (Node l p b r)
  from Node.prems(2) have o: "ordered cmp (inorder l)" "ordered cmp (inorder r)"
      "\<forall>a \<in> set (inorder l). cmp a p < 0" by (auto simp: ordered_append)
  consider "cmp x p < 0" | "0 < cmp x p" | "cmp x p = 0" by linarith
  then show ?case
  proof cases
    case 1
    with Node.prems(1) Node.IH(1) [OF _ o(1)] show ?thesis
      by (auto simp: ins_rep_left split: option.splits if_splits dest!: inorder_sprout_left)
  next
    case 2
    then have "cmp p x < 0" by (simp add: cmp_neg [of p x])
    with o(3) have "\<forall>a \<in> set (inorder l). cmp a x < 0" by (blast intro: cmp_trans)
    with 2 Node.prems(1) Node.IH(2) [OF _ o(2)] show ?thesis
      by (auto simp: ins_rep_right split: option.splits if_splits dest!: inorder_sprout_right)
  next
    case 3
    then have "cmp p x = 0" by (rule cmp_sym)
    with o(3) have "\<forall>a \<in> set (inorder l). cmp a x < 0" by (blast intro: cmp_eq_right)
    with 3 Node.prems(1) show ?thesis by (auto simp: ins_rep_right)
  qed
qed auto

lemma del_rep_absent: "\<forall>y \<in> set ys. cmp y x \<noteq> 0 \<Longrightarrow> del_rep cmp x ys = ys"
  by (induction ys) auto

lemma del_rep_append:
  "del_rep cmp x (xs @ ys) =
    (if \<exists>y \<in> set xs. cmp y x = 0 then del_rep cmp x xs @ ys else xs @ del_rep cmp x ys)"
  by (induction xs) auto

lemma inorder_delete:
  "delete cmp x uar t = Some (t', ret, g, fr) \<Longrightarrow> ordered cmp (inorder t)
    \<Longrightarrow> inorder t' = del_rep cmp x (inorder t)"
proof (induction t arbitrary: t' ret g fr)
  case (Node l p b r)
  from Node.prems(2) have o: "ordered cmp (inorder l)" "ordered cmp (inorder r)"
      "\<forall>a \<in> set (inorder l). cmp a p < 0" "\<forall>a \<in> set (inorder r). cmp p a < 0"
    by (auto simp: ordered_append)
  consider "0 < cmp p x" | "cmp p x < 0" | "cmp p x = 0" by linarith
  then show ?case
  proof cases
    case 1
    then have xp: "cmp x p < 0" by (simp add: cmp_neg [of x p])
    then have "\<forall>a \<in> set (inorder r). cmp a x \<noteq> 0"
      using o(4) cmp_trans [OF xp] cmp_sym by fastforce
    then have "del_rep cmp x (inorder (Node l p b r)) = del_rep cmp x (inorder l) @ p # inorder r"
      using 1 by (auto simp: del_rep_append del_rep_absent)
    with 1 Node.prems(1) Node.IH(1) [OF _ o(1)] show ?thesis
      by (auto simp: delete_left split: option.splits if_splits
          simp del: balanceL.simps dest!: inorder_balanceL)
  next
    case 2
    then have "\<forall>a \<in> set (inorder l). cmp a x \<noteq> 0"
      using o(3) cmp_trans [OF _ 2] by fastforce
    then have "del_rep cmp x (inorder (Node l p b r)) = inorder l @ p # del_rep cmp x (inorder r)"
      using 2 by (auto simp: del_rep_append)
    with 2 Node.prems(1) Node.IH(2) [OF _ o(2)] show ?thesis
      by (auto simp: delete_right split: option.splits if_splits
          simp del: balanceR.simps dest!: inorder_balanceR)
  next
    case 3
    then have "\<forall>a \<in> set (inorder l). cmp a x \<noteq> 0"
      using o(3) cmp_eq_right by fastforce
    then have "del_rep cmp x (inorder (Node l p b r)) = inorder l @ inorder r"
      using 3 by (auto simp: del_rep_append)
    with 3 Node.prems(1) show ?thesis
      by (auto simp: delete_root Let_def split: option.splits if_splits
          simp del: balanceL.simps dest!: inorder_balanceL inorder_del)
  qed
qed simp

lemma delete_ret:
  "delete cmp x uar t = Some (t', ret, g, fr) \<Longrightarrow> ordered cmp (inorder t)
    \<Longrightarrow> ret = (if \<exists>y \<in> set (inorder t). cmp y x = 0 then 1 else 0)
       \<and> fr = (if uar then filter (\<lambda>y. cmp y x = 0) (inorder t) else [])"
proof (induction t arbitrary: t' ret g fr)
  case (Node l p b r)
  from Node.prems(2) have o: "ordered cmp (inorder l)" "ordered cmp (inorder r)"
      "\<forall>a \<in> set (inorder l). cmp a p < 0" "\<forall>a \<in> set (inorder r). cmp p a < 0"
    by (auto simp: ordered_append)
  consider "0 < cmp p x" | "cmp p x < 0" | "cmp p x = 0" by linarith
  then show ?case
  proof cases
    case 1
    then have xp: "cmp x p < 0" by (simp add: cmp_neg [of x p])
    then have "\<forall>a \<in> set (inorder r). cmp a x \<noteq> 0"
      using o(4) cmp_trans [OF xp] cmp_sym by fastforce
    with 1 Node.prems(1) Node.IH(1) [OF _ o(1)] show ?thesis
      by (auto simp: delete_left filter_empty_conv split: option.splits if_splits simp del: balanceL.simps)
  next
    case 2
    then have "\<forall>a \<in> set (inorder l). cmp a x \<noteq> 0"
      using o(3) cmp_trans [OF _ 2] by fastforce
    with 2 Node.prems(1) Node.IH(2) [OF _ o(2)] show ?thesis
      by (auto simp: delete_right filter_empty_conv split: option.splits if_splits simp del: balanceR.simps)
  next
    case 3
    have "\<forall>a \<in> set (inorder l). cmp a x \<noteq> 0" using o(3) 3 cmp_eq_right by fastforce
    moreover have "\<forall>a \<in> set (inorder r). cmp a x \<noteq> 0"
      using o(4) cmp_eq_left [OF cmp_sym [OF 3]] cmp_sym by fastforce
    ultimately show ?thesis using 3 Node.prems(1)
      by (auto simp: delete_root Let_def filter_empty_conv split: option.splits if_splits
          simp del: balanceL.simps)
  qed
qed simp

lemma tree_srch_find:
  "ordered cmp (inorder t) \<Longrightarrow> tree_srch t cmp x = Some y \<longleftrightarrow> y \<in> set (inorder t) \<and> cmp x y = 0"
proof (induction t)
  case (Node l p b r)
  then have o: "ordered cmp (inorder l)" "ordered cmp (inorder r)"
      "\<forall>a \<in> set (inorder l). cmp a p < 0" "\<forall>a \<in> set (inorder r). cmp p a < 0"
    by (auto simp: ordered_append)
  consider "0 < cmp x p" | "cmp x p < 0" | "cmp x p = 0" by linarith
  then show ?case
  proof cases
    case 1
    then have px: "cmp p x < 0" by (simp add: cmp_neg [of p x])
    have "\<forall>a \<in> set (inorder l). cmp x a \<noteq> 0"
      using o(3) cmp_trans [OF _ px] cmp_sym by fastforce
    with 1 Node.IH(2) [OF o(2)] show ?thesis by auto
  next
    case 2
    have "\<forall>a \<in> set (inorder r). cmp x a \<noteq> 0" using o(4) cmp_trans [OF 2] by fastforce
    with 2 Node.IH(1) [OF o(1)] show ?thesis by auto
  next
    case 3
    have "\<forall>a \<in> set (inorder l). cmp x a \<noteq> 0"
      using o(3) cmp_eq_right [OF _ cmp_sym [OF 3]] cmp_sym by fastforce
    moreover have "\<forall>a \<in> set (inorder r). cmp x a \<noteq> 0"
      using o(4) cmp_eq_left [OF 3] by fastforce
    ultimately show ?thesis using 3 by auto
  qed
qed simp

lemma sprout_freed:
  "sprout cmp dl x t = Some (t', g, fr) \<Longrightarrow> ordered cmp (inorder t)
    \<Longrightarrow> fr = (if dl then filter (\<lambda>y. cmp x y = 0) (inorder t) else [])"
proof (induction t arbitrary: t' g fr)
  case (Node l p b r)
  then have o: "ordered cmp (inorder l)" "ordered cmp (inorder r)"
      "\<forall>a \<in> set (inorder l). cmp a p < 0" "\<forall>a \<in> set (inorder r). cmp p a < 0"
    by (auto simp: ordered_append)
  consider "0 < cmp x p" | "cmp x p < 0" | "cmp x p = 0" by linarith
  then show ?case
  proof cases
    case 1
    then have px: "cmp p x < 0" by (simp add: cmp_neg [of p x])
    have "\<forall>a \<in> set (inorder l). cmp x a \<noteq> 0"
      using o(3) cmp_trans [OF _ px] cmp_sym by fastforce
    with 1 Node.prems(1) Node.IH(2) [OF _ o(2)] show ?thesis
      by (auto simp: filter_empty_conv split: option.splits if_splits)
  next
    case 2
    have "\<forall>a \<in> set (inorder r). cmp x a \<noteq> 0" using o(4) cmp_trans [OF 2] by fastforce
    with 2 Node.prems(1) Node.IH(1) [OF _ o(1)] show ?thesis
      by (auto simp: filter_empty_conv split: option.splits if_splits)
  next
    case 3
    have "\<forall>a \<in> set (inorder l). cmp x a \<noteq> 0"
      using o(3) cmp_eq_right [OF _ cmp_sym [OF 3]] cmp_sym by fastforce
    moreover have "\<forall>a \<in> set (inorder r). cmp x a \<noteq> 0"
      using o(4) cmp_eq_left [OF 3] by fastforce
    ultimately show ?thesis using 3 Node.prems(1) by (auto simp: filter_empty_conv)
  qed
qed auto

lemma set_ins_rep:
  "ordered cmp xs \<Longrightarrow> set (ins_rep cmp x xs) = insert x {y \<in> set xs. cmp x y \<noteq> 0}"
proof (induction xs)
  case (Cons y ys)
  then have "\<forall>z \<in> set ys. cmp y z < 0" by simp
  then have "cmp x y < 0 \<or> cmp x y = 0 \<Longrightarrow> \<forall>z \<in> set ys. cmp x z \<noteq> 0"
    using cmp_trans [of x y] cmp_eq_left [of x y] by fastforce
  with Cons show ?case by auto
qed simp

lemma ordered_ins_rep: "ordered cmp xs \<Longrightarrow> ordered cmp (ins_rep cmp x xs)"
proof (induction xs)
  case (Cons y ys)
  then have "\<forall>z \<in> set ys. cmp y z < 0" by simp
  then have "cmp x y < 0 \<or> cmp x y = 0 \<Longrightarrow> \<forall>z \<in> set ys. cmp x z < 0"
    using cmp_trans [of x y] cmp_eq_left [of x y] by blast
  with Cons show ?case by (auto simp: set_ins_rep cmp_neg [of y x])
qed simp

lemma set_del_rep:
  "ordered cmp xs \<Longrightarrow> set (del_rep cmp x xs) = {y \<in> set xs. cmp y x \<noteq> 0}"
proof (induction xs)
  case (Cons y ys)
  then have y: "\<forall>z \<in> set ys. cmp y z < 0" by simp
  have "cmp y x = 0 \<Longrightarrow> \<forall>z \<in> set ys. cmp z x \<noteq> 0"
    using y cmp_eq_left [of x y] cmp_sym by fastforce
  with Cons show ?case by auto
qed simp

lemma ordered_del_rep: "ordered cmp xs \<Longrightarrow> ordered cmp (del_rep cmp x xs)"
  by (induction xs) (auto simp: set_del_rep)

lemma tree_add_spec:
  assumes "tree_ok cmp t"
  shows "\<exists>t' fr. tree_add cmp dl x t = Some (t', fr) \<and> tree_ok cmp t'
    \<and> set (inorder t') = insert x {y \<in> set (inorder t). cmp x y \<noteq> 0}
    \<and> fr = (if dl then filter (\<lambda>y. cmp x y = 0) (inorder t) else [])"
proof -
  from assms have a: "avl t" and o: "ordered cmp (inorder t)" by (auto simp: tree_ok_def)
  from sprout_grown [OF a, of cmp dl x] obtain t' g fr where
    s: "sprout cmp dl x t = Some (t', g, fr)" "grown t t' g" by blast
  with o show ?thesis
    by (simp add: tree_add_def tree_ok_def grown_def inorder_sprout [OF s(1) o]
        sprout_freed [OF s(1) o] set_ins_rep ordered_ins_rep)
qed

lemma tree_delete_spec:
  assumes "tree_ok cmp t"
  shows "\<exists>t' ret fr. tree_delete cmp x uar t = Some (t', ret, fr) \<and> tree_ok cmp t'
    \<and> set (inorder t') = {y \<in> set (inorder t). cmp y x \<noteq> 0}
    \<and> ret = (if \<exists>y \<in> set (inorder t). cmp y x = 0 then 1 else 0)
    \<and> fr = (if uar then filter (\<lambda>y. cmp y x = 0) (inorder t) else [])"
proof -
  from assms have a: "avl t" and o: "ordered cmp (inorder t)" by (auto simp: tree_ok_def)
  from delete_shrunk [OF a, of cmp x uar] obtain t' ret g fr where
    s: "delete cmp x uar t = Some (t', ret, g, fr)" "shrunk t t' g" by blast
  with o delete_ret [OF s(1) o] show ?thesis
    by (simp add: tree_delete_def tree_ok_def shrunk_def inorder_delete [OF s(1) o]
        set_del_rep ordered_del_rep)
qed

end

section \<open>Height\<close>

lemma two_pow_half: "1 \<le> n \<Longrightarrow> (2::nat) * 2 ^ ((n - 1) div 2) \<ge> 2 ^ (Suc n div 2)"
proof -
  assume "1 \<le> n"
  then have "Suc n div 2 = Suc ((n - 1) div 2)" by presburger
  then show ?thesis by simp
qed

lemma avl_size: "avl t \<Longrightarrow> 2 ^ (height t div 2) \<le> Suc (length (inorder t))"
proof (induction t)
  case (Node l p b r)
  let ?h = "max (height l) (height r)" and ?k = "\<lambda>n. (2::nat) ^ (n div 2)"
  from Node have l: "?k (height l) \<le> Suc (length (inorder l))"
    and r: "?k (height r) \<le> Suc (length (inorder r))" by auto
  show ?case
  proof (cases "?h = 0")
    case True
    then show ?thesis by simp
  next
    case False
    have "?h - 1 \<le> height l \<and> ?h - 1 \<le> height r" using Node.prems by auto
    then have "(?h - 1) div 2 \<le> height l div 2 \<and> (?h - 1) div 2 \<le> height r div 2"
      by (auto intro: div_le_mono)
    then have "?k (?h - 1) \<le> ?k (height l)" "?k (?h - 1) \<le> ?k (height r)"
      by (auto intro: power_increasing)
    then have "2 * ?k (?h - 1) \<le> Suc (length (inorder l)) + Suc (length (inorder r))"
      using l r by linarith
    moreover have "?k (Suc ?h) \<le> 2 * ?k (?h - 1)" using False by (intro two_pow_half) linarith
    ultimately have "?k (Suc ?h) \<le> Suc (length (inorder l)) + Suc (length (inorder r))"
      by (rule order_trans [rotated])
    then show ?thesis by simp
  qed
qed simp

section \<open>The interface of a keyed index\<close>

text \<open>
  What a client such as the table of user ids relies on: a collection of entries, no two of which
  compare equal, with lookup, insertion (which replaces an equal entry) and removal.
\<close>

locale key_index =
  fixes cmp :: "'a \<Rightarrow> 'a \<Rightarrow> int"
    and ok :: "'t \<Rightarrow> bool"
    and entries :: "'t \<Rightarrow> 'a set"
    and srch :: "'t \<Rightarrow> 'a \<Rightarrow> 'a option"
    and add :: "'a \<Rightarrow> 't \<Rightarrow> 't option"
    and rem :: "'a \<Rightarrow> 't \<Rightarrow> 't option"
  assumes srch_iff: "ok t \<Longrightarrow> srch t x = Some y \<longleftrightarrow> y \<in> entries t \<and> cmp x y = 0"
    and add_ok: "ok t \<Longrightarrow> \<exists>t'. add x t = Some t' \<and> ok t' \<and> entries t' = insert x {y \<in> entries t. cmp x y \<noteq> 0}"
    and rem_ok: "ok t \<Longrightarrow> \<exists>t'. rem x t = Some t' \<and> ok t' \<and> entries t' = {y \<in> entries t. cmp y x \<noteq> 0}"
begin

lemma srch_None: "ok t \<Longrightarrow> srch t x = None \<longleftrightarrow> (\<forall>y \<in> entries t. cmp x y \<noteq> 0)"
  using srch_iff [of t x] by (cases "srch t x") auto

lemma add_fresh:
  assumes "ok t" and "srch t x = None"
  shows "\<exists>t'. add x t = Some t' \<and> ok t' \<and> entries t' = insert x (entries t)"
  using add_ok [OF assms(1), of x] assms srch_None by fastforce

end

sublocale comparator \<subseteq> tr: key_index cmp "tree_ok cmp" "\<lambda>t. set (inorder t)" "\<lambda>t. tree_srch t cmp"
  "\<lambda>x t. map_option fst (tree_add cmp False x t)" "\<lambda>x t. map_option fst (tree_delete cmp x False t)"
proof (unfold_locales, goal_cases)
  case (1 t x y)
  then show ?case by (simp add: tree_ok_def tree_srch_find)
next
  case (2 t x)
  from tree_add_spec [OF this, of False x] show ?case by fastforce
next
  case (3 t x)
  from tree_delete_spec [OF this, of x False] show ?case by fastforce
qed

section \<open>Traversal\<close>

lemma tree_trav_visits:
  "tree_trav t f = (list_all f (inorder t),
     takeWhile f (inorder t) @ take 1 (dropWhile f (inorder t)))"
proof (induction t)
  case (Node l p b r)
  show ?case
  proof (cases "list_all f (inorder l)")
    case True
    then have "takeWhile f (inorder l @ zs) = inorder l @ takeWhile f zs"
      "dropWhile f (inorder l @ zs) = dropWhile f zs" for zs
      by (auto simp: list_all_iff takeWhile_append dropWhile_append)
    moreover have "takeWhile f (inorder l) = inorder l" "dropWhile f (inorder l) = []"
      using True by (auto simp: list_all_iff takeWhile_eq_all_conv dropWhile_eq_Nil_conv)
    ultimately show ?thesis using True Node by (auto simp: Let_def)
  next
    case False
    then obtain z where "z \<in> set (inorder l)" "\<not> f z" by (auto simp: list_all_iff)
    then have "takeWhile f (inorder l @ zs) = takeWhile f (inorder l)"
      "dropWhile f (inorder l @ zs) = dropWhile f (inorder l) @ zs" for zs
      by (auto simp: takeWhile_append dropWhile_append)
    moreover obtain y ys where "dropWhile f (inorder l) = y # ys"
      using False by (cases "dropWhile f (inorder l)") (auto simp: list_all_iff dropWhile_eq_Nil_conv)
    ultimately show ?thesis using False Node by (auto simp: Let_def)
  qed
qed simp

fun postorder :: "'a tree \<Rightarrow> 'a list" where
  "postorder Null = []"
| "postorder (Node l p b r) = postorder l @ postorder r @ [p]"

lemma tree_mung_frees: "tree_mung t uar = (Null, if uar then postorder t else [])"
  by (induction t) (auto simp: Let_def)

section \<open>Properties\<close>

text \<open>C1. \<open>tree_add\<close> on a balanced, ordered tree never follows a \<open>NULL\<close> branch, keeps the
  tree balanced and ordered, leaves exactly the old entries that do not compare equal to the new
  one plus the new one, and hands the replaced entry (if any) to the deletion callback.\<close>

theorem tree_add_correct:
  assumes "comparator cmp" and "tree_ok cmp t"
  shows "\<exists>t' fr. tree_add cmp dl x t = Some (t', fr) \<and> tree_ok cmp t'
    \<and> set (inorder t') = insert x {y \<in> set (inorder t). cmp x y \<noteq> 0}
    \<and> fr = (if dl then filter (\<lambda>y. cmp x y = 0) (inorder t) else [])"
  using assms by (rule comparator.tree_add_spec)


text \<open>The trees stay shallow: a balanced tree of height h holds at least 2^(h/2) - 1 entries, so
  search, insertion and deletion recurse at most about twice the logarithm of the number of
  entries; and the search finds an entry exactly when one compares equal to the key.\<close>

theorem tree_srch_correct:
  assumes "comparator cmp" and "tree_ok cmp t"
  shows "(tree_srch t cmp x = Some y \<longleftrightarrow> y \<in> set (inorder t) \<and> cmp x y = 0)
    \<and> 2 ^ (height t div 2) \<le> Suc (length (inorder t))"
  using assms by (simp add: tree_ok_def comparator.tree_srch_find avl_size)

text \<open>The integers under subtraction are a comparator; a tree of five entries for the witnesses.\<close>

interpretation int_cmp: comparator "\<lambda>x y. x - y :: int"
  by unfold_locales auto

definition sample_tree :: "int tree" where
  "sample_tree = Node (Node Null 2 0 Null) 5 1 (Node (Node Null 7 0 Null) 8 0 (Node Null 9 0 Null))"

lemma sample_tree_ok: "tree_ok (\<lambda>x y. x - y) sample_tree"
  by (simp add: tree_ok_def sample_tree_def)

theorem tree_add_correct_witness:
  "\<exists>t' fr. tree_add (\<lambda>x y. x - y) True 6 sample_tree = Some (t', fr) \<and> tree_ok (\<lambda>x y. x - y) t' \<and> fr = []"
  using tree_add_correct [OF int_cmp.comparator_axioms sample_tree_ok, of True 6]
  by (auto simp: sample_tree_def)


theorem tree_srch_correct_witness:
  "tree_srch sample_tree (\<lambda>x y. x - y) 8 = Some 8"
  using tree_srch_correct [OF int_cmp.comparator_axioms sample_tree_ok, of 8 8]
  by (auto simp: sample_tree_def)

end
