(* ===== verification/Hash_Function.thy ===== *)
theory Hash_Function
  imports Prelude
begin

text \<open>
  The string hash functions of \<open>hash.c\<close>. A C string is the list of its characters before
  the terminating zero byte; a character is used as an unsigned byte.
\<close>

unbundle bit_operations_syntax

type_synonym byte = "8 word"

definition byte_of :: "char \<Rightarrow> byte" where
  "byte_of c = of_char c"

definition hash_T :: "byte list" where
  "hash_T = [
    1, 87, 49, 12, 176, 178, 102, 166, 121, 193, 6, 84, 249, 230, 44, 163,
    14, 197, 213, 181, 161, 85, 218, 80, 64, 239, 24, 226, 236, 142, 38, 200,
    110, 177, 104, 103, 141, 253, 255, 50, 77, 101, 81, 18, 45, 96, 31, 222,
    25, 107, 190, 70, 86, 237, 240, 34, 72, 242, 20, 214, 244, 227, 149, 235,
    97, 234, 57, 22, 60, 250, 82, 175, 208, 5, 127, 199, 111, 62, 135, 248,
    174, 169, 211, 58, 66, 154, 106, 195, 245, 171, 17, 187, 182, 179, 0, 243,
    132, 56, 148, 75, 128, 133, 158, 100, 130, 126, 91, 13, 153, 246, 216, 219,
    119, 68, 223, 78, 83, 88, 201, 99, 122, 11, 92, 32, 136, 114, 52, 10,
    138, 30, 48, 183, 156, 35, 61, 26, 143, 74, 251, 94, 129, 162, 63, 152,
    170, 7, 115, 167, 241, 206, 3, 150, 55, 59, 151, 220, 90, 53, 23, 131,
    125, 173, 15, 238, 79, 95, 89, 16, 105, 137, 225, 224, 217, 160, 37, 123,
    118, 73, 2, 157, 46, 116, 9, 145, 134, 228, 207, 212, 202, 215, 69, 229,
    27, 188, 67, 124, 168, 252, 42, 4, 29, 108, 21, 247, 19, 205, 39, 203,
    233, 40, 186, 147, 198, 192, 155, 33, 164, 191, 98, 204, 165, 180, 117, 76,
    140, 36, 210, 172, 41, 54, 159, 8, 185, 232, 113, 196, 231, 47, 146, 120,
    51, 65, 28, 144, 254, 221, 93, 189, 194, 139, 112, 43, 71, 109, 184, 209]"

text \<open>\<open>hashstr\<close> walks with \<open>p\<close> from the second character on while \<open>p <= s + maxn\<close>;
  \<open>i\<close> is the offset of \<open>p\<close> from \<open>s\<close>.\<close>

fun hashstr_loop :: "byte \<Rightarrow> string \<Rightarrow> int \<Rightarrow> int \<Rightarrow> byte" where
  "hashstr_loop h [] i maxn = h"
| "hashstr_loop h (c # p) i maxn =
     (if i \<le> maxn then hashstr_loop (hash_T ! unat (h XOR byte_of c)) p (i + 1) maxn else h)"

definition hashstr :: "string \<Rightarrow> int \<Rightarrow> nat \<Rightarrow> nat" where
  "hashstr s maxn hashs =
     (case s of
        [] \<Rightarrow> 0
      | c # p \<Rightarrow>
          (if 256 < hashs then
             (let oh = hashstr_loop (hash_T ! unat (byte_of c)) p 1 maxn;
                  h = hashstr_loop (byte_of c) p 1 maxn
              in (unat h OR (push_bit 8 (unat oh))) mod hashs)
           else unat (hashstr_loop (byte_of c) p 1 maxn) mod hashs))"

text \<open>\<open>whashstr\<close>: the loop \<open>for (i = maxn - 1; *p && --i >= 0;)\<close>.\<close>

fun whashstr_loop :: "byte \<Rightarrow> byte \<Rightarrow> string \<Rightarrow> int \<Rightarrow> byte \<times> byte" where
  "whashstr_loop oh h [] i = (oh, h)"
| "whashstr_loop oh h (c # p) i =
     (if 0 \<le> i - 1 then
        whashstr_loop (hash_T ! unat (oh XOR byte_of c)) (hash_T ! unat (h XOR byte_of c)) p (i - 1)
      else (oh, h))"

definition whashstr :: "string \<Rightarrow> int \<Rightarrow> nat" where
  "whashstr s maxn =
     (case s of
        [] \<Rightarrow> 0
      | c # p \<Rightarrow>
          (let (oh, h) = whashstr_loop (hash_T ! unat (byte_of c)) (byte_of c + 1) p (maxn - 1)
           in push_bit 8 (unat oh) + unat h))"

section \<open>Range and locality\<close>

lemma length_hash_T: "length hash_T = 256"
  by (simp add: hash_T_def)

lemma hash_T_permutation: "set hash_T = UNIV"
proof -
  have "remdups (map unat hash_T) = map unat hash_T" by (simp add: hash_T_def)
  then have "distinct (map unat hash_T)" by (metis distinct_remdups)
  then have "card (set hash_T) = 256"
    by (simp add: distinct_map distinct_card length_hash_T)
  then show ?thesis by (intro card_subset_eq) (auto simp: card_word)
qed

lemma whashstr_bound: "whashstr s maxn < 65536"
proof (cases s)
  case (Cons c p)
  obtain oh h where "whashstr_loop (hash_T ! unat (byte_of c)) (byte_of c + 1) p (maxn - 1) = (oh, h)"
    by fastforce
  then have "whashstr s maxn = unat oh * 256 + unat h"
    using Cons by (simp add: whashstr_def push_bit_eq_mult)
  moreover have "unat oh < 256" "unat h < 256"
    by (rule order_less_le_trans [OF unsigned_less], simp)+
  ultimately show ?thesis by linarith
qed (simp add: whashstr_def)

lemma whashstr_loop_take:
  "whashstr_loop oh h p i = whashstr_loop oh h (take (nat i) p) i"
proof (induction oh h p i rule: whashstr_loop.induct)
  case (2 oh h c p i)
  then show ?case by (cases "nat i") (auto simp: nat_diff_distrib' split: if_splits)
qed simp

lemma whashstr_prefix:
  assumes "1 \<le> maxn"
  shows "whashstr s maxn = whashstr (take (nat maxn) s) maxn"
proof (cases s)
  case (Cons c p)
  from assms obtain n where n: "nat maxn = Suc n" by (cases "nat maxn") auto
  then have "nat (maxn - 1) = n" by linarith
  with whashstr_loop_take [of _ _ p "maxn - 1"] show ?thesis
    by (simp add: whashstr_def Cons n)
qed simp

lemma hashstr_loop_take:
  "hashstr_loop h p i maxn = hashstr_loop h (take (nat (maxn + 1 - i)) p) i maxn"
proof (induction h p i maxn rule: hashstr_loop.induct)
  case (2 h c p i maxn)
  show ?case
  proof (cases "i \<le> maxn")
    case True
    then have "nat (maxn + 1 - i) = Suc (nat (maxn + 1 - (i + 1)))" by linarith
    with 2 True show ?thesis by simp
  qed simp
qed simp

lemma hashstr_prefix:
  assumes "0 \<le> maxn"
  shows "hashstr s maxn n = hashstr (take (nat maxn + 1) s) maxn n"
proof (cases s)
  case (Cons c p)
  have "nat (maxn + 1 - 1) = nat maxn" by simp
  with hashstr_loop_take [of _ p 1 maxn] show ?thesis by (simp add: hashstr_def Cons Let_def)
qed simp

text \<open>\<open>whashstr\<close> looks at no more than its first \<open>maxn\<close> characters, \<open>hashstr\<close> at one
  more than that (its comment says \<open>maxn\<close>), and the results are below 65536 and the table
  size.\<close>

theorem string_hash_window:
  "whashstr s (int (Suc n)) = whashstr (take (Suc n) s) (int (Suc n))
   \<and> hashstr s (int n) (Suc k) = hashstr (take (Suc n) s) (int n) (Suc k)
   \<and> whashstr s i < 65536 \<and> hashstr s i (Suc k) < Suc k
   \<and> hashstr ''ab'' 1 256 \<noteq> hashstr ''ac'' 1 256"
proof -
  have "hashstr s i (Suc k) < Suc k" by (cases s) (simp_all add: hashstr_def Let_def)
  moreover have "hashstr ''ab'' 1 256 \<noteq> hashstr ''ac'' 1 256" by code_simp
  moreover have "nat (int (Suc n)) = Suc n" by (rule nat_int)
  ultimately show ?thesis
    using whashstr_prefix [of "int (Suc n)" s] hashstr_prefix [of "int n" s "Suc k"] whashstr_bound [of s i]
    by (simp del: of_nat_Suc)
qed

end
