(* ===== verification/String_Table.thy ===== *)
theory String_Table
  imports Hash_Function
begin

text \<open>
  The shared string table of \<open>stralloc.c\<close>. A block of memory is known by its address, so
  \<open>blocks\<close> is the heap of \<open>block_t\<close> headers with the string stored behind each, and
  \<open>base_table\<close> holds, for every hash value, the addresses of the chain that \<open>next\<close> links.
  A \<open>char *\<close> that points to a shared string is the address of its block. The address that
  \<open>DXALLOC\<close> returns is an argument of the allocating operations. \<open>None\<close> is an access to
  a block that is not allocated. Reference counts and sizes have 16 bits, as in the code, and the
  statistics are those of \<open>STRING_STATS\<close>, which \<open>options.h\<close> defines.
\<close>

section \<open>State\<close>

type_synonym addr = nat

record block =
  str :: string
  size :: "16 word"
  refs :: "16 word"

record strtab =
  base_table :: "addr list list"
  htable_size :: nat
  blocks :: "addr \<rightharpoonup> block"
  num_distinct_strings :: int
  bytes_distinct_strings :: int
  overhead_bytes :: int
  allocd_strings :: int
  allocd_bytes :: int
  search_len :: int
  num_str_searches :: int

definition USHRT_MAX :: nat where
  "USHRT_MAX = 65535"

text \<open>Sizes in bytes of a pointer and of the two headers on the 32 bit machine.\<close>

definition sizeof_ptr :: int where "sizeof_ptr = 4"
definition sizeof_block_t :: int where "sizeof_block_t = 8"
definition sizeof_malloc_block_t :: int where "sizeof_malloc_block_t = 4"

text \<open>The counters, as the macros of \<open>stralloc.h\<close> update them.\<close>

definition ADD_NEW_STRING :: "int \<Rightarrow> int \<Rightarrow> strtab \<Rightarrow> strtab" where
  "ADD_NEW_STRING len overhead st = st\<lparr>
     num_distinct_strings := num_distinct_strings st + 1,
     bytes_distinct_strings := bytes_distinct_strings st + len + 1,
     overhead_bytes := overhead_bytes st + overhead\<rparr>"

definition SUB_NEW_STRING :: "int \<Rightarrow> int \<Rightarrow> strtab \<Rightarrow> strtab" where
  "SUB_NEW_STRING len overhead st = st\<lparr>
     num_distinct_strings := num_distinct_strings st - 1,
     bytes_distinct_strings := bytes_distinct_strings st - (len + 1),
     overhead_bytes := overhead_bytes st - overhead\<rparr>"

definition ADD_STRING :: "int \<Rightarrow> strtab \<Rightarrow> strtab" where
  "ADD_STRING len st = st\<lparr>
     allocd_strings := allocd_strings st + 1,
     allocd_bytes := allocd_bytes st + len + 1\<rparr>"

definition SUB_STRING :: "int \<Rightarrow> strtab \<Rightarrow> strtab" where
  "SUB_STRING len st = st\<lparr>
     allocd_strings := allocd_strings st - 1,
     allocd_bytes := allocd_bytes st - (len + 1)\<rparr>"

lemmas stat_defs = ADD_NEW_STRING_def SUB_NEW_STRING_def ADD_STRING_def SUB_STRING_def

section \<open>Operations\<close>

definition init_strings :: "nat \<Rightarrow> strtab" where
  "init_strings HTABLE_SIZE =
     (let n = pow2_loop HTABLE_SIZE 0 in
      \<lparr>base_table = replicate n [], htable_size = n, blocks = Map.empty,
       num_distinct_strings = 0, bytes_distinct_strings = 0,
       overhead_bytes = sizeof_ptr * int n,
       allocd_strings = 0, allocd_bytes = 0, search_len = 0, num_str_searches = 0\<rparr>)"

definition StrHash :: "strtab \<Rightarrow> string \<Rightarrow> nat" where
  "StrHash st s = whashstr s 20 AND (htable_size st - 1)"

definition block_is :: "strtab \<Rightarrow> string \<Rightarrow> addr \<Rightarrow> bool" where
  "block_is st s a = (case blocks st a of Some b \<Rightarrow> str b = s | None \<Rightarrow> False)"

text \<open>\<open>sfindblock\<close> also counts the search and the blocks it has inspected.\<close>

definition sfindblock :: "string \<Rightarrow> nat \<Rightarrow> strtab \<Rightarrow> addr option \<times> strtab" where
  "sfindblock s h st =
     (let chain = base_table st ! h;
          (res, chain') = chain_find (block_is st s) [] chain;
          inspected = (case res of None \<Rightarrow> length chain
                       | Some a \<Rightarrow> Suc (length (takeWhile (\<lambda>c. \<not> block_is st s c) chain)))
      in (res, st\<lparr>base_table := (base_table st)[h := chain'],
                  num_str_searches := num_str_searches st + 1,
                  search_len := search_len st + int inspected\<rparr>))"

definition findstring :: "string \<Rightarrow> strtab \<Rightarrow> addr option \<times> strtab" where
  "findstring s st = sfindblock s (StrHash st s) st"

text \<open>
  \<open>a\<close> is the address of the new block. The length is cut at \<open>max_string_length\<close>; the
  header field saturates at \<open>USHRT_MAX\<close>.
\<close>

definition alloc_new_string :: "nat \<Rightarrow> string \<Rightarrow> nat \<Rightarrow> addr \<Rightarrow> strtab \<Rightarrow> strtab" where
  "alloc_new_string max_string_length string h a st =
     (let len = length string;
          len = (if len > max_string_length then max_string_length else len);
          sz = (if len > USHRT_MAX then USHRT_MAX else len);
          b = \<lparr>str = take len string, size = of_nat sz, refs = 1\<rparr>
      in ADD_STRING (int sz) (ADD_NEW_STRING (int sz) sizeof_block_t
           (st\<lparr>blocks := (blocks st)(a \<mapsto> b),
               base_table := (base_table st)[h := a # base_table st ! h]\<rparr>)))"

definition make_shared_string :: "nat \<Rightarrow> addr \<Rightarrow> string \<Rightarrow> strtab \<Rightarrow> addr \<times> strtab" where
  "make_shared_string max_string_length a s st =
     (let h = StrHash st s;
          (res, st') = sfindblock s h st
      in case res of
           None \<Rightarrow> (a, alloc_new_string max_string_length s h a st')
         | Some p \<Rightarrow>
             (case blocks st' p of
                None \<Rightarrow> (p, st')
              | Some b \<Rightarrow>
                  (let b' = (if refs b \<noteq> 0 then b\<lparr>refs := refs b + 1\<rparr> else b)
                   in (p, ADD_STRING (uint (size b)) (st'\<lparr>blocks := (blocks st')(p \<mapsto> b')\<rparr>)))))"

definition ref_string :: "addr \<Rightarrow> strtab \<Rightarrow> strtab option" where
  "ref_string p st =
     (case blocks st p of
        None \<Rightarrow> None
      | Some b \<Rightarrow>
          (let b' = (if refs b \<noteq> 0 then b\<lparr>refs := refs b + 1\<rparr> else b)
           in Some (ADD_STRING (uint (size b)) (st\<lparr>blocks := (blocks st)(p \<mapsto> b')\<rparr>))))"

text \<open>The walk that unhooks a block, by its address, from its chain.\<close>

fun unhook :: "addr \<Rightarrow> addr list \<Rightarrow> addr list option" where
  "unhook p [] = None"
| "unhook p (b # next) = (if b = p then Some next else map_option (Cons b) (unhook p next))"

definition free_string :: "addr \<Rightarrow> strtab \<Rightarrow> strtab option" where
  "free_string p st =
     (case blocks st p of
        None \<Rightarrow> None
      | Some b \<Rightarrow>
          if refs b = 0 then Some st
          else
            (let st1 = SUB_STRING (uint (size b))
                   (st\<lparr>blocks := (blocks st)(p \<mapsto> b\<lparr>refs := refs b - 1\<rparr>)\<rparr>)
             in if refs b - 1 \<noteq> 0 then Some st1
                else (let h = StrHash st (str b) in
                   case unhook p (base_table st1 ! h) of
                     None \<Rightarrow> None
                   | Some chain \<Rightarrow>
                       Some (SUB_NEW_STRING (uint (size b)) sizeof_block_t
                         (st1\<lparr>base_table := (base_table st1)[h := chain],
                              blocks := (blocks st1)(p := None)\<rparr>)))))"

definition deallocate_string :: "addr \<Rightarrow> strtab \<Rightarrow> strtab option" where
  "deallocate_string p st =
     (case blocks st p of
        None \<Rightarrow> None
      | Some b \<Rightarrow>
          (let h = StrHash st (str b) in
           case unhook p (base_table st ! h) of
             None \<Rightarrow> None
           | Some chain \<Rightarrow>
               Some (st\<lparr>base_table := (base_table st)[h := chain],
                        blocks := (blocks st)(p := None)\<rparr>)))"

section \<open>Malloced strings\<close>

text \<open>
  The header of a string that is counted but not shared; it lies at the same place as the last two
  fields of a shared string's header, so the \<open>COUNTED\<close> macros read both.
\<close>

record malloc_block =
  msize :: "16 word"
  mref :: "16 word"

definition int_new_string :: "nat \<Rightarrow> strtab \<Rightarrow> malloc_block \<times> strtab" where
  "int_new_string n st =
     (let sz = (if n < USHRT_MAX then n else USHRT_MAX)
      in (\<lparr>msize = of_nat sz, mref = 1\<rparr>,
          ADD_STRING (int sz) (ADD_NEW_STRING (int sz) sizeof_malloc_block_t st)))"

definition extend_string :: "malloc_block \<Rightarrow> nat \<Rightarrow> strtab \<Rightarrow> malloc_block \<times> strtab" where
  "extend_string mbt len st =
     (let oldsize = uint (msize mbt);
          sz = (if len < USHRT_MAX then len else USHRT_MAX);
          d = int sz - oldsize
      in (mbt\<lparr>msize := of_nat sz\<rparr>,
          st\<lparr>allocd_bytes := allocd_bytes st + d,
             bytes_distinct_strings := bytes_distinct_strings st + d\<rparr>))"

definition COUNTED_STRLEN :: "16 word \<Rightarrow> string \<Rightarrow> nat" where
  "COUNTED_STRLEN sz x = (if unat sz \<noteq> USHRT_MAX then unat sz else length (drop USHRT_MAX x) + USHRT_MAX)"

definition INC_COUNTED_REF :: "16 word \<Rightarrow> 16 word" where
  "INC_COUNTED_REF r = (if r \<noteq> 0 then r + 1 else r)"

text \<open>The new count and whether the block should be deallocated.\<close>

definition DEC_COUNTED_REF :: "16 word \<Rightarrow> 16 word \<times> bool" where
  "DEC_COUNTED_REF r = (if r = 0 then (r, False) else (r - 1, \<not> 0 < r - 1))"

section \<open>The invariant of the table\<close>

definition text_of :: "strtab \<Rightarrow> addr \<Rightarrow> string option" where
  "text_of st a = map_option str (blocks st a)"

definition hash_of :: "strtab \<Rightarrow> addr \<Rightarrow> nat" where
  "hash_of st a = (case blocks st a of Some b \<Rightarrow> StrHash st (str b) | None \<Rightarrow> 0)"

text \<open>
  The size is a power of two; every allocated block is in the chain of its string's hash value,
  once; and no two blocks hold the same string.
\<close>

definition table_ok :: "strtab \<Rightarrow> bool" where
  "table_ok st \<longleftrightarrow>
     (\<exists>k. htable_size st = 2 ^ k) \<and> length (base_table st) = htable_size st
     \<and> buckets_ok (hash_of st) (dom (blocks st)) (base_table st)
     \<and> (\<forall>a b s. text_of st a = Some s \<and> text_of st b = Some s \<longrightarrow> a = b)"

lemma StrHash_cong: "htable_size st' = htable_size st \<Longrightarrow> StrHash st' = StrHash st"
  by (simp add: StrHash_def fun_eq_iff)

lemma StrHash_less: "table_ok st \<Longrightarrow> StrHash st s < length (base_table st)"
  by (auto simp: table_ok_def StrHash_def)

lemma StrHash_stats [simp]:
  "StrHash (ADD_STRING l st) = StrHash st" "StrHash (SUB_STRING l st) = StrHash st"
  "StrHash (ADD_NEW_STRING l v st) = StrHash st" "StrHash (SUB_NEW_STRING l v st) = StrHash st"
  "StrHash (st\<lparr>base_table := t\<rparr>) = StrHash st" "StrHash (st\<lparr>blocks := bl\<rparr>) = StrHash st"
  "StrHash (st\<lparr>search_len := i\<rparr>) = StrHash st" "StrHash (st\<lparr>num_str_searches := i\<rparr>) = StrHash st"
  by (simp_all add: StrHash_def fun_eq_iff stat_defs)

lemma init_strings_ok: "table_ok (init_strings n)"
proof -
  obtain k where "pow2_loop n 0 = 2 ^ k" using pow2_loop_result [of 0 n] by blast
  then show ?thesis
    by (auto simp: init_strings_def table_ok_def Let_def text_of_def intro: buckets)
qed

text \<open>What the statistics macros leave alone.\<close>

lemma stats_frame [simp]:
  "base_table (ADD_STRING l st) = base_table st" "base_table (SUB_STRING l st) = base_table st"
  "base_table (ADD_NEW_STRING l v st) = base_table st" "base_table (SUB_NEW_STRING l v st) = base_table st"
  "blocks (ADD_STRING l st) = blocks st" "blocks (SUB_STRING l st) = blocks st"
  "blocks (ADD_NEW_STRING l v st) = blocks st" "blocks (SUB_NEW_STRING l v st) = blocks st"
  "htable_size (ADD_STRING l st) = htable_size st" "htable_size (SUB_STRING l st) = htable_size st"
  "htable_size (ADD_NEW_STRING l v st) = htable_size st" "htable_size (SUB_NEW_STRING l v st) = htable_size st"
  by (simp_all add: stat_defs)

text \<open>The invariant only reads the table, its size and the strings of the blocks.\<close>

lemma table_ok_cong:
  assumes "base_table st' = base_table st" "htable_size st' = htable_size st"
    "\<And>a. map_option str (blocks st' a) = map_option str (blocks st a)"
  shows "table_ok st' \<longleftrightarrow> table_ok st"
proof -
  have "blocks st' a = None \<longleftrightarrow> blocks st a = None" for a
    using assms(3) [of a] by (cases "blocks st' a"; cases "blocks st a") auto
  then have "dom (blocks st') = dom (blocks st)" by (auto simp: dom_def)
  moreover have "hash_of st' a = hash_of st a" for a
    using assms(3) [of a] by (auto simp: hash_of_def StrHash_def assms(2) split: option.splits)
  then have "hash_of st' = hash_of st" by blast
  moreover have "text_of st' = text_of st" using assms(3) by (simp add: text_of_def fun_eq_iff)
  ultimately show ?thesis by (simp add: table_ok_def assms(1,2))
qed

lemma block_is_iff: "block_is st s a \<longleftrightarrow> text_of st a = Some s"
  by (auto simp: block_is_def text_of_def split: option.splits)

text \<open>Searching finds the block of the string, if there is one, and keeps the invariant.\<close>

lemma sfindblock_result:
  assumes "table_ok st"
  shows "fst (sfindblock s (StrHash st s) st) = Some a \<longleftrightarrow> text_of st a = Some s"
proof -
  let ?c = "base_table st ! StrHash st s"
  have b: "set ?c = {a \<in> dom (blocks st). hash_of st a = StrHash st s}"
    using buckets_okD(2) [of "hash_of st"] assms StrHash_less [OF assms, of s] by (auto simp: table_ok_def)
  have u: "text_of st a = Some s \<Longrightarrow> text_of st b = Some s \<Longrightarrow> a = b" for a b
    using assms by (auto simp: table_ok_def)
  have r: "fst (sfindblock s (StrHash st s) st) = find (block_is st s) ?c"
    by (simp add: sfindblock_def Let_def chain_find_result case_prod_beta)
  show ?thesis
  proof
    assume "text_of st a = Some s"
    then have "a \<in> set ?c" "block_is st s a" by (auto simp: b text_of_def hash_of_def block_is_def)
    then obtain a' where "find (block_is st s) ?c = Some a'" by (metis find_None_iff2 not_None_eq)
    with u \<open>text_of st a = Some s\<close> show "fst (sfindblock s (StrHash st s) st) = Some a"
      by (auto simp: r block_is_iff dest: find_Some_D)
  next
    assume "fst (sfindblock s (StrHash st s) st) = Some a"
    then show "text_of st a = Some s" by (auto simp: r block_is_iff dest: find_Some_D)
  qed
qed

lemma sfindblock_frame:
  "blocks (snd (sfindblock s h st)) = blocks st"
  "htable_size (snd (sfindblock s h st)) = htable_size st"
  "length (base_table (snd (sfindblock s h st))) = length (base_table st)"
  by (simp_all add: sfindblock_def Let_def split: prod.splits)

lemma sfindblock_ok:
  assumes "table_ok st"
  shows "table_ok (snd (sfindblock s h st))"
proof -
  let ?st = "snd (sfindblock s h st)"
  have h: "hash_of ?st = hash_of st"
    by (simp add: fun_eq_iff hash_of_def StrHash_def sfindblock_frame split: option.splits)
  have "buckets_ok (hash_of st) (dom (blocks st)) (base_table st)"
    using assms by (simp add: table_ok_def)
  then have "buckets_ok (hash_of st) (dom (blocks st))
      ((base_table st)[h := snd (chain_find (block_is st s) [] (base_table st ! h))])"
    by (rule buckets) (simp add: chain_find_mset)
  then have "buckets_ok (hash_of ?st) (dom (blocks ?st)) (base_table ?st)"
    unfolding h by (simp add: sfindblock_def Let_def case_prod_beta)
  then show ?thesis using assms by (simp add: table_ok_def sfindblock_frame text_of_def)
qed

section \<open>What the operations do\<close>

text \<open>Interning a string that is not in the table.\<close>

lemma alloc_new_string_ok:
  assumes ok: "table_ok st" and a: "blocks st a = None" and s: "length s \<le> max_len"
    and new: "\<forall>p. text_of st p \<noteq> Some s"
  shows "table_ok (alloc_new_string max_len s (StrHash st s) a st)"
    and "blocks (alloc_new_string max_len s (StrHash st s) a st) =
      (blocks st)(a \<mapsto> \<lparr>str = s, size = of_nat (min (length s) USHRT_MAX), refs = 1\<rparr>)"
proof -
  let ?st = "alloc_new_string max_len s (StrHash st s) a st"
  show b: "blocks ?st = (blocks st)(a \<mapsto> \<lparr>str = s, size = of_nat (min (length s) USHRT_MAX), refs = 1\<rparr>)"
    using s by (simp add: alloc_new_string_def Let_def min_def)
  have h: "htable_size ?st = htable_size st" by (simp add: alloc_new_string_def Let_def)
  have t: "base_table ?st = (base_table st)[StrHash st s := a # base_table st ! StrHash st s]"
    by (simp add: alloc_new_string_def Let_def)
  have SH: "StrHash ?st = StrHash st" by (rule StrHash_cong [OF h])
  have ha: "hash_of ?st a = StrHash st s" by (simp add: hash_of_def b SH)
  have "hash_of ?st x = hash_of st x" if "x \<in> dom (blocks st)" for x
    using that a by (auto simp: hash_of_def b SH)
  then have "buckets_ok (hash_of ?st) (dom (blocks st)) (base_table st)"
    using ok by (auto simp: table_ok_def cong: buckets_ok_cong)
  from buckets_insert [OF this, of a] a
  have "buckets_ok (hash_of ?st) (dom (blocks ?st)) (base_table ?st)"
    by (simp add: ha t b domIff)
  with ok new show "table_ok ?st"
    by (auto simp: table_ok_def h t b text_of_def split: if_splits)
qed

text \<open>
  The effect of \<open>make_shared_string\<close>: the string's block, with one more reference (the count
  stays 0 once it has wrapped), or a new block with the first reference.
\<close>

definition inc_ref :: "block \<Rightarrow> block" where
  "inc_ref b = (if refs b \<noteq> 0 then b\<lparr>refs := refs b + 1\<rparr> else b)"

lemma inc_ref_str [simp]: "str (inc_ref b) = str b" "size (inc_ref b) = size b"
  by (simp_all add: inc_ref_def)

lemma make_shared_string_new:
  assumes ok: "table_ok st" and a: "blocks st a = None" and s: "length s \<le> max_len"
    and new: "\<forall>p. text_of st p \<noteq> Some s"
  shows "fst (make_shared_string max_len a s st) = a"
    and "table_ok (snd (make_shared_string max_len a s st))"
    and "blocks (snd (make_shared_string max_len a s st)) =
      (blocks st)(a \<mapsto> \<lparr>str = s, size = of_nat (min (length s) USHRT_MAX), refs = 1\<rparr>)"
proof -
  let ?h = "StrHash st s"
  have none: "fst (sfindblock s ?h st) = None"
    using sfindblock_result [OF ok, of s] new by (cases "fst (sfindblock s ?h st)") auto
  obtain st' where st': "sfindblock s ?h st = (None, st')"
    using none by (cases "sfindblock s ?h st") auto
  have f: "blocks st' = blocks st" "htable_size st' = htable_size st" "table_ok st'"
    using sfindblock_frame [of s ?h st] sfindblock_ok [OF ok, of s ?h] by (simp_all add: st')
  then have SH: "StrHash st' s = ?h" by (simp add: StrHash_def)
  have eq: "make_shared_string max_len a s st = (a, alloc_new_string max_len s ?h a st')"
    by (simp add: make_shared_string_def Let_def st')
  have "blocks st' a = None" "\<forall>p. text_of st' p \<noteq> Some s"
    using a new f by (auto simp: text_of_def)
  from alloc_new_string_ok [OF f(3) this(1) s this(2)] eq f SH
  show "fst (make_shared_string max_len a s st) = a"
    and "table_ok (snd (make_shared_string max_len a s st))"
    and "blocks (snd (make_shared_string max_len a s st)) =
      (blocks st)(a \<mapsto> \<lparr>str = s, size = of_nat (min (length s) USHRT_MAX), refs = 1\<rparr>)"
    by simp_all
qed

lemma make_shared_string_old:
  assumes ok: "table_ok st" and p: "blocks st p = Some b" "str b = s"
  shows "fst (make_shared_string max_len a s st) = p"
    and "table_ok (snd (make_shared_string max_len a s st))"
    and "blocks (snd (make_shared_string max_len a s st)) = (blocks st)(p \<mapsto> inc_ref b)"
proof -
  let ?h = "StrHash st s"
  have "text_of st p = Some s" using p by (simp add: text_of_def)
  then have "fst (sfindblock s ?h st) = Some p" by (simp add: sfindblock_result [OF ok])
  then obtain st' where st': "sfindblock s ?h st = (Some p, st')"
    by (cases "sfindblock s ?h st") auto
  have f: "blocks st' = blocks st" "htable_size st' = htable_size st" "table_ok st'"
    using sfindblock_frame [of s ?h st] sfindblock_ok [OF ok, of s ?h] by (simp_all add: st')
  have eq: "make_shared_string max_len a s st =
      (p, ADD_STRING (uint (size b)) (st'\<lparr>blocks := (blocks st')(p \<mapsto> inc_ref b)\<rparr>))"
    by (simp add: make_shared_string_def Let_def st' f p inc_ref_def)
  have "table_ok (ADD_STRING (uint (size b)) (st'\<lparr>blocks := (blocks st')(p \<mapsto> inc_ref b)\<rparr>)) = table_ok st'"
    by (rule table_ok_cong) (auto simp: f p)
  with eq f show "fst (make_shared_string max_len a s st) = p"
    and "table_ok (snd (make_shared_string max_len a s st))"
    and "blocks (snd (make_shared_string max_len a s st)) = (blocks st)(p \<mapsto> inc_ref b)"
    by simp_all
qed

lemma ref_string_ok:
  assumes "table_ok st" and "blocks st p = Some b"
  shows "\<exists>st'. ref_string p st = Some st' \<and> table_ok st' \<and> blocks st' = (blocks st)(p \<mapsto> inc_ref b)"
proof -
  let ?st = "ADD_STRING (uint (size b)) (st\<lparr>blocks := (blocks st)(p \<mapsto> inc_ref b)\<rparr>)"
  have "table_ok ?st = table_ok st" by (rule table_ok_cong) (auto simp: assms(2))
  then show ?thesis using assms by (simp add: ref_string_def inc_ref_def)
qed

lemma unhook_mset: "p \<in> set xs \<Longrightarrow> \<exists>ys. unhook p xs = Some ys \<and> mset xs = add_mset p (mset ys)"
  by (induction xs) auto

lemma unhook_ok:
  assumes ok: "table_ok st" and p: "blocks st p = Some b"
  shows "\<exists>c. unhook p (base_table st ! StrHash st (str b)) = Some c
    \<and> table_ok (st\<lparr>base_table := (base_table st)[StrHash st (str b) := c], blocks := (blocks st)(p := None)\<rparr>)"
proof -
  let ?h = "StrHash st (str b)"
  have bk: "buckets_ok (hash_of st) (dom (blocks st)) (base_table st)"
    using ok by (simp add: table_ok_def)
  have hp: "hash_of st p = ?h" by (simp add: hash_of_def p)
  have "p \<in> set (base_table st ! ?h)"
    using buckets_okD(2) [OF bk StrHash_less [OF ok]] p hp by auto
  from unhook_mset [OF this] obtain c where
    c: "unhook p (base_table st ! ?h) = Some c" "mset (base_table st ! ?h) = add_mset p (mset c)" by blast
  let ?st = "st\<lparr>base_table := (base_table st)[?h := c], blocks := (blocks st)(p := None)\<rparr>"
  have bk': "buckets_ok (hash_of st) (dom (blocks st) - {p}) ((base_table st)[?h := c])"
    using buckets_remove [OF bk, of p c] c(2) by (simp add: hp)
  have SH: "StrHash ?st = StrHash st" by (rule StrHash_cong) simp
  have hs: "\<And>x. x \<in> dom (blocks st) - {p} \<Longrightarrow> hash_of st x = hash_of ?st x"
    by (auto simp: hash_of_def SH split: option.split)
  have "buckets_ok (hash_of ?st) (dom (blocks st) - {p}) ((base_table st)[?h := c])"
    by (rule iffD1 [OF buckets_ok_cong bk']) (rule hs)
  with ok have "table_ok ?st" by (auto simp: table_ok_def text_of_def split: if_splits)
  with c show ?thesis by blast
qed

lemma free_string_ok:
  assumes ok: "table_ok st" and p: "blocks st p = Some b"
  shows "\<exists>st'. free_string p st = Some st' \<and> table_ok st'
    \<and> blocks st' = (if refs b = 0 then blocks st
                    else if refs b = 1 then (blocks st)(p := None)
                    else (blocks st)(p \<mapsto> b\<lparr>refs := refs b - 1\<rparr>))"
proof (cases "refs b = 0")
  case False
  let ?st1 = "SUB_STRING (uint (size b)) (st\<lparr>blocks := (blocks st)(p \<mapsto> b\<lparr>refs := refs b - 1\<rparr>)\<rparr>)"
  have ok1: "table_ok ?st1 = table_ok st" by (rule table_ok_cong) (auto simp: p)
  show ?thesis
  proof (cases "refs b = 1")
    case True
    from unhook_ok [OF ok p] obtain c where
      c: "unhook p (base_table st ! StrHash st (str b)) = Some c"
         "table_ok (st\<lparr>base_table := (base_table st)[StrHash st (str b) := c], blocks := (blocks st)(p := None)\<rparr>)"
      by blast
    let ?st2 = "SUB_NEW_STRING (uint (size b)) sizeof_block_t
      (?st1\<lparr>base_table := (base_table ?st1)[StrHash st (str b) := c], blocks := (blocks ?st1)(p := None)\<rparr>)"
    have "table_ok ?st2 = table_ok (st\<lparr>base_table := (base_table st)[StrHash st (str b) := c], blocks := (blocks st)(p := None)\<rparr>)"
      by (rule table_ok_cong) (auto simp: stat_defs)
    with c True p show ?thesis by (simp add: free_string_def Let_def)
  next
    case rn: False
    then have "refs b - 1 \<noteq> 0" by auto
    with False rn ok ok1 p show ?thesis by (simp add: free_string_def Let_def)
  qed
qed (use assms in \<open>simp add: free_string_def\<close>)

section \<open>The interface of an interning table\<close>

text \<open>
  What the rest of the driver relies on: live strings are known by their address, equal strings
  have equal addresses, and interning leaves every other live string where it is. \<open>admissible\<close>
  are the strings the table can hold unchanged.
\<close>

locale interner =
  fixes ok :: "'st \<Rightarrow> bool"
    and content :: "'st \<Rightarrow> addr \<Rightarrow> string option"
    and intern :: "addr \<Rightarrow> string \<Rightarrow> 'st \<Rightarrow> addr \<times> 'st"
    and admissible :: "string \<Rightarrow> bool"
  assumes content_inj: "ok st \<Longrightarrow> content st p = Some s \<Longrightarrow> content st q = Some s \<Longrightarrow> p = q"
    and intern_ok: "ok st \<Longrightarrow> admissible s \<Longrightarrow> content st a = None \<Longrightarrow> intern a s st = (p, st') \<Longrightarrow>
      ok st' \<and> content st' = (content st)(p \<mapsto> s) \<and> (content st p = Some s \<or> content st p = None)"
begin

lemma intern_again:
  assumes "ok st" "admissible s" "content st a = None" "content st q = Some s"
  shows "fst (intern a s st) = q"
proof -
  obtain p st' where i: "intern a s st = (p, st')" by fastforce
  from intern_ok [OF assms(1-3) i] assms(4) have "ok st'" "content st' p = Some s" "content st' q = Some s"
    by auto
  then have "p = q" by (rule content_inj)
  then show ?thesis by (simp add: i)
qed

lemma address_equality:
  "ok st \<Longrightarrow> content st p = Some s \<Longrightarrow> content st q = Some t \<Longrightarrow> p = q \<longleftrightarrow> s = t"
  using content_inj by fastforce

lemma intern_keeps:
  assumes "ok st" "admissible s" "content st a = None" "intern a s st = (p, st')" "content st q = Some t"
  shows "content st' q = Some t"
  using intern_ok [OF assms(1-4)] assms(5) by auto

end

lemma text_of_upd: "blocks st' = (blocks st)(p \<mapsto> b) \<Longrightarrow> text_of st' = (text_of st)(p \<mapsto> str b)"
  by (simp add: text_of_def fun_eq_iff)

lemma text_of_None: "text_of st a = None \<longleftrightarrow> blocks st a = None"
  by (simp add: text_of_def)

lemma text_of_Some: "text_of st a = Some s \<longleftrightarrow> (\<exists>b. blocks st a = Some b \<and> str b = s)"
  by (auto simp: text_of_def)

interpretation sh: interner table_ok text_of "make_shared_string m" "\<lambda>s. length s \<le> m" for m
proof (unfold_locales, goal_cases)
  case (1 st p s q)
  then show ?case by (auto simp: table_ok_def)
next
  case (2 st s a p st')
  then have a: "blocks st a = None" by (simp add: text_of_None)
  show ?case
  proof (cases "\<exists>q. text_of st q = Some s")
    case True
    then obtain q b where q: "blocks st q = Some b" "str b = s" by (auto simp: text_of_Some)
    from make_shared_string_old [OF 2(1) q, of m a] 2(4)
    have "p = q" "table_ok st'" "text_of st' = (text_of st)(q \<mapsto> s)"
      by (auto simp: q(2) dest!: text_of_upd)
    with q show ?thesis by (simp add: text_of_def)
  next
    case False
    with make_shared_string_new [OF 2(1) a 2(2)] 2(4)
    have "p = a" "table_ok st'" "text_of st' = (text_of st)(a \<mapsto> s)"
      by (auto dest!: text_of_upd)
    with 2(3) show ?thesis by simp
  qed
qed

section \<open>Holders of references\<close>

text \<open>
  A component that keeps shared strings (the living names, the user ids) holds \<open>c p\<close> references
  on the string at \<open>p\<close>. What it relies on: strings it holds are alive, sharing one more adds a
  reference, and giving one back leaves every string that is still held.
\<close>

definition held :: "strtab \<Rightarrow> (addr \<Rightarrow> nat) \<Rightarrow> bool" where
  "held st c \<longleftrightarrow> (\<forall>p. 0 < c p \<longrightarrow> (\<exists>b. blocks st p = Some b \<and> (refs b = 0 \<or> c p \<le> unat (refs b))))"

locale name_store = interner ok content intern admissible
  for ok :: "'st \<Rightarrow> bool" and content :: "'st \<Rightarrow> addr \<Rightarrow> string option"
    and intern :: "addr \<Rightarrow> string \<Rightarrow> 'st \<Rightarrow> addr \<times> 'st" and admissible :: "string \<Rightarrow> bool" +
  fixes release :: "addr \<Rightarrow> 'st \<Rightarrow> 'st option"
    and holds :: "'st \<Rightarrow> (addr \<Rightarrow> nat) \<Rightarrow> bool"
  assumes held_live: "holds st c \<Longrightarrow> 0 < c p \<Longrightarrow> content st p \<noteq> None"
    and intern_held: "ok st \<Longrightarrow> admissible s \<Longrightarrow> content st a = None \<Longrightarrow> holds st c \<Longrightarrow>
      intern a s st = (p, st') \<Longrightarrow> holds st' (c(p := c p + 1))"
    and release_held: "ok st \<Longrightarrow> holds st c \<Longrightarrow> 0 < c p \<Longrightarrow>
      \<exists>st'. release p st = Some st' \<and> ok st' \<and> holds st' (c(p := c p - 1))
        \<and> (\<forall>q. content st' q = content st q \<or> q = p \<and> content st' q = None)"
begin

text \<open>A string shared once more and given back again.\<close>

lemma intern_release:
  assumes "ok st" "admissible s" "content st a = None" "holds st c" "intern a s st = (p, st')"
  shows "\<exists>st''. release p st' = Some st'' \<and> ok st'' \<and> holds st'' c"
proof -
  have "ok st'" using intern_ok [OF assms(1-3,5)] by blast
  from release_held [OF this intern_held [OF assms], of p] show ?thesis by auto
qed

text \<open>The strings that are still held keep their contents when a reference is given back.\<close>

lemma release_keeps:
  assumes "ok st" "holds st c" "0 < c p" "release p st = Some st'" "0 < (c(p := c p - 1)) q"
  shows "content st' q = content st q"
proof -
  from release_held [OF assms(1-3)] assms(4) have
    "holds st' (c(p := c p - 1))" "content st' q = content st q \<or> content st' q = None" by auto
  with held_live [OF this(1) assms(5)] show ?thesis by auto
qed

end

lemma held_insert:
  assumes "held st c" "blocks st' = (blocks st)(p \<mapsto> b)" "refs b = 0 \<or> n \<le> unat (refs b)"
  shows "held st' (c(p := n))"
  using assms by (auto simp: held_def)

interpretation held: name_store table_ok text_of "make_shared_string m" "\<lambda>s. length s \<le> m" free_string held for m
proof (unfold_locales, goal_cases)
  case (1 st c p)
  then show ?case by (auto simp: held_def text_of_def)
next
  case (2 st s a c p st')
  then have a: "blocks st a = None" by (simp add: text_of_None)
  show ?case
  proof (cases "\<exists>q. text_of st q = Some s")
    case True
    then obtain q b where q: "blocks st q = Some b" "str b = s" by (auto simp: text_of_Some)
    from make_shared_string_old [OF 2(1) q, of m a] 2(5)
    have p: "p = q" "blocks st' = (blocks st)(q \<mapsto> inc_ref b)" by auto
    have "refs b = 0 \<or> c q \<le> unat (refs b)" using 2(4) [unfolded held_def, rule_format, of q] q by (cases "c q") auto
    then have "refs (inc_ref b) = 0 \<or> c q + 1 \<le> unat (refs (inc_ref b))"
    proof
      assume r: "c q \<le> unat (refs b)"
      show ?thesis
      proof (cases "refs b + 1 = 0")
        case False
        then have "unat (refs b + 1) = unat (refs b) + 1" by (simp add: unatSuc add.commute)
        with r show ?thesis by (simp add: inc_ref_def)
      qed (simp add: inc_ref_def)
    qed (simp add: inc_ref_def)
    from held_insert [OF 2(4) p(2) this] show ?thesis by (simp add: p(1))
  next
    case False
    with make_shared_string_new [OF 2(1) a 2(2)] 2(5)
    have p: "p = a" "blocks st' = (blocks st)(a \<mapsto> \<lparr>str = s, size = of_nat (min (length s) USHRT_MAX), refs = 1\<rparr>)" by auto
    have "c a = 0" using 2(4) [unfolded held_def, rule_format, of a] a by (cases "c a") auto
    with held_insert [OF 2(4) p(2), of 1] show ?thesis by (simp add: p(1))
  qed
next
  case (3 st c p)
  then obtain b where b: "blocks st p = Some b" "refs b = 0 \<or> c p \<le> unat (refs b)" by (auto simp: held_def)
  from free_string_ok [OF 3(1) b(1)] obtain st' where st': "free_string p st = Some st'" "table_ok st'"
    "blocks st' = (if refs b = 0 then blocks st else if refs b = 1 then (blocks st)(p := None)
       else (blocks st)(p \<mapsto> b\<lparr>refs := refs b - 1\<rparr>))" by blast
  have "held st' (c(p := c p - 1))"
  proof -
    consider "refs b = 0" | "refs b = 1" "c p = 1" | "refs b \<noteq> 0" "refs b \<noteq> 1" "c p \<le> unat (refs b)"
      using b(2) 3(3) by (cases "refs b = 1") auto
    then show ?thesis
    proof cases
      case 3
      have "unat (refs b - 1) = unat (refs b) - 1" using 3(1) by (simp add: unat_minus_one)
      moreover have "blocks st' = (blocks st)(p \<mapsto> b\<lparr>refs := refs b - 1\<rparr>)" using st'(3) 3 by simp
      ultimately show ?thesis using \<open>held st c\<close> 3(3) by (intro held_insert) auto
    qed (use \<open>held st c\<close> b st'(3) in \<open>auto simp: held_def\<close>)
  qed
  moreover have "text_of st' q = text_of st q \<or> q = p \<and> text_of st' q = None" for q
    using b(1) st'(3) by (auto simp: text_of_def)
  ultimately show ?case using st' by blast
qed

section \<open>The life of a shared string\<close>

text \<open>The same string shared \<open>n\<close> times, and an address freed \<open>n\<close> times.\<close>

fun share_times :: "nat \<Rightarrow> nat \<Rightarrow> addr \<Rightarrow> string \<Rightarrow> strtab \<Rightarrow> strtab" where
  "share_times m 0 a s st = st"
| "share_times m (Suc n) a s st = snd (make_shared_string m a s (share_times m n a s st))"

fun free_times :: "nat \<Rightarrow> addr \<Rightarrow> strtab \<Rightarrow> strtab option" where
  "free_times 0 p st = Some st"
| "free_times (Suc n) p st = (case free_string p st of None \<Rightarrow> None | Some st' \<Rightarrow> free_times n p st')"

lemma share_times_refs:
  assumes "table_ok st" "blocks st a = None" "length s \<le> m" "\<forall>p. text_of st p \<noteq> Some s"
  shows "table_ok (share_times m (Suc n) a s st) \<and>
    (\<exists>b. blocks (share_times m (Suc n) a s st) a = Some b \<and> str b = s
      \<and> refs b = (if n < 65535 then of_nat (Suc n) else 0))"
proof (induction n)
  case 0
  from make_shared_string_new [OF assms] show ?case by simp
next
  case (Suc n)
  then obtain b where ok: "table_ok (share_times m (Suc n) a s st)"
    and b: "blocks (share_times m (Suc n) a s st) a = Some b" "str b = s"
      "refs b = (if n < 65535 then of_nat (Suc n) else 0)" by blast
  have z: "(of_nat (Suc n) :: 16 word) \<noteq> 0" if "n < 65535"
    using that by (simp add: word_of_nat_eq_0_iff del: of_nat_Suc) (auto dest: dvd_imp_le)
  have "refs (inc_ref b) = (if Suc n < 65535 then of_nat (Suc (Suc n)) else 0)"
  proof (cases "n < 65535")
    case True
    then consider "Suc n < 65535" | "n = 65534" by linarith
    then show ?thesis using True z b(3) by cases (auto simp: inc_ref_def)
  next
    case False
    then show ?thesis using b(3) by (simp add: inc_ref_def)
  qed
  with make_shared_string_old [OF ok b(1,2), of m a] b(2) show ?case by simp
qed

lemma free_times_dec:
  assumes "table_ok st" "blocks st p = Some b" "k \<le> unat (refs b)" "refs b \<noteq> 0"
  shows "\<exists>t. free_times k p st = Some t \<and>
    text_of t p = (if k = unat (refs b) then None else Some (str b))"
  using assms
proof (induction k arbitrary: st b)
  case 0
  then show ?case by (auto simp: text_of_def unat_gt_0)
next
  case (Suc k)
  from free_string_ok [OF Suc.prems(1,2)] Suc.prems(4) obtain st' where
    f: "free_string p st = Some st'" "table_ok st'"
       "blocks st' = (if refs b = 1 then (blocks st)(p := None) else (blocks st)(p \<mapsto> b\<lparr>refs := refs b - 1\<rparr>))"
    by auto
  show ?case
  proof (cases "refs b = 1")
    case True
    with Suc.prems(3) have "k = 0" by simp
    with f True show ?thesis by (simp add: text_of_def)
  next
    case False
    then have r: "refs b - 1 \<noteq> 0" by auto
    have "unat (refs b) \<noteq> 0" using Suc.prems(4) by (simp add: unat_eq_zero)
    then have u: "unat (refs b - 1) = unat (refs b) - 1" by (simp add: unat_minus_one Suc.prems(4))
    from f False have b': "blocks st' p = Some (b\<lparr>refs := refs b - 1\<rparr>)" by simp
    have "k \<le> unat (refs (b\<lparr>refs := refs b - 1\<rparr>))" using Suc.prems(3) u by simp
    with Suc.IH [OF f(2) b'] r u f(1) \<open>unat (refs b) \<noteq> 0\<close> show ?thesis by auto
  qed
qed

lemma free_times_immortal:
  "blocks st p = Some b \<Longrightarrow> refs b = 0 \<Longrightarrow> free_times k p st = Some st"
  by (induction k) (auto simp: free_string_def)

section \<open>Properties\<close>

text \<open>C3. Interning keeps the table in order (power-of-two size, every block in the chain of its
  hash value, no string twice), returns an address at which the string lives, moves no other live
  string, and returns the same address for a string exactly when it is the same string: comparing
  shared strings by address compares their contents.\<close>

theorem make_shared_string_interns:
  assumes "table_ok st" and "length s \<le> max_string_length" and "text_of st a = None"
    and "make_shared_string max_string_length a s st = (p, st')"
  shows "table_ok st' \<and> text_of st' p = Some s
    \<and> (\<forall>q. q \<noteq> p \<longrightarrow> text_of st' q = text_of st q)
    \<and> (\<forall>q t. text_of st q = Some t \<longrightarrow> text_of st' q = Some t \<and> (p = q \<longleftrightarrow> s = t))"
proof -
  note i = sh.intern_ok [OF assms(1-4)]
  have "text_of st' q = Some t \<and> (p = q \<longleftrightarrow> s = t)" if "text_of st q = Some t" for q t
    using sh.intern_keeps [OF assms that] sh.address_equality [of st' p s q t] i by simp
  with i show ?thesis by auto
qed

text \<open>C4. A string shared n times (n below 65536) stays until it has been freed n times and is gone
  then; shared 65536 times or more it is immortal, and freeing it changes nothing.\<close>

theorem shared_string_lifetime:
  assumes "table_ok st" and "text_of st a = None" and "length s \<le> m" and "\<forall>p. text_of st p \<noteq> Some s"
    and "0 < n"
  shows "text_of (share_times m n a s st) a = Some s
    \<and> (if n < 65536 then
         (\<forall>k \<le> n. \<exists>t. free_times k a (share_times m n a s st) = Some t
            \<and> text_of t a = (if k = n then None else Some s))
       else (\<forall>k. free_times k a (share_times m n a s st) = Some (share_times m n a s st)))"
proof -
  from assms(5) obtain n' where n: "n = Suc n'" by (cases n) auto
  from assms(2) have a: "blocks st a = None" by (simp add: text_of_None)
  let ?st = "share_times m n a s st"
  from share_times_refs [OF assms(1) a assms(3,4), of n'] obtain b where
    ok: "table_ok ?st" and b: "blocks ?st a = Some b" "str b = s"
    "refs b = (if n' < 65535 then of_nat (Suc n') else 0)" by (auto simp: n)
  have live: "text_of ?st a = Some s" using b by (simp add: text_of_def)
  show ?thesis
  proof (cases "n < 65536")
    case True
    then have u: "unat (refs b) = n" using b(3) n by (simp add: unat_of_nat del: of_nat_Suc)
    then have "refs b \<noteq> 0" using assms(5) by auto
    then have "\<exists>t. free_times k a ?st = Some t \<and> text_of t a = (if k = n then None else Some s)"
      if "k \<le> n" for k
      using free_times_dec [OF ok b(1), of k] that unfolding u b(2) by blast
    with live True show ?thesis by simp
  next
    case False
    with b(3) n free_times_immortal [OF b(1)] live show ?thesis by simp
  qed
qed

definition sizes_ok :: "strtab \<Rightarrow> bool" where
  "sizes_ok st \<longleftrightarrow> (\<forall>a b. blocks st a = Some b \<longrightarrow> size b = of_nat (min (length (str b)) USHRT_MAX))"

lemma COUNTED_STRLEN_min: "COUNTED_STRLEN (of_nat (min (length x) USHRT_MAX)) x = length x"
proof (cases "length x < USHRT_MAX")
  case True
  then have "unat (of_nat (min (length x) USHRT_MAX) :: 16 word) = length x"
    by (simp add: unat_of_nat USHRT_MAX_def)
  with True show ?thesis by (simp add: COUNTED_STRLEN_def)
next
  case False
  then show ?thesis by (simp add: COUNTED_STRLEN_def USHRT_MAX_def)
qed

lemma sizes_ok_upd:
  assumes "sizes_ok st" and "blocks st' = (blocks st)(p \<mapsto> b)" and "size b = of_nat (min (length (str b)) USHRT_MAX)"
  shows "sizes_ok st'"
  using assms by (auto simp: sizes_ok_def split: if_splits)

lemma make_shared_string_sizes:
  assumes "table_ok st" "sizes_ok st" "length s \<le> m" "blocks st a = None"
  shows "sizes_ok (snd (make_shared_string m a s st))"
proof (cases "\<exists>q. text_of st q = Some s")
  case True
  then obtain q b where q: "blocks st q = Some b" "str b = s" by (auto simp: text_of_Some)
  with assms(2) have "size (inc_ref b) = of_nat (min (length (str (inc_ref b))) USHRT_MAX)"
    by (simp add: sizes_ok_def)
  with assms(2) make_shared_string_old(3) [OF assms(1) q] show ?thesis by (rule sizes_ok_upd)
next
  case False
  then have "\<forall>q. text_of st q \<noteq> Some s" by blast
  from make_shared_string_new(3) [OF assms(1,4,3) this] show ?thesis
    by (rule sizes_ok_upd [OF assms(2)]) simp
qed

text \<open>The 16 bit length field is enough: for every shared string, the length that
  \<open>COUNTED_STRLEN\<close> computes from it (scanning only past the first 65535 characters) is the
  length of the string; interning keeps this.\<close>

theorem counted_strlen_correct:
  assumes "table_ok st" and "sizes_ok st" and "length s \<le> m" and "blocks st a = None"
  shows "sizes_ok (snd (make_shared_string m a s st))
    \<and> (\<forall>q b. blocks (snd (make_shared_string m a s st)) q = Some b \<longrightarrow>
         COUNTED_STRLEN (size b) (str b) = length (str b))"
  using make_shared_string_sizes [OF assms] by (auto simp: sizes_ok_def COUNTED_STRLEN_min)

lemma sfindblock_absent:
  assumes "\<forall>p. text_of st p \<noteq> Some s"
  shows "fst (sfindblock s h st) = None"
proof -
  have "find (block_is st s) xs = None" for xs
    using assms by (simp add: find_None_iff block_is_iff)
  then show ?thesis by (simp add: sfindblock_def Let_def chain_find_result case_prod_beta)
qed

lemma make_shared_string_absent:
  assumes "\<forall>p. text_of st p \<noteq> Some s"
  shows "fst (make_shared_string m a s st) = a"
    and "text_of (snd (make_shared_string m a s st)) = (text_of st)(a \<mapsto> take m s)"
proof -
  obtain st' where st': "sfindblock s (StrHash st s) st = (None, st')"
    using sfindblock_absent [OF assms] by (metis prod.collapse)
  then have b: "blocks st' = blocks st" using sfindblock_frame [of s "StrHash st s" st] by simp
  show "fst (make_shared_string m a s st) = a"
    by (simp add: make_shared_string_def Let_def st')
  show "text_of (snd (make_shared_string m a s st)) = (text_of st)(a \<mapsto> take m s)"
    by (simp add: make_shared_string_def Let_def st' alloc_new_string_def text_of_def b fun_eq_iff)
qed

text \<open>A string longer than \<open>max_string_length\<close> is not shared: the table stores its cut copy
  but looks for the whole string, so sharing it twice makes two blocks with the same contents.\<close>

theorem overlong_string_not_shared:
  assumes "\<forall>p t. text_of st p = Some t \<longrightarrow> length t \<le> m" and "m < length s" and "a \<noteq> a'"
    and "make_shared_string m a s st = (p, st')" and "make_shared_string m a' s st' = (p', st'')"
  shows "p = a \<and> p' = a' \<and> text_of st'' p = Some (take m s) \<and> text_of st'' p' = Some (take m s)"
proof -
  have new: "\<forall>q. text_of st q \<noteq> Some s" using assms(1,2) by fastforce
  from make_shared_string_absent [OF new, of m a] assms(4)
  have p: "p = a" "text_of st' = (text_of st)(a \<mapsto> take m s)" by simp_all
  have "length (take m s) \<noteq> length s" using assms(2) by simp
  then have "take m s \<noteq> s" by (rule contrapos_nn) simp
  with new p(2) have "\<forall>q. text_of st' q \<noteq> Some s" by simp
  from make_shared_string_absent [OF this, of m a'] assms(3,5) p show ?thesis by simp
qed

text \<open>The counters that track live strings.\<close>

definition live_stats :: "strtab \<Rightarrow> int \<times> int \<times> int \<times> int \<times> int" where
  "live_stats st = (num_distinct_strings st, bytes_distinct_strings st, overhead_bytes st,
     allocd_strings st, allocd_bytes st)"

lemma sfindblock_stats: "live_stats (snd (sfindblock s h st)) = live_stats st"
  by (simp add: sfindblock_def Let_def live_stats_def case_prod_beta)

lemma free_string_stats_old:
  assumes "refs b \<noteq> 0" "refs b + 1 \<noteq> 0" "blocks st p = Some b" "str b = s" "table_ok st"
  shows "\<exists>t. free_string p (snd (make_shared_string m a s st)) = Some t
    \<and> blocks t = blocks st \<and> live_stats t = live_stats st"
proof -
  have "text_of st p = Some s" using assms by (simp add: text_of_def)
  then have "fst (sfindblock s (StrHash st s) st) = Some p" by (simp add: sfindblock_result [OF assms(5)])
  then obtain st' where st': "sfindblock s (StrHash st s) st = (Some p, st')"
    by (cases "sfindblock s (StrHash st s) st") auto
  have f: "blocks st' = blocks st" "live_stats st' = live_stats st"
    using sfindblock_frame [of s "StrHash st s" st] sfindblock_stats [of s "StrHash st s" st] by (simp_all add: st')
  have eq: "snd (make_shared_string m a s st) =
      ADD_STRING (uint (size b)) (st'\<lparr>blocks := (blocks st)(p \<mapsto> b\<lparr>refs := refs b + 1\<rparr>)\<rparr>)"
    using assms by (simp add: make_shared_string_def Let_def st' f)
  let ?S = "ADD_STRING (uint (size b)) (st'\<lparr>blocks := (blocks st)(p \<mapsto> b\<lparr>refs := refs b + 1\<rparr>)\<rparr>)"
  let ?T = "SUB_STRING (uint (size b)) (?S\<lparr>blocks := (blocks st)(p \<mapsto> b)\<rparr>)"
  have "free_string p ?S = Some ?T"
    using assms(1,2) by (simp add: free_string_def Let_def)
  moreover have "live_stats ?T = live_stats st'" by (simp add: live_stats_def stat_defs)
  moreover have "(blocks st)(p \<mapsto> b) = blocks st" using assms(3) by (rule fun_upd_idem)
  ultimately show ?thesis unfolding eq by (auto simp: f)
qed

lemma free_string_stats_new:
  assumes new: "\<forall>p. text_of st p \<noteq> Some s" and ok: "table_ok st" and a: "blocks st a = None" and s: "length s \<le> m"
  shows "\<exists>t. free_string a (snd (make_shared_string m a s st)) = Some t
    \<and> blocks t = blocks st \<and> live_stats t = live_stats st"
proof -
  let ?h = "StrHash st s" and ?sz = "of_nat (min (length s) USHRT_MAX) :: 16 word"
  have "fst (sfindblock s ?h st) = None" by (rule sfindblock_absent [OF new])
  then obtain st' where st': "sfindblock s ?h st = (None, st')"
    by (cases "sfindblock s ?h st") auto
  have f: "blocks st' = blocks st" "live_stats st' = live_stats st" "htable_size st' = htable_size st"
    "length (base_table st') = length (base_table st)"
    using sfindblock_frame [of s ?h st] sfindblock_stats [of s ?h st] by (simp_all add: st')
  have SH: "StrHash st' = StrHash st" by (rule StrHash_cong [OF f(3)])
  let ?b = "\<lparr>str = s, size = ?sz, refs = 1\<rparr>"
  have u: "uint ?sz = int (min (length s) USHRT_MAX)"
    by (simp add: uint_nat unat_of_nat USHRT_MAX_def min_def)
  have eq: "snd (make_shared_string m a s st) =
      ADD_STRING (int (min (length s) USHRT_MAX)) (ADD_NEW_STRING (int (min (length s) USHRT_MAX)) sizeof_block_t
        (st'\<lparr>blocks := (blocks st)(a \<mapsto> ?b), base_table := (base_table st')[?h := a # base_table st' ! ?h]\<rparr>))"
    using s by (simp add: make_shared_string_def Let_def st' alloc_new_string_def f(1) min_def)
  have "?h < length (base_table st')" using StrHash_less [OF ok, of s] f by simp
  then have "unhook a ((base_table st')[?h := a # base_table st' ! ?h] ! ?h) = Some (base_table st' ! ?h)"
    by simp
  moreover let ?n = "int (min (length s) USHRT_MAX)"
  let ?B = "st'\<lparr>blocks := (blocks st)(a \<mapsto> ?b), base_table := (base_table st')[?h := a # base_table st' ! ?h]\<rparr>"
  let ?S = "ADD_STRING ?n (ADD_NEW_STRING ?n sizeof_block_t ?B)"
  let ?S1 = "SUB_STRING ?n (?S\<lparr>blocks := (blocks st)(a \<mapsto> ?b\<lparr>refs := 0\<rparr>)\<rparr>)"
  let ?T = "SUB_NEW_STRING ?n sizeof_block_t
    (?S1\<lparr>base_table := (base_table ?S1)[?h := base_table st' ! ?h], blocks := (blocks st)(a := None)\<rparr>)"
  have "StrHash ?S = StrHash st" by (simp add: SH)
  ultimately have "free_string a ?S = Some ?T" by (simp add: free_string_def Let_def u)
  moreover have "live_stats ?T = live_stats st'" by (simp add: live_stats_def stat_defs)
  moreover have "(blocks st)(a := None) = blocks st" using a by (rule fun_upd_idem)
  ultimately show ?thesis unfolding eq by (auto simp: f)
qed

text \<open>Giving a shared string back undoes sharing it: the blocks, their reference counts and the
  statistics of live strings are as before, whether the string was new or already shared (with a
  count that has not wrapped).\<close>

theorem free_undoes_share:
  assumes "table_ok st" and "blocks st a = None" and "length s \<le> m"
    and "\<forall>p b. blocks st p = Some b \<and> str b = s \<longrightarrow> refs b \<noteq> 0 \<and> refs b + 1 \<noteq> 0"
    and "make_shared_string m a s st = (p, st')"
  shows "\<exists>t. free_string p st' = Some t \<and> blocks t = blocks st \<and> live_stats t = live_stats st"
proof (cases "\<exists>q. text_of st q = Some s")
  case True
  then obtain q b where q: "blocks st q = Some b" "str b = s" by (auto simp: text_of_Some)
  with assms(4) have "refs b \<noteq> 0" "refs b + 1 \<noteq> 0" by auto
  from free_string_stats_old [OF this q assms(1), of m a] make_shared_string_old(1) [OF assms(1) q, of m a]
  show ?thesis by (simp add: assms(5))
next
  case False
  then have new: "\<forall>q. text_of st q \<noteq> Some s" by blast
  from free_string_stats_new [OF new assms(1-3)] make_shared_string_new(1) [OF assms(1-3) new]
  show ?thesis by (simp add: assms(5))
qed

section \<open>Witnesses\<close>

lemma init_blocks: "blocks (init_strings n) = Map.empty" "text_of (init_strings n) = (\<lambda>_. None)"
  by (simp_all add: init_strings_def Let_def text_of_def fun_eq_iff)

theorem make_shared_string_interns_witness:
  "\<exists>p st'. make_shared_string 100 7 ''sword'' (init_strings 8) = (p, st') \<and> table_ok st'
     \<and> text_of st' p = Some ''sword''"
proof -
  obtain p st' where m: "make_shared_string 100 7 ''sword'' (init_strings 8) = (p, st')" by fastforce
  show ?thesis using make_shared_string_interns [OF init_strings_ok _ _ m] m by (simp add: init_blocks)
qed

theorem shared_string_lifetime_witness:
  "\<exists>t. free_times 3 7 (share_times 100 3 7 ''sword'' (init_strings 8)) = Some t \<and> text_of t 7 = None"
  using shared_string_lifetime [OF init_strings_ok, of 8 7 "''sword''" 100 3] by (auto simp: init_blocks)

theorem counted_strlen_correct_witness:
  "sizes_ok (snd (make_shared_string 100 7 ''sword'' (init_strings 8)))"
  using counted_strlen_correct [OF init_strings_ok, of 8 "''sword''" 100 7]
  by (simp add: init_blocks sizes_ok_def)

theorem overlong_string_not_shared_witness:
  "\<exists>p st' p' st''. make_shared_string 3 7 ''sword'' (init_strings 8) = (p, st')
     \<and> make_shared_string 3 9 ''sword'' st' = (p', st'') \<and> p \<noteq> p'
     \<and> text_of st'' p = Some ''swo'' \<and> text_of st'' p' = Some ''swo''"
proof -
  obtain p st' where m: "make_shared_string 3 7 ''sword'' (init_strings 8) = (p, st')" by fastforce
  obtain p' st'' where m': "make_shared_string 3 9 ''sword'' st' = (p', st'')" by fastforce
  have "take 3 ''sword'' = ''swo''" by (simp add: numeral_eq_Suc)
  with overlong_string_not_shared [OF _ _ _ m m'] have "p = 7" "p' = 9"
    "text_of st'' p = Some ''swo''" "text_of st'' p' = Some ''swo''" by (auto simp: init_blocks)
  with m m' show ?thesis by auto
qed

theorem free_undoes_share_witness:
  "\<exists>p st' t. make_shared_string 100 7 ''sword'' (init_strings 8) = (p, st')
     \<and> free_string p st' = Some t \<and> live_stats t = live_stats (init_strings 8)"
proof -
  obtain p st' where m: "make_shared_string 100 7 ''sword'' (init_strings 8) = (p, st')" by fastforce
  show ?thesis using free_undoes_share [OF init_strings_ok _ _ _ m] m by (auto simp: init_blocks)
qed

end
