(* ===== verification/Call_Out.thy ===== *)
theory Call_Out
  imports Prelude "HOL-Library.While_Combinator"
begin

text \<open>
  Delayed calls (\<open>call_out.c\<close> and the efuns of \<open>efuns_main.c\<close> over it). Pending calls
  hang in a wheel of 32 chains, chain \<open>s\<close> holding the calls due at times congruent to
  \<open>s\<close>; within a chain each call stores the difference (in turns of the wheel) to its
  predecessor. Objects and function pointers are addresses; their flags, owners and reference
  counts are fields of the state. The structures \<open>CALLOCATE\<close>d in chunks are counted, not
  addressed. What an LPC function does when it is called is a parameter of \<open>call_out\<close>: the
  list of calls to this module it makes, as a function of the whole state, cut where a runtime
  error ends it.
\<close>

unbundle bit_operations_syntax

section \<open>State\<close>

definition CALLOUT_CYCLE_SIZE :: int where "CALLOUT_CYCLE_SIZE = 32"
definition CHUNK_SIZE :: int where "CHUNK_SIZE = 20"

datatype string_or_func = Func_s string | Func_f nat

datatype arg = Arg_object nat | Arg_value int

record pending_call =
  delta :: int
  func :: string_or_func
  ob :: "nat option"
  vs :: "arg list"
  command_giver :: "nat option"
  handle :: int

record co_state =
  call_list :: "pending_call list list"
  call_list_free :: int
  num_call :: int
  call_out_time :: int
  unique :: int
  cop_static :: "pending_call option"
  current_time :: int
  this_command_giver :: "nat option"
  O_DESTRUCTED :: "nat \<Rightarrow> bool"
  O_LISTENER :: "nat \<Rightarrow> bool"
  shadowing :: "nat \<Rightarrow> nat option"
  fp_owner :: "nat \<Rightarrow> nat"
  ob_ref :: "nat \<Rightarrow> int"
  fp_ref :: "nat \<Rightarrow> int"
  str_ref :: "string \<Rightarrow> int"

definition bump :: "'k \<Rightarrow> int \<Rightarrow> ('k \<Rightarrow> int) \<Rightarrow> ('k \<Rightarrow> int)" where
  "bump k d f = f(k := f k + d)"

definition ob_ref_add :: "nat option \<Rightarrow> int \<Rightarrow> co_state \<Rightarrow> co_state" where
  "ob_ref_add x d st = (case x of None \<Rightarrow> st | Some p \<Rightarrow> st\<lparr>ob_ref := bump p d (ob_ref st)\<rparr>)"

section \<open>Freeing and making calls\<close>

definition func_ref_add :: "string_or_func \<Rightarrow> int \<Rightarrow> co_state \<Rightarrow> co_state" where
  "func_ref_add f d st = (case f of
     Func_s s \<Rightarrow> st\<lparr>str_ref := bump s d (str_ref st)\<rparr>
   | Func_f p \<Rightarrow> st\<lparr>fp_ref := bump p d (fp_ref st)\<rparr>)"

text \<open>The union \<open>function\<close> is a string exactly when \<open>ob\<close> is set; \<open>func\<close> carries
  the same choice. The array \<open>vs\<close> goes back to the value layer.\<close>

definition free_called_call :: "pending_call \<Rightarrow> co_state \<Rightarrow> co_state" where
  "free_called_call c st =
     ob_ref_add (command_giver c) (- 1)
       (ob_ref_add (ob c) (- 1)
         (func_ref_add (func c) (- 1) (st\<lparr>call_list_free := call_list_free st + 1\<rparr>)))"

definition free_call :: "pending_call \<Rightarrow> co_state \<Rightarrow> co_state" where
  "free_call c st = free_called_call c st"

fun insert_call :: "int \<Rightarrow> pending_call \<Rightarrow> pending_call list \<Rightarrow> pending_call list" where
  "insert_call delay cop [] = [cop\<lparr>delta := delay\<rparr>]"
| "insert_call delay cop (c # cs) =
     (if delta c \<ge> delay then cop\<lparr>delta := delay\<rparr> # c\<lparr>delta := delta c - delay\<rparr> # cs
      else c # insert_call (delay - delta c) cop cs)"

definition slot_of :: "int \<Rightarrow> nat" where
  "slot_of t = nat (t AND (CALLOUT_CYCLE_SIZE - 1))"

text \<open>The delay in turns of the wheel, with the wrap-around of \<open>int\<close>.\<close>

definition wheel_turns :: "int \<Rightarrow> int \<Rightarrow> int \<Rightarrow> int" where
  "wheel_turns delay now cot =
     c_int (1 + c_div (c_int (c_int (c_int (delay + now) - cot) - 1)) CALLOUT_CYCLE_SIZE)"

definition new_call_out ::
  "nat \<Rightarrow> string_or_func \<Rightarrow> int \<Rightarrow> arg list \<Rightarrow> co_state \<Rightarrow> int \<times> co_state" where
  "new_call_out obj f delay args st =
     (let delay = (if delay < 1 then 1 else delay);
          st = (if call_out_time st = 0 then st\<lparr>call_out_time := current_time st\<rparr> else st);
          st = (if call_list_free st = 0
                then st\<lparr>call_list_free := CHUNK_SIZE, num_call := num_call st + CHUNK_SIZE\<rparr> else st);
          st = st\<lparr>call_list_free := call_list_free st - 1\<rparr>;
          o' = (case f of Func_s _ \<Rightarrow> Some obj | Func_f _ \<Rightarrow> None);
          st = func_ref_add f 1 (ob_ref_add o' 1 st);
          giver = this_command_giver st;
          st = ob_ref_add giver 1 st;
          tm = slot_of (c_int (delay + current_time st));
          turns = wheel_turns delay (current_time st) (call_out_time st);
          u = c_int (unique st + 1);
          hd = c_int (int tm + CALLOUT_CYCLE_SIZE * u);
          cop = \<lparr>delta = turns, func = f, ob = o', vs = args, command_giver = giver, handle = hd\<rparr>
      in (hd, st\<lparr>call_list := (call_list st)[tm := insert_call turns cop (call_list st ! tm)],
                unique := u\<rparr>))"

section \<open>Looking for calls and removing them\<close>

definition time_left :: "nat \<Rightarrow> int \<Rightarrow> co_state \<Rightarrow> int" where
  "time_left slot delay st =
     (let current_slot = slot_of (call_out_time st) in
      if slot > current_slot then
        (delay - 1) * CALLOUT_CYCLE_SIZE + (int slot - int current_slot) + call_out_time st - current_time st
      else
        delay * CALLOUT_CYCLE_SIZE + (int slot - int current_slot) + call_out_time st - current_time st)"

text \<open>What follows a call that is unhooked gets its delta.\<close>

fun add_delta :: "int \<Rightarrow> pending_call list \<Rightarrow> pending_call list" where
  "add_delta d [] = []"
| "add_delta d (n # r) = n\<lparr>delta := delta n + d\<rparr> # r"

lemma length_add_delta [simp, termination_simp]: "length (add_delta d cs) = length cs"
  by (cases cs) simp_all

fun unhook_first :: "(pending_call \<Rightarrow> bool) \<Rightarrow> int \<Rightarrow> pending_call list
    \<Rightarrow> (int \<times> pending_call \<times> pending_call list) option" where
  "unhook_first P delay [] = None"
| "unhook_first P delay (c # cs) =
     (let delay = delay + delta c in
      if P c then Some (delay, c, add_delta (delta c) cs)
      else (case unhook_first P delay cs of
              None \<Rightarrow> None
            | Some (d, x, cs') \<Rightarrow> Some (d, x, c # cs')))"

fun find_first :: "(pending_call \<Rightarrow> bool) \<Rightarrow> int \<Rightarrow> pending_call list \<Rightarrow> int option" where
  "find_first P delay [] = None"
| "find_first P delay (c # cs) =
     (let delay = delay + delta c in if P c then Some delay else find_first P delay cs)"

definition calls :: "nat \<Rightarrow> string \<Rightarrow> pending_call \<Rightarrow> bool" where
  "calls obj fn c \<longleftrightarrow> ob c = Some obj \<and> func c = Func_s fn"

text \<open>One slot of \<open>remove_call_out\<close> (all of \<open>remove_call_out_by_handle\<close>).\<close>

definition remove_in_slot :: "(pending_call \<Rightarrow> bool) \<Rightarrow> nat \<Rightarrow> co_state \<Rightarrow> (int \<times> co_state) option" where
  "remove_in_slot P i st =
     (case unhook_first P 0 (call_list st ! i) of
        None \<Rightarrow> None
      | Some (delay, cop, chain) \<Rightarrow>
          (let st' = free_call cop (st\<lparr>call_list := (call_list st)[i := chain]\<rparr>)
           in Some (time_left i delay st', st')))"

fun remove_loop :: "(pending_call \<Rightarrow> bool) \<Rightarrow> nat list \<Rightarrow> co_state \<Rightarrow> int \<times> co_state" where
  "remove_loop P [] st = (- 1, st)"
| "remove_loop P (i # is) st =
     (case remove_in_slot P i st of None \<Rightarrow> remove_loop P is st | Some r \<Rightarrow> r)"

definition slots :: "nat list" where
  "slots = [0 ..< nat CALLOUT_CYCLE_SIZE]"

definition remove_call_out :: "nat option \<Rightarrow> string \<Rightarrow> co_state \<Rightarrow> int \<times> co_state" where
  "remove_call_out obj fn st =
     (case obj of None \<Rightarrow> (- 1, st) | Some p \<Rightarrow> remove_loop (calls p fn) slots st)"

definition remove_call_out_by_handle :: "int \<Rightarrow> co_state \<Rightarrow> int \<times> co_state" where
  "remove_call_out_by_handle h st =
     (case remove_in_slot (\<lambda>c. handle c = h) (slot_of h) st of None \<Rightarrow> (- 1, st) | Some r \<Rightarrow> r)"

definition find_call_out_by_handle :: "int \<Rightarrow> co_state \<Rightarrow> int" where
  "find_call_out_by_handle h st =
     (case find_first (\<lambda>c. handle c = h) 0 (call_list st ! slot_of h) of
        None \<Rightarrow> - 1 | Some delay \<Rightarrow> time_left (slot_of h) delay st)"

fun find_loop :: "(pending_call \<Rightarrow> bool) \<Rightarrow> nat list \<Rightarrow> co_state \<Rightarrow> int" where
  "find_loop P [] st = - 1"
| "find_loop P (i # is) st =
     (case find_first P 0 (call_list st ! i) of
        None \<Rightarrow> find_loop P is st | Some delay \<Rightarrow> time_left i delay st)"

definition find_call_out :: "nat option \<Rightarrow> string \<Rightarrow> co_state \<Rightarrow> int" where
  "find_call_out obj fn st =
     (case obj of None \<Rightarrow> - 1 | Some p \<Rightarrow> find_loop (calls p fn) slots st)"

text \<open>\<open>remove_all_call_out\<close>: every call of the object, or of a function pointer it owns, and
  those of destructed objects.\<close>

definition belongs :: "co_state \<Rightarrow> nat \<Rightarrow> pending_call \<Rightarrow> bool" where
  "belongs st obj c \<longleftrightarrow>
     (case ob c of
        Some p \<Rightarrow> p = obj \<or> O_DESTRUCTED st p
      | None \<Rightarrow> (case func c of
                   Func_f fp \<Rightarrow> fp_owner st fp = obj \<or> O_DESTRUCTED st (fp_owner st fp)
                 | Func_s _ \<Rightarrow> False))"

fun sweep :: "(pending_call \<Rightarrow> bool) \<Rightarrow> pending_call list \<Rightarrow> pending_call list \<times> pending_call list" where
  "sweep P [] = ([], [])"
| "sweep P (c # cs) =
     (if P c then (let (dead, rest) = sweep P (add_delta (delta c) cs) in (c # dead, rest))
      else (let (dead, rest) = sweep P cs in (dead, c # rest)))"

definition remove_all_in_slot :: "nat \<Rightarrow> nat \<Rightarrow> co_state \<Rightarrow> co_state" where
  "remove_all_in_slot obj i st =
     (let (dead, rest) = sweep (belongs st obj) (call_list st ! i)
      in fold free_call dead (st\<lparr>call_list := (call_list st)[i := rest]\<rparr>))"

definition remove_all_call_out :: "nat \<Rightarrow> co_state \<Rightarrow> co_state" where
  "remove_all_call_out obj st = fold (remove_all_in_slot obj) slots st"

text \<open>\<open>get_all_call_outs\<close>: object, function name (\<open><function>\<close> for a pointer) and delay.\<close>

fun info_chain :: "co_state \<Rightarrow> nat \<Rightarrow> int \<Rightarrow> pending_call list \<Rightarrow> (nat \<times> string \<times> int) list" where
  "info_chain st j delay [] = []"
| "info_chain st j delay (c # cs) =
     (let delay = delay + delta c;
          tm = slot_of (call_out_time st);
          left = (if j > tm
            then (delay - 1) * CALLOUT_CYCLE_SIZE + (int j - int tm) + call_out_time st - current_time st
            else delay * CALLOUT_CYCLE_SIZE + (int j - int tm) + call_out_time st - current_time st)
      in (case (ob c, func c) of
            (Some p, Func_s s) \<Rightarrow>
              (if O_DESTRUCTED st p then info_chain st j delay cs
               else (p, s, left) # info_chain st j delay cs)
          | (None, Func_f fp) \<Rightarrow> (fp_owner st fp, ''<function>'', left) # info_chain st j delay cs
          | _ \<Rightarrow> info_chain st j delay cs))"

definition get_all_call_outs :: "co_state \<Rightarrow> (nat \<times> string \<times> int) list" where
  "get_all_call_outs st = concat (map (\<lambda>j. info_chain st j 0 (call_list st ! j)) slots)"

section \<open>The efuns, as the calls an LPC function makes\<close>

datatype cmd =
    Call_out nat string_or_func int "arg list"
  | Remove_call_out nat string
  | Remove_call_out_handle int
  | Remove_call_outs nat
  | Destruct nat

text \<open>\<open>f_call_out\<close> makes nothing for a destructed object.\<close>

definition f_call_out :: "nat \<Rightarrow> string_or_func \<Rightarrow> int \<Rightarrow> arg list \<Rightarrow> co_state \<Rightarrow> int \<times> co_state" where
  "f_call_out current_object f delay args st =
     (if \<not> O_DESTRUCTED st current_object then new_call_out current_object f delay args st else (0, st))"

fun exec_cmd :: "cmd \<Rightarrow> co_state \<Rightarrow> co_state" where
  "exec_cmd (Call_out obj f delay args) st = snd (f_call_out obj f delay args st)"
| "exec_cmd (Remove_call_out obj fn) st = snd (remove_call_out (Some obj) fn st)"
| "exec_cmd (Remove_call_out_handle h) st = snd (remove_call_out_by_handle h st)"
| "exec_cmd (Remove_call_outs obj) st = remove_all_call_out obj st"
| "exec_cmd (Destruct obj) st = st\<lparr>O_DESTRUCTED := (O_DESTRUCTED st)(obj := True)\<rparr>"

section \<open>Running what is due\<close>

definition outermost :: "co_state \<Rightarrow> nat \<Rightarrow> nat" where
  "outermost st p = while (\<lambda>q. shadowing st q \<noteq> None) (\<lambda>q. the (shadowing st q)) p"

definition live_arg :: "co_state \<Rightarrow> arg \<Rightarrow> arg" where
  "live_arg st a = (case a of
     Arg_object p \<Rightarrow> if O_DESTRUCTED st p then Arg_value 0 else a | Arg_value _ \<Rightarrow> a)"

text \<open>A call that was made: when (the tick), what, for whom and with which arguments.\<close>

record fired =
  at :: int
  call :: pending_call
  giver :: "nat option"
  actual :: "arg list"

type_synonym script = "fired \<Rightarrow> co_state \<Rightarrow> cmd list"

definition giver_for :: "co_state \<Rightarrow> pending_call \<Rightarrow> nat option" where
  "giver_for st c =
     (case command_giver c of
        Some g \<Rightarrow> (if \<not> O_DESTRUCTED st g then Some g
                   else (case ob c of None \<Rightarrow> None | Some p \<Rightarrow>
                           if O_LISTENER st (outermost st p) then Some (outermost st p) else None))
      | None \<Rightarrow> (case ob c of None \<Rightarrow> None | Some p \<Rightarrow>
                   if O_LISTENER st (outermost st p) then Some (outermost st p) else None))"

definition illegal_name :: "pending_call \<Rightarrow> bool" where
  "illegal_name c \<longleftrightarrow> ob c \<noteq> None \<and> (case func c of Func_s (ch # _) \<Rightarrow> ch = CHR ''#'' | _ \<Rightarrow> False)"

text \<open>The body of the inner loop: the head of chain \<open>tm\<close> is moved out and called.\<close>

definition run_first :: "script \<Rightarrow> nat \<Rightarrow> co_state \<Rightarrow> fired list \<times> co_state" where
  "run_first script tm st =
     (case call_list st ! tm of
        [] \<Rightarrow> ([], st)
      | c # rest \<Rightarrow>
          (let st = st\<lparr>call_list := (call_list st)[tm := rest]\<rparr> in
           if (case ob c of Some p \<Rightarrow> O_DESTRUCTED st p | None \<Rightarrow> False) then ([], free_call c st)
           else
             (let st = st\<lparr>cop_static := Some c, this_command_giver := giver_for st c\<rparr>;
                  ev = \<lparr>at = call_out_time st + 1, call = c, giver = this_command_giver st,
                        actual = map (live_arg st) (vs c)\<rparr>;
                  (evs, st) = (if illegal_name c then ([], st)
                               else ([ev], fold exec_cmd (script ev st) st))
              in (evs, (free_called_call c st)\<lparr>cop_static := None\<rparr>))))"

definition head_due :: "nat \<Rightarrow> co_state \<Rightarrow> bool" where
  "head_due tm st \<longleftrightarrow> (case call_list st ! tm of [] \<Rightarrow> False | c # _ \<Rightarrow> delta c = 0)"

text \<open>\<open>do ... while\<close>: the body runs, then the head of the chain is looked at again.\<close>

partial_function (option) run_slot ::
  "script \<Rightarrow> nat \<Rightarrow> co_state \<Rightarrow> (fired list \<times> co_state) option" where
  "run_slot script tm st =
     (let (evs, st') = run_first script tm st in
      if head_due tm st' then
        Option.bind (run_slot script tm st') (\<lambda>(evs', st''). Some (evs @ evs', st''))
      else Some (evs, st'))"

text \<open>One turn of the outer loop, for the tick \<open>call_out_time + 1\<close>.\<close>

definition tick :: "script \<Rightarrow> co_state \<Rightarrow> (fired list \<times> co_state) option" where
  "tick script st =
     (let tm = slot_of (call_out_time st + 1) in
      Option.bind
        (case call_list st ! tm of
           [] \<Rightarrow> Some ([], st)
         | c # cs \<Rightarrow>
             (let st' = st\<lparr>call_list := (call_list st)[tm := c\<lparr>delta := delta c - 1\<rparr> # cs]\<rparr>
              in if delta c - 1 = 0 then run_slot script tm st' else Some ([], st')))
        (\<lambda>(evs, st'). Some (evs, st'\<lparr>call_out_time := call_out_time st' + 1\<rparr>)))"

partial_function (option) call_out_loop :: "script \<Rightarrow> co_state \<Rightarrow> (fired list \<times> co_state) option" where
  "call_out_loop script st =
     (if call_out_time st < current_time st then
        Option.bind (tick script st) (\<lambda>(evs, st').
          Option.bind (call_out_loop script st') (\<lambda>(evs', st''). Some (evs @ evs', st'')))
      else Some ([], st))"

definition call_out :: "script \<Rightarrow> co_state \<Rightarrow> (fired list \<times> co_state) option" where
  "call_out script st =
     (let save_command_giver = this_command_giver st;
          st = (case cop_static st of None \<Rightarrow> st | Some c \<Rightarrow> (free_called_call c st)\<lparr>cop_static := None\<rparr>);
          st = (if call_out_time st = 0 then st\<lparr>call_out_time := current_time st\<rparr> else st)
      in Option.bind (call_out_loop script st)
           (\<lambda>(evs, st'). Some (evs, st'\<lparr>this_command_giver := save_command_giver\<rparr>)))"


section \<open>When calls are due\<close>

text \<open>
  \<open>next_turn cot s\<close> is the first tick after \<open>cot\<close> that looks at slot \<open>s\<close>. While slot
  \<open>b\<close> is being worked on (its head has been decremented, the clock not yet advanced) its next
  turn is one cycle away. \<open>sched b st s\<close> lists the calls of slot \<open>s\<close> with the ticks they are
  due at, and without their deltas.
\<close>

definition next_turn :: "int \<Rightarrow> nat \<Rightarrow> int" where
  "next_turn cot s = cot + 1 + (int s - (cot + 1)) mod 32"

definition turn :: "nat option \<Rightarrow> co_state \<Rightarrow> nat \<Rightarrow> int" where
  "turn b st s = next_turn (call_out_time st) s + (if b = Some s then 32 else 0)"

fun dues :: "int \<Rightarrow> pending_call list \<Rightarrow> (int \<times> pending_call) list" where
  "dues t [] = []"
| "dues t (c # cs) = (t + 32 * delta c, c\<lparr>delta := 0\<rparr>) # dues (t + 32 * delta c) cs"

definition sched :: "nat option \<Rightarrow> co_state \<Rightarrow> nat \<Rightarrow> (int \<times> pending_call) list" where
  "sched b st s = dues (turn b st s - 32) (call_list st ! s)"

definition pending :: "nat option \<Rightarrow> co_state \<Rightarrow> (int \<times> pending_call) list" where
  "pending b st = concat (map (sched b st) slots)"

fun chain_ok :: "int \<Rightarrow> pending_call list \<Rightarrow> bool" where
  "chain_ok m [] \<longleftrightarrow> True"
| "chain_ok m (c # cs) \<longleftrightarrow> m \<le> delta c \<and> (\<forall>x \<in> set cs. 0 \<le> delta x)"

definition wheel_ok :: "nat option \<Rightarrow> co_state \<Rightarrow> bool" where
  "wheel_ok b st \<longleftrightarrow> length (call_list st) = 32 \<and> 0 < call_out_time st
     \<and> (\<forall>s < 32. chain_ok (if b = Some s then 0 else 1) (call_list st ! s))"

named_theorems due_simps \<open>what the operations do to the times calls are due at\<close>

lemma slot_of_mod: "slot_of t = nat (t mod 32)"
proof -
  have "t AND mask 5 = take_bit 5 t" by (simp add: take_bit_eq_mask)
  moreover have "mask 5 = (31::int)" by (simp add: mask_eq_exp_minus_1)
  ultimately show ?thesis by (simp add: slot_of_def CALLOUT_CYCLE_SIZE_def take_bit_eq_mod)
qed

lemma slot_of_less [simp]: "slot_of t < 32"
  by (simp add: slot_of_mod nat_less_iff)

lemma int_slot_of [simp]: "int (slot_of t) = t mod 32"
  by (simp add: slot_of_mod)

lemma slots_upt: "slots = [0 ..< 32]"
  by (simp add: slots_def CALLOUT_CYCLE_SIZE_def)

lemma c_int_add_left: "c_int (c_int a + b) = c_int (a + b)"
proof -
  have "(c_int a + b + 2 ^ 31) mod 2 ^ 32 = ((a + 2 ^ 31) mod 2 ^ 32 + b) mod 2 ^ 32"
    by (simp add: c_int_def)
  also have "\<dots> = (a + 2 ^ 31 + b) mod 2 ^ 32" by (rule mod_add_left_eq)
  finally show ?thesis by (simp add: c_int_def ac_simps)
qed

lemma c_int_mod_32: "c_int a mod 32 = a mod 32"
proof -
  have "c_int a = a + 32 * (- (2 ^ 27) * ((a + 2 ^ 31) div 2 ^ 32))"
    unfolding c_int_def by (simp flip: minus_mult_div_eq_mod)
  then show ?thesis by (simp only: mod_mult_self2)
qed

lemma slot_of_c_int [simp]: "slot_of (c_int a) = slot_of a"
  by (simp add: slot_of_mod c_int_mod_32)

lemma next_turn_after: "cot < next_turn cot s"
  by (simp add: next_turn_def add_strict_increasing)

lemma next_turn_slot: "s < 32 \<Longrightarrow> next_turn cot s mod 32 = int s"
  by (simp add: next_turn_def mod_add_right_eq)

lemma next_turn_here [simp]: "next_turn cot (slot_of (cot + 1)) = cot + 1"
  by (simp add: next_turn_def mod_diff_left_eq)

text \<open>The distance to the next turn, relative to the current slot.\<close>

lemma next_turn_dist:
  assumes "s < 32"
  shows "next_turn cot s = cot + (if cot mod 32 < int s then int s - cot mod 32 else int s - cot mod 32 + 32)"
proof -
  have "(int s - (cot + 1)) mod 32 = (int s - cot mod 32 - 1) mod 32"
    using mod_diff_right_eq [of "int s - 1" cot 32] by (simp add: algebra_simps)
  also have "\<dots> = (if cot mod 32 < int s then int s - cot mod 32 - 1 else int s - cot mod 32 + 31)"
  proof -
    have r: "0 \<le> cot mod 32" "cot mod 32 < 32" "0 \<le> int s" "int s < 32" using assms by auto
    show ?thesis
    proof (cases "cot mod 32 < int s")
      case True
      with r show ?thesis by (simp add: mod_pos_pos_trivial)
    next
      case False
      have "(int s - cot mod 32 - 1) mod 32 = (int s - cot mod 32 + 31) mod 32"
        using mod_add_self2 [of "int s - cot mod 32 - 1" 32] by (simp add: algebra_simps)
      with r False show ?thesis by (simp add: mod_pos_pos_trivial)
    qed
  qed
  finally show ?thesis by (simp add: next_turn_def)
qed

lemma next_turn_Suc:
  assumes "s < 32"
  shows "next_turn (cot + 1) s = next_turn cot s + (if s = slot_of (cot + 1) then 32 else 0)"
proof -
  define m where "m = cot mod 32"
  define m' where "m' = (cot + 1) mod 32"
  have r: "0 \<le> m" "m < 32" "0 \<le> int s" "int s < 32" using assms by (auto simp: m_def)
  have m': "m' = (if m = 31 then 0 else m + 1)"
  proof -
    have "m' = (m + 1) mod 32" by (simp add: m_def m'_def mod_add_left_eq)
    with r show ?thesis by simp
  qed
  have "s = slot_of (cot + 1) \<longleftrightarrow> int s = m'" unfolding m'_def by (metis int_slot_of of_nat_eq_iff)
  then show ?thesis
    using r m' unfolding next_turn_dist [OF assms] m_def [symmetric] m'_def [symmetric] by auto
qed

lemma wheel_turns_eq:
  assumes "1 \<le> delay" and "cot \<le> now" and "delay + (now - cot) \<le> 2 ^ 31"
  shows "wheel_turns delay now cot = 1 + (delay + now - cot - 1) div 32"
proof -
  have "c_int (c_int (c_int (delay + now) - cot) - 1) = c_int (delay + now - cot - 1)"
    using c_int_add_left [of "delay + now" "- cot"] c_int_add_left [of "delay + now - cot" "- 1"]
    by (simp add: algebra_simps)
  also have "\<dots> = delay + now - cot - 1" by (rule c_int_id) (use assms in linarith)+
  finally have "wheel_turns delay now cot = c_int (1 + c_div (delay + now - cot - 1) 32)"
    by (simp add: wheel_turns_def CALLOUT_CYCLE_SIZE_def)
  also have "\<dots> = c_int (1 + (delay + now - cot - 1) div 32)" using assms by (simp add: c_div_nonneg)
  also have "\<dots> = 1 + (delay + now - cot - 1) div 32"
  proof -
    define x where "x = delay + now - cot - 1"
    have x: "0 \<le> x" "x < 2 ^ 31" using assms by (simp_all add: x_def)
    have "32 * (x div 32) \<le> x" using mult_div_mod_eq [of 32 x] pos_mod_sign [of 32 x] by linarith
    moreover have "0 \<le> x div 32" using x by simp
    ultimately have "- (2 ^ 31) \<le> 1 + x div 32" "1 + x div 32 < 2 ^ 31" using x by simp_all
    then show ?thesis unfolding x_def by (rule c_int_id)
  qed
  finally show ?thesis .
qed

lemma next_turn_wheel_turns:
  "next_turn cot (slot_of (delay + now)) + 32 * ((delay + now - cot - 1) div 32) = delay + now"
proof -
  have "next_turn cot (slot_of (delay + now)) = cot + 1 + (delay + now - cot - 1) mod 32"
    by (simp add: next_turn_def mod_diff_left_eq algebra_simps)
  then show ?thesis using mult_div_mod_eq [of 32 "delay + now - cot - 1"] by simp
qed

lemma time_left_due:
  assumes "s < 32"
  shows "time_left s D st = next_turn (call_out_time st) s + 32 * (D - 1) - current_time st"
proof -
  have "s > slot_of (call_out_time st) \<longleftrightarrow> call_out_time st mod 32 < int s"
    by (metis int_slot_of of_nat_less_iff)
  then show ?thesis
    by (simp add: time_left_def Let_def next_turn_dist [OF assms] CALLOUT_CYCLE_SIZE_def)
qed

section \<open>Chains as schedules\<close>

fun insert_due :: "int \<times> pending_call \<Rightarrow> (int \<times> pending_call) list \<Rightarrow> (int \<times> pending_call) list" where
  "insert_due x [] = [x]"
| "insert_due x (y # ys) = (if fst x \<le> fst y then x # y # ys else y # insert_due x ys)"

lemma mset_insert_due [simp]: "mset (insert_due x ys) = add_mset x (mset ys)"
  by (induction x ys rule: insert_due.induct) auto

lemma delta_0 [simp]: "delta c = 0 \<Longrightarrow> c\<lparr>delta := 0\<rparr> = c"
  by (cases c) simp

lemma dues_insert_call [due_simps]:
  "dues t (insert_call d cop cs) = insert_due (t + 32 * d, cop\<lparr>delta := 0\<rparr>) (dues t cs)"
  by (induction d cop cs arbitrary: t rule: insert_call.induct) (auto simp: algebra_simps)

lemma dues_add_delta [due_simps]: "dues t (add_delta d cs) = dues (t + 32 * d) cs"
  by (cases cs) (auto simp: algebra_simps)

lemma snd_dues: "map snd (dues t cs) = map (\<lambda>c. c\<lparr>delta := 0\<rparr>) cs"
  by (induction cs arbitrary: t) auto

lemma dues_Nil_iff [simp]: "dues t cs = [] \<longleftrightarrow> cs = []"
  by (cases cs) auto

lemma fst_dues_ge: "\<forall>x \<in> set cs. 0 \<le> delta x \<Longrightarrow> y \<in> set (dues t cs) \<Longrightarrow> t \<le> fst y"
  by (induction cs arbitrary: t) fastforce+

lemma chain_ok_fst:
  assumes "chain_ok m cs" "0 \<le> m" "y \<in> set (dues t cs)"
  shows "t + 32 * m \<le> fst y"
proof (cases cs)
  case (Cons c r)
  with assms have "\<forall>x \<in> set r. 0 \<le> delta x" "m \<le> delta c" by auto
  from fst_dues_ge [OF this(1), of y "t + 32 * delta c"] assms(3) this(2) Cons show ?thesis
    by auto
qed (use assms in simp)

lemma insert_call_nonneg:
  "\<forall>x \<in> set cs. 0 \<le> delta x \<Longrightarrow> 0 \<le> d \<Longrightarrow> \<forall>x \<in> set (insert_call d cop cs). 0 \<le> delta x"
  by (induction d cop cs rule: insert_call.induct) auto

lemma chain_ok_insert:
  assumes "chain_ok m cs" "1 \<le> d" "m \<le> 1" "0 \<le> m"
  shows "chain_ok m (insert_call d cop cs)"
proof (cases cs)
  case (Cons c r)
  with assms have "m \<le> delta c" "\<forall>x \<in> set r. 0 \<le> delta x" by auto
  with insert_call_nonneg [of r "d - delta c" cop] assms Cons show ?thesis by simp
qed (use assms in simp)

lemma chain_ok_add_delta:
  "\<forall>x \<in> set cs. 0 \<le> delta x \<Longrightarrow> m \<le> d \<Longrightarrow> chain_ok m (add_delta d cs)"
  by (cases cs) auto

lemma chain_ok_nonneg: "chain_ok m cs \<Longrightarrow> 0 \<le> m \<Longrightarrow> x \<in> set cs \<Longrightarrow> 0 \<le> delta x"
  by (cases cs) auto

lemma add_delta_nonneg: "\<forall>x \<in> set cs. 0 \<le> delta x \<Longrightarrow> 0 \<le> d \<Longrightarrow> \<forall>x \<in> set (add_delta d cs). 0 \<le> delta x"
  by (cases cs) auto

text \<open>Tests that look at a call do not look at its delta.\<close>

definition blind :: "(pending_call \<Rightarrow> bool) \<Rightarrow> bool" where
  "blind P \<longleftrightarrow> (\<forall>c d. P (c\<lparr>delta := d\<rparr>) = P c)"

lemma blindD: "blind P \<Longrightarrow> P (c\<lparr>delta := d\<rparr>) = P c"
  by (simp add: blind_def)

lemma blind_tests [simp]: "blind (calls p fn)" "blind (\<lambda>c. handle c = h)" "blind (belongs st obj)"
  by (simp_all add: blind_def calls_def belongs_def split: option.split)

lemma unhook_first_None:
  "unhook_first P D cs = None \<longleftrightarrow> (\<forall>c \<in> set cs. \<not> P c)"
  by (induction P D cs rule: unhook_first.induct) (auto simp: Let_def split: option.splits)

lemma find_first_unhook: "find_first P D cs = map_option fst (unhook_first P D cs)"
  by (induction P D cs rule: find_first.induct) (auto simp: Let_def split: option.splits)

lemma unhook_first_Some:
  assumes "unhook_first P D cs = Some (d, x, cs')" "blind P"
  shows "\<exists>ys zs. dues t cs = ys @ (t + 32 * (d - D), x\<lparr>delta := 0\<rparr>) # zs \<and> dues t cs' = ys @ zs
    \<and> (\<forall>y \<in> set ys. \<not> P (snd y)) \<and> P x"
  using assms
proof (induction P D cs arbitrary: t d x cs' rule: unhook_first.induct)
  case (2 P D c cs)
  show ?case
  proof (cases "P c")
    case True
    with 2(2) have "d = D + delta c" "x = c" "cs' = add_delta (delta c) cs" by (auto simp: Let_def)
    with True show ?thesis
      by (intro exI [of _ "[]"] exI [of _ "dues (t + 32 * delta c) cs"]) (simp add: due_simps)
  next
    case False
    with 2(2) obtain r where r: "unhook_first P (D + delta c) cs = Some (d, x, r)" "cs' = c # r"
      by (auto simp: Let_def split: option.splits)
    from 2(1) [OF refl False r(1) 2(3), of "t + 32 * delta c"] obtain ys zs where
      yz: "dues (t + 32 * delta c) cs = ys @ (t + 32 * delta c + 32 * (d - (D + delta c)), x\<lparr>delta := 0\<rparr>) # zs"
      "dues (t + 32 * delta c) r = ys @ zs" "\<forall>y \<in> set ys. \<not> P (snd y)" "P x" by blast
    have "t + 32 * delta c + 32 * (d - (D + delta c)) = t + 32 * (d - D)" by (simp add: algebra_simps)
    with yz r False 2(3) show ?thesis
      by (intro exI [of _ "(t + 32 * delta c, c\<lparr>delta := 0\<rparr>) # ys"] exI [of _ zs]) (simp add: blindD)
  qed
qed simp

lemma chain_ok_unhook:
  "unhook_first P D cs = Some (d, x, cs') \<Longrightarrow> chain_ok m cs \<Longrightarrow> 0 \<le> m \<Longrightarrow> chain_ok m cs'"
proof -
  have nn: "unhook_first P D cs = Some (d, x, cs') \<Longrightarrow> \<forall>x \<in> set cs. 0 \<le> delta x \<Longrightarrow> \<forall>x \<in> set cs'. 0 \<le> delta x"
    for D cs d x cs'
  proof (induction P D cs arbitrary: d x cs' rule: unhook_first.induct)
    case (2 P D c cs)
    then show ?case using add_delta_nonneg [of cs "delta c"]
      by (auto simp: Let_def split: if_splits option.splits)
  qed simp
  assume a: "unhook_first P D cs = Some (d, x, cs')" "chain_ok m cs" "0 \<le> m"
  then obtain c r where cs: "cs = c # r" "m \<le> delta c" "\<forall>x \<in> set r. 0 \<le> delta x"
    by (cases cs) auto
  show ?thesis
  proof (cases "P c")
    case True
    with a cs show ?thesis by (auto simp: Let_def chain_ok_add_delta)
  next
    case False
    with a(1) cs(1) obtain r' where "unhook_first P (D + delta c) r = Some (d, x, r')" "cs' = c # r'"
      by (auto simp: Let_def split: option.splits)
    with nn [of "D + delta c" r d x r'] cs show ?thesis by simp
  qed
qed

lemma dues_sweep [due_simps]:
  "blind P \<Longrightarrow> dues t (snd (sweep P cs)) = filter (\<lambda>x. \<not> P (snd x)) (dues t cs)"
  by (induction P cs arbitrary: t rule: sweep.induct) (auto simp: due_simps case_prod_beta blindD Let_def)

lemma sweep_dead:
  "blind P \<Longrightarrow> map (\<lambda>c. c\<lparr>delta := 0\<rparr>) (fst (sweep P cs)) = filter P (map (\<lambda>c. c\<lparr>delta := 0\<rparr>) cs)"
proof (induction P cs rule: sweep.induct)
  case (2 P c cs)
  have "map (\<lambda>c. c\<lparr>delta := 0\<rparr>) (add_delta (delta c) cs) = map (\<lambda>c. c\<lparr>delta := 0\<rparr>) cs"
    by (cases cs) auto
  with 2 show ?case by (auto simp: case_prod_beta blindD Let_def)
qed simp

lemma sweep_nonneg: "\<forall>x \<in> set cs. 0 \<le> delta x \<Longrightarrow> \<forall>x \<in> set (snd (sweep P cs)). 0 \<le> delta x"
proof (induction P cs rule: sweep.induct)
  case (2 P c cs)
  show ?case
  proof (cases "P c")
    case True
    have "\<forall>x \<in> set (add_delta (delta c) cs). 0 \<le> delta x" by (rule add_delta_nonneg) (use 2(3) in auto)
    from 2(1) [OF True this] True show ?thesis by (simp add: case_prod_beta)
  next
    case False
    with 2(2) [OF False] 2(3) show ?thesis by (simp add: case_prod_beta)
  qed
qed simp

lemma chain_ok_sweep: "chain_ok m cs \<Longrightarrow> 0 \<le> m \<Longrightarrow> chain_ok m (snd (sweep P cs))"
proof (induction P cs rule: sweep.induct)
  case (2 P c cs)
  then have c: "m \<le> delta c" "\<forall>x \<in> set cs. 0 \<le> delta x" by auto
  show ?case
  proof (cases "P c")
    case True
    have "chain_ok m (add_delta (delta c) cs)" using c by (intro chain_ok_add_delta)
    from 2(1) [OF True this 2(4)] True show ?thesis by (simp add: case_prod_beta)
  next
    case False
    with sweep_nonneg [OF c(2), of P] c show ?thesis by (simp add: case_prod_beta)
  qed
qed simp

section \<open>Operations on the schedule\<close>

lemma ob_ref_add_frame [simp]:
  "call_list (ob_ref_add x d st) = call_list st" "call_out_time (ob_ref_add x d st) = call_out_time st"
  "current_time (ob_ref_add x d st) = current_time st" "unique (ob_ref_add x d st) = unique st"
  "O_DESTRUCTED (ob_ref_add x d st) = O_DESTRUCTED st" "call_list_free (ob_ref_add x d st) = call_list_free st"
  "num_call (ob_ref_add x d st) = num_call st" "cop_static (ob_ref_add x d st) = cop_static st"
  "this_command_giver (ob_ref_add x d st) = this_command_giver st" "fp_owner (ob_ref_add x d st) = fp_owner st"
  by (simp_all add: ob_ref_add_def split: option.split)

lemma func_ref_add_frame [simp]:
  "call_list (func_ref_add f d st) = call_list st" "call_out_time (func_ref_add f d st) = call_out_time st"
  "current_time (func_ref_add f d st) = current_time st" "unique (func_ref_add f d st) = unique st"
  "O_DESTRUCTED (func_ref_add f d st) = O_DESTRUCTED st" "call_list_free (func_ref_add f d st) = call_list_free st"
  "num_call (func_ref_add f d st) = num_call st" "cop_static (func_ref_add f d st) = cop_static st"
  "this_command_giver (func_ref_add f d st) = this_command_giver st" "fp_owner (func_ref_add f d st) = fp_owner st"
  by (simp_all add: func_ref_add_def split: string_or_func.split)

lemma free_call_frame [simp]:
  "call_list (free_called_call c st) = call_list st" "call_out_time (free_called_call c st) = call_out_time st"
  "current_time (free_called_call c st) = current_time st" "unique (free_called_call c st) = unique st"
  "O_DESTRUCTED (free_called_call c st) = O_DESTRUCTED st"
  "call_list_free (free_called_call c st) = call_list_free st + 1"
  "num_call (free_called_call c st) = num_call st" "cop_static (free_called_call c st) = cop_static st"
  "this_command_giver (free_called_call c st) = this_command_giver st"
  "fp_owner (free_called_call c st) = fp_owner st"
  by (simp_all add: free_called_call_def)

lemma pending_cong:
  "call_list st = call_list st' \<Longrightarrow> call_out_time st = call_out_time st' \<Longrightarrow> pending b st = pending b st'"
  by (simp add: pending_def sched_def [abs_def] turn_def [abs_def])

lemma wheel_ok_cong:
  "call_list st = call_list st' \<Longrightarrow> call_out_time st = call_out_time st' \<Longrightarrow> wheel_ok b st = wheel_ok b st'"
  by (simp add: wheel_ok_def)

lemma chain_okD: "wheel_ok b st \<Longrightarrow> s < 32 \<Longrightarrow> chain_ok (if b = Some s then 0 else 1) (call_list st ! s)"
  by (simp add: wheel_ok_def)

lemma wheel_ok_upd:
  assumes "wheel_ok b st" "call_list st' = (call_list st)[s := ch]" "call_out_time st' = call_out_time st"
    and "chain_ok (if b = Some s then 0 else 1) ch"
  shows "wheel_ok b st'"
  using assms by (auto simp: wheel_ok_def nth_update_if)

lemma sched_upd:
  assumes "wheel_ok b st" "call_list st' = (call_list st)[s := ch]" "call_out_time st' = call_out_time st" "i < 32"
  shows "sched b st' i = (if i = s then dues (turn b st s - 32) ch else sched b st i)"
  using assms by (simp add: wheel_ok_def sched_def turn_def nth_update_if)

lemma mset_concat_slots: "mset (concat (map f slots)) = (\<Sum>i < 32. mset (f i))"
proof -
  have "mset (concat (map f [0..<n])) = (\<Sum>i < n. mset (f i))" for n
    by (induction n) simp_all
  then show ?thesis by (simp add: slots_upt)
qed

lemma mset_pending_upd:
  assumes "wheel_ok b st" "call_list st' = (call_list st)[s := ch]" "call_out_time st' = call_out_time st" "s < 32"
  shows "mset (pending b st') + mset (sched b st s) = mset (pending b st) + mset (dues (turn b st s - 32) ch)"
proof -
  have s: "s \<in> {..<32}" using assms(4) by simp
  note u = sched_upd [OF assms(1-3)]
  have "(\<Sum>i \<in> {..<32} - {s}. mset (sched b st' i)) = (\<Sum>i \<in> {..<32} - {s}. mset (sched b st i))"
    by (rule sum.cong) (auto simp: u)
  then show ?thesis
    unfolding pending_def mset_concat_slots sum.remove [OF finite_lessThan s] using u [OF assms(4)] by simp
qed

lemma pending_later: "wheel_ok None st \<Longrightarrow> x \<in> set (pending None st) \<Longrightarrow> call_out_time st < fst x"
proof -
  assume w: "wheel_ok None st" and "x \<in> set (pending None st)"
  then obtain s where s: "s < 32" "x \<in> set (sched None st s)" by (auto simp: pending_def slots_upt)
  with chain_ok_fst [of 1 "call_list st ! s" x] chain_okD [OF w s(1)] next_turn_after [of "call_out_time st" s]
  show ?thesis by (fastforce simp: sched_def turn_def)
qed

text \<open>A call that is set up.\<close>

abbreviation eff_delay :: "int \<Rightarrow> int" where
  "eff_delay delay \<equiv> (if delay < 1 then 1 else delay)"

definition made_call :: "nat \<Rightarrow> string_or_func \<Rightarrow> int \<Rightarrow> arg list \<Rightarrow> co_state \<Rightarrow> pending_call" where
  "made_call obj f delay args st =
     \<lparr>delta = 0, func = f, ob = (case f of Func_s _ \<Rightarrow> Some obj | Func_f _ \<Rightarrow> None), vs = args,
      command_giver = this_command_giver st,
      handle = c_int (int (slot_of (eff_delay delay + current_time st)) + 32 * c_int (unique st + 1))\<rparr>"

lemma new_call_out_frame:
  assumes "call_out_time st \<noteq> 0"
  shows "call_out_time (snd (new_call_out obj f delay args st)) = call_out_time st"
    and "current_time (snd (new_call_out obj f delay args st)) = current_time st"
    and "O_DESTRUCTED (snd (new_call_out obj f delay args st)) = O_DESTRUCTED st"
    and "this_command_giver (snd (new_call_out obj f delay args st)) = this_command_giver st"
    and "unique (snd (new_call_out obj f delay args st)) = c_int (unique st + 1)"
    and "fst (new_call_out obj f delay args st) = handle (made_call obj f delay args st)"
  using assms by (simp_all add: new_call_out_def Let_def made_call_def CALLOUT_CYCLE_SIZE_def)

lemma new_call_out_list:
  assumes "call_out_time st \<noteq> 0"
  shows "\<exists>cop. cop\<lparr>delta := 0\<rparr> = made_call obj f delay args st \<and>
    call_list (snd (new_call_out obj f delay args st)) =
      (call_list st)[slot_of (eff_delay delay + current_time st) :=
        insert_call (wheel_turns (eff_delay delay) (current_time st) (call_out_time st)) cop
          (call_list st ! slot_of (eff_delay delay + current_time st))]"
  by (rule exI [of _ "(made_call obj f delay args st)\<lparr>delta :=
        wheel_turns (eff_delay delay) (current_time st) (call_out_time st)\<rparr>"])
    (cases "call_list_free st = 0",
      simp_all add: assms new_call_out_def Let_def made_call_def CALLOUT_CYCLE_SIZE_def split del: if_split)

definition in_range :: "int \<Rightarrow> co_state \<Rightarrow> bool" where
  "in_range delay st \<longleftrightarrow> call_out_time st \<le> current_time st
     \<and> eff_delay delay + (current_time st - call_out_time st) \<le> 2 ^ 31"

text \<open>The tick a new call is due at while slot \<open>b\<close> is being worked on.\<close>

definition due_time :: "nat option \<Rightarrow> int \<Rightarrow> co_state \<Rightarrow> int" where
  "due_time b delay st = current_time st + eff_delay delay
     + (if b = Some (slot_of (current_time st + eff_delay delay)) then 32 else 0)"

lemma eff_delay_pos: "1 \<le> eff_delay delay"
  by simp

lemma new_call_out_sched:
  fixes delay st
  defines "tm \<equiv> slot_of (current_time st + eff_delay delay)"
  assumes w: "wheel_ok b st" and r: "in_range delay st" and st': "st' = snd (new_call_out obj f delay args st)"
  shows "wheel_ok b st'"
    and "i < 32 \<Longrightarrow> sched b st' i =
      (if i = tm then insert_due (due_time b delay st, made_call obj f delay args st) (sched b st i) else sched b st i)"
    and "mset (pending b st') = add_mset (due_time b delay st, made_call obj f delay args st) (mset (pending b st))"
proof -
  let ?now = "current_time st" and ?cot = "call_out_time st" and ?d = "eff_delay delay"
  have tm: "tm = slot_of (?d + ?now)" by (simp only: tm_def add.commute)
  from w have cot: "?cot \<noteq> 0" by (simp add: wheel_ok_def)
  let ?t = "wheel_turns ?d ?now ?cot"
  from new_call_out_list [OF cot, of obj f delay args] obtain cop where
    cop: "cop\<lparr>delta := 0\<rparr> = made_call obj f delay args st"
    and l: "call_list st' = (call_list st)[tm := insert_call ?t cop (call_list st ! tm)]"
    unfolding st' tm by blast
  have c: "call_out_time st' = ?cot" using new_call_out_frame(1) [OF cot] st' by simp
  have t: "?t = 1 + (?d + ?now - ?cot - 1) div 32"
    by (rule wheel_turns_eq) (use r eff_delay_pos in \<open>simp_all only: in_range_def\<close>)
  have "0 \<le> ?d + ?now - ?cot - 1" using r eff_delay_pos [of delay] unfolding in_range_def by linarith
  then have t1: "1 \<le> ?t" unfolding t by (simp add: pos_imp_zdiv_nonneg_iff)
  have ch: "chain_ok (if b = Some tm then 0 else 1) (insert_call ?t cop (call_list st ! tm))"
    by (rule chain_ok_insert) (use chain_okD [OF w, of tm] t1 in \<open>simp_all add: tm_def\<close>)
  show "wheel_ok b st'" by (rule wheel_ok_upd [OF w l c ch])
  have "turn b st tm - 32 + 32 * ?t = due_time b delay st"
    unfolding t turn_def due_time_def tm_def [symmetric]
    using next_turn_wheel_turns [of ?cot ?d ?now] unfolding tm by (simp only: algebra_simps split: if_split)
  then have d: "dues (turn b st tm - 32) (insert_call ?t cop (call_list st ! tm)) =
      insert_due (due_time b delay st, made_call obj f delay args st) (sched b st tm)"
    by (simp add: due_simps sched_def cop)
  show "i < 32 \<Longrightarrow> sched b st' i =
      (if i = tm then insert_due (due_time b delay st, made_call obj f delay args st) (sched b st i) else sched b st i)"
    using sched_upd [OF w l c, of i] d by simp
  have "tm < 32" by (simp add: tm_def)
  from mset_pending_upd [OF w l c this] d
  show "mset (pending b st') = add_mset (due_time b delay st, made_call obj f delay args st) (mset (pending b st))"
    by simp
qed

text \<open>Removing the first call that passes a test.\<close>

lemma remove_in_slot_None:
  "remove_in_slot P i st = None \<longleftrightarrow> (\<forall>c \<in> set (call_list st ! i). \<not> P c)"
  by (simp add: remove_in_slot_def unhook_first_None split: option.split) (metis not_None_eq unhook_first_None)

lemma no_match_dues: "blind P \<Longrightarrow> (\<forall>c \<in> set cs. \<not> P c) \<longleftrightarrow> (\<forall>x \<in> set (dues t cs). \<not> P (snd x))"
  by (induction cs arbitrary: t) (auto simp: blindD)

lemma remove_in_slot_sched:
  assumes "wheel_ok b st" "i < 32" "blind P" and r: "remove_in_slot P i st = Some (left, st')"
  shows "wheel_ok b st' \<and> call_out_time st' = call_out_time st \<and> current_time st' = current_time st
    \<and> O_DESTRUCTED st' = O_DESTRUCTED st
    \<and> find_first P 0 (call_list st ! i) \<noteq> None
    \<and> left = time_left i (the (find_first P 0 (call_list st ! i))) st
    \<and> (\<forall>j < 32. j \<noteq> i \<longrightarrow> sched b st' j = sched b st j)
    \<and> (\<exists>ys x zs. sched b st i = ys @ x # zs \<and> sched b st' i = ys @ zs \<and> P (snd x)
        \<and> (\<forall>y \<in> set ys. \<not> P (snd y))
        \<and> left = fst x - (if b = Some i then 32 else 0) - current_time st)"
proof -
  from r obtain delay cop chain where u: "unhook_first P 0 (call_list st ! i) = Some (delay, cop, chain)"
    and st': "st' = free_call cop (st\<lparr>call_list := (call_list st)[i := chain]\<rparr>)"
    and left: "left = time_left i delay st'"
    by (auto simp: remove_in_slot_def Let_def split: option.splits)
  have l: "call_list st' = (call_list st)[i := chain]" and c: "call_out_time st' = call_out_time st"
    and n: "current_time st' = current_time st" and d: "O_DESTRUCTED st' = O_DESTRUCTED st"
    by (simp_all add: st' free_call_def)
  have "chain_ok (if b = Some i then 0 else 1) chain"
    by (rule chain_ok_unhook [OF u chain_okD]) (use assms in simp_all)
  then have w: "wheel_ok b st'" by (rule wheel_ok_upd [OF assms(1) l c])
  note s = sched_upd [OF assms(1) l c]
  from unhook_first_Some [OF u assms(3), of "turn b st i - 32"] obtain ys zs where
    yz: "sched b st i = ys @ (turn b st i - 32 + 32 * delay, cop\<lparr>delta := 0\<rparr>) # zs"
    "dues (turn b st i - 32) chain = ys @ zs" "\<forall>y \<in> set ys. \<not> P (snd y)" "P cop"
    by (auto simp: sched_def)
  have tl: "left = next_turn (call_out_time st) i + 32 * (delay - 1) - current_time st"
    by (simp add: left time_left_due [OF assms(2)] c n)
  have "find_first P 0 (call_list st ! i) = Some delay" by (simp add: find_first_unhook u)
  moreover have "left = time_left i delay st" by (simp add: tl time_left_due [OF assms(2)])
  moreover have "\<exists>ys x zs. sched b st i = ys @ x # zs \<and> sched b st' i = ys @ zs \<and> P (snd x)
        \<and> (\<forall>y \<in> set ys. \<not> P (snd y))
        \<and> left = fst x - (if b = Some i then 32 else 0) - current_time st"
    using yz s [OF assms(2)] assms(3)
    by (intro exI [of _ ys] exI [of _ "(turn b st i - 32 + 32 * delay, cop\<lparr>delta := 0\<rparr>)"] exI [of _ zs])
      (simp add: tl turn_def blindD)
  ultimately show ?thesis using w c n d s by simp
qed

text \<open>
  What a removal did: nothing (no call passes the test) or the first call that passes it is gone,
  and the result is the time left until it was due.
\<close>

definition removed :: "nat option \<Rightarrow> (pending_call \<Rightarrow> bool) \<Rightarrow> co_state \<Rightarrow> int \<Rightarrow> co_state \<Rightarrow> bool" where
  "removed b P st left st' \<longleftrightarrow>
     (if \<forall>x \<in> set (pending b st). \<not> P (snd x) then left = - 1 \<and> st' = st
      else (\<exists>ys x zs. pending b st = ys @ x # zs \<and> pending b st' = ys @ zs \<and> P (snd x)
        \<and> (\<forall>y \<in> set ys. \<not> P (snd y)) \<and> (b = None \<longrightarrow> left = fst x - current_time st)))"

lemma upt_split_at: "i < 32 \<Longrightarrow> [0..<32] = [0..<i] @ i # [Suc i..<32]"
  using upt_add_eq_append [of 0 i "32 - i"] upt_conv_Cons [of i 32] by simp

lemma concat_slot_split:
  assumes "i < 32" and "\<forall>j < 32. j \<noteq> i \<longrightarrow> g j = f j"
  shows "\<exists>us vs. concat (map f slots) = us @ f i @ vs \<and> concat (map g slots) = us @ g i @ vs
    \<and> us = concat (map f [0..<i])"
proof -
  have "map g [0..<i] = map f [0..<i]" "map g [Suc i..<32] = map f [Suc i..<32]"
    using assms by (auto intro!: map_cong)
  then show ?thesis unfolding slots_upt upt_split_at [OF assms(1)] by (simp del: map_eq_conv)
qed

lemma remove_loop_first:
  assumes "\<forall>j \<in> set is. \<forall>c \<in> set (call_list st ! j). \<not> P c"
  shows "remove_loop P (is @ js) st = remove_loop P js st" "find_loop P (is @ js) st = find_loop P js st"
proof -
  have "remove_in_slot P j st = None" "find_first P 0 (call_list st ! j) = None" if "j \<in> set is" for j
    using assms that by (simp_all add: remove_in_slot_None find_first_unhook unhook_first_None)
  then show "remove_loop P (is @ js) st = remove_loop P js st" "find_loop P (is @ js) st = find_loop P js st"
    by (induction "is") auto
qed

lemma slot_match:
  assumes "blind P"
  shows "(\<forall>x \<in> set (sched b st i). \<not> P (snd x)) \<longleftrightarrow> (\<forall>c \<in> set (call_list st ! i). \<not> P c)"
  unfolding sched_def no_match_dues [OF assms, symmetric] ..

lemma remove_found:
  assumes w: "wheel_ok b st" and "blind P" and i: "i < 32"
    and before: "\<forall>j < i. \<forall>c \<in> set (call_list st ! j). \<not> P c"
    and r: "remove_in_slot P i st = Some (left, st')"
  shows "removed b P st left st'"
proof -
  note s = remove_in_slot_sched [OF w i assms(2) r]
  from s have "\<forall>j < 32. j \<noteq> i \<longrightarrow> sched b st' j = sched b st j" by blast
  from concat_slot_split [OF i this] obtain us vs where
    uv: "pending b st = us @ sched b st i @ vs" "pending b st' = us @ sched b st' i @ vs"
    "us = concat (map (sched b st) [0..<i])" by (auto simp: pending_def)
  from s obtain ys x zs where yz: "sched b st i = ys @ x # zs" "sched b st' i = ys @ zs" "P (snd x)"
    "\<forall>y \<in> set ys. \<not> P (snd y)" "left = fst x - (if b = Some i then 32 else 0) - current_time st" by blast
  have "\<forall>y \<in> set us. \<not> P (snd y)"
    using before slot_match [OF assms(2), of b st] by (auto simp: uv(3))
  then have ex: "\<exists>ys x zs. pending b st = ys @ x # zs \<and> pending b st' = ys @ zs \<and> P (snd x)
      \<and> (\<forall>y \<in> set ys. \<not> P (snd y)) \<and> (b = None \<longrightarrow> left = fst x - current_time st)"
    using uv yz by (intro exI [of _ "us @ ys"] exI [of _ x] exI [of _ "zs @ vs"]) auto
  have "\<not> (\<forall>x \<in> set (pending b st). \<not> P (snd x))" using uv yz by auto
  from if_not_P [THEN iffD2, OF this ex] show ?thesis unfolding removed_def .
qed

lemma remove_loop_removed:
  assumes w: "wheel_ok b st" and bl: "blind P"
  shows "removed b P st (fst (remove_loop P slots st)) (snd (remove_loop P slots st))
    \<and> find_loop P slots st = fst (remove_loop P slots st)
    \<and> wheel_ok b (snd (remove_loop P slots st))
    \<and> call_out_time (snd (remove_loop P slots st)) = call_out_time st
    \<and> current_time (snd (remove_loop P slots st)) = current_time st
    \<and> O_DESTRUCTED (snd (remove_loop P slots st)) = O_DESTRUCTED st"
proof (cases "\<exists>i < 32. \<exists>c \<in> set (call_list st ! i). P c")
  case False
  then have n: "\<forall>j \<in> set slots. \<forall>c \<in> set (call_list st ! j). \<not> P c" by (auto simp: slots_upt)
  have "\<forall>x \<in> set (pending b st). \<not> P (snd x)"
    using n slot_match [OF bl, of b st] unfolding pending_def set_concat set_map by blast
  then have rm: "removed b P st (- 1) st" unfolding removed_def by (rule if_P [THEN iffD2]) simp
  have "remove_loop P slots st = (- 1, st)" "find_loop P slots st = - 1"
    using remove_loop_first [OF n, of "[]"] by (simp_all only: append_Nil2 remove_loop.simps find_loop.simps)
  then show ?thesis by (simp only: fst_conv snd_conv rm w simp_thms)
next
  case True
  define i where "i = (LEAST i. \<exists>c \<in> set (call_list st ! i). P c)"
  from True obtain k where k: "k < 32" "\<exists>c \<in> set (call_list st ! k). P c" by blast
  have i: "\<exists>c \<in> set (call_list st ! i). P c" unfolding i_def using k(2) by (rule LeastI)
  have "i \<le> k" unfolding i_def using k(2) by (rule Least_le)
  with k have i32: "i < 32" by simp
  have before: "\<forall>j < i. \<forall>c \<in> set (call_list st ! j). \<not> P c"
    unfolding i_def by (auto dest: not_less_Least)
  from i obtain left st' where r: "remove_in_slot P i st = Some (left, st')"
    using remove_in_slot_None [of P i st] by auto
  note s = remove_in_slot_sched [OF w i32 bl r]
  have b': "\<forall>j \<in> set [0..<i]. \<forall>c \<in> set (call_list st ! j). \<not> P c" using before by auto
  have "remove_loop P slots st = (left, st')" "find_loop P slots st = left"
    unfolding slots_upt upt_split_at [OF i32] remove_loop_first [OF b'] using r s by auto
  with s remove_found [OF w bl i32 before r] show ?thesis by simp
qed

lemma fold_free_frame [simp]:
  "call_list (fold free_call cs st) = call_list st" "call_out_time (fold free_call cs st) = call_out_time st"
  "current_time (fold free_call cs st) = current_time st" "O_DESTRUCTED (fold free_call cs st) = O_DESTRUCTED st"
  "fp_owner (fold free_call cs st) = fp_owner st"
  by (induction cs arbitrary: st) (simp_all add: free_call_def)

definition same_world :: "co_state \<Rightarrow> co_state \<Rightarrow> bool" where
  "same_world st st' \<longleftrightarrow> call_out_time st' = call_out_time st \<and> current_time st' = current_time st
     \<and> O_DESTRUCTED st' = O_DESTRUCTED st"

lemma belongs_cong:
  "O_DESTRUCTED st' = O_DESTRUCTED st \<Longrightarrow> fp_owner st' = fp_owner st \<Longrightarrow> belongs st' = belongs st"
  by (simp add: belongs_def fun_eq_iff cong: option.case_cong string_or_func.case_cong)

lemma remove_all_in_slot_sched:
  assumes w: "wheel_ok b st" and i: "i < 32"
  shows "wheel_ok b (remove_all_in_slot obj i st) \<and> same_world st (remove_all_in_slot obj i st)
    \<and> fp_owner (remove_all_in_slot obj i st) = fp_owner st
    \<and> (\<forall>j < 32. sched b (remove_all_in_slot obj i st) j =
        (if j = i then filter (\<lambda>x. \<not> belongs st obj (snd x)) (sched b st j) else sched b st j))"
proof -
  let ?st' = "remove_all_in_slot obj i st" and ?B = "belongs st obj"
  have l: "call_list ?st' = (call_list st)[i := snd (sweep ?B (call_list st ! i))]"
    and c: "call_out_time ?st' = call_out_time st"
    and o: "same_world st ?st'" "fp_owner ?st' = fp_owner st"
    by (simp_all add: remove_all_in_slot_def case_prod_beta same_world_def)
  have "chain_ok (if b = Some i then 0 else 1) (snd (sweep ?B (call_list st ! i)))"
    by (rule chain_ok_sweep [OF chain_okD [OF w i]]) simp
  from wheel_ok_upd [OF w l c this] sched_upd [OF w l c] o show ?thesis
    by (simp add: due_simps sched_def)
qed

lemma remove_all_slots:
  assumes "wheel_ok b st" "\<forall>i \<in> set is. i < 32" "distinct is"
  shows "wheel_ok b (fold (remove_all_in_slot obj) is st) \<and> same_world st (fold (remove_all_in_slot obj) is st)
    \<and> fp_owner (fold (remove_all_in_slot obj) is st) = fp_owner st
    \<and> (\<forall>j < 32. sched b (fold (remove_all_in_slot obj) is st) j =
        (if j \<in> set is then filter (\<lambda>x. \<not> belongs st obj (snd x)) (sched b st j) else sched b st j))"
  using assms
proof (induction "is" arbitrary: st)
  case (Cons i js)
  let ?st' = "remove_all_in_slot obj i st"
  have i: "i < 32" and js: "\<forall>j \<in> set js. j < 32" "distinct js" "i \<notin> set js" using Cons.prems by auto
  note s = remove_all_in_slot_sched [OF Cons.prems(1) i, of obj]
  then have w': "wheel_ok b ?st'" by blast
  have be: "belongs ?st' = belongs st" by (rule belongs_cong) (use s in \<open>simp_all add: same_world_def\<close>)
  note r = Cons.IH [OF w' js(1,2)]
  have "sched b (fold (remove_all_in_slot obj) js ?st') j =
     (if j = i \<or> j \<in> set js then filter (\<lambda>x. \<not> belongs st obj (snd x)) (sched b st j) else sched b st j)"
    if "j < 32" for j using r s that js(3) by (simp add: be)
  with r s show ?case by (simp add: same_world_def)
qed (simp add: same_world_def)

lemma remove_all_sched:
  assumes "wheel_ok b st"
  shows "wheel_ok b (remove_all_call_out obj st) \<and> same_world st (remove_all_call_out obj st)
    \<and> pending b (remove_all_call_out obj st) = filter (\<lambda>x. \<not> belongs st obj (snd x)) (pending b st)"
proof -
  note r = remove_all_slots [OF assms, of slots obj]
  then have s: "\<forall>j < 32. sched b (remove_all_call_out obj st) j =
      filter (\<lambda>x. \<not> belongs st obj (snd x)) (sched b st j)"
    by (simp add: remove_all_call_out_def slots_upt)
  have "concat (map (sched b (remove_all_call_out obj st)) js) =
      filter (\<lambda>x. \<not> belongs st obj (snd x)) (concat (map (sched b st) js))" if "\<forall>j \<in> set js. j < 32" for js
    using that s by (induction js) auto
  from this [of slots] r show ?thesis by (simp add: remove_all_call_out_def pending_def slots_upt)
qed

section \<open>Callbacks\<close>

text \<open>
  What commands do to the schedule: they add calls (\<open>N\<close>, each due after the current time)
  and may take some out. \<open>Q\<close> says what is added; with \<open>add\<close> nothing is taken out.
\<close>

definition evolves :: "bool \<Rightarrow> bool \<Rightarrow> nat option \<Rightarrow> co_state \<Rightarrow> co_state \<Rightarrow> bool" where
  "evolves add quiet b st st' \<longleftrightarrow>
     (\<exists>N. (\<forall>x \<in># N. \<not> quiet \<and> current_time st < fst x)
        \<and> (if add then mset (pending b st') = mset (pending b st) + N
           else mset (pending b st') \<subseteq># mset (pending b st) + N))
     \<and> (add \<longrightarrow> O_DESTRUCTED st' = O_DESTRUCTED st)
     \<and> call_out_time st' = call_out_time st \<and> current_time st' = current_time st"

lemma evolves_same:
  "pending b st' = pending b st \<Longrightarrow> same_world st st' \<Longrightarrow> evolves add quiet b st st'"
  by (auto simp: evolves_def same_world_def intro!: exI [of _ "{#}"])

lemma evolves_trans:
  assumes "evolves add quiet b st st'" "evolves add quiet b st' st''"
  shows "evolves add quiet b st st''"
proof -
  from assms(1) obtain N where N: "\<forall>x \<in># N. \<not> quiet \<and> current_time st < fst x"
    "if add then mset (pending b st') = mset (pending b st) + N
     else mset (pending b st') \<subseteq># mset (pending b st) + N" unfolding evolves_def by blast
  from assms(2) obtain M where M: "\<forall>x \<in># M. \<not> quiet \<and> current_time st' < fst x"
    "if add then mset (pending b st'') = mset (pending b st') + M
     else mset (pending b st'') \<subseteq># mset (pending b st') + M" unfolding evolves_def by blast
  have eq: "current_time st' = current_time st" using assms(1) by (simp add: evolves_def)
  have "\<forall>x \<in># N + M. \<not> quiet \<and> current_time st < fst x" using N(1) M(1) eq by auto
  moreover have "if add then mset (pending b st'') = mset (pending b st) + (N + M)
     else mset (pending b st'') \<subseteq># mset (pending b st) + (N + M)"
  proof (cases add)
    case True
    with N(2) M(2) show ?thesis by (simp add: ac_simps)
  next
    case False
    with N(2) have "mset (pending b st') + M \<subseteq># mset (pending b st) + N + M" by (simp add: subset_mset.add_right_mono)
    moreover have "mset (pending b st'') \<subseteq># mset (pending b st') + M" using M(2) False by simp
    ultimately have "mset (pending b st'') \<subseteq># mset (pending b st) + N + M" by (rule subset_mset.order_trans [rotated])
    with False show ?thesis by (simp add: add.assoc)
  qed
  moreover have "(add \<longrightarrow> O_DESTRUCTED st'' = O_DESTRUCTED st) \<and> call_out_time st'' = call_out_time st
     \<and> current_time st'' = current_time st"
    using assms by (simp add: evolves_def)
  ultimately show ?thesis unfolding evolves_def by blast
qed

definition additive :: "cmd \<Rightarrow> bool" where
  "additive c \<longleftrightarrow> (case c of Call_out _ _ _ _ \<Rightarrow> True | _ \<Rightarrow> False)"

text \<open>Delays that do not overflow whatever the lag of the clock (below \<open>2 ^ 30\<close> seconds).\<close>

definition moderate :: "cmd \<Rightarrow> bool" where
  "moderate c \<longleftrightarrow> (case c of Call_out _ _ delay _ \<Rightarrow> delay \<le> 2 ^ 30 | _ \<Rightarrow> True)"

definition lag_ok :: "co_state \<Rightarrow> bool" where
  "lag_ok st \<longleftrightarrow> call_out_time st \<le> current_time st \<and> current_time st - call_out_time st \<le> 2 ^ 30"

lemma removed_subseteq: "removed b P st left st' \<Longrightarrow> mset (pending b st') \<subseteq># mset (pending b st)"
  by (auto simp: removed_def split: if_splits)

lemma exec_cmd_evolves:
  assumes w: "wheel_ok b st" and m: "moderate c" and l: "lag_ok st" and a: "add \<Longrightarrow> additive c"
  shows "wheel_ok b (exec_cmd c st) \<and> evolves add False b st (exec_cmd c st)"
proof -
  have sub: "evolves add False b st st'"
    if "mset (pending b st') \<subseteq># mset (pending b st)" "\<not> add"
      "call_out_time st' = call_out_time st" "current_time st' = current_time st" for st'
    using that by (auto simp: evolves_def intro!: exI [of _ "{#}"])
  show ?thesis
  proof (cases c)
    case (Call_out obj f delay args)
    show ?thesis
    proof (cases "O_DESTRUCTED st obj")
      case True
      with w Call_out show ?thesis by (simp add: f_call_out_def evolves_same same_world_def)
    next
      case False
      let ?st' = "snd (new_call_out obj f delay args st)"
      have r: "in_range delay st" using m l Call_out by (auto simp: in_range_def moderate_def lag_ok_def)
      note n = new_call_out_sched [OF w r refl]
      have cot: "call_out_time st \<noteq> 0" using w by (simp add: wheel_ok_def)
      have "current_time st < due_time b delay st" using eff_delay_pos [of delay] by (simp add: due_time_def)
      then have "evolves add False b st ?st'"
        using n(3) new_call_out_frame [OF cot]
        by (auto simp: evolves_def intro!: exI [of _ "{#(due_time b delay st, made_call obj f delay args st)#}"])
      with n(1) False Call_out show ?thesis by (simp add: f_call_out_def)
    qed
  next
    case (Remove_call_out obj fn)
    then have na: "\<not> add" using a by (auto simp: additive_def)
    note r = remove_loop_removed [OF w blind_tests(1), of obj fn]
    then have "removed b (calls obj fn) st (fst (remove_loop (calls obj fn) slots st))
      (snd (remove_loop (calls obj fn) slots st))" by blast
    from sub [OF removed_subseteq [OF this] na] r Remove_call_out show ?thesis
      by (simp add: remove_call_out_def)
  next
    case (Remove_call_out_handle h)
    show ?thesis
    proof (cases "remove_in_slot (\<lambda>c. handle c = h) (slot_of h) st")
      case None
      with w Remove_call_out_handle show ?thesis
        by (simp add: remove_call_out_by_handle_def evolves_same same_world_def)
    next
      case (Some r)
      obtain left st' where r: "r = (left, st')" by fastforce
      note s = remove_in_slot_sched [OF w slot_of_less blind_tests(2) Some [unfolded r]]
      then have "\<forall>j < 32. j \<noteq> slot_of h \<longrightarrow> sched b st' j = sched b st j" by blast
      from concat_slot_split [OF slot_of_less this] obtain us vs where
        "pending b st = us @ sched b st (slot_of h) @ vs" "pending b st' = us @ sched b st' (slot_of h) @ vs"
        by (auto simp: pending_def)
      moreover from s obtain ys x zs where "sched b st (slot_of h) = ys @ x # zs" "sched b st' (slot_of h) = ys @ zs"
        by blast
      ultimately have "mset (pending b st') \<subseteq># mset (pending b st)" by simp
      moreover have "\<not> add" using a Remove_call_out_handle by (auto simp: additive_def)
      moreover have "wheel_ok b st'" "call_out_time st' = call_out_time st" "current_time st' = current_time st"
        using s by blast+
      moreover have "exec_cmd c st = st'" using Some r Remove_call_out_handle by (simp add: remove_call_out_by_handle_def)
      ultimately show ?thesis using sub by blast
    qed
  next
    case (Remove_call_outs obj)
    then have na: "\<not> add" using a by (auto simp: additive_def)
    let ?st' = "remove_all_call_out obj st"
    note r = remove_all_sched [OF w, of obj]
    then have "mset (pending b ?st') \<subseteq># mset (pending b st)" by simp
    from sub [OF this na] r Remove_call_outs show ?thesis by (simp add: same_world_def)
  next
    case (Destruct obj)
    let ?st' = "st\<lparr>O_DESTRUCTED := (O_DESTRUCTED st)(obj := True)\<rparr>"
    have "pending b ?st' = pending b st" "wheel_ok b ?st' = wheel_ok b st"
      by (simp_all add: pending_cong [of ?st' st] wheel_ok_cong [of ?st' st])
    moreover from Destruct a have "\<not> add" by (auto simp: additive_def)
    ultimately show ?thesis using sub [of ?st'] w Destruct by simp
  qed
qed

definition script_ok :: "bool \<Rightarrow> bool \<Rightarrow> script \<Rightarrow> bool" where
  "script_ok add quiet script \<longleftrightarrow>
     (\<forall>e st. \<forall>c \<in> set (script e st). moderate c \<and> (add \<longrightarrow> additive c) \<and> \<not> quiet)"

lemma exec_cmds_evolve:
  assumes "\<forall>c \<in> set cs. moderate c \<and> (add \<longrightarrow> additive c) \<and> \<not> quiet" "wheel_ok b st" "lag_ok st"
  shows "wheel_ok b (fold exec_cmd cs st) \<and> evolves add quiet b st (fold exec_cmd cs st)"
  using assms
proof (induction cs arbitrary: st)
  case (Cons c cs)
  then have q: "quiet = False" by simp
  have "wheel_ok b (exec_cmd c st) \<and> evolves add False b st (exec_cmd c st)"
    by (rule exec_cmd_evolves) (use Cons.prems in auto)
  moreover from this have "lag_ok (exec_cmd c st)" using Cons.prems(3) by (simp add: evolves_def lag_ok_def)
  ultimately show ?case using Cons evolves_trans [of add False b st "exec_cmd c st"] unfolding q by simp
qed (simp add: evolves_same same_world_def)

definition runs :: "(nat \<Rightarrow> bool) \<Rightarrow> pending_call \<Rightarrow> bool" where
  "runs destructed c \<longleftrightarrow> \<not> illegal_name c \<and> (case ob c of Some p \<Rightarrow> \<not> destructed p | None \<Rightarrow> True)"

definition log :: "fired list \<Rightarrow> (int \<times> pending_call) multiset" where
  "log evs = mset (map (\<lambda>e. (at e, call e)) evs)"

lemma log_simps [simp]: "log [] = {#}" "log (e # evs) = add_mset (at e, call e) (log evs)"
  "log (evs @ evs') = log evs + log evs'"
  by (simp_all add: log_def)

text \<open>
  What running calls does to the schedule: calls \<open>evs\<close> are made and calls \<open>D\<close> dropped
  (their object is destructed or the name illegal), all due by now; calls \<open>N\<close> are added.
\<close>

definition progress :: "bool \<Rightarrow> bool \<Rightarrow> nat option \<Rightarrow> nat option \<Rightarrow> co_state \<Rightarrow> fired list \<Rightarrow> co_state \<Rightarrow> bool" where
  "progress add quiet b b' st evs st' \<longleftrightarrow>
     (\<exists>N D. (\<forall>x \<in># N. \<not> quiet \<and> current_time st < fst x)
        \<and> (\<forall>x \<in># log evs + D. fst x \<le> current_time st)
        \<and> (add \<longrightarrow> (\<forall>x \<in># D. \<not> runs (O_DESTRUCTED st) (snd x))
             \<and> (\<forall>x \<in># log evs. runs (O_DESTRUCTED st) (snd x)))
        \<and> (if add then log evs + D + mset (pending b' st') = mset (pending b st) + N
           else log evs + D + mset (pending b' st') \<subseteq># mset (pending b st) + N))
     \<and> (add \<longrightarrow> O_DESTRUCTED st' = O_DESTRUCTED st) \<and> current_time st' = current_time st"

lemma progress_trans:
  assumes "progress add quiet b b' st evs st'" "progress add quiet b' b'' st' evs' st''"
  shows "progress add quiet b b'' st (evs @ evs') st''"
proof -
  let ?p = "\<lambda>b st. mset (pending b st)"
  have eq: "current_time st' = current_time st" "add \<longrightarrow> O_DESTRUCTED st' = O_DESTRUCTED st"
    using assms(1) by (simp_all add: progress_def)
  from assms(1) obtain N D where 1: "\<forall>x \<in># N. \<not> quiet \<and> current_time st < fst x"
    "\<forall>x \<in># log evs + D. fst x \<le> current_time st"
    "add \<longrightarrow> (\<forall>x \<in># D. \<not> runs (O_DESTRUCTED st) (snd x)) \<and> (\<forall>x \<in># log evs. runs (O_DESTRUCTED st) (snd x))"
    "if add then log evs + D + ?p b' st' = ?p b st + N else log evs + D + ?p b' st' \<subseteq># ?p b st + N"
    unfolding progress_def by blast
  from assms(2) obtain M E where 2: "\<forall>x \<in># M. \<not> quiet \<and> current_time st < fst x"
    "\<forall>x \<in># log evs' + E. fst x \<le> current_time st"
    "add \<longrightarrow> (\<forall>x \<in># E. \<not> runs (O_DESTRUCTED st) (snd x)) \<and> (\<forall>x \<in># log evs'. runs (O_DESTRUCTED st) (snd x))"
    "if add then log evs' + E + ?p b'' st'' = ?p b' st' + M else log evs' + E + ?p b'' st'' \<subseteq># ?p b' st' + M"
    unfolding progress_def eq(1) using eq(2) by auto
  have "\<forall>x \<in># N + M. \<not> quiet \<and> current_time st < fst x" using 1(1) 2(1) by auto
  moreover have "\<forall>x \<in># log (evs @ evs') + (D + E). fst x \<le> current_time st" using 1(2) 2(2) by auto
  moreover have "add \<longrightarrow> (\<forall>x \<in># D + E. \<not> runs (O_DESTRUCTED st) (snd x))
      \<and> (\<forall>x \<in># log (evs @ evs'). runs (O_DESTRUCTED st) (snd x))" using 1(3) 2(3) by auto
  moreover have "if add then log (evs @ evs') + (D + E) + ?p b'' st'' = ?p b st + (N + M)
      else log (evs @ evs') + (D + E) + ?p b'' st'' \<subseteq># ?p b st + (N + M)"
  proof (cases add)
    case True
    have "log (evs @ evs') + (D + E) + ?p b'' st'' = log evs + D + (log evs' + E + ?p b'' st'')" by (simp add: ac_simps)
    also have "\<dots> = log evs + D + ?p b' st' + M" using 2(4) True by (simp add: ac_simps)
    also have "\<dots> = ?p b st + (N + M)" using 1(4) True by (simp add: ac_simps)
    finally show ?thesis using True by simp
  next
    case False
    have "log (evs @ evs') + (D + E) + ?p b'' st'' = log evs + D + (log evs' + E + ?p b'' st'')" by (simp add: ac_simps)
    also have "\<dots> \<subseteq># log evs + D + (?p b' st' + M)"
      using 2(4) False by (intro subset_mset.add_left_mono) simp
    also have "\<dots> = log evs + D + ?p b' st' + M" by (simp add: ac_simps)
    also have "\<dots> \<subseteq># ?p b st + N + M"
      using 1(4) False by (intro subset_mset.add_right_mono) simp
    finally show ?thesis using False by (simp add: ac_simps)
  qed
  moreover have "(add \<longrightarrow> O_DESTRUCTED st'' = O_DESTRUCTED st) \<and> current_time st'' = current_time st"
    using assms by (simp add: progress_def)
  ultimately show ?thesis unfolding progress_def by blast
qed

lemma evolves_progress:
  assumes "evolves add quiet b st st'"
  shows "progress add quiet b b st [] st'"
proof -
  from assms obtain N where N: "\<forall>x \<in># N. \<not> quiet \<and> current_time st < fst x"
    "if add then mset (pending b st') = mset (pending b st) + N
     else mset (pending b st') \<subseteq># mset (pending b st) + N" unfolding evolves_def by blast
  with assms show ?thesis unfolding progress_def evolves_def
    by (intro conjI exI [of _ N] exI [of _ "{#}"]) simp_all
qed

lemma progress_same:
  assumes "pending b' st' = pending b st" "current_time st' = current_time st" "O_DESTRUCTED st' = O_DESTRUCTED st"
  shows "progress add quiet b b' st [] st'"
  unfolding progress_def using assms by (intro conjI exI [of _ "{#}"]) simp_all

definition is_dead :: "co_state \<Rightarrow> pending_call \<Rightarrow> bool" where
  "is_dead st c \<longleftrightarrow> (case ob c of Some p \<Rightarrow> O_DESTRUCTED st p | None \<Rightarrow> False)"

lemma runs_dead: "runs (O_DESTRUCTED st) c \<longleftrightarrow> \<not> illegal_name c \<and> \<not> is_dead st c"
  by (simp add: runs_def is_dead_def split: option.split)

text \<open>The state in which the called function runs, and the event it sees.\<close>

definition popped :: "nat \<Rightarrow> pending_call \<Rightarrow> pending_call list \<Rightarrow> co_state \<Rightarrow> co_state" where
  "popped tm c rest st = (let st = st\<lparr>call_list := (call_list st)[tm := rest]\<rparr> in
     st\<lparr>cop_static := Some c, this_command_giver := giver_for st c\<rparr>)"

definition event :: "nat \<Rightarrow> pending_call \<Rightarrow> pending_call list \<Rightarrow> co_state \<Rightarrow> fired" where
  "event tm c rest st = \<lparr>at = call_out_time st + 1, call = c,
     giver = this_command_giver (popped tm c rest st), actual = map (live_arg st) (vs c)\<rparr>"

lemma run_first_cases:
  assumes "call_list st ! tm = c # rest"
  shows "run_first script tm st =
    (if is_dead st c then ([], free_called_call c (st\<lparr>call_list := (call_list st)[tm := rest]\<rparr>))
     else if illegal_name c then ([], (free_called_call c (popped tm c rest st))\<lparr>cop_static := None\<rparr>)
     else ([event tm c rest st], (free_called_call c
        (fold exec_cmd (script (event tm c rest st) (popped tm c rest st)) (popped tm c rest st)))\<lparr>cop_static := None\<rparr>))"
proof -
  have "live_arg (st\<lparr>call_list := x, cop_static := y, this_command_giver := z\<rparr>) = live_arg st" for x y z
    by (simp add: live_arg_def fun_eq_iff split: arg.split)
  then show ?thesis using assms
    by (simp add: run_first_def Let_def is_dead_def free_call_def popped_def event_def cong: option.case_cong)
qed

lemma popped_frame [simp]:
  "call_list (popped tm c rest st) = (call_list st)[tm := rest]"
  "call_out_time (popped tm c rest st) = call_out_time st"
  "current_time (popped tm c rest st) = current_time st"
  "O_DESTRUCTED (popped tm c rest st) = O_DESTRUCTED st"
  by (simp_all add: popped_def Let_def)

lemma run_first_progress:
  assumes w: "wheel_ok (Some tm) st" and l: "lag_ok st" and tm: "tm = slot_of (call_out_time st + 1)"
    and due: "head_due tm st" and ok: "script_ok add quiet script" and lt: "call_out_time st < current_time st"
    and r: "run_first script tm st = (evs, st')"
  shows "wheel_ok (Some tm) st' \<and> progress add quiet (Some tm) (Some tm) st evs st'
    \<and> call_out_time st' = call_out_time st \<and> (\<forall>e \<in> set evs. at e = call_out_time st + 1)
    \<and> count (image_mset fst (mset (pending (Some tm) st'))) (call_out_time st + 1)
       < count (image_mset fst (mset (pending (Some tm) st))) (call_out_time st + 1)"
proof -
  let ?T = "call_out_time st + 1" and ?b = "Some tm"
  let ?n = "\<lambda>st. count (image_mset fst (mset (pending ?b st))) ?T"
  from due obtain c rest where c: "call_list st ! tm = c # rest" "delta c = 0"
    by (auto simp: head_due_def split: list.splits)
  have tm32: "tm < 32" by (simp add: tm)
  define st1 where "st1 = st\<lparr>call_list := (call_list st)[tm := rest]\<rparr>"
  have l1: "call_list st1 = (call_list st)[tm := rest]" "call_out_time st1 = call_out_time st"
    "current_time st1 = current_time st" "O_DESTRUCTED st1 = O_DESTRUCTED st" by (simp_all add: st1_def)
  have "chain_ok 0 rest" using chain_okD [OF w tm32] c by (cases rest) auto
  then have w1: "wheel_ok ?b st1" by (intro wheel_ok_upd [OF w l1(1,2)]) simp
  have t: "turn ?b st tm - 32 = ?T" by (simp add: turn_def tm)
  have "sched ?b st tm = (?T, c) # dues ?T rest" unfolding sched_def c(1) t by (simp add: c(2))
  then have p1: "mset (pending ?b st) = add_mset (?T, c) (mset (pending ?b st1))"
    using mset_pending_upd [OF w l1(1,2) tm32] t by simp
  then have n1: "?n st = Suc (?n st1)" by simp
  have drop: "wheel_ok ?b st'' \<and> progress add quiet ?b ?b st [] st'' \<and> call_out_time st'' = call_out_time st \<and> ?n st'' < ?n st"
    if "call_list st'' = call_list st1" "call_out_time st'' = call_out_time st" "current_time st'' = current_time st"
      "O_DESTRUCTED st'' = O_DESTRUCTED st" "\<not> runs (O_DESTRUCTED st) c" for st''
  proof -
    have "pending ?b st'' = pending ?b st1" "wheel_ok ?b st''"
      using that w1 l1 by (simp_all add: pending_cong [of st'' st1] wheel_ok_cong [of st'' st1])
    moreover from this have "progress add quiet ?b ?b st [] st''" unfolding progress_def
      using that p1 lt by (intro conjI exI [of _ "{#}"] exI [of _ "{#(?T, c)#}"]) auto
    ultimately show ?thesis using n1 that by simp
  qed
  consider "is_dead st c" | "\<not> is_dead st c" "illegal_name c" | "\<not> is_dead st c" "\<not> illegal_name c" by blast
  then show ?thesis
  proof cases
    case 1
    with r have "evs = []" "st' = free_called_call c st1" by (simp_all add: run_first_cases [OF c(1)] st1_def)
    moreover from this have "wheel_ok ?b st' \<and> progress add quiet ?b ?b st [] st'
      \<and> call_out_time st' = call_out_time st \<and> ?n st' < ?n st"
      using 1 l1 by (intro drop) (simp_all add: runs_dead)
    ultimately show ?thesis by simp
  next
    case 2
    with r have "evs = []" "st' = (free_called_call c (popped tm c rest st))\<lparr>cop_static := None\<rparr>"
      by (simp_all add: run_first_cases [OF c(1)])
    moreover from this have "wheel_ok ?b st' \<and> progress add quiet ?b ?b st [] st'
      \<and> call_out_time st' = call_out_time st \<and> ?n st' < ?n st"
      using 2 l1 by (intro drop) (simp_all add: runs_dead)
    ultimately show ?thesis by simp
  next
    case 3
    let ?e = "event tm c rest st" and ?s = "popped tm c rest st"
    let ?cs = "script ?e ?s"
    from 3 r have evs: "evs = [?e]" and st': "st' = (free_called_call c (fold exec_cmd ?cs ?s))\<lparr>cop_static := None\<rparr>"
      by (simp_all add: run_first_cases [OF c(1)])
    have s: "call_list ?s = call_list st1" "call_out_time ?s = call_out_time st" "current_time ?s = current_time st"
      "O_DESTRUCTED ?s = O_DESTRUCTED st" by (simp_all add: st1_def)
    have ps: "pending ?b ?s = pending ?b st1" "wheel_ok ?b ?s" "lag_ok ?s"
      using s l1 w1 l by (simp_all add: pending_cong [of ?s st1] wheel_ok_cong [of ?s st1] lag_ok_def)
    have "\<forall>c \<in> set ?cs. moderate c \<and> (add \<longrightarrow> additive c) \<and> \<not> quiet" using ok by (simp add: script_ok_def)
    from exec_cmds_evolve [OF this ps(2,3)]
    have e: "wheel_ok ?b (fold exec_cmd ?cs ?s)" "evolves add quiet ?b ?s (fold exec_cmd ?cs ?s)" by auto
    have f: "call_list st' = call_list (fold exec_cmd ?cs ?s)" "call_out_time st' = call_out_time (fold exec_cmd ?cs ?s)"
      by (simp_all add: st')
    have p': "pending ?b st' = pending ?b (fold exec_cmd ?cs ?s)" "wheel_ok ?b st'"
      using pending_cong [OF f] wheel_ok_cong [OF f] e(1) by simp_all
    have w': "call_out_time st' = call_out_time st" "current_time st' = current_time st"
      "add \<longrightarrow> O_DESTRUCTED st' = O_DESTRUCTED st" using e(2) s by (simp_all add: evolves_def st')
    from e(2) obtain N where N: "\<forall>x \<in># N. \<not> quiet \<and> current_time st < fst x"
      "if add then mset (pending ?b st') = mset (pending ?b st1) + N
       else mset (pending ?b st') \<subseteq># mset (pending ?b st1) + N"
      unfolding evolves_def p' s ps(1) by blast
    have lg: "log evs = {#(?T, c)#}" by (simp add: evs event_def)
    have "progress add quiet ?b ?b st evs st'" unfolding progress_def
      using N w' lg p1 lt 3 by (intro conjI exI [of _ N] exI [of _ "{#}"]) (auto simp: runs_dead)
    moreover have "?n st' \<le> ?n st1"
    proof -
      have "mset (pending ?b st') \<subseteq># mset (pending ?b st1) + N" using N(2) by (simp split: if_splits)
      then have "?n st' \<le> count (image_mset fst (mset (pending ?b st1) + N)) ?T"
        by (intro mset_subset_eq_count image_mset_subseteq_mono)
      moreover have "count (image_mset fst N) ?T = 0" using N(1) lt by (force simp: count_eq_zero_iff)
      ultimately show ?thesis by simp
    qed
    ultimately show ?thesis using p'(2) w'(1) n1 evs by (simp add: event_def)
  qed
qed

lemma run_slot_progress:
  assumes "wheel_ok (Some tm) st" "lag_ok st" "tm = slot_of (call_out_time st + 1)"
    "head_due tm st" "script_ok add quiet script" "call_out_time st < current_time st"
  shows "\<exists>evs st'. run_slot script tm st = Some (evs, st') \<and> wheel_ok (Some tm) st' \<and> \<not> head_due tm st'
    \<and> progress add quiet (Some tm) (Some tm) st evs st'
    \<and> call_out_time st' = call_out_time st \<and> (\<forall>e \<in> set evs. at e = call_out_time st + 1)"
  using assms
proof (induction "count (image_mset fst (mset (pending (Some tm) st))) (call_out_time st + 1)"
    arbitrary: st rule: less_induct)
  case less
  obtain evs st1 where r: "run_first script tm st = (evs, st1)" by fastforce
  note f = run_first_progress [OF less.prems(1-6) r]
  then have c1: "call_out_time st1 = call_out_time st" "current_time st1 = current_time st"
    by (simp_all add: progress_def)
  show ?case
  proof (cases "head_due tm st1")
    case False
    with r f show ?thesis by (simp add: run_slot.simps [of script tm st])
  next
    case True
    have "\<exists>evs' st'. run_slot script tm st1 = Some (evs', st') \<and> wheel_ok (Some tm) st' \<and> \<not> head_due tm st'
      \<and> progress add quiet (Some tm) (Some tm) st1 evs' st'
      \<and> call_out_time st' = call_out_time st1 \<and> (\<forall>e \<in> set evs'. at e = call_out_time st1 + 1)"
      by (rule less.hyps) (use f c1 less.prems True in \<open>simp_all add: lag_ok_def\<close>)
    then obtain evs' st' where s: "run_slot script tm st1 = Some (evs', st')" "wheel_ok (Some tm) st'"
      "\<not> head_due tm st'" "progress add quiet (Some tm) (Some tm) st1 evs' st'"
      "call_out_time st' = call_out_time st1" "\<forall>e \<in> set evs'. at e = call_out_time st1 + 1" by blast
    from f have "progress add quiet (Some tm) (Some tm) st evs st1" by blast
    from progress_trans [OF this s(4)] have "progress add quiet (Some tm) (Some tm) st (evs @ evs') st'" .
    moreover have "run_slot script tm st = Some (evs @ evs', st')"
      using r s True by (simp add: run_slot.simps [of script tm st])
    ultimately show ?thesis using s f c1 by (intro exI [of _ "evs @ evs'"] exI [of _ st']) auto
  qed
qed

lemma pending_sched_cong: "(\<And>s. s < 32 \<Longrightarrow> sched b' st' s = sched b st s) \<Longrightarrow> pending b' st' = pending b st"
  unfolding pending_def slots_upt by (intro arg_cong [of _ _ concat] map_cong) auto

lemma tick_start:
  assumes w: "wheel_ok None st" and tm: "tm = slot_of (call_out_time st + 1)"
    and st': "st' = st\<lparr>call_list := (call_list st)[tm := c\<lparr>delta := delta c - 1\<rparr> # cs]\<rparr>"
    and c: "call_list st ! tm = c # cs"
  shows "wheel_ok (Some tm) st'" "pending (Some tm) st' = pending None st"
proof -
  have tm32: "tm < 32" by (simp add: tm)
  from chain_okD [OF w tm32] c have ch: "1 \<le> delta c" "\<forall>x \<in> set cs. 0 \<le> delta x" by auto
  have len: "tm < length (call_list st)" using w tm32 by (simp add: wheel_ok_def)
  show "wheel_ok (Some tm) st'"
    using w ch len unfolding wheel_ok_def st' by (auto simp: nth_update_if)
  have "sched (Some tm) st' s = sched None st s" if "s < 32" for s
  proof (cases "s = tm")
    case True
    then show ?thesis using c len by (simp add: sched_def turn_def st' algebra_simps)
  next
    case False
    then show ?thesis by (simp add: sched_def turn_def st')
  qed
  then show "pending (Some tm) st' = pending None st" by (rule pending_sched_cong)
qed

lemma tick_end:
  assumes w: "wheel_ok (Some tm) st" and tm: "tm = slot_of (call_out_time st + 1)" and h: "\<not> head_due tm st"
    and st': "st' = st\<lparr>call_out_time := call_out_time st + 1\<rparr>"
  shows "wheel_ok None st'" "pending None st' = pending (Some tm) st"
proof -
  have "chain_ok 1 (call_list st ! s)" if "s < 32" for s
    using chain_okD [OF w that] h by (cases "call_list st ! s") (auto simp: head_due_def split: if_splits)
  with w show "wheel_ok None st'" by (simp add: wheel_ok_def st')
  have "turn None st' s = turn (Some tm) st s" if "s < 32" for s
    using next_turn_Suc [OF that, of "call_out_time st"] by (simp add: turn_def st' tm)
  then show "pending None st' = pending (Some tm) st" by (intro pending_sched_cong) (simp add: sched_def st')
qed

lemma tick_idle:
  assumes w: "wheel_ok None st" and tm: "tm = slot_of (call_out_time st + 1)" and c: "call_list st ! tm = []"
  shows "wheel_ok (Some tm) st" "pending (Some tm) st = pending None st"
proof -
  show "wheel_ok (Some tm) st" using w c by (auto simp: wheel_ok_def)
  have "sched (Some tm) st s = sched None st s" for s using c by (cases "s = tm") (simp_all add: sched_def turn_def)
  then show "pending (Some tm) st = pending None st" by (rule pending_sched_cong)
qed

lemma tick_progress:
  assumes w: "wheel_ok None st" and l: "lag_ok st" and ok: "script_ok add quiet script"
    and lt: "call_out_time st < current_time st"
  shows "\<exists>evs st'. tick script st = Some (evs, st') \<and> wheel_ok None st' \<and> progress add quiet None None st evs st'
    \<and> call_out_time st' = call_out_time st + 1 \<and> (\<forall>e \<in> set evs. at e = call_out_time st + 1)"
proof -
  let ?tm = "slot_of (call_out_time st + 1)"
  let ?step = "case call_list st ! ?tm of [] \<Rightarrow> Some ([], st)
     | c # cs \<Rightarrow> (let st' = st\<lparr>call_list := (call_list st)[?tm := c\<lparr>delta := delta c - 1\<rparr> # cs]\<rparr>
         in if delta c - 1 = 0 then run_slot script ?tm st' else Some ([], st'))"
  have "\<exists>evs st'. ?step = Some (evs, st') \<and> wheel_ok (Some ?tm) st' \<and> \<not> head_due ?tm st'
    \<and> progress add quiet None (Some ?tm) st evs st' \<and> call_out_time st' = call_out_time st
    \<and> (\<forall>e \<in> set evs. at e = call_out_time st + 1)"
  proof (cases "call_list st ! ?tm")
    case Nil
    with tick_idle [OF w refl Nil] show ?thesis by (simp add: head_due_def progress_same)
  next
    case (Cons c cs)
    define st1 where "st1 = st\<lparr>call_list := (call_list st)[?tm := c\<lparr>delta := delta c - 1\<rparr> # cs]\<rparr>"
    note t = tick_start [OF w refl st1_def Cons]
    have f: "call_out_time st1 = call_out_time st" "current_time st1 = current_time st"
      "O_DESTRUCTED st1 = O_DESTRUCTED st" by (simp_all add: st1_def)
    have p: "progress add quiet None (Some ?tm) st [] st1" by (rule progress_same) (simp_all add: t f)
    have "?tm < length (call_list st)" using w by (simp add: wheel_ok_def)
    then have hd: "head_due ?tm st1 \<longleftrightarrow> delta c - 1 = 0" by (simp add: head_due_def st1_def)
    show ?thesis
    proof (cases "delta c - 1 = 0")
      case False
      with Cons t hd p f show ?thesis by (simp add: st1_def [symmetric])
    next
      case True
      have "\<exists>evs st'. run_slot script ?tm st1 = Some (evs, st') \<and> wheel_ok (Some ?tm) st' \<and> \<not> head_due ?tm st'
        \<and> progress add quiet (Some ?tm) (Some ?tm) st1 evs st'
        \<and> call_out_time st' = call_out_time st1 \<and> (\<forall>e \<in> set evs. at e = call_out_time st1 + 1)"
        by (rule run_slot_progress) (use t l f hd True lt ok in \<open>simp_all add: lag_ok_def\<close>)
      then obtain evs st' where r: "run_slot script ?tm st1 = Some (evs, st')" "wheel_ok (Some ?tm) st'"
        "\<not> head_due ?tm st'" "progress add quiet (Some ?tm) (Some ?tm) st1 evs st'"
        "call_out_time st' = call_out_time st" "\<forall>e \<in> set evs. at e = call_out_time st + 1"
        unfolding f by blast
      have "?step = Some (evs, st')" using Cons True r(1) by (simp add: st1_def)
      moreover from progress_trans [OF p r(4)] have "progress add quiet None (Some ?tm) st evs st'" by simp
      ultimately show ?thesis using r by blast
    qed
  qed
  then obtain evs st1 where s: "?step = Some (evs, st1)" "wheel_ok (Some ?tm) st1" "\<not> head_due ?tm st1"
    "progress add quiet None (Some ?tm) st evs st1" "call_out_time st1 = call_out_time st"
    "\<forall>e \<in> set evs. at e = call_out_time st + 1" by blast
  define st' where "st' = st1\<lparr>call_out_time := call_out_time st1 + 1\<rparr>"
  have tm: "?tm = slot_of (call_out_time st1 + 1)" by (simp add: s(5))
  note e = tick_end [OF s(2) tm s(3) st'_def]
  have "current_time st' = current_time st1" "O_DESTRUCTED st' = O_DESTRUCTED st1" by (simp_all add: st'_def)
  with e(2) have "progress add quiet (Some ?tm) None st1 [] st'" by (rule progress_same)
  from progress_trans [OF s(4) this] have "progress add quiet None None st evs st'" by simp
  moreover have "tick script st = Some (evs, st')" unfolding tick_def Let_def s(1) [unfolded Let_def] by (simp add: st'_def)
  ultimately show ?thesis using e s(5,6) by (intro exI [of _ evs] exI [of _ st']) (simp add: st'_def)
qed

lemma call_out_loop_progress:
  assumes "wheel_ok None st" "lag_ok st" "script_ok add quiet script"
  shows "\<exists>evs st'. call_out_loop script st = Some (evs, st') \<and> wheel_ok None st'
    \<and> progress add quiet None None st evs st' \<and> call_out_time st' = current_time st
    \<and> sorted (map at evs) \<and> (\<forall>e \<in> set evs. call_out_time st < at e)"
  using assms
proof (induction "nat (current_time st - call_out_time st)" arbitrary: st rule: less_induct)
  case less
  show ?case
  proof (cases "call_out_time st < current_time st")
    case False
    with less.prems(2) have "call_out_time st = current_time st" by (simp add: lag_ok_def)
    with less.prems show ?thesis by (simp add: call_out_loop.simps [of script st] progress_same)
  next
    case True
    from tick_progress [OF less.prems True] obtain evs st1 where
      t: "tick script st = Some (evs, st1)" "wheel_ok None st1" "progress add quiet None None st evs st1"
        "call_out_time st1 = call_out_time st + 1" "\<forall>e \<in> set evs. at e = call_out_time st + 1" by blast
    from t(3) have n: "current_time st1 = current_time st" by (simp add: progress_def)
    have "\<exists>evs' st'. call_out_loop script st1 = Some (evs', st') \<and> wheel_ok None st'
      \<and> progress add quiet None None st1 evs' st' \<and> call_out_time st' = current_time st1
      \<and> sorted (map at evs') \<and> (\<forall>e \<in> set evs'. call_out_time st1 < at e)"
      by (rule less.hyps) (use True n t less.prems in \<open>simp_all add: lag_ok_def\<close>)
    then obtain evs' st' where r: "call_out_loop script st1 = Some (evs', st')" "wheel_ok None st'"
      "progress add quiet None None st1 evs' st'" "call_out_time st' = current_time st"
      "sorted (map at evs')" "\<forall>e \<in> set evs'. call_out_time st + 1 < at e" unfolding n t(4) by blast
    have "call_out_loop script st = Some (evs @ evs', st')"
      using True t(1) r(1) by (simp add: call_out_loop.simps [of script st])
    moreover have "sorted (map at (evs @ evs'))"
    proof -
      have "sorted (map at evs)" by (rule sorted_wrt_mono_rel [of _ "\<lambda>_ _. True"]) (use t(5) in auto)
      with r(5,6) t(5) show ?thesis by (fastforce simp: sorted_append)
    qed
    ultimately show ?thesis using progress_trans [OF t(3) r(3)] r(2,4,6) t(5)
      by (intro exI [of _ "evs @ evs'"] exI [of _ st']) auto
  qed
qed

section \<open>Properties\<close>

lemma call_out_progress:
  assumes w: "wheel_ok None st" and l: "lag_ok st" and ok: "script_ok add quiet script"
  shows "\<exists>evs st'. call_out script st = Some (evs, st') \<and> wheel_ok None st'
    \<and> progress add quiet None None st evs st' \<and> call_out_time st' = current_time st
    \<and> sorted (map at evs) \<and> (\<forall>e \<in> set evs. call_out_time st < at e)
    \<and> this_command_giver st' = this_command_giver st"
proof -
  define st1 where "st1 = (case cop_static st of None \<Rightarrow> st
    | Some c \<Rightarrow> (free_called_call c st)\<lparr>cop_static := None\<rparr>)"
  have f: "call_list st1 = call_list st" "call_out_time st1 = call_out_time st" "current_time st1 = current_time st"
    "O_DESTRUCTED st1 = O_DESTRUCTED st" by (simp_all add: st1_def split: option.split)
  have w1: "wheel_ok None st1" "pending None st1 = pending None st"
    using wheel_ok_cong [OF f(1,2)] pending_cong [OF f(1,2)] w by simp_all
  have "lag_ok st1" using l f by (simp add: lag_ok_def)
  from call_out_loop_progress [OF w1(1) this ok] obtain evs st2 where
    r: "call_out_loop script st1 = Some (evs, st2)" "wheel_ok None st2" "progress add quiet None None st1 evs st2"
      "call_out_time st2 = current_time st" "sorted (map at evs)" "\<forall>e \<in> set evs. call_out_time st < at e"
    unfolding f by blast
  define st' where "st' = st2\<lparr>this_command_giver := this_command_giver st\<rparr>"
  have "progress add quiet None None st [] st1" by (rule progress_same) (simp_all add: w1 f)
  from progress_trans [OF this r(3)] have p: "progress add quiet None None st evs st2" by simp
  have g: "call_list st' = call_list st2" "call_out_time st' = call_out_time st2" by (simp_all add: st'_def)
  have "progress add quiet None None st2 [] st'"
    by (rule progress_same [OF pending_cong [OF g]]) (simp_all add: st'_def)
  from progress_trans [OF p this] have "progress add quiet None None st evs st'" by simp
  moreover have "wheel_ok None st'" using wheel_ok_cong [OF g] r(2) by simp
  moreover have "call_out script st = Some (evs, st')"
  proof -
    have "call_out_time st1 \<noteq> 0" using w1(1) by (simp add: wheel_ok_def)
    then show ?thesis using r(1) by (simp add: call_out_def Let_def st1_def [symmetric] st'_def)
  qed
  ultimately show ?thesis using r(4-6) by (auto simp: st'_def)
qed



text \<open>Looking up and removing by handle, when exactly one call has the handle.\<close>

lemma by_handle_unique:
  assumes w: "wheel_ok None st" and x: "sched None st (slot_of h) = ys @ x # zs"
    and h: "handle (snd x) = h" "\<forall>y \<in> set (ys @ zs). handle (snd y) \<noteq> h"
  shows "find_call_out_by_handle h st = fst x - current_time st"
    and "fst (remove_call_out_by_handle h st) = fst x - current_time st"
    and "sched None (snd (remove_call_out_by_handle h st)) (slot_of h) = ys @ zs"
    and "j < 32 \<Longrightarrow> j \<noteq> slot_of h \<Longrightarrow> sched None (snd (remove_call_out_by_handle h st)) j = sched None st j"
proof -
  let ?P = "\<lambda>c. handle c = h"
  have "\<not> (\<forall>x \<in> set (sched None st (slot_of h)). \<not> ?P (snd x))" using x h(1) by auto
  then have "remove_in_slot ?P (slot_of h) st \<noteq> None"
    unfolding slot_match [OF blind_tests(2)] remove_in_slot_None by blast
  then obtain left st' where r: "remove_in_slot ?P (slot_of h) st = Some (left, st')" by auto
  note s = remove_in_slot_sched [OF w slot_of_less blind_tests(2) r]
  then obtain ys' x' zs' where s': "sched None st (slot_of h) = ys' @ x' # zs'"
    "sched None st' (slot_of h) = ys' @ zs'" "?P (snd x')" "\<forall>y \<in> set ys'. \<not> ?P (snd y)"
    "left = fst x' - current_time st" by (auto simp: option.simps)
  have "ys = ys' \<and> x # zs = x' # zs'"
  proof -
    have tw: "takeWhile (\<lambda>y. handle (snd y) \<noteq> h) (us @ u # vs) = us \<and> dropWhile (\<lambda>y. handle (snd y) \<noteq> h) (us @ u # vs) = u # vs"
      if "\<forall>y \<in> set us. handle (snd y) \<noteq> h" "handle (snd u) = h" for us u vs
      using that by (simp add: takeWhile_append dropWhile_append)
    have "takeWhile (\<lambda>y. handle (snd y) \<noteq> h) (sched None st (slot_of h)) = ys
        \<and> dropWhile (\<lambda>y. handle (snd y) \<noteq> h) (sched None st (slot_of h)) = x # zs"
      unfolding x by (rule tw) (use h in auto)
    moreover have "takeWhile (\<lambda>y. handle (snd y) \<noteq> h) (sched None st (slot_of h)) = ys'
        \<and> dropWhile (\<lambda>y. handle (snd y) \<noteq> h) (sched None st (slot_of h)) = x' # zs'"
      unfolding s'(1) by (rule tw) (use s'(3,4) in auto)
    ultimately show ?thesis by simp
  qed
  then have e: "ys' = ys" "x' = x" "zs' = zs" by auto
  from s obtain D where D: "find_first ?P 0 (call_list st ! slot_of h) = Some D" "left = time_left (slot_of h) D st"
    by auto
  show "find_call_out_by_handle h st = fst x - current_time st"
    using D s'(5) by (simp add: find_call_out_by_handle_def e)
  show "fst (remove_call_out_by_handle h st) = fst x - current_time st"
    using r s'(5) by (simp add: remove_call_out_by_handle_def e)
  show "sched None (snd (remove_call_out_by_handle h st)) (slot_of h) = ys @ zs"
    using r s'(2) by (simp add: remove_call_out_by_handle_def e)
  show "j < 32 \<Longrightarrow> j \<noteq> slot_of h \<Longrightarrow> sched None (snd (remove_call_out_by_handle h st)) j = sched None st j"
    using r s by (simp add: remove_call_out_by_handle_def)
qed

lemma insert_due_split: "\<exists>ys zs. insert_due x xs = ys @ x # zs \<and> xs = ys @ zs"
proof (induction x xs rule: insert_due.induct)
  case (2 x y ys)
  show ?case
  proof (cases "fst x \<le> fst y")
    case True
    then show ?thesis by (intro exI [of _ "[]"] exI [of _ "y # ys"]) simp
  next
    case False
    with 2 obtain us vs where "insert_due x ys = us @ x # vs" "ys = us @ vs" by blast
    with False show ?thesis by (intro exI [of _ "y # us"] exI [of _ vs]) simp
  qed
qed simp


text \<open>A call made by a called function is one turn of the wheel (32 seconds) late when its due
  time falls into the slot being worked on: the head of that chain has been decremented for the
  turn, but the clock has not been advanced yet.\<close>

theorem callback_call_out_late:
  assumes "wheel_ok (Some tm) st" and "in_range delay st"
    and "tm = slot_of (call_out_time st + 1)" and "slot_of (current_time st + eff_delay delay) = tm"
    and "new_call_out obj f delay args st = (h, st')"
  shows "mset (pending (Some tm) st') = add_mset (current_time st + eff_delay delay + 32, made_call obj f delay args st)
      (mset (pending (Some tm) st))"
proof -
  have "st' = snd (new_call_out obj f delay args st)" by (simp add: assms(5))
  from new_call_out_sched(3) [OF assms(1,2) this] show ?thesis by (simp only: due_time_def assms(4) if_True simp_thms)
qed

text \<open>\<open>find_call_out\<close> and \<open>remove_call_out\<close> agree: if the object has no call of that
  function the result is -1 and nothing changes, otherwise it is the time left for the first such
  call (in the order of the wheel), and removing takes exactly that call out, leaving the due times of
  all others.\<close>

theorem remove_call_out_removes:
  assumes "wheel_ok None st" and "remove_call_out (Some p) fn st = (left, st')"
  shows "wheel_ok None st' \<and> find_call_out (Some p) fn st = left
    \<and> (if \<forall>x \<in> set (pending None st). \<not> calls p fn (snd x) then left = - 1 \<and> st' = st
       else \<exists>ys x zs. pending None st = ys @ x # zs \<and> pending None st' = ys @ zs \<and> calls p fn (snd x)
          \<and> (\<forall>y \<in> set ys. \<not> calls p fn (snd y)) \<and> left = fst x - current_time st)"
proof -
  note r = remove_loop_removed [OF assms(1) blind_tests(1), of p fn]
  have e: "remove_loop (calls p fn) slots st = (left, st')" using assms(2) by (simp add: remove_call_out_def)
  from r have "removed None (calls p fn) st left st'" unfolding e fst_conv snd_conv by blast
  moreover from r have "find_call_out (Some p) fn st = left" "wheel_ok None st'" unfolding e by (simp_all add: find_call_out_def)
  ultimately show ?thesis unfolding removed_def by (simp only: simp_thms)
qed

text \<open>\<open>remove_all_call_out\<close> takes out exactly the calls of the object, those of function
  pointers it owns and those of destructed objects; all others stay due when they were.\<close>

theorem remove_all_call_out_removes:
  assumes "wheel_ok None st"
  shows "wheel_ok None (remove_all_call_out obj st)
    \<and> pending None (remove_all_call_out obj st) = filter (\<lambda>x. \<not> belongs st obj (snd x)) (pending None st)"
  using remove_all_sched [OF assms, of obj] by blast

text \<open>What \<open>call_out_info\<close> reports of a pending call.\<close>

definition info_of :: "co_state \<Rightarrow> int \<times> pending_call \<Rightarrow> (nat \<times> string \<times> int) list" where
  "info_of st x = (case (ob (snd x), func (snd x)) of
     (Some p, Func_s s) \<Rightarrow> if O_DESTRUCTED st p then [] else [(p, s, fst x - current_time st)]
   | (None, Func_f fp) \<Rightarrow> [(fp_owner st fp, ''<function>'', fst x - current_time st)]
   | _ \<Rightarrow> [])"

lemma info_chain_dues:
  assumes "j < 32"
  shows "info_chain st j D cs =
    concat (map (info_of st) (dues (next_turn (call_out_time st) j + 32 * (D - 1)) cs))"
proof (induction cs arbitrary: D)
  case (Cons c cs)
  let ?l = "time_left j (D + delta c) st"
  have t: "next_turn (call_out_time st) j + 32 * (D - 1) + 32 * delta c = next_turn (call_out_time st) j + 32 * (D + delta c - 1)"
    by (simp add: algebra_simps)
  have "info_chain st j D (c # cs) =
      (case (ob c, func c) of
         (Some p, Func_s s) \<Rightarrow> if O_DESTRUCTED st p then [] else [(p, s, ?l)]
       | (None, Func_f fp) \<Rightarrow> [(fp_owner st fp, ''<function>'', ?l)]
       | _ \<Rightarrow> []) @ info_chain st j (D + delta c) cs"
    by (cases "ob c"; cases "func c") (simp_all add: time_left_def Let_def)
  also have "(case (ob c, func c) of
         (Some p, Func_s s) \<Rightarrow> if O_DESTRUCTED st p then [] else [(p, s, ?l)]
       | (None, Func_f fp) \<Rightarrow> [(fp_owner st fp, ''<function>'', ?l)]
       | _ \<Rightarrow> []) = info_of st (next_turn (call_out_time st) j + 32 * (D + delta c - 1), c\<lparr>delta := 0\<rparr>)"
    unfolding info_of_def time_left_due [OF assms]
    by (cases "ob c"; cases "func c") simp_all
  finally show ?case unfolding Cons.IH dues.simps list.map concat.simps t .
qed simp

text \<open>\<open>get_all_call_outs\<close> lists every pending call of a live object or function pointer, in
  the order of the wheel, with the seconds left until it is due.\<close>

theorem get_all_call_outs_complete:
  "get_all_call_outs st = concat (map (info_of st) (pending None st))"
proof -
  have "concat (map (\<lambda>j. info_chain st j 0 (call_list st ! j)) js) =
      concat (map (info_of st) (concat (map (sched None st) js)))" if "\<forall>j \<in> set js. j < 32" for js
    using that by (induction js) (simp_all add: info_chain_dues sched_def turn_def)
  from this [of slots] show ?thesis by (simp add: get_all_call_outs_def pending_def slots_upt)
qed

lemma c_int_wrap: "2 ^ 31 \<le> x \<Longrightarrow> x < 2 ^ 32 \<Longrightarrow> c_int x = x - 2 ^ 32"
proof -
  assume "2 ^ 31 \<le> x" "x < 2 ^ 32"
  then have "(x + 2 ^ 31) mod 2 ^ 32 = x + 2 ^ 31 - 2 ^ 32"
    using mod_pos_pos_trivial [of "x - 2 ^ 31" "2 ^ 32"] mod_add_self2 [of "x - 2 ^ 31" "2 ^ 32 :: int"]
    by (simp add: add.commute)
  then show ?thesis by (simp add: c_int_def)
qed

lemma wheel_turns_overflow:
  assumes "2 ^ 31 < delay + (now - cot)" and "delay < 2 ^ 31" and "now - cot \<le> 2 ^ 30"
  shows "wheel_turns delay now cot \<le> 1 - 2 ^ 25"
proof -
  define x where "x = delay + now - cot - 1"
  have x: "2 ^ 31 \<le> x" "x \<le> 2 ^ 31 + 2 ^ 30 - 2" using assms by (simp_all add: x_def)
  have "c_int (c_int (c_int (delay + now) - cot) - 1) = c_int x"
    using c_int_add_left [of "delay + now" "- cot"] c_int_add_left [of "delay + now - cot" "- 1"]
    by (simp add: algebra_simps x_def)
  also have "\<dots> = x - 2 ^ 32" by (rule c_int_wrap) (use x in simp_all)
  finally have c: "c_int (c_int (c_int (delay + now) - cot) - 1) = x - 2 ^ 32" .
  define y where "y = 2 ^ 32 - x"
  have y: "2 ^ 30 + 2 \<le> y" "y \<le> 2 ^ 31" using x by (simp_all add: y_def)
  have d: "c_div (x - 2 ^ 32) 32 = - (y div 32)" using x by (simp add: c_div_def y_def abs_if sgn_if)
  have "32 * (y div 32) + y mod 32 = y" "0 \<le> y mod 32" "y mod 32 < 32" by simp_all
  then have yd: "2 ^ 25 \<le> y div 32" "y div 32 \<le> 2 ^ 26" using y by simp_all
  have "wheel_turns delay now cot = c_int (1 - y div 32)"
    unfolding wheel_turns_def CALLOUT_CYCLE_SIZE_def c d by simp
  also have "\<dots> = 1 - y div 32" by (rule c_int_id) (use yd in simp_all)
  finally show ?thesis using yd by simp
qed

text \<open>A delay close to the largest \<open>int\<close>, asked for while the clock of the call outs lags,
  overflows: the call is put at the head of its chain with a negative delta, and then no turn of the
  slot makes any call of that chain, whatever else the slot holds.\<close>

theorem huge_delay_blocks_slot:
  fixes st delay
  defines "s \<equiv> slot_of (current_time st + delay)"
  assumes "wheel_ok None st" and "1 \<le> delay" and "delay < 2 ^ 31"
    and "2 ^ 31 < delay + (current_time st - call_out_time st)" and "current_time st - call_out_time st \<le> 2 ^ 30"
    and "new_call_out obj f delay args st = (h, st')"
  shows "\<exists>c cs. call_list st' ! s = c # cs \<and> length cs = length (call_list st ! s) \<and> delta c \<le> 1 - 2 ^ 25
    \<and> (\<forall>script st''. call_list st'' ! s = c # cs \<and> slot_of (call_out_time st'' + 1) = s \<longrightarrow>
        tick script st'' = Some ([], st''\<lparr>call_list := (call_list st'')[s := c\<lparr>delta := delta c - 1\<rparr> # cs],
          call_out_time := call_out_time st'' + 1\<rparr>))"
proof -
  let ?t = "wheel_turns delay (current_time st) (call_out_time st)"
  have cot: "call_out_time st \<noteq> 0" using assms(2) by (simp add: wheel_ok_def)
  have e: "eff_delay delay = delay" using assms(3) by simp
  have t: "?t \<le> 1 - 2 ^ 25" by (rule wheel_turns_overflow) (use assms in simp_all)
  have s: "slot_of (delay + current_time st) = s" by (simp only: s_def add.commute)
  from new_call_out_list [OF cot, of obj f delay args] obtain cop where
    l: "call_list st' = (call_list st)[s := insert_call ?t cop (call_list st ! s)]"
    unfolding e s assms(7) snd_conv by blast
  have s32: "s < 32" by (simp add: s_def)
  have "s < length (call_list st)" using assms(2) s32 by (simp add: wheel_ok_def)
  with l have l': "call_list st' ! s = insert_call ?t cop (call_list st ! s)" by simp
  have "\<exists>c cs. insert_call ?t cop (call_list st ! s) = c # cs \<and> length cs = length (call_list st ! s) \<and> delta c = ?t"
  proof (cases "call_list st ! s")
    case (Cons a r)
    then have "0 \<le> delta a" using chain_okD [OF assms(2) s32] by simp
    then have "?t \<le> delta a" using t by simp
    with Cons show ?thesis by simp
  qed simp
  then obtain c cs where c: "call_list st' ! s = c # cs" "length cs = length (call_list st ! s)" "delta c = ?t"
    unfolding l' by blast
  have "tick script st'' = Some ([], st''\<lparr>call_list := (call_list st'')[s := c\<lparr>delta := delta c - 1\<rparr> # cs],
      call_out_time := call_out_time st'' + 1\<rparr>)"
    if "call_list st'' ! s = c # cs" "slot_of (call_out_time st'' + 1) = s" for script st''
  proof -
    have "delta c - 1 \<noteq> 0" using c(3) t by simp
    then show ?thesis unfolding tick_def Let_def that by (simp add: that(1))
  qed
  with c t show ?thesis by (intro exI [of _ c] exI [of _ cs]) simp
qed

section \<open>Witnesses\<close>

text \<open>The static data of the module when the driver starts, with the clock set.\<close>

definition fresh_wheel :: "int \<Rightarrow> int \<Rightarrow> co_state" where
  "fresh_wheel cot now = \<lparr>call_list = replicate 32 [], call_list_free = 0, num_call = 0, call_out_time = cot,
     unique = 0, cop_static = None, current_time = now, this_command_giver = None,
     O_DESTRUCTED = (\<lambda>_. False), O_LISTENER = (\<lambda>_. False), shadowing = (\<lambda>_. None), fp_owner = (\<lambda>_. 0),
     ob_ref = (\<lambda>_. 0), fp_ref = (\<lambda>_. 0), str_ref = (\<lambda>_. 0)\<rparr>"

lemma fresh_wheel_ok: "0 < cot \<Longrightarrow> wheel_ok b (fresh_wheel cot now)"
  by (simp add: wheel_ok_def fresh_wheel_def)

lemma fresh_wheel_simps [simp]:
  "call_out_time (fresh_wheel cot now) = cot" "current_time (fresh_wheel cot now) = now"
  "call_list (fresh_wheel cot now) = replicate 32 []"
  by (simp_all add: fresh_wheel_def)

lemma fresh_pending: "pending b (fresh_wheel cot now) = []"
  by (simp add: pending_def sched_def slots_upt)

text \<open>A wheel with one call, due in five seconds.\<close>

definition one_call :: co_state where
  "one_call = snd (new_call_out 1 (Func_s ''f'') 5 [] (fresh_wheel 100 100))"

lemma one_call:
  "wheel_ok None one_call" "call_out_time one_call = 100" "current_time one_call = 100"
  "O_DESTRUCTED one_call = (\<lambda>_. False)"
  "mset (pending None one_call) = {#(105, made_call 1 (Func_s ''f'') 5 [] (fresh_wheel 100 100))#}"
proof -
  have w: "wheel_ok None (fresh_wheel 100 100)" by (rule fresh_wheel_ok) simp
  have r: "in_range 5 (fresh_wheel 100 100)" by (simp add: in_range_def)
  note n = new_call_out_sched [OF w r refl]
  show "wheel_ok None one_call" using n(1) by (simp add: one_call_def)
  show "mset (pending None one_call) = {#(105, made_call 1 (Func_s ''f'') 5 [] (fresh_wheel 100 100))#}"
    using n(3) by (simp add: one_call_def fresh_pending due_time_def)
  show "call_out_time one_call = 100" "current_time one_call = 100" "O_DESTRUCTED one_call = (\<lambda>_. False)"
    using new_call_out_frame(1-3) [of "fresh_wheel 100 100" 1 "Func_s ''f''" 5 "[]"]
    by (simp_all add: one_call_def) (simp add: fresh_wheel_def)
qed


theorem callback_call_out_late_witness:
  "\<exists>h st'. new_call_out 1 (Func_s ''f'') 32 [] (fresh_wheel 100 101) = (h, st') \<and> (image_mset fst (mset (pending (Some 5) st'))) = {#165#}"
proof -
  obtain h st' where m: "new_call_out 1 (Func_s ''f'') 32 [] (fresh_wheel 100 101) = (h, st')" by fastforce
  have "wheel_ok (Some 5) (fresh_wheel 100 101)" by (rule fresh_wheel_ok) simp
  from callback_call_out_late [OF this _ _ _ m] have
    "mset (pending (Some 5) st') = {#(165, made_call 1 (Func_s ''f'') 32 [] (fresh_wheel 100 101))#}"
    by (simp add: in_range_def slot_of_mod fresh_pending)
  with m show ?thesis by auto
qed

lemma later_ok: "wheel_ok None (st\<lparr>current_time := t\<rparr>) = wheel_ok None st" "pending b (st\<lparr>current_time := t\<rparr>) = pending b st"
  by (simp add: wheel_ok_def) (rule pending_cong, simp_all)



theorem remove_call_out_removes_witness:
  "\<exists>left st'. remove_call_out (Some 1) ''f'' one_call = (left, st') \<and> left = 5 \<and> pending None st' = []"
proof -
  obtain left st' where m: "remove_call_out (Some 1) ''f'' one_call = (left, st')" by fastforce
  let ?c = "made_call 1 (Func_s ''f'') 5 [] (fresh_wheel 100 100)"
  have p: "pending None one_call = [(105, ?c)]" using one_call(5) by simp
  have "calls 1 ''f'' ?c" by (simp add: calls_def made_call_def)
  with remove_call_out_removes [OF one_call(1) m] have "left = 5 \<and> pending None st' = []"
    by (auto simp: p one_call Cons_eq_append_conv)
  with m show ?thesis by blast
qed

theorem remove_all_call_out_removes_witness: "pending None (remove_all_call_out 1 one_call) = []"
proof -
  have p: "pending None one_call = [(105, made_call 1 (Func_s ''f'') 5 [] (fresh_wheel 100 100))]"
    using one_call(5) by simp
  show ?thesis using remove_all_call_out_removes [OF one_call(1), of 1] by (simp add: p belongs_def made_call_def)
qed

theorem huge_delay_blocks_slot_witness:
  "\<exists>h st'. new_call_out 1 (Func_s ''f'') (2 ^ 31 - 1) [] (fresh_wheel 100 103) = (h, st')
     \<and> (\<exists>c cs. call_list st' ! 6 = c # cs \<and> delta c \<le> 1 - 2 ^ 25)"
proof -
  obtain h st' where m: "new_call_out 1 (Func_s ''f'') (2 ^ 31 - 1) [] (fresh_wheel 100 103) = (h, st')" by fastforce
  have w: "wheel_ok None (fresh_wheel 100 103)" by (rule fresh_wheel_ok) simp
  have s: "slot_of (current_time (fresh_wheel 100 103) + (2 ^ 31 - 1)) = 6" by (simp add: slot_of_mod)
  from huge_delay_blocks_slot [OF w _ _ _ _ m] show ?thesis unfolding s using m by auto
qed

end
