(* ===== verification/Lpc_Mapping.thy ===== *)
theory Lpc_Mapping
  imports Prelude
begin

text \<open>
  LPC mappings (\<open>mapping.c\<close>): hash tables of chained nodes keyed by values. A value is a type, a
  subtype and 32 bits (a number, the bits of a float, or an address), so comparing addresses is
  comparing bits. The functions return the changed mapping and the changed globals; \<open>refs\<close> counts
  the references to each address. Allocation always succeeds; \<open>growMap\<close> still fails at its size
  limit. \<open>MAX_MAPPING_SIZE\<close> is a run time option and an argument. Interning the string of a key
  (\<open>make_shared_string\<close>) is the argument \<open>mk\<close>, from the address of a string to the address
  of its shared copy.
\<close>

unbundle bit_operations_syntax

section \<open>Values\<close>

record svalue =
  sv_type :: "16 word"
  sv_subtype :: "16 word"
  sv_u :: "32 word"

definition T_NUMBER :: "16 word" where "T_NUMBER = 0x2"
definition T_STRING :: "16 word" where "T_STRING = 0x4"
definition T_REAL :: "16 word" where "T_REAL = 0x80"
definition T_REFED :: "16 word" where "T_REFED = 0x378"
definition T_UNDEFINED :: "16 word" where "T_UNDEFINED = 0x4"
definition STRING_COUNTED :: "16 word" where "STRING_COUNTED = 0x1"
definition STRING_SHARED :: "16 word" where "STRING_SHARED = 0x3"

definition const0u :: svalue where
  "const0u = \<lparr>sv_type = T_NUMBER, sv_subtype = T_UNDEFINED, sv_u = 0\<rparr>"

text \<open>Comparison of floats by their bits: no NaN equals anything, and the two zeros are equal.\<close>

definition is_nan :: "32 word \<Rightarrow> bool" where
  "is_nan b \<longleftrightarrow> b AND 0x7F800000 = 0x7F800000 \<and> b AND 0x007FFFFF \<noteq> 0"

definition real_eq :: "32 word \<Rightarrow> 32 word \<Rightarrow> bool" where
  "real_eq a b \<longleftrightarrow> \<not> is_nan a \<and> \<not> is_nan b \<and> (a = b \<or> (a AND 0x7FFFFFFF = 0 \<and> b AND 0x7FFFFFFF = 0))"

definition msameval :: "svalue \<Rightarrow> svalue \<Rightarrow> bool" where
  "msameval arg1 arg2 =
     (let t = sv_type arg1 OR sv_type arg2 in
      if t = T_NUMBER then sv_u arg1 = sv_u arg2
      else if t = T_REAL then real_eq (sv_u arg1) (sv_u arg2)
      else sv_u arg1 = sv_u arg2)"

section \<open>State\<close>

type_synonym mapping_node = "svalue \<times> svalue"

definition MAX_TABLE_SIZE :: nat where "MAX_TABLE_SIZE = 32768"
definition MAP_HASH_TABLE_SIZE :: int where "MAP_HASH_TABLE_SIZE = 8"
definition FILL_PERCENT :: nat where "FILL_PERCENT = 80"
definition MNB_SIZE :: nat where "MNB_SIZE = 256"
definition sizeof_node_ptr :: int where "sizeof_node_ptr = 4"
definition sizeof_mapping_node_t :: int where "sizeof_mapping_node_t = 20"
definition sizeof_mapping_t :: int where "sizeof_mapping_t = 16"

record mapping =
  table :: "mapping_node list list"
  table_size :: nat
  unfilled :: "16 word"
  mcount :: int

record map_globals =
  num_mappings :: int
  total_mapping_size :: int
  total_mapping_nodes :: int
  free_nodes :: nat
  node_blocks :: nat
  refs :: "32 word \<Rightarrow> int"

definition ref_svalue :: "int \<Rightarrow> svalue \<Rightarrow> map_globals \<Rightarrow> map_globals" where
  "ref_svalue d v g =
     (if (sv_type v = T_STRING \<and> sv_subtype v AND STRING_COUNTED \<noteq> 0)
        \<or> (sv_type v \<noteq> T_STRING \<and> sv_type v AND T_REFED \<noteq> 0)
      then g\<lparr>refs := (refs g)(sv_u v := refs g (sv_u v) + d)\<rparr> else g)"

abbreviation assign_svalue_no_free :: "svalue \<Rightarrow> map_globals \<Rightarrow> map_globals" where
  "assign_svalue_no_free \<equiv> ref_svalue 1"

abbreviation free_svalue :: "svalue \<Rightarrow> map_globals \<Rightarrow> map_globals" where
  "free_svalue \<equiv> ref_svalue (- 1)"

text \<open>Nodes come from blocks of 256; the free list is counted.\<close>

definition new_map_node :: "map_globals \<Rightarrow> map_globals" where
  "new_map_node g =
     (if free_nodes g \<noteq> 0 then g\<lparr>free_nodes := free_nodes g - 1\<rparr>
      else g\<lparr>node_blocks := node_blocks g + 1, free_nodes := MNB_SIZE - 1\<rparr>)"

definition free_node :: "map_globals \<Rightarrow> map_globals" where
  "free_node g = g\<lparr>free_nodes := free_nodes g + 1\<rparr>"

section \<open>Hashing\<close>

definition MAP_POINTER_HASH :: "32 word \<Rightarrow> 32 word" where
  "MAP_POINTER_HASH x = signed_drop_bit 4 x"

definition node_hash :: "mapping_node \<Rightarrow> 32 word" where
  "node_hash mn = MAP_POINTER_HASH (sv_u (fst mn))"

text \<open>The key is changed too: a string that is not shared is interned.\<close>

definition svalue_to_int :: "(32 word \<Rightarrow> 32 word) \<Rightarrow> svalue \<Rightarrow> 32 word \<times> svalue" where
  "svalue_to_int mk v =
     (let v = (if sv_type v = T_STRING \<and> sv_subtype v \<noteq> STRING_SHARED
               then v\<lparr>sv_subtype := STRING_SHARED, sv_u := mk (sv_u v)\<rparr> else v)
      in (MAP_POINTER_HASH (sv_u v), v))"

definition masked :: "32 word \<Rightarrow> nat \<Rightarrow> nat" where
  "masked h n = unat (h AND of_nat n)"

section \<open>Growing\<close>

text \<open>One bucket of \<open>growMap\<close>: \<open>keep\<close> holds the nodes that stay, last first; \<open>b\<close> is the
  bucket in the upper half.\<close>

fun split_bucket :: "nat \<Rightarrow> mapping_node list \<Rightarrow> mapping_node list \<Rightarrow> mapping_node list \<Rightarrow> 16 word
    \<Rightarrow> mapping_node list \<times> mapping_node list \<times> 16 word" where
  "split_bucket oldsize [] keep b unf = (rev keep, b, unf)"
| "split_bucket oldsize (elt # r) keep b unf =
     (if masked (node_hash elt) oldsize \<noteq> 0
      then split_bucket oldsize r keep (elt # b) (if b = [] then unf - 1 else unf)
      else split_bucket oldsize r (elt # keep) b unf)"

text \<open>The loop runs down from \<open>oldsize - 1\<close>; \<open>i\<close> buckets are still to be done.\<close>

fun grow_loop :: "nat \<Rightarrow> nat \<Rightarrow> mapping_node list list \<Rightarrow> 16 word \<Rightarrow> mapping_node list list \<times> 16 word" where
  "grow_loop oldsize 0 tbl unf = (tbl, unf)"
| "grow_loop oldsize (Suc i) tbl unf =
     (if tbl ! i \<noteq> [] then
        (let (a, b, unf) = split_bucket oldsize (tbl ! i) [] (tbl ! (i + oldsize)) unf;
             unf = (if a = [] then unf + 1 else unf)
         in grow_loop oldsize i (tbl[i := a, i + oldsize := b]) unf)
      else grow_loop oldsize i tbl unf)"

definition growMap :: "mapping \<Rightarrow> map_globals \<Rightarrow> bool \<times> mapping \<times> map_globals" where
  "growMap m g =
     (let oldsize = table_size m + 1;
          newsize = push_bit 1 oldsize
      in if newsize > MAX_TABLE_SIZE then (False, m, g)
         else
           (let g = g\<lparr>total_mapping_size := total_mapping_size g + sizeof_node_ptr * int oldsize\<rparr>;
                (tbl, unf) = grow_loop oldsize oldsize (table m @ replicate oldsize [])
                               (of_nat (oldsize * FILL_PERCENT div 100))
            in (True, m\<lparr>table := tbl, table_size := newsize - 1, unfilled := unf\<rparr>, g)))"

section \<open>Allocation, copying, freeing\<close>

definition allocate_mapping :: "int \<Rightarrow> int \<Rightarrow> map_globals \<Rightarrow> mapping \<times> map_globals" where
  "allocate_mapping MAX_MAPPING_SIZE n g =
     (let n = (if n > MAX_MAPPING_SIZE then MAX_MAPPING_SIZE else n);
          (ts, n) =
            (if n > MAP_HASH_TABLE_SIZE then
               (let n = n OR drop_bit 1 n;
                    n = n OR drop_bit 2 n;
                    n = n OR drop_bit 4 n;
                    n = (if n AND 0xff00 \<noteq> 0 then n OR drop_bit 8 n else n)
                in (n, n + 1))
             else (MAP_HASH_TABLE_SIZE - 1, MAP_HASH_TABLE_SIZE))
      in (\<lparr>table = replicate (nat n) [], table_size = nat (ts mod 2 ^ 16),
           unfilled = of_int (n * int FILL_PERCENT div 100), mcount = 0\<rparr>,
          g\<lparr>total_mapping_size := total_mapping_size g + sizeof_mapping_t + n * sizeof_node_ptr,
            num_mappings := num_mappings g + 1\<rparr>))"

definition copy_node :: "mapping_node \<Rightarrow> map_globals \<Rightarrow> map_globals" where
  "copy_node n g = assign_svalue_no_free (snd n) (assign_svalue_no_free (fst n) (new_map_node g))"

text \<open>Each chain is copied by pushing onto the head of the new one, so it comes out reversed.\<close>

definition copyMapping :: "mapping \<Rightarrow> map_globals \<Rightarrow> mapping \<times> map_globals" where
  "copyMapping m g =
     (let g = g\<lparr>total_mapping_nodes := total_mapping_nodes g + mcount m,
                total_mapping_size := total_mapping_size g + (sizeof_mapping_t
                  + sizeof_node_ptr * int (table_size m + 1) + sizeof_mapping_node_t * mcount m),
                num_mappings := num_mappings g + 1\<rparr>
      in (m\<lparr>table := map rev (table m)\<rparr>, fold copy_node (concat (rev (table m))) g))"

definition drop_node :: "mapping_node \<Rightarrow> map_globals \<Rightarrow> map_globals" where
  "drop_node n g = free_node (free_svalue (fst n) (free_svalue (snd n) g))"

definition dealloc_mapping :: "mapping \<Rightarrow> map_globals \<Rightarrow> map_globals" where
  "dealloc_mapping m g =
     (let g = g\<lparr>num_mappings := num_mappings g - 1,
                total_mapping_size := total_mapping_size g - (sizeof_mapping_t
                  + sizeof_node_ptr * int (table_size m + 1) + sizeof_mapping_node_t * mcount m),
                total_mapping_nodes := total_mapping_nodes g - mcount m\<rparr>
      in fold drop_node (concat (rev (table m))) g)"

section \<open>Looking up and deleting\<close>

fun find_node :: "svalue \<Rightarrow> mapping_node list \<Rightarrow> mapping_node option" where
  "find_node lv [] = None"
| "find_node lv (elt # r) = (if msameval (fst elt) lv then Some elt else find_node lv r)"

definition node_find_in_mapping :: "(32 word \<Rightarrow> 32 word) \<Rightarrow> mapping \<Rightarrow> svalue \<Rightarrow> mapping_node option" where
  "node_find_in_mapping mk m lv =
     (let (h, lv) = svalue_to_int mk lv in find_node lv (table m ! masked h (table_size m)))"

definition find_in_mapping :: "(32 word \<Rightarrow> 32 word) \<Rightarrow> mapping \<Rightarrow> svalue \<Rightarrow> svalue" where
  "find_in_mapping mk m lv =
     (let (h, lv) = svalue_to_int mk lv in
      case find_node lv (table m ! masked h (table_size m)) of None \<Rightarrow> const0u | Some n \<Rightarrow> snd n)"

text \<open>\<open>ss\<close> is the result of \<open>findstring\<close>: the address of the shared string, if there is one.\<close>

definition find_string_in_mapping :: "32 word option \<Rightarrow> mapping \<Rightarrow> svalue" where
  "find_string_in_mapping ss m =
     (case ss of
        None \<Rightarrow> const0u
      | Some p \<Rightarrow>
          (case find (\<lambda>n. sv_type (fst n) = T_STRING \<and> sv_u (fst n) = p)
                  (table m ! masked (MAP_POINTER_HASH p) (table_size m)) of
             None \<Rightarrow> const0u | Some n \<Rightarrow> snd n))"

fun unlink_node :: "svalue \<Rightarrow> mapping_node list \<Rightarrow> (mapping_node \<times> mapping_node list) option" where
  "unlink_node lv [] = None"
| "unlink_node lv (elt # r) =
     (if msameval (fst elt) lv then Some (elt, r)
      else (case unlink_node lv r of None \<Rightarrow> None | Some (n, r') \<Rightarrow> Some (n, elt # r')))"

definition mapping_delete :: "(32 word \<Rightarrow> 32 word) \<Rightarrow> mapping \<Rightarrow> svalue \<Rightarrow> map_globals \<Rightarrow> mapping \<times> map_globals" where
  "mapping_delete mk m lv g =
     (let (h, lv) = svalue_to_int mk lv;
          i = masked h (table_size m)
      in case unlink_node lv (table m ! i) of
           None \<Rightarrow> (m, g)
         | Some (elt, chain) \<Rightarrow>
             (m\<lparr>table := (table m)[i := chain],
                unfilled := (if chain = [] then unfilled m + 1 else unfilled m),
                mcount := mcount m - 1\<rparr>,
              drop_node elt (g\<lparr>total_mapping_nodes := total_mapping_nodes g - 1,
                               total_mapping_size := total_mapping_size g - sizeof_mapping_node_t\<rparr>)))"

section \<open>Inserting\<close>

datatype map_error = Out_of_memory | Mapping_too_large

fun chain_index :: "svalue \<Rightarrow> mapping_node list \<Rightarrow> nat option" where
  "chain_index lv [] = None"
| "chain_index lv (n # r) = (if msameval lv (fst n) then Some 0 else map_option Suc (chain_index lv r))"

text \<open>An empty bucket is about to be filled: the table may have to grow, and then the bucket may
  move to the upper half. The same code stands in every inserting function.\<close>

definition take_bucket :: "32 word \<Rightarrow> nat \<Rightarrow> mapping \<Rightarrow> map_globals \<Rightarrow> bool \<times> nat \<times> mapping \<times> map_globals" where
  "take_bucket oi i m g =
     (let m = m\<lparr>unfilled := unfilled m - 1\<rparr> in
      if unfilled m = 0 then
        (let size = table_size m + 1; (ok, m, g) = growMap m g in
         if ok then (True, (if masked oi size \<noteq> 0 then i OR size else i), m, g)
         else (False, i, m, g))
      else (True, i, m, g))"

text \<open>The address of the value is bucket and place in its chain; it comes with the key.\<close>

type_synonym lvalue = "nat \<times> nat"

definition find_for_insert :: "(32 word \<Rightarrow> 32 word) \<Rightarrow> int \<Rightarrow> mapping \<Rightarrow> svalue \<Rightarrow> bool \<Rightarrow> map_globals
    \<Rightarrow> (map_error + lvalue) \<times> mapping \<times> map_globals" where
  "find_for_insert mk MAX_MAPPING_SIZE m lv doTheFree g =
     (let (oi, lv) = svalue_to_int mk lv;
          i = masked oi (table_size m) mod 2 ^ 16
      in case chain_index lv (table m ! i) of
           Some k \<Rightarrow> (Inr (i, k), m, if doTheFree then free_svalue (snd (table m ! i ! k)) g else g)
         | None \<Rightarrow>
             (let (ok, i, m, g) = (if table m ! i \<noteq> [] then (True, i, m, g) else take_bucket oi i m g) in
              if \<not> ok then (Inl Out_of_memory, m, g)
              else if mcount m + 1 > MAX_MAPPING_SIZE then (Inl Mapping_too_large, m, g)
              else
                (Inr (i, 0),
                 m\<lparr>table := (table m)[i := (lv, const0u) # table m ! i], mcount := mcount m + 1\<rparr>,
                 (assign_svalue_no_free lv
                   (new_map_node (g\<lparr>total_mapping_size := total_mapping_size g + sizeof_mapping_node_t\<rparr>)))
                   \<lparr>total_mapping_nodes := total_mapping_nodes g + 1\<rparr>)))"

definition lvalue_get :: "mapping \<Rightarrow> lvalue \<Rightarrow> svalue" where
  "lvalue_get m p = snd (table m ! fst p ! snd p)"

definition lvalue_set :: "mapping \<Rightarrow> lvalue \<Rightarrow> svalue \<Rightarrow> mapping" where
  "lvalue_set m p v =
     m\<lparr>table := (table m)[fst p := (table m ! fst p)[snd p := (fst (table m ! fst p ! snd p), v)]]\<rparr>"

text \<open>\<open>m[key] = v\<close>: the interpreter takes the lvalue and does \<open>assign_svalue\<close> on it.\<close>

definition assign_svalue :: "mapping \<Rightarrow> lvalue \<Rightarrow> svalue \<Rightarrow> map_globals \<Rightarrow> mapping \<times> map_globals" where
  "assign_svalue m p v g = (lvalue_set m p v, assign_svalue_no_free v (free_svalue (lvalue_get m p) g))"

definition assign_index :: "(32 word \<Rightarrow> 32 word) \<Rightarrow> int \<Rightarrow> mapping \<Rightarrow> svalue \<Rightarrow> svalue \<Rightarrow> map_globals
    \<Rightarrow> map_error option \<times> mapping \<times> map_globals" where
  "assign_index mk MAX_MAPPING_SIZE m lv v g =
     (case find_for_insert mk MAX_MAPPING_SIZE m lv False g of
        (Inl e, m, g) \<Rightarrow> (Some e, m, g)
      | (Inr p, m, g) \<Rightarrow> (let (m, g) = assign_svalue m p v g in (None, m, g)))"

section \<open>Invariant and content\<close>

text \<open>
  Keys are compared by their bits if no float key is a NaN or a negative zero. With such keys a
  mapping holds a partial function from bits to values.
\<close>

abbreviation nkey :: "mapping_node \<Rightarrow> 32 word" where
  "nkey n \<equiv> sv_u (fst n)"

definition good_key :: "svalue \<Rightarrow> bool" where
  "good_key v \<longleftrightarrow> sv_type v \<noteq> 0 \<and> (sv_type v = T_REAL \<longrightarrow> \<not> is_nan (sv_u v) \<and> sv_u v \<noteq> 0x80000000)"

definition bucket :: "nat \<Rightarrow> 32 word \<Rightarrow> nat" where
  "bucket k b = unat (MAP_POINTER_HASH b) mod 2 ^ k"

definition shape :: "nat \<Rightarrow> mapping \<Rightarrow> bool" where
  "shape k m \<longleftrightarrow> 3 \<le> k \<and> k \<le> 15 \<and> table_size m = 2 ^ k - 1 \<and> length (table m) = 2 ^ k"

definition chain_ok :: "nat \<Rightarrow> nat \<Rightarrow> mapping_node list \<Rightarrow> bool" where
  "chain_ok k i c \<longleftrightarrow> distinct (map nkey c) \<and> (\<forall>n \<in> set c. good_key (fst n) \<and> bucket k (nkey n) = i)"

definition nodes_ok :: "nat \<Rightarrow> mapping_node list list \<Rightarrow> bool" where
  "nodes_ok k tbl \<longleftrightarrow> (\<forall>i < 2 ^ k. chain_ok k i (tbl ! i))"

definition filled :: "mapping_node list list \<Rightarrow> nat" where
  "filled tbl = length (filter (\<lambda>c. c \<noteq> []) tbl)"

text \<open>At most 80 percent of the buckets are filled before the next growth.\<close>

definition fill_ok :: "nat \<Rightarrow> mapping \<Rightarrow> bool" where
  "fill_ok k m \<longleftrightarrow> unfilled m \<noteq> 0 \<and> filled (table m) + unat (unfilled m) \<le> 2 ^ k * 80 div 100"

definition mapping_ok :: "int \<Rightarrow> mapping \<Rightarrow> bool" where
  "mapping_ok MAX_MAPPING_SIZE m \<longleftrightarrow>
     (\<exists>k. shape k m \<and> nodes_ok k (table m)) \<and> mcount m = int (length (concat (table m)))
     \<and> mcount m \<le> MAX_MAPPING_SIZE"

definition assoc :: "mapping_node list \<Rightarrow> 32 word \<rightharpoonup> svalue" where
  "assoc c = map_of (map (\<lambda>n. (nkey n, snd n)) c)"

definition content :: "mapping \<Rightarrow> 32 word \<rightharpoonup> svalue" where
  "content m b = assoc (table m ! masked (MAP_POINTER_HASH b) (table_size m)) b"

lemma T_consts: "T_NUMBER OR T_REAL \<noteq> T_REAL" "T_NUMBER \<noteq> T_REAL"
  by (simp_all add: T_NUMBER_def T_REAL_def)

lemma real_eq_good:
  assumes "\<not> is_nan a" "a \<noteq> 0x80000000" "\<not> is_nan b" "b \<noteq> 0x80000000"
  shows "real_eq a b \<longleftrightarrow> a = b"
proof -
  have z: "x = 0 \<or> x = 0x80000000" if "x AND 0x7FFFFFFF = 0" for x :: "32 word"
  proof -
    have "(x AND mask 31) = 0" using that by (simp add: mask_eq_exp_minus_1)
    then have "take_bit 31 x = 0" by (simp add: take_bit_eq_mask)
    then have "unat x mod 2 ^ 31 = 0" by (metis take_bit_eq_mod unsigned_0 unsigned_take_bit_eq)
    then obtain q where q: "unat x = 2 ^ 31 * q" by (metis mod_0_imp_dvd dvdE)
    have "unat x < 2 ^ 32" using unsigned_less [of x] by simp
    with q have "q = 0 \<or> q = 1" by auto
    then have "unat x = 0 \<or> unat x = 2 ^ 31" using q by auto
    then show ?thesis
    proof
      assume "unat x = 2 ^ 31"
      then have "unat x = unat (0x80000000 :: 32 word)" by simp
      then have "x = 0x80000000" by (rule unsigned_word_eqI)
      then show ?thesis ..
    qed (simp add: unsigned_eq_0_iff)
  qed
  with assms show ?thesis by (auto simp: real_eq_def)
qed

lemma or_T_REAL: "x OR y = T_REAL \<Longrightarrow> x \<noteq> 0 \<Longrightarrow> x = T_REAL"
proof -
  assume xy: "x OR y = T_REAL" and x: "x \<noteq> 0"
  have T: "bit T_REAL n \<longleftrightarrow> n = 7" for n
  proof -
    have "T_REAL = 2 ^ 7" by (simp add: T_REAL_def)
    show ?thesis unfolding \<open>T_REAL = 2 ^ 7\<close> bit_exp_iff by auto
  qed
  have sub: "bit x n \<Longrightarrow> n = 7" for n using T [of n] unfolding xy [symmetric] by (simp add: bit_or_iff)
  have "bit x 7"
  proof (rule ccontr)
    assume "\<not> bit x 7"
    with sub have "bit x n = bit 0 n" for n by auto
    then have "x = 0" by (intro bit_eqI) simp
    with x show False ..
  qed
  then have "bit x n \<longleftrightarrow> n = 7" for n using sub [of n] by auto
  then show ?thesis by (intro bit_eqI) (simp add: T)
qed

lemma msameval_good:
  assumes "good_key a" "good_key b"
  shows "msameval a b \<longleftrightarrow> sv_u a = sv_u b"
proof (cases "sv_type a OR sv_type b = T_REAL")
  case True
  then have "sv_type a = T_REAL" "sv_type b = T_REAL"
    using or_T_REAL [of "sv_type a" "sv_type b"] or_T_REAL [of "sv_type b" "sv_type a"] assms
    by (simp_all add: good_key_def or.commute)
  with assms show ?thesis by (simp add: msameval_def good_key_def real_eq_good T_consts)
next
  case False
  then show ?thesis by (simp add: msameval_def Let_def)
qed

lemma msameval_sym: "msameval a b = msameval b a"
  by (auto simp: msameval_def Let_def or.commute real_eq_def)

section \<open>Buckets\<close>

lemma masked_low: "k \<le> 16 \<Longrightarrow> masked (MAP_POINTER_HASH b) (2 ^ k - 1) = bucket k b"
proof -
  assume k: "k \<le> 16"
  have "(2 ^ k - 1 :: nat) < 2 ^ 32"
    using power_increasing [OF k, of "2::nat"] by (simp add: less_diff_conv2)
  then have "unat (of_nat (2 ^ k - 1) :: 32 word) = 2 ^ k - 1"
    by (intro unat_of_nat_small) simp
  then show ?thesis by (simp add: masked_def bucket_def unsigned_and_eq)
qed

lemma masked_bit: "k \<le> 16 \<Longrightarrow> masked h (2 ^ k) \<noteq> 0 \<longleftrightarrow> bit h k"
proof -
  assume k: "k \<le> 16"
  have "(of_nat (2 ^ k) :: 32 word) = 2 ^ k" by simp
  moreover have "h AND 2 ^ k \<noteq> 0 \<longleftrightarrow> bit h k" by (simp add: and_exp_eq_0_iff_not_bit)
  ultimately show ?thesis by (simp add: masked_def unsigned_eq_0_iff)
qed

lemma masked_simps:
  "k \<le> 16 \<Longrightarrow> masked (MAP_POINTER_HASH b) (2 ^ k - Suc 0) = bucket k b"
  "k \<le> 16 \<Longrightarrow> 0 < masked h (2 ^ k) \<longleftrightarrow> bit h k"
  using masked_low [of k b] masked_bit [of k h] by simp_all

lemma bucket_Suc: "bucket (Suc k) b = bucket k b + (if bit (MAP_POINTER_HASH b) k then 2 ^ k else 0)"
proof -
  let ?n = "unat (MAP_POINTER_HASH b)"
  have "bit (MAP_POINTER_HASH b) k \<longleftrightarrow> odd (?n div 2 ^ k)"
    by (simp add: bit_unsigned_iff flip: bit_iff_odd)
  moreover have "?n mod 2 ^ Suc k = ?n mod 2 ^ k + 2 ^ k * (?n div 2 ^ k mod 2)"
    by (simp add: mod_mult2_eq power_Suc2 del: power_Suc)
  ultimately show ?thesis by (auto simp: bucket_def odd_iff_mod_2_eq_one)
qed

lemma bucket_less [simp]: "bucket k b < 2 ^ k"
  by (simp add: bucket_def)

section \<open>Chains\<close>

lemma assoc_simps [simp]:
  "assoc [] b = None" "assoc (n # c) b = (if nkey n = b then Some (snd n) else assoc c b)"
  by (auto simp: assoc_def)

lemma assoc_perm: "distinct (map nkey c) \<Longrightarrow> mset c = mset c' \<Longrightarrow> assoc c = assoc c'"
proof -
  assume d: "distinct (map nkey c)" and m: "mset c = mset c'"
  then have "distinct (map nkey c')" by (metis mset_map mset_eq_imp_distinct_iff)
  moreover have "set c = set c'" using m by (rule mset_eq_setD)
  ultimately show ?thesis unfolding assoc_def using d
    by (intro map_of_inject_set [THEN iffD2]) (simp_all add: comp_def)
qed

lemma assoc_None: "assoc c b = None \<longleftrightarrow> b \<notin> nkey ` set c"
  by (induction c) auto

lemma assoc_filter: "(\<And>n. n \<in> set c \<Longrightarrow> nkey n = b \<Longrightarrow> P n) \<Longrightarrow> assoc (filter P c) b = assoc c b"
  by (induction c) auto

lemma chain_ok_perm: "chain_ok k i c \<Longrightarrow> mset c = mset c' \<Longrightarrow> chain_ok k i c'"
  unfolding chain_ok_def by (metis mset_map mset_eq_imp_distinct_iff mset_eq_setD)

lemma chain_ok_Cons [simp]:
  "chain_ok k i (n # c) \<longleftrightarrow> nkey n \<notin> nkey ` set c \<and> good_key (fst n) \<and> bucket k (nkey n) = i \<and> chain_ok k i c"
  by (auto simp: chain_ok_def)

lemma chain_ok_Nil [simp]: "chain_ok k i []"
  by (simp add: chain_ok_def)

lemma find_node_assoc:
  "chain_ok k i c \<Longrightarrow> good_key lv \<Longrightarrow> map_option snd (find_node lv c) = assoc c (sv_u lv)"
  by (induction c) (auto simp: msameval_good)

lemma chain_index_None: "chain_ok k i c \<Longrightarrow> good_key lv \<Longrightarrow> chain_index lv c = None \<longleftrightarrow> assoc c (sv_u lv) = None"
  by (induction c) (auto simp: msameval_good)

lemma chain_index_Some:
  "chain_ok k i c \<Longrightarrow> good_key lv \<Longrightarrow> chain_index lv c = Some j
    \<Longrightarrow> j < length c \<and> nkey (c ! j) = sv_u lv \<and> assoc c (sv_u lv) = Some (snd (c ! j))"
proof (induction c arbitrary: j)
  case (Cons n c)
  show ?case
  proof (cases "msameval lv (fst n)")
    case True
    with Cons.prems show ?thesis by (auto simp: msameval_good)
  next
    case False
    with Cons.prems obtain j' where j: "chain_index lv c = Some j'" "j = Suc j'" by auto
    with Cons have "j' < length c \<and> nkey (c ! j') = sv_u lv \<and> assoc c (sv_u lv) = Some (snd (c ! j'))" by simp
    moreover have "nkey n \<noteq> sv_u lv" using False Cons.prems by (auto simp: msameval_good)
    ultimately show ?thesis using j by simp
  qed
qed simp

lemma assoc_update:
  "distinct (map nkey c) \<Longrightarrow> j < length c
    \<Longrightarrow> assoc (c[j := (fst (c ! j), v)]) b = (if b = nkey (c ! j) then Some v else assoc c b)"
proof (induction c arbitrary: j)
  case (Cons n c)
  show ?case
  proof (cases j)
    case (Suc j')
    have "c ! j' \<in> set c" using Cons.prems Suc by (intro nth_mem) simp
    moreover have "\<forall>x \<in> set c. nkey x \<noteq> nkey n" using Cons.prems(1) by (auto simp: image_iff)
    ultimately have ne: "nkey (c ! j') \<noteq> nkey n" by blast
    from Cons Suc have "assoc (c[j' := (fst (c ! j'), v)]) b = (if b = nkey (c ! j') then Some v else assoc c b)" by simp
    then have "assoc ((n # c)[j := (fst ((n # c) ! j), v)]) b =
        (if nkey n = b then Some (snd n) else if b = nkey (c ! j') then Some v else assoc c b)"
      using Suc by simp
    with ne Suc show ?thesis by (simp split: if_splits)
  qed auto
qed simp

lemma unlink_node_None: "chain_ok k i c \<Longrightarrow> good_key lv \<Longrightarrow> unlink_node lv c = None \<longleftrightarrow> assoc c (sv_u lv) = None"
  by (induction c) (auto simp: msameval_good split: option.splits)

lemma unlink_node_Some:
  "chain_ok k i c \<Longrightarrow> good_key lv \<Longrightarrow> unlink_node lv c = Some (n, c')
    \<Longrightarrow> chain_ok k i c' \<and> (\<forall>b. assoc c' b = (if b = sv_u lv then None else assoc c b))
      \<and> assoc c (sv_u lv) = Some (snd n) \<and> nkey n = sv_u lv \<and> mset c = add_mset n (mset c')"
proof (induction c arbitrary: c')
  case (Cons a c)
  show ?case
  proof (cases "msameval (fst a) lv")
    case True
    with Cons.prems have "nkey a = sv_u lv" by (simp add: msameval_good)
    moreover from this Cons.prems(1) have "assoc c (sv_u lv) = None" by (simp add: assoc_None)
    ultimately show ?thesis using True Cons.prems by auto
  next
    case False
    with Cons.prems obtain r where r: "unlink_node lv c = Some (n, r)" "c' = a # r"
      by (auto split: option.splits)
    have h: "chain_ok k i r \<and> (\<forall>b. assoc r b = (if b = sv_u lv then None else assoc c b))
      \<and> assoc c (sv_u lv) = Some (snd n) \<and> nkey n = sv_u lv \<and> mset c = add_mset n (mset r)"
      by (rule Cons.IH) (use Cons.prems r in simp_all)
    then have "set c = insert n (set r)" by (metis set_mset_add_mset_insert set_mset_mset)
    moreover have "nkey a \<noteq> sv_u lv" using False Cons.prems by (auto simp: msameval_good)
    ultimately show ?thesis using h Cons.prems r by auto
  qed
qed simp

section \<open>Growing keeps the content\<close>

abbreviation goes_up :: "nat \<Rightarrow> mapping_node \<Rightarrow> bool" where
  "goes_up oldsize n \<equiv> masked (node_hash n) oldsize \<noteq> 0"

lemma split_bucket_eq:
  "split_bucket os c keep b u =
     (rev keep @ filter (\<lambda>n. \<not> goes_up os n) c, rev (filter (goes_up os) c) @ b,
      if b = [] \<and> filter (goes_up os) c \<noteq> [] then u - 1 else u)"
  by (induction os c keep b u rule: split_bucket.induct) auto

lemma filled_update: "i < length t \<Longrightarrow> filled (t[i := c]) + of_bool (t ! i \<noteq> []) = filled t + of_bool (c \<noteq> [])"
proof (induction t arbitrary: i)
  case (Cons a t)
  show ?case
  proof (cases i)
    case 0
    then show ?thesis by (simp add: filled_def)
  next
    case (Suc j)
    with Cons have "filled (t[j := c]) + of_bool (t ! j \<noteq> []) = filled t + of_bool (c \<noteq> [])" by simp
    with Suc show ?thesis by (simp add: filled_def)
  qed
qed simp

text \<open>Buckets \<open>< i\<close> are done; the sum of filled and unfilled buckets does not change.\<close>

lemma grow_loop_spec:
  assumes "length tbl = 2 * os" "i \<le> os" "\<forall>j < i. tbl ! (j + os) = []"
    and "grow_loop os i tbl u = (tbl', u')"
  shows "length tbl' = 2 * os
    \<and> (\<forall>j < os. tbl' ! j = (if j < i then filter (\<lambda>n. \<not> goes_up os n) (tbl ! j) else tbl ! j)
        \<and> tbl' ! (j + os) = (if j < i then rev (filter (goes_up os) (tbl ! j)) else tbl ! (j + os)))
    \<and> u' + of_nat (filled tbl') = u + of_nat (filled tbl)"
  using assms
proof (induction i arbitrary: tbl u)
  case (Suc i)
  show ?case
  proof (cases "tbl ! i = []")
    case True
    have "length tbl' = 2 * os
      \<and> (\<forall>j < os. tbl' ! j = (if j < i then filter (\<lambda>n. \<not> goes_up os n) (tbl ! j) else tbl ! j)
          \<and> tbl' ! (j + os) = (if j < i then rev (filter (goes_up os) (tbl ! j)) else tbl ! (j + os)))
      \<and> u' + of_nat (filled tbl') = u + of_nat (filled tbl)"
      by (rule Suc.IH) (use Suc.prems True in simp_all)
    with True Suc.prems(3) show ?thesis by (auto simp: less_Suc_eq)
  next
    case False
    let ?a = "filter (\<lambda>n. \<not> goes_up os n) (tbl ! i)" and ?b = "rev (filter (goes_up os) (tbl ! i))"
    let ?t = "tbl[i := ?a, i + os := ?b]"
    let ?u = "(if ?b \<noteq> [] then u - 1 else u) + (if ?a = [] then 1 else 0)"
    have e: "tbl ! (i + os) = []" using Suc.prems(3) by simp
    have g: "grow_loop os i ?t ?u = (tbl', u')"
      using Suc.prems(4) False e by (simp add: split_bucket_eq Let_def split: if_splits)
    have ii: "i < length tbl" "i + os < length (tbl[i := ?a])" "i \<noteq> i + os" using Suc.prems(1,2) by auto
    have "filled ?t + 1 = filled tbl + of_bool (?a \<noteq> []) + of_bool (?b \<noteq> [])"
      using filled_update [OF ii(1), of ?a] filled_update [OF ii(2), of ?b] False e ii(3) by simp
    then have "(of_nat (filled ?t + 1) :: 16 word) = of_nat (filled tbl + of_bool (?a \<noteq> []) + of_bool (?b \<noteq> []))"
      by (rule arg_cong)
    then have f: "(of_nat (filled ?t) :: 16 word) = of_nat (filled tbl) + of_bool (?a \<noteq> []) + of_bool (?b \<noteq> []) - 1"
      by (simp add: algebra_simps)
    have "length tbl' = 2 * os
      \<and> (\<forall>j < os. tbl' ! j = (if j < i then filter (\<lambda>n. \<not> goes_up os n) (?t ! j) else ?t ! j)
          \<and> tbl' ! (j + os) = (if j < i then rev (filter (goes_up os) (?t ! j)) else ?t ! (j + os)))
      \<and> u' + of_nat (filled tbl') = ?u + of_nat (filled ?t)"
      by (rule Suc.IH) (use Suc.prems g in \<open>simp_all add: nth_update_if\<close>)
    moreover have "?u + of_nat (filled ?t) = u + of_nat (filled tbl)" unfolding f by (simp add: algebra_simps)
    moreover have "?t ! j = (if j = i then ?a else tbl ! j)" "?t ! (j + os) = (if j = i then ?b else tbl ! (j + os))"
      if "j < os" for j using that Suc.prems(1,2) by (simp_all add: nth_update_if)
    ultimately show ?thesis by (auto simp: less_Suc_eq)
  qed
qed simp

lemma filled_append: "filled (s @ t) = filled s + filled t"
  by (simp add: filled_def)

lemma filled_map: "f [] = [] \<Longrightarrow> filled (map f t) \<le> filled t"
  by (induction t) (auto simp: filled_def)

lemma filled_replicate [simp]: "filled (replicate n []) = 0"
  by (simp add: filled_def)

lemma filled_le: "filled t \<le> length t"
  by (simp add: filled_def)

lemma mset_concat_split:
  "(\<And>c. mset (f c) + mset (g c) = mset c) \<Longrightarrow> mset (concat (map f t @ map g t)) = mset (concat t)"
proof (induction t)
  case (Cons c t)
  then have "mset (concat (map f t @ map g t)) = mset (concat t)" by simp
  with Cons.prems [of c, symmetric] show ?case by (simp add: ac_simps)
qed simp

lemma grow_table:
  assumes "length t = os"
    and "grow_loop os os (t @ replicate os []) u = (t', u')"
  shows "t' = map (filter (\<lambda>n. \<not> goes_up os n)) t @ map (\<lambda>c. rev (filter (goes_up os) c)) t"
    and "u' = u + of_nat (filled t) - of_nat (filled t')"
proof -
  let ?tb = "t @ replicate os []"
  have n: "\<forall>j < os. ?tb ! (j + os) = [] \<and> ?tb ! j = t ! j" using assms(1) by (simp add: nth_append)
  have "length t' = 2 * os
    \<and> (\<forall>j < os. t' ! j = (if j < os then filter (\<lambda>n. \<not> goes_up os n) (?tb ! j) else ?tb ! j)
        \<and> t' ! (j + os) = (if j < os then rev (filter (goes_up os) (?tb ! j)) else ?tb ! (j + os)))
    \<and> u' + of_nat (filled t') = u + of_nat (filled ?tb)"
    by (rule grow_loop_spec [OF _ _ _ assms(2)]) (use assms n in simp_all)
  then have s: "length t' = 2 * os" "\<forall>j < os. t' ! j = filter (\<lambda>n. \<not> goes_up os n) (t ! j)"
    "\<forall>j < os. t' ! (j + os) = rev (filter (goes_up os) (t ! j))"
    "u' + of_nat (filled t') = u + of_nat (filled ?tb)" using n by simp_all
  show "t' = map (filter (\<lambda>n. \<not> goes_up os n)) t @ map (\<lambda>c. rev (filter (goes_up os) c)) t"
  proof (rule nth_equalityI)
    show "length t' = length (map (filter (\<lambda>n. \<not> goes_up os n)) t @ map (\<lambda>c. rev (filter (goes_up os) c)) t)"
      using s(1) assms(1) by simp
    fix j assume j: "j < length t'"
    show "t' ! j = (map (filter (\<lambda>n. \<not> goes_up os n)) t @ map (\<lambda>c. rev (filter (goes_up os) c)) t) ! j"
    proof (cases "j < os")
      case True
      with s(2) assms(1) show ?thesis by (simp add: nth_append)
    next
      case False
      with j s(1) have "j - os < os" "j = (j - os) + os" by auto
      with s(3) have "t' ! j = rev (filter (goes_up os) (t ! (j - os)))" by metis
      with False \<open>j - os < os\<close> assms(1) show ?thesis by (simp add: nth_append)
    qed
  qed
  show "u' = u + of_nat (filled t) - of_nat (filled t')"
    using s(4) by (simp add: filled_append eq_diff_eq)
qed

lemma content_bucket: "shape k m \<Longrightarrow> content m b = assoc (table m ! bucket k b) b"
  by (simp add: content_def shape_def masked_simps)

lemma goes_up_bucket:
  "k \<le> 15 \<Longrightarrow> goes_up (2 ^ k) n \<longleftrightarrow> bucket (Suc k) (nkey n) = bucket k (nkey n) + 2 ^ k"
  by (simp add: masked_simps node_hash_def bucket_Suc)

lemma chain_ok_filter:
  "chain_ok k i c \<Longrightarrow> (\<And>n. P n \<Longrightarrow> bucket k (nkey n) = i \<Longrightarrow> bucket k' (nkey n) = i') \<Longrightarrow> chain_ok k' i' (filter P c)"
  by (induction c) auto

lemma chain_ok_rev [simp]: "chain_ok k i (rev c) = chain_ok k i c"
  by (auto simp: chain_ok_def simp flip: rev_map)

lemma growMap_fails: "shape 15 m \<Longrightarrow> growMap m g = (False, m, g)"
  by (simp add: growMap_def shape_def MAX_TABLE_SIZE_def)

lemma growMap_ok:
  assumes sh: "shape k m" and n: "nodes_ok k (table m)" and k: "k < 15"
  shows "\<exists>m'. growMap m g = (True, m', g\<lparr>total_mapping_size := total_mapping_size g + sizeof_node_ptr * 2 ^ k\<rparr>)
    \<and> shape (Suc k) m' \<and> nodes_ok (Suc k) (table m') \<and> content m' = content m \<and> mcount m' = mcount m
    \<and> mset (concat (table m')) = mset (concat (table m))
    \<and> (\<forall>i < 2 ^ k. table m ! i = [] \<longrightarrow> table m' ! i = [] \<and> table m' ! (i + 2 ^ k) = [])
    \<and> unfilled m' = of_nat (2 ^ k * 80 div 100) + of_nat (filled (table m)) - of_nat (filled (table m'))
    \<and> filled (table m') \<le> 2 * filled (table m)"
proof -
  let ?os = "2 ^ k :: nat"
  from sh have ts: "table_size m + 1 = ?os" and len: "length (table m) = ?os" by (simp_all add: shape_def)
  obtain t' u' where g: "grow_loop ?os ?os (table m @ replicate ?os []) (of_nat (?os * FILL_PERCENT div 100)) = (t', u')"
    by fastforce
  note t = grow_table [OF len g]
  define m' where "m' = m\<lparr>table := t', table_size := 2 * ?os - 1, unfilled := u'\<rparr>"
  have "?os \<le> 2 ^ 14" using k by (intro power_increasing) simp_all
  then have gr: "growMap m g = (True, m', g\<lparr>total_mapping_size := total_mapping_size g + sizeof_node_ptr * 2 ^ k\<rparr>)"
    unfolding growMap_def Let_def ts g prod.case by (simp add: MAX_TABLE_SIZE_def m'_def push_bit_eq_mult)
  have nth: "t' ! j = filter (\<lambda>n. \<not> goes_up ?os n) (table m ! j)" "t' ! (j + ?os) = rev (filter (goes_up ?os) (table m ! j))"
    if "j < ?os" for j using that len by (simp_all add: t(1) nth_append)
  have c: "chain_ok k j (table m ! j)" if "j < ?os" for j using n that by (simp add: nodes_ok_def)
  have up: "goes_up ?os x \<longleftrightarrow> bucket (Suc k) (nkey x) = bucket k (nkey x) + 2 ^ k" for x
    using k by (intro goes_up_bucket) simp
  have low: "\<not> goes_up ?os x \<longleftrightarrow> bucket (Suc k) (nkey x) = bucket k (nkey x)" for x
    using k by (simp add: masked_simps node_hash_def bucket_Suc)
  have sh': "shape (Suc k) m'" using sh k t(1) by (simp add: shape_def m'_def)
  have ok0: "chain_ok (Suc k) j (t' ! j) \<and> chain_ok (Suc k) (j + ?os) (t' ! (j + ?os))" if "j < ?os" for j
    unfolding nth [OF that] chain_ok_rev
    using low up by (intro conjI chain_ok_filter [OF c [OF that]]) blast+
  have "chain_ok (Suc k) j (t' ! j)" if "j < 2 ^ Suc k" for j
  proof (cases "j < ?os")
    case False
    then have "j - ?os < ?os" "j = (j - ?os) + ?os" using that by auto
    with ok0 show ?thesis by metis
  qed (use ok0 in blast)
  then have nk: "nodes_ok (Suc k) (table m')" by (simp add: nodes_ok_def m'_def)
  have ct: "content m' b = content m b" for b
  proof -
    have tb: "table m' = t'" by (simp add: m'_def)
    show ?thesis
    proof (cases "bit (MAP_POINTER_HASH b) k")
      case True
      have "assoc (rev (filter (goes_up ?os) (table m ! bucket k b))) b = assoc (filter (goes_up ?os) (table m ! bucket k b)) b"
        by (rule fun_cong [OF assoc_perm]) (use ok0 [of "bucket k b"] nth in \<open>simp_all add: chain_ok_def\<close>)
      also have "\<dots> = assoc (table m ! bucket k b) b"
        using True k by (intro assoc_filter) (auto simp: masked_simps node_hash_def)
      finally show ?thesis
        unfolding content_bucket [OF sh'] content_bucket [OF sh] tb bucket_Suc using True nth(2) by simp
    next
      case False
      have "assoc (filter (\<lambda>n. \<not> goes_up ?os n) (table m ! bucket k b)) b = assoc (table m ! bucket k b) b"
        using False k by (intro assoc_filter) (auto simp: masked_simps node_hash_def)
      then show ?thesis
        unfolding content_bucket [OF sh'] content_bucket [OF sh] tb bucket_Suc using False nth(1) by simp
    qed
  qed
  have "mset (concat t') = mset (concat (table m))"
    unfolding t(1) by (rule mset_concat_split) (simp add: union_filter_mset_complement)
  moreover have "filled t' \<le> 2 * filled (table m)"
    unfolding t(1) filled_append
    using filled_map [of "filter (\<lambda>n. \<not> goes_up ?os n)" "table m"] filled_map [of "\<lambda>c. rev (filter (goes_up ?os) c)" "table m"]
    by simp
  moreover have "u' = of_nat (2 ^ k * 80 div 100) + of_nat (filled (table m)) - of_nat (filled t')"
    using t(2) by (simp add: FILL_PERCENT_def)
  moreover have "content m' = content m" by (rule ext) (rule ct)
  ultimately show ?thesis using gr sh' nk nth by (intro exI [of _ m']) (simp add: m'_def)
qed

section \<open>Updating one bucket\<close>

definition inv :: "nat \<Rightarrow> mapping \<Rightarrow> bool" where
  "inv k m \<longleftrightarrow> shape k m \<and> nodes_ok k (table m)"

lemma mapping_ok_inv:
  "mapping_ok M m \<longleftrightarrow> (\<exists>k. inv k m) \<and> mcount m = int (length (concat (table m))) \<and> mcount m \<le> M"
  by (simp add: mapping_ok_def inv_def)

lemma inv_chain: "inv k m \<Longrightarrow> i < 2 ^ k \<Longrightarrow> chain_ok k i (table m ! i)"
  by (simp add: inv_def nodes_ok_def)

lemma inv_bucket: "inv k m \<Longrightarrow> masked (MAP_POINTER_HASH b) (table_size m) = bucket k b"
  by (simp add: inv_def shape_def masked_simps)

lemma inv_content: "inv k m \<Longrightarrow> content m b = assoc (table m ! bucket k b) b"
  by (simp add: inv_def content_bucket)

lemma inv_length: "inv k m \<Longrightarrow> length (table m) = 2 ^ k"
  by (simp add: inv_def shape_def)

lemma inv_update:
  assumes "inv k m" "i < 2 ^ k" "chain_ok k i c" "table m' = (table m)[i := c]" "table_size m' = table_size m"
  shows "inv k m' \<and> (\<forall>b. content m' b = (if bucket k b = i then assoc c b else content m b))"
proof -
  have i: "inv k m'" using assms by (auto simp: inv_def shape_def nodes_ok_def nth_update_if)
  have "content m' b = (if bucket k b = i then assoc c b else content m b)" for b
    unfolding inv_content [OF i] inv_content [OF assms(1)] assms(4)
    using inv_length [OF assms(1)] by (simp add: nth_update_if)
  with i show ?thesis by blast
qed

lemma mset_concat_update:
  "i < length t \<Longrightarrow> mset (concat (t[i := c])) + mset (t ! i) = mset (concat t) + mset c"
proof (induction t arbitrary: i)
  case (Cons a t)
  show ?case
  proof (cases i)
    case (Suc j)
    with Cons have "mset (concat (t[j := c])) + mset (t ! j) = mset (concat t) + mset c" by simp
    with Suc show ?thesis by (simp add: ac_simps)
  qed (simp add: ac_simps)
qed simp

lemma length_concat_mset: "mset (concat t) = mset (concat t') \<Longrightarrow> length (concat t) = length (concat t')"
  by (metis size_mset)

lemma push_inv:
  assumes "inv k m" "i = bucket k (nkey n)" "good_key (fst n)" "content m (nkey n) = None"
    and "table m' = (table m)[i := n # table m ! i]" "table_size m' = table_size m"
  shows "inv k m'" and "content m' = (content m)(nkey n \<mapsto> snd n)"
    and "mset (concat (table m')) = add_mset n (mset (concat (table m)))"
proof -
  have i: "i < 2 ^ k" by (simp add: assms(2))
  have a: "assoc (table m ! i) (nkey n) = None" using assms(4) by (simp add: inv_content [OF assms(1)] assms(2))
  have "chain_ok k i (n # table m ! i)"
    using inv_chain [OF assms(1) i] a assms(2,3) by (simp add: assoc_None)
  note u = inv_update [OF assms(1) i this assms(5,6)]
  then show "inv k m'" by blast
  have "content m' b = ((content m)(nkey n \<mapsto> snd n)) b" for b
    using u inv_content [OF assms(1), of b] assms(2) by auto
  then show "content m' = (content m)(nkey n \<mapsto> snd n)" by (rule ext)
  have "i < length (table m)" using i inv_length [OF assms(1)] by simp
  from mset_concat_update [OF this, of "n # table m ! i"] show "mset (concat (table m')) = add_mset n (mset (concat (table m)))"
    by (simp add: assms(5))
qed

text \<open>Room for a node: nothing is lost, and the bucket found is the one of the key, still empty.\<close>

lemma take_bucket_ok:
  assumes v: "inv k m" and i: "i = bucket k b" and e: "table m ! i = []"
    and r: "take_bucket (MAP_POINTER_HASH b) i m g = (ok, i', m', g')"
  shows "content m' = content m \<and> mset (concat (table m')) = mset (concat (table m)) \<and> mcount m' = mcount m
    \<and> (\<exists>k'. inv k' m' \<and> i' = bucket k' b \<and> table m' ! i' = [] \<and> (\<not> ok \<longrightarrow> k = 15 \<and> k' = 15)
        \<and> (fill_ok k m \<longrightarrow> ok \<longrightarrow> unfilled m' \<noteq> 0
             \<and> filled (table m') + 1 + unat (unfilled m') \<le> 2 ^ k' * 80 div 100))
    \<and> g' = g\<lparr>total_mapping_size := total_mapping_size g
              + sizeof_node_ptr * (int (length (table m')) - int (length (table m)))\<rparr>"
proof -
  define m1 where "m1 = m\<lparr>unfilled := unfilled m - 1\<rparr>"
  have v1: "inv k m1" using v by (simp add: m1_def inv_def shape_def)
  have c1: "content m1 = content m" by (simp add: m1_def content_def [abs_def])
  have t1: "table m1 = table m" "mcount m1 = mcount m" "unfilled m1 = unfilled m - 1" "table_size m1 = table_size m"
    by (simp_all add: m1_def)
  have k: "k \<le> 15" "table_size m + 1 = 2 ^ k" using v by (simp_all add: inv_def shape_def)
  have un: "unat (unfilled m) = Suc (unat (unfilled m - 1))" if "fill_ok k m"
    using that unat_gt_0 [of "unfilled m"] by (simp add: fill_ok_def unat_minus_one)
  consider "unfilled m - 1 \<noteq> 0" | "unfilled m - 1 = 0" "k < 15" | "unfilled m - 1 = 0" "k = 15" using k by linarith
  then show ?thesis
  proof cases
    case 1
    with r have "ok" "i' = i" "m' = m1" "g' = g" by (simp_all add: take_bucket_def Let_def m1_def)
    with v1 c1 t1 e i 1 un show ?thesis by (auto simp: fill_ok_def intro!: exI [of _ k])
  next
    case 2
    have sn: "shape k m1" "nodes_ok k (table m1)" using v1 by (simp_all add: inv_def)
    from growMap_ok [OF sn 2(2), of g] obtain m2 where gr:
      "growMap m1 g = (True, m2, g\<lparr>total_mapping_size := total_mapping_size g + sizeof_node_ptr * 2 ^ k\<rparr>)"
      "shape (Suc k) m2" "nodes_ok (Suc k) (table m2)" "content m2 = content m1" "mcount m2 = mcount m1"
      "mset (concat (table m2)) = mset (concat (table m1))"
      "\<forall>i < 2 ^ k. table m1 ! i = [] \<longrightarrow> table m2 ! i = [] \<and> table m2 ! (i + 2 ^ k) = []"
      "unfilled m2 = of_nat (2 ^ k * 80 div 100) + of_nat (filled (table m1)) - of_nat (filled (table m2))"
      "filled (table m2) \<le> 2 * filled (table m1)" by blast
    have "take_bucket (MAP_POINTER_HASH b) i m g =
      (True, if masked (MAP_POINTER_HASH b) (2 ^ k) \<noteq> 0 then i OR 2 ^ k else i, m2,
       g\<lparr>total_mapping_size := total_mapping_size g + sizeof_node_ptr * 2 ^ k\<rparr>)"
      using 2(1) gr(1) k(2) by (simp add: take_bucket_def Let_def m1_def)
    with r have res: "ok" "i' = (if masked (MAP_POINTER_HASH b) (2 ^ k) \<noteq> 0 then i OR 2 ^ k else i)" "m' = m2"
      "g' = g\<lparr>total_mapping_size := total_mapping_size g + sizeof_node_ptr * 2 ^ k\<rparr>" by simp_all
    have or: "i OR 2 ^ k = i + 2 ^ k"
    proof -
      have "\<not> bit (take_bit k (unat (MAP_POINTER_HASH b))) k" by (simp add: bit_take_bit_iff)
      then have "i AND 2 ^ k = 0" by (simp only: i bucket_def take_bit_eq_mod and_exp_eq_0_iff_not_bit not_False_eq_True)
      then show ?thesis by (simp add: disjunctive_add_eq_or)
    qed
    have i': "i' = bucket (Suc k) b" unfolding res(2) or using k(1) by (simp add: masked_simps bucket_Suc i)
    have "i < 2 ^ k" by (simp add: i)
    with gr(7) e t1 have emp: "table m2 ! i' = []" by (simp add: res(2) or)
    have iv: "inv (Suc k) m2" using gr by (simp add: inv_def)
    have fill: "unfilled m2 \<noteq> 0 \<and> filled (table m2) + 1 + unat (unfilled m2) \<le> 2 ^ Suc k * 80 div 100" if f: "fill_ok k m"
    proof -
      have u: "unat (unfilled m) = 1" using un [OF f] 2(1) by simp
      let ?c = "2 ^ k * 80 div 100 :: nat"
      have F: "filled (table m) + 1 \<le> ?c" using f u by (simp add: fill_ok_def)
      have "(2::nat) ^ k \<le> 2 ^ 14" using 2(2) by (intro power_increasing) simp_all
      then have c: "?c \<le> 13107" by (simp add: div_le_mono [of _ "2 ^ 14 * 80" 100, simplified])
      let ?x = "?c + filled (table m) - filled (table m2)"
      have le: "filled (table m2) \<le> ?c + filled (table m)" using gr(9) F t1 by simp
      then have "unfilled m2 = of_nat ?x" unfolding gr(8) t1 by simp
      moreover have "?x < 2 ^ 16" using c F by simp
      ultimately have ux: "unat (unfilled m2) = ?x" by (simp add: unat_of_nat_small)
      have "0 < ?x" using gr(9) F t1 by simp
      with ux have "unfilled m2 \<noteq> 0" by auto
      moreover have "filled (table m2) + 1 + ?x \<le> 2 ^ Suc k * 80 div 100" using le F by simp
      ultimately show ?thesis using ux by simp
    qed
    have len: "int (length (table m2)) - int (length (table m)) = 2 ^ k"
      using inv_length [OF iv] inv_length [OF v] by simp
    have "content m2 = content m \<and> mset (concat (table m2)) = mset (concat (table m)) \<and> mcount m2 = mcount m"
      using gr t1 c1 by simp
    moreover have "inv (Suc k) m2 \<and> i' = bucket (Suc k) b \<and> table m2 ! i' = [] \<and> (\<not> ok \<longrightarrow> k = 15 \<and> Suc k = 15)
        \<and> (fill_ok k m \<longrightarrow> ok \<longrightarrow> unfilled m2 \<noteq> 0
             \<and> filled (table m2) + 1 + unat (unfilled m2) \<le> 2 ^ Suc k * 80 div 100)"
      using iv i' emp fill res(1) by blast
    moreover have "g' = g\<lparr>total_mapping_size := total_mapping_size g
        + sizeof_node_ptr * (int (length (table m2)) - int (length (table m)))\<rparr>"
      unfolding res(4) len by (rule refl)
    ultimately show ?thesis unfolding res(3) by blast
  next
    case 3
    have "shape 15 m1" using v1 3 by (simp add: inv_def)
    from growMap_fails [OF this] have "growMap m1 g = (False, m1, g)" .
    with r 3(1) have "\<not> ok" "i' = i" "m' = m1" "g' = g"
      by (simp_all add: take_bucket_def Let_def m1_def)
    with v1 c1 t1 e i 3 show ?thesis by (auto intro!: exI [of _ 15])
  qed
qed

section \<open>Accounting\<close>

text \<open>
  What the globals say beyond this mapping: bytes, nodes, nodes taken from blocks, and references.
  An operation that keeps the balance has accounted for exactly what it changed in the mapping.
\<close>

definition counted :: "svalue \<Rightarrow> bool" where
  "counted v \<longleftrightarrow> (sv_type v = T_STRING \<and> sv_subtype v AND STRING_COUNTED \<noteq> 0)
     \<or> (sv_type v \<noteq> T_STRING \<and> sv_type v AND T_REFED \<noteq> 0)"

definition ref_of :: "svalue \<Rightarrow> 32 word \<Rightarrow> int" where
  "ref_of v x = (if counted v \<and> sv_u v = x then 1 else 0)"

definition node_refs :: "mapping_node \<Rightarrow> 32 word \<Rightarrow> int" where
  "node_refs n x = ref_of (fst n) x + ref_of (snd n) x"

definition held :: "mapping_node multiset \<Rightarrow> 32 word \<Rightarrow> int" where
  "held N x = (\<Sum>n \<in># N. node_refs n x)"

definition nodes_out :: "map_globals \<Rightarrow> int" where
  "nodes_out g = int (MNB_SIZE * node_blocks g) - int (free_nodes g)"

definition nodes :: "mapping \<Rightarrow> mapping_node multiset" where
  "nodes m = mset (concat (table m))"

definition balance :: "mapping \<Rightarrow> map_globals \<Rightarrow> int \<times> int \<times> int \<times> int \<times> (32 word \<Rightarrow> int)" where
  "balance m g =
     (num_mappings g,
      total_mapping_size g - (sizeof_mapping_t + sizeof_node_ptr * int (length (table m)) + sizeof_mapping_node_t * mcount m),
      total_mapping_nodes g - mcount m,
      nodes_out g - int (size (nodes m)),
      (\<lambda>x. refs g x - held (nodes m) x))"

lemma held_simps [simp]: "held {#} x = 0" "held (add_mset n N) x = node_refs n x + held N x"
  "held (N + M) x = held N x + held M x"
  by (simp_all add: held_def)

lemma ref_svalue_simps [simp]:
  "refs (ref_svalue d v g) x = refs g x + d * ref_of v x" "num_mappings (ref_svalue d v g) = num_mappings g"
  "total_mapping_size (ref_svalue d v g) = total_mapping_size g"
  "total_mapping_nodes (ref_svalue d v g) = total_mapping_nodes g"
  "nodes_out (ref_svalue d v g) = nodes_out g"
  by (simp_all add: ref_svalue_def ref_of_def counted_def nodes_out_def)

lemma new_map_node_simps [simp]:
  "refs (new_map_node g) = refs g" "num_mappings (new_map_node g) = num_mappings g"
  "total_mapping_size (new_map_node g) = total_mapping_size g"
  "total_mapping_nodes (new_map_node g) = total_mapping_nodes g"
  "nodes_out (new_map_node g) = nodes_out g + 1"
  by (auto simp: new_map_node_def nodes_out_def MNB_SIZE_def)

lemma free_node_simps [simp]:
  "refs (free_node g) = refs g" "num_mappings (free_node g) = num_mappings g"
  "total_mapping_size (free_node g) = total_mapping_size g"
  "total_mapping_nodes (free_node g) = total_mapping_nodes g"
  "nodes_out (free_node g) = nodes_out g - 1"
  by (simp_all add: free_node_def nodes_out_def)

lemma nodes_out_upd [simp]:
  "nodes_out (g\<lparr>total_mapping_size := a\<rparr>) = nodes_out g"
  "nodes_out (g\<lparr>total_mapping_nodes := a\<rparr>) = nodes_out g"
  "nodes_out (g\<lparr>num_mappings := a\<rparr>) = nodes_out g"
  by (simp_all add: nodes_out_def)

lemma ref_of_const0u [simp]: "ref_of const0u x = 0"
  by (simp add: ref_of_def counted_def const0u_def T_NUMBER_def T_STRING_def T_REFED_def)

section \<open>Inserting\<close>

lemma find_for_insert_ok:
  assumes ok: "mapping_ok M m" and key: "svalue_to_int mk key = (h, lv)" and gk: "good_key lv"
    and r: "find_for_insert mk M m key False g = (res, m', g')"
  shows "mapping_ok M m' \<and> balance m' g' = balance m g
    \<and> (case res of
         Inl e \<Rightarrow> content m' = content m \<and> content m (sv_u lv) = None \<and> (e = Mapping_too_large \<longrightarrow> mcount m = M)
       | Inr p \<Rightarrow> fst p < length (table m') \<and> snd p < length (table m' ! fst p)
           \<and> nkey (table m' ! fst p ! snd p) = sv_u lv
           \<and> content m' = (content m)(sv_u lv \<mapsto> lvalue_get m' p)
           \<and> lvalue_get m' p = (case content m (sv_u lv) of None \<Rightarrow> const0u | Some v \<Rightarrow> v))"
proof -
  from ok obtain k where v: "inv k m" and cnt: "mcount m = int (length (concat (table m)))" "mcount m \<le> M"
    by (auto simp: mapping_ok_inv)
  from key have h: "h = MAP_POINTER_HASH (sv_u lv)" by (auto simp: svalue_to_int_def Let_def)
  let ?b = "sv_u lv"
  let ?i = "bucket k ?b"
  have k: "k \<le> 15" using v by (simp add: inv_def shape_def)
  have i: "?i < 2 ^ k" by simp
  have "(2::nat) ^ k \<le> 2 ^ 16" using k by (intro power_increasing) simp_all
  with i have "?i < 2 ^ 16" by linarith
  then have im: "masked h (table_size m) mod 2 ^ 16 = ?i" unfolding h inv_bucket [OF v] by simp
  note ch = inv_chain [OF v i]
  have len: "?i < length (table m)" using inv_length [OF v] by simp
  show ?thesis
  proof (cases "chain_index lv (table m ! ?i)")
    case (Some j)
    with r have r': "res = Inr (?i, j)" "m' = m" "g' = g"
      unfolding find_for_insert_def key Let_def prod.case im Some option.case by simp_all
    from chain_index_Some [OF ch gk Some] have j: "j < length (table m ! ?i)" "nkey (table m ! ?i ! j) = ?b"
      "content m ?b = Some (snd (table m ! ?i ! j))" by (simp_all add: inv_content [OF v])
    have "(content m)(?b \<mapsto> snd (table m ! ?i ! j)) = content m" using j(3) by (rule fun_upd_idem)
    with r' j ok len show ?thesis by (simp add: lvalue_get_def)
  next
    case None
    with chain_index_None [OF ch gk] have new: "content m ?b = None" by (simp add: inv_content [OF v])
    obtain ok2 i2 m2 g2 where t: "(if table m ! ?i \<noteq> [] then (True, ?i, m, g) else take_bucket h ?i m g) = (ok2, i2, m2, g2)"
      by (metis prod_cases4)
    have t2: "content m2 = content m \<and> nodes m2 = nodes m \<and> mcount m2 = mcount m
      \<and> (\<exists>k'. inv k' m2 \<and> i2 = bucket k' ?b)
      \<and> g2 = g\<lparr>total_mapping_size := total_mapping_size g
          + sizeof_node_ptr * (int (length (table m2)) - int (length (table m)))\<rparr>"
    proof (cases "table m ! ?i = []")
      case True
      with t have "take_bucket (MAP_POINTER_HASH ?b) ?i m g = (ok2, i2, m2, g2)" by (simp add: h)
      from take_bucket_ok [OF v refl True this] show ?thesis unfolding nodes_def by blast
    next
      case False
      with t have "i2 = ?i" "m2 = m" "g2 = g" by simp_all
      with v show ?thesis by auto
    qed
    then obtain k' where v2: "inv k' m2" and i2: "i2 = bucket k' ?b" by blast
    have sz: "size (nodes m2) = length (concat (table m))" "length (concat (table m2)) = length (concat (table m))"
      using t2 length_concat_mset [of "table m2" "table m"] by (auto simp: nodes_def)
    have bal: "balance m2 g2 = balance m g" using t2 by (simp add: balance_def algebra_simps)
    have mok: "mapping_ok M m2" using v2 t2 cnt sz by (auto simp: mapping_ok_inv)
    have r2: "(res, m', g') = (if \<not> ok2 then (Inl Out_of_memory, m2, g2)
        else if mcount m2 + 1 > M then (Inl Mapping_too_large, m2, g2)
        else (Inr (i2, 0), m2\<lparr>table := (table m2)[i2 := (lv, const0u) # table m2 ! i2], mcount := mcount m2 + 1\<rparr>,
          (assign_svalue_no_free lv
             (new_map_node (g2\<lparr>total_mapping_size := total_mapping_size g2 + sizeof_mapping_node_t\<rparr>)))
             \<lparr>total_mapping_nodes := total_mapping_nodes g2 + 1\<rparr>))"
      using r unfolding find_for_insert_def key Let_def prod.case im None option.case t by simp
    consider "\<not> ok2" | "ok2" "mcount m2 + 1 > M" | "ok2" "mcount m2 + 1 \<le> M" by linarith
    then show ?thesis
    proof cases
      case 1
      with r2 mok bal t2 new show ?thesis by simp
    next
      case 2
      with r2 mok bal t2 new cnt show ?thesis by simp
    next
      case 3
      with r2 have r3: "res = Inr (i2, 0)"
        "m' = m2\<lparr>table := (table m2)[i2 := (lv, const0u) # table m2 ! i2], mcount := mcount m2 + 1\<rparr>"
        "g' = (assign_svalue_no_free lv
             (new_map_node (g2\<lparr>total_mapping_size := total_mapping_size g2 + sizeof_mapping_node_t\<rparr>)))
             \<lparr>total_mapping_nodes := total_mapping_nodes g2 + 1\<rparr>" by simp_all
      have "i2 = bucket k' (nkey (lv, const0u))" "good_key (fst (lv, const0u))" "content m2 (nkey (lv, const0u)) = None"
        using i2 gk new t2 by simp_all
      note new2 = this
      have tb: "table m' = (table m2)[i2 := (lv, const0u) # table m2 ! i2]" "mcount m' = mcount m2 + 1"
        "table_size m' = table_size m2" by (simp_all add: r3(2))
      note p = push_inv [OF v2 new2 tb(1,3)]
      have n': "nodes m' = add_mset (lv, const0u) (nodes m2)" using p(3) by (simp add: nodes_def)
      then have "int (length (concat (table m'))) = mcount m'"
        using sz cnt tb t2 unfolding nodes_def by (metis of_nat_Suc size_add_mset size_mset add.commute)
      with p(1) 3(2) tb have mok': "mapping_ok M m'" by (auto simp: mapping_ok_inv)
      have "balance m' g' = balance m2 g2"
        unfolding balance_def n' tb by (simp add: r3(3) node_refs_def fun_eq_iff algebra_simps)
      with bal have bal': "balance m' g' = balance m g" by simp
      have len2: "i2 < length (table m2)" using inv_length [OF v2] i2 by simp
      have "table m' ! i2 = (lv, const0u) # table m2 ! i2" using len2 by (simp add: tb)
      with mok' bal' p(2) t2 new len2 show ?thesis by (simp add: r3(1) lvalue_get_def tb(1))
    qed
  qed
qed

lemma lvalue_set_ok:
  assumes ok: "mapping_ok M m" and p: "fst p < length (table m)" "snd p < length (table m ! fst p)"
    and b: "nkey (table m ! fst p ! snd p) = b"
  shows "mapping_ok M (lvalue_set m p v)" "content (lvalue_set m p v) = (content m)(b \<mapsto> v)"
    and "nodes (lvalue_set m p v) = add_mset (fst (table m ! fst p ! snd p), v) (nodes m - {#table m ! fst p ! snd p#})"
    and "table m ! fst p ! snd p \<in># nodes m"
proof -
  let ?c = "table m ! fst p" and ?n = "table m ! fst p ! snd p"
  let ?c' = "?c[snd p := (fst ?n, v)]"
  from ok obtain k where vk: "inv k m" and cnt: "mcount m = int (length (concat (table m)))" "mcount m \<le> M"
    by (auto simp: mapping_ok_inv)
  have i: "fst p < 2 ^ k" using p inv_length [OF vk] by simp
  note ch = inv_chain [OF vk i]
  have nk: "map nkey ?c' = map nkey ?c"
    using p(2) by (simp add: map_update list_update_same_conv)
  have bk: "bucket k b = fst p" using ch p(2) unfolding chain_ok_def b [symmetric] by (metis nth_mem)
  have sub: "x \<in> set ?c'  \<Longrightarrow> x \<in> set ?c \<or> x = (fst ?n, v)" for x
    using set_update_subset_insert [of ?c "snd p" "(fst ?n, v)"] by auto
  have "?n \<in> set ?c" using p(2) by simp
  then have "chain_ok k (fst p) ?c'"
    using ch sub nk unfolding chain_ok_def by (metis fst_conv)
  note u = inv_update [OF vk i this, of "lvalue_set m p v"]
  have t: "table (lvalue_set m p v) = (table m)[fst p := ?c']" "table_size (lvalue_set m p v) = table_size m"
    "mcount (lvalue_set m p v) = mcount m" by (simp_all add: lvalue_set_def)
  note u = u [OF t(1,2)]
  obtain A where mc: "mset ?c = add_mset ?n A" using \<open>?n \<in> set ?c\<close> by (metis multi_member_split set_mset_mset)
  have mc': "mset ?c' = add_mset (fst ?n, v) A" unfolding mset_update [OF p(2)] mc by simp
  have "nodes (lvalue_set m p v) + mset ?c = nodes m + mset ?c'"
    using mset_concat_update [OF p(1), of ?c'] by (simp add: nodes_def t)
  then have nn: "add_mset ?n (nodes (lvalue_set m p v)) = add_mset (fst ?n, v) (nodes m)"
    unfolding mc mc' by simp
  show mem: "?n \<in># nodes m"
    using p \<open>?n \<in> set ?c\<close> unfolding nodes_def by (auto intro!: bexI [of _ ?c])
  have "nodes (lvalue_set m p v) = add_mset (fst ?n, v) (nodes m) - {#?n#}"
    unfolding nn [symmetric] by simp
  then show nd: "nodes (lvalue_set m p v) = add_mset (fst ?n, v) (nodes m - {#?n#})"
    using mem by simp
  have "size (nodes (lvalue_set m p v)) = size (nodes m)" using mem unfolding nd by (simp add: size_Suc_Diff1)
  then have "length (concat (table (lvalue_set m p v))) = length (concat (table m))" by (simp add: nodes_def)
  with u cnt show "mapping_ok M (lvalue_set m p v)" by (auto simp: mapping_ok_inv t(3))
  have "content (lvalue_set m p v) x = ((content m)(b \<mapsto> v)) x" for x
    using u assoc_update [OF _ p(2), of v x] ch bk b inv_content [OF vk, of x] by (auto simp: chain_ok_def)
  then show "content (lvalue_set m p v) = (content m)(b \<mapsto> v)" by (rule ext)
qed

lemma assign_svalue_balance:
  assumes "mapping_ok M m" "fst p < length (table m)" "snd p < length (table m ! fst p)"
    and "assign_svalue m p v g = (m', g')"
  shows "balance m' g' = balance m g"
proof -
  let ?n = "table m ! fst p ! snd p"
  note s = lvalue_set_ok [OF assms(1-3) refl]
  obtain N where N: "nodes m = add_mset ?n N" using s(4) by (metis multi_member_split)
  have m': "m' = lvalue_set m p v" and g': "g' = assign_svalue_no_free v (free_svalue (snd ?n) g)"
    using assms(4) by (simp_all add: assign_svalue_def lvalue_get_def)
  have "nodes m' = add_mset (fst ?n, v) N" using s(3) unfolding m' N by simp
  moreover have "length (table m') = length (table m)" "mcount m' = mcount m" by (simp_all add: m' lvalue_set_def)
  ultimately show ?thesis by (simp add: balance_def N g' node_refs_def fun_eq_iff)
qed

lemma assign_index_ok:
  assumes "mapping_ok M m" and "svalue_to_int mk key = (h, lv)" and "good_key lv"
    and "assign_index mk M m key v g = (err, m', g')"
  shows "mapping_ok M m' \<and> balance m' g' = balance m g
    \<and> (case err of
         None \<Rightarrow> content m' = (content m)(sv_u lv \<mapsto> v)
       | Some e \<Rightarrow> content m' = content m \<and> content m (sv_u lv) = None
           \<and> (e = Mapping_too_large \<longrightarrow> mcount m = M))"
proof -
  obtain res m1 g1 where f: "find_for_insert mk M m key False g = (res, m1, g1)" by (metis prod_cases3)
  note i = find_for_insert_ok [OF assms(1-3) f]
  show ?thesis
  proof (cases res)
    case (Inl e)
    with f assms(4) have "err = Some e" "m' = m1" "g' = g1" by (simp_all add: assign_index_def)
    with i Inl show ?thesis by simp
  next
    case (Inr p)
    with i have p: "mapping_ok M m1" "balance m1 g1 = balance m g" "fst p < length (table m1)"
      "snd p < length (table m1 ! fst p)" "nkey (table m1 ! fst p ! snd p) = sv_u lv"
      "content m1 = (content m)(sv_u lv \<mapsto> lvalue_get m1 p)" by auto
    obtain m2 g2 where a: "assign_svalue m1 p v g1 = (m2, g2)" by fastforce
    with f Inr assms(4) have e: "err = None" "m' = m2" "g' = g2" by (simp_all add: assign_index_def)
    have m2: "m2 = lvalue_set m1 p v" using a by (simp add: assign_svalue_def)
    have "content m2 = (content m)(sv_u lv \<mapsto> v)"
      unfolding m2 lvalue_set_ok(2) [OF p(1,3,4,5)] p(6) by simp
    with lvalue_set_ok(1) [OF p(1,3,4,5)] assign_svalue_balance [OF p(1,3,4) a] p(2) show ?thesis
      unfolding e m2 by simp
  qed
qed


lemma find_in_chain:
  assumes "mapping_ok M m" "good_key lv"
  shows "map_option snd (find_node lv (table m ! masked (MAP_POINTER_HASH (sv_u lv)) (table_size m))) = content m (sv_u lv)"
proof -
  from assms(1) obtain k where v: "inv k m" by (auto simp: mapping_ok_inv)
  have "bucket k (sv_u lv) < 2 ^ k" by simp
  from find_node_assoc [OF inv_chain [OF v this] assms(2)] show ?thesis
    by (simp add: inv_bucket [OF v] inv_content [OF v])
qed

lemma find_in_mapping_ok:
  assumes "mapping_ok M m" and "svalue_to_int mk key = (h, lv)" and "good_key lv"
  shows "find_in_mapping mk m key = (case content m (sv_u lv) of None \<Rightarrow> const0u | Some v \<Rightarrow> v)
    \<and> map_option snd (node_find_in_mapping mk m key) = content m (sv_u lv)"
proof (intro conjI)
  from assms(2) have h: "h = MAP_POINTER_HASH (sv_u lv)" by (auto simp: svalue_to_int_def Let_def)
  note f = find_in_chain [OF assms(1,3)]
  show "map_option snd (node_find_in_mapping mk m key) = content m (sv_u lv)"
    using f by (simp add: node_find_in_mapping_def assms(2) h)
  show "find_in_mapping mk m key = (case content m (sv_u lv) of None \<Rightarrow> const0u | Some v \<Rightarrow> v)"
    using f [symmetric] by (simp add: find_in_mapping_def assms(2) h split: option.split)
qed

text \<open>C9. A lookup gives the value of the key, or the undefined zero if the mapping does not have
  the key; a string that has never been shared is never a key.\<close>

theorem find_in_mapping_correct:
  assumes "mapping_ok M m" and "svalue_to_int mk key = (h, lv)" and "good_key lv"
  shows "find_in_mapping mk m key = (case content m (sv_u lv) of None \<Rightarrow> const0u | Some v \<Rightarrow> v)
    \<and> map_option snd (node_find_in_mapping mk m key) = content m (sv_u lv)"
  by (rule find_in_mapping_ok [OF assms])


section \<open>Allocation\<close>

lemma pow2_bounds: "0 < (n::int) \<Longrightarrow> \<exists>k. 2 ^ k \<le> n \<and> n < 2 ^ Suc k"
proof -
  assume n: "0 < n"
  from pow2_loop_result [of 0 "Suc (nat n)"] obtain k where
    k: "Suc (nat n) \<le> 2 ^ k" "0 < k \<longrightarrow> 2 ^ (k - 1) < Suc (nat n)" by blast
  have "k \<noteq> 0" using k(1) n by (cases k) auto
  then obtain j where j: "k = Suc j" by (cases k) auto
  have "2 ^ j < Suc (nat n)" using k j by simp
  then have "2 ^ j \<le> nat n" by (rule less_Suc_eq_le [THEN iffD1])
  moreover have "nat n < 2 ^ Suc j" using k(1) unfolding j by (rule Suc_le_lessD)
  ultimately have "int (2 ^ j) \<le> int (nat n)" "int (nat n) < int (2 ^ Suc j)"
    by (simp_all only: of_nat_le_iff of_nat_less_iff)
  with n show ?thesis by (intro exI [of _ j]) simp
qed

lemma bit_range:
  assumes "2 ^ k \<le> (n::int)" "n < 2 ^ Suc k"
  shows "bit n k" and "Suc k \<le> j \<Longrightarrow> \<not> bit n j"
proof -
  have "n div 2 ^ k = 1 + (n - 2 ^ k) div 2 ^ k"
    using div_add_self2 [of "2 ^ k" "n - 2 ^ k"] by simp
  also have "(n - 2 ^ k) div 2 ^ k = 0" using assms by (intro div_pos_pos_trivial) simp_all
  finally show "bit n k" by (simp add: bit_iff_odd)
  have "(0::int) \<le> 2 ^ k" by simp
  then have "0 \<le> n" using assms(1) by linarith
  then have "take_bit (Suc k) n = n" using assms by (simp add: take_bit_int_eq_self)
  then show "Suc k \<le> j \<Longrightarrow> \<not> bit n j" by (metis bit_take_bit_iff leD)
qed

text \<open>Spreading the highest bit downwards gives one less than a power of two.\<close>

definition smear :: "int \<Rightarrow> int" where
  "smear n = (let n = n OR drop_bit 1 n; n = n OR drop_bit 2 n; n = n OR drop_bit 4 n
     in if n AND 0xff00 \<noteq> 0 then n OR drop_bit 8 n else n)"

lemma smear_high: "0 \<le> n \<Longrightarrow> n < 2 ^ 16 \<Longrightarrow> n AND 0xff00 = 0 \<Longrightarrow> drop_bit 8 n = (0::int)"
proof -
  assume n: "0 \<le> n" "n < 2 ^ 16" and z: "n AND 0xff00 = 0"
  have p: "(0xff00 :: int) = push_bit 8 (mask 8)" by (simp add: push_bit_eq_mult mask_eq_exp_minus_1)
  have "take_bit 8 (drop_bit 8 n) = drop_bit 8 (n AND push_bit 8 (mask 8))"
    by (intro bit_eqI) (auto simp: bit_take_bit_iff bit_drop_bit_eq bit_and_iff bit_push_bit_iff bit_mask_iff)
  then have "take_bit 8 (drop_bit 8 n) = 0" using z unfolding p by simp
  moreover have "0 \<le> drop_bit 8 n" "drop_bit 8 n < 2 ^ 8" using n by (simp_all add: drop_bit_eq_div)
  ultimately show ?thesis by (simp add: take_bit_int_eq_self)
qed

lemma or_drop_bit_window:
  assumes "\<And>j. bit x j \<longleftrightarrow> (\<exists>i < w. bit n (j + i))"
  shows "bit (x OR drop_bit w x) j \<longleftrightarrow> (\<exists>i < 2 * w. bit (n::int) (j + i))"
proof -
  have "(\<exists>i < w. bit n (j + i)) \<or> (\<exists>i < w. bit n (w + j + i)) \<longleftrightarrow> (\<exists>i < 2 * w. bit n (j + i))"
  proof
    assume "(\<exists>i < w. bit n (j + i)) \<or> (\<exists>i < w. bit n (w + j + i))"
    then show "\<exists>i < 2 * w. bit n (j + i)"
    proof
      assume "\<exists>i < w. bit n (w + j + i)"
      then obtain i where "i < w" "bit n (j + (w + i))" by (auto simp: ac_simps)
      then show ?thesis by (intro exI [of _ "w + i"]) simp
    next
      assume "\<exists>i < w. bit n (j + i)"
      then obtain i where "i < w" "bit n (j + i)" by blast
      then show ?thesis by (intro exI [of _ i]) simp
    qed
  next
    assume "\<exists>i < 2 * w. bit n (j + i)"
    then obtain i where i: "i < 2 * w" "bit n (j + i)" by blast
    show "(\<exists>i < w. bit n (j + i)) \<or> (\<exists>i < w. bit n (w + j + i))"
    proof (cases "i < w")
      case False
      then have "i - w < w" "w + j + (i - w) = j + i" using i(1) by auto
      with i(2) show ?thesis by metis
    qed (use i in blast)
  qed
  then show ?thesis by (simp add: bit_or_iff bit_drop_bit_eq assms)
qed

lemma smear_eq:
  assumes "0 < n" "n < 2 ^ 15"
  shows "\<exists>k \<le> 14. smear n = 2 ^ Suc k - 1 \<and> 2 ^ k \<le> n \<and> n < 2 ^ Suc k"
proof -
  from pow2_bounds [OF assms(1)] obtain k where k: "2 ^ k \<le> n" "n < 2 ^ Suc k" by blast
  have "(2::int) ^ k < 2 ^ 15" using k(1) assms(2) by linarith
  then have k14: "k < 15" by (rule power_less_imp_less_exp [rotated]) simp
  note b = bit_range [OF k]
  define a where "a = n OR drop_bit 1 n"
  define c where "c = a OR drop_bit 2 a"
  define d where "d = c OR drop_bit 4 c"
  define e where "e = d OR drop_bit 8 d"
  have "bit n j \<longleftrightarrow> (\<exists>i < 1. bit n (j + i))" for j by simp
  from or_drop_bit_window [of n 1 n, OF this] have "bit a j \<longleftrightarrow> (\<exists>i < 2. bit n (j + i))" for j
    unfolding a_def by simp
  from or_drop_bit_window [OF this] have "bit c j \<longleftrightarrow> (\<exists>i < 4. bit n (j + i))" for j unfolding c_def by simp
  from or_drop_bit_window [OF this] have "bit d j \<longleftrightarrow> (\<exists>i < 8. bit n (j + i))" for j unfolding d_def by simp
  note bd = this
  from or_drop_bit_window [OF this] have be: "bit e j \<longleftrightarrow> (\<exists>i < 16. bit n (j + i))" for j unfolding e_def by simp
  have eq: "bit e j \<longleftrightarrow> j < Suc k" for j
  proof (cases "j < Suc k")
    case True
    then have "k - j < 16" "j + (k - j) = k" using k14 by auto
    with b(1) True show ?thesis unfolding be by metis
  next
    case False
    then show ?thesis unfolding be using b(2) by simp
  qed
  have "e = mask (Suc k)" by (rule bit_eqI) (simp add: eq bit_mask_iff)
  then have e: "e = 2 ^ Suc k - 1" by (simp add: mask_eq_exp_minus_1)
  have dr: "0 \<le> d" "d < 2 ^ 16"
  proof -
    show "0 \<le> d" using assms by (simp add: d_def c_def a_def)
    have "take_bit 16 d = d"
    proof (rule bit_eqI)
      fix i :: nat
      have "\<not> bit d i" if "16 \<le> i" using that k14 b(2) by (simp add: bd)
      then show "bit (take_bit 16 d) i \<longleftrightarrow> bit d i" by (cases "i < 16") (simp_all add: bit_take_bit_iff)
    qed
    then show "d < 2 ^ 16" by (metis take_bit_int_less_exp)
  qed
  have "smear n = e"
    unfolding smear_def Let_def a_def [symmetric] c_def [symmetric] d_def [symmetric] e_def
    using smear_high [OF dr] by simp
  with e k k14 show ?thesis by (intro exI [of _ k]) simp
qed

lemma inv_empty:
  "3 \<le> k \<Longrightarrow> k \<le> 15 \<Longrightarrow> table m = replicate (2 ^ k) [] \<Longrightarrow> table_size m = 2 ^ k - 1
    \<Longrightarrow> inv k m \<and> content m = Map.empty"
  by (auto simp: inv_def shape_def nodes_ok_def content_def fun_eq_iff masked_simps)

text \<open>A fresh mapping is empty, has a power of two of buckets, at least the number asked for
  (cut at \<open>MAX_MAPPING_SIZE\<close>), and may fill four fifths of them.\<close>

theorem allocate_mapping_correct:
  assumes "0 \<le> M" and "M < 2 ^ 15" and "allocate_mapping M n g = (m, g')"
  shows "mapping_ok M m \<and> content m = Map.empty
    \<and> (\<exists>k. length (table m) = 2 ^ k \<and> fill_ok k m) \<and> min n M \<le> int (length (table m))
    \<and> num_mappings g' = num_mappings g + 1 \<and> balance m g' = balance m (g\<lparr>num_mappings := num_mappings g + 1,
        total_mapping_size := total_mapping_size g + sizeof_mapping_t + sizeof_node_ptr * int (length (table m))\<rparr>)"
proof -
  let ?n = "if n > M then M else n"
  have "\<exists>k. 3 \<le> k \<and> k \<le> 15 \<and> ?n \<le> 2 ^ k \<and> (if ?n > 8 then (smear ?n, smear ?n + 1) else (7, 8)) = (2 ^ k - 1, 2 ^ k)"
  proof (cases "?n > 8")
    case True
    have "0 < ?n" "?n < 2 ^ 15" using True assms by (auto split: if_splits)
    from smear_eq [OF this] obtain k where k: "k \<le> 14" "smear ?n = 2 ^ Suc k - 1" "?n < 2 ^ Suc k" by blast
    have "k \<ge> 3"
    proof (rule ccontr)
      assume "\<not> 3 \<le> k"
      then have "(2::int) ^ Suc k \<le> 2 ^ 3" by (intro power_increasing) simp_all
      with k True show False by simp
    qed
    with k True show ?thesis by (intro exI [of _ "Suc k"]) simp
  qed (intro exI [of _ 3], simp)
  then obtain k where k: "3 \<le> k" "k \<le> 15" "?n \<le> 2 ^ k"
    "(if ?n > 8 then (smear ?n, smear ?n + 1) else (7, 8)) = ((2::int) ^ k - 1, 2 ^ k)" by blast
  have pw: "(2::int) ^ k \<le> 2 ^ 15" "(2::nat) ^ k \<le> 2 ^ 15"
    using power_increasing [OF k(2), of "2::int"] power_increasing [OF k(2), of "2::nat"] by simp_all
  have nt: "nat (2 ^ k) = 2 ^ k" by (simp add: nat_power_eq)
  have ts: "nat ((2 ^ k - 1) mod 65536) = 2 ^ k - 1" using pw by (simp add: nat_diff_distrib nt)
  have r: "(if ?n > MAP_HASH_TABLE_SIZE then
       (let n = ?n OR drop_bit 1 ?n; n = n OR drop_bit 2 n; n = n OR drop_bit 4 n;
            n = (if n AND 0xff00 \<noteq> 0 then n OR drop_bit 8 n else n) in (n, n + 1))
     else (MAP_HASH_TABLE_SIZE - 1, MAP_HASH_TABLE_SIZE)) = (2 ^ k - 1, 2 ^ k)"
    unfolding k(4) [symmetric] smear_def Let_def MAP_HASH_TABLE_SIZE_def by simp
  have m: "m = \<lparr>table = replicate (2 ^ k) [], table_size = 2 ^ k - 1,
      unfilled = of_int (2 ^ k * int FILL_PERCENT div 100), mcount = 0\<rparr>"
    and g': "g' = g\<lparr>total_mapping_size := total_mapping_size g + sizeof_mapping_t + 2 ^ k * sizeof_node_ptr,
            num_mappings := num_mappings g + 1\<rparr>"
    using assms(3) unfolding allocate_mapping_def Let_def [of "if n > M then M else n"] r prod.case
    by (simp_all add: nt ts)
  have iv: "inv k m \<and> content m = Map.empty" by (rule inv_empty) (simp_all add: k m)
  have u: "unfilled m = of_nat (2 ^ k * 80 div 100)"
  proof -
    have "2 ^ k * int FILL_PERCENT div 100 = int (2 ^ k * 80 div 100)" by (simp add: FILL_PERCENT_def zdiv_int)
    then show ?thesis by (simp only: m mapping.select_convs of_int_of_nat_eq)
  qed
  have "2 ^ k * 80 div 100 < (2::nat) ^ 16" using pw(2) by simp
  then have un: "unat (unfilled m) = 2 ^ k * 80 div 100" unfolding u by (simp add: unat_of_nat_small)
  have "(2::nat) ^ 3 \<le> 2 ^ k" using k(1) by (intro power_increasing) simp_all
  then have "0 < unat (unfilled m)" unfolding un by simp
  then have "fill_ok k m" using un by (auto simp: fill_ok_def m)
  moreover have "min n M \<le> int (length (table m))" using k(3) by (auto simp: m min_def split: if_splits)
  moreover have "mapping_ok M m" using iv assms(1) by (auto simp: mapping_ok_inv m)
  ultimately show ?thesis using iv by (auto simp: g' m balance_def nodes_out_def)
qed

section \<open>Whole mappings: definitions\<close>

text \<open>\<open>add_to_mapping\<close> (\<open>assign\<close>) and \<open>unique_add_to_mapping\<close> differ in what they do with
  a common key, and in the count of unfilled buckets when the table cannot grow. The count of nodes
  is a local variable of the loop, written back at the end.\<close>

fun add_loop :: "bool \<Rightarrow> int \<Rightarrow> mapping_node list \<Rightarrow> int \<Rightarrow> mapping \<Rightarrow> map_globals
    \<Rightarrow> map_error option \<times> int \<times> mapping \<times> map_globals" where
  "add_loop assign MAX_MAPPING_SIZE [] cnt m g = (None, cnt, m, g)"
| "add_loop assign MAX_MAPPING_SIZE (elt2 # r) cnt m g =
     (let oi = node_hash elt2;
          i = masked oi (table_size m)
      in case chain_index (fst elt2) (table m ! i) of
           Some k \<Rightarrow>
             (if assign then
                (let (m, g) = assign_svalue m (i, k) (snd elt2) g
                 in add_loop assign MAX_MAPPING_SIZE r cnt m g)
              else add_loop assign MAX_MAPPING_SIZE r cnt m g)
         | None \<Rightarrow>
             (let (ok, i, m, g) = (if table m ! i \<noteq> [] then (True, i, m, g) else take_bucket oi i m g) in
              if \<not> ok then
                (Some Out_of_memory, cnt, if assign then m else m\<lparr>unfilled := unfilled m + 1\<rparr>, g)
              else if cnt + 1 > MAX_MAPPING_SIZE then (Some Mapping_too_large, cnt, m, g)
              else add_loop assign MAX_MAPPING_SIZE r (cnt + 1)
                     (m\<lparr>table := (table m)[i := elt2 # table m ! i]\<rparr>) (copy_node elt2 g)))"

definition write_back :: "int \<Rightarrow> mapping \<Rightarrow> map_globals \<Rightarrow> mapping \<times> map_globals" where
  "write_back cnt m g =
     (let n = cnt - mcount m in
      (m\<lparr>mcount := mcount m + n\<rparr>,
       g\<lparr>total_mapping_size := total_mapping_size g + n * sizeof_mapping_node_t,
         total_mapping_nodes := total_mapping_nodes g + n\<rparr>))"

text \<open>With \<open>free_flag\<close> the mapping is freed when memory runs out, but not when it gets too large.\<close>

definition add_nodes :: "bool \<Rightarrow> int \<Rightarrow> mapping \<Rightarrow> mapping \<Rightarrow> bool \<Rightarrow> map_globals
    \<Rightarrow> map_error option \<times> mapping \<times> map_globals" where
  "add_nodes assign MAX_MAPPING_SIZE m1 m2 free_flag g =
     (let (err, cnt, m, g) = add_loop assign MAX_MAPPING_SIZE (concat (rev (table m2))) (mcount m1) m1 g;
          (m, g) = write_back cnt m g
      in (err, m, if err = Some Out_of_memory \<and> free_flag then dealloc_mapping m g else g))"

definition add_to_mapping where "add_to_mapping = add_nodes True"
definition unique_add_to_mapping where "unique_add_to_mapping = add_nodes False"

definition absorb_mapping :: "int \<Rightarrow> mapping \<Rightarrow> mapping \<Rightarrow> map_globals \<Rightarrow> map_error option \<times> mapping \<times> map_globals" where
  "absorb_mapping MAX_MAPPING_SIZE m1 m2 g =
     (if mcount m2 \<noteq> 0 then add_to_mapping MAX_MAPPING_SIZE m1 m2 False g else (None, m1, g))"

definition add_mapping :: "int \<Rightarrow> mapping \<Rightarrow> mapping \<Rightarrow> map_globals \<Rightarrow> map_error option \<times> mapping \<times> map_globals" where
  "add_mapping MAX_MAPPING_SIZE m1 m2 g =
     (if mcount m1 \<ge> mcount m2 then
        (if mcount m2 \<noteq> 0 then
           (let (newmap, g) = copyMapping m1 g in add_to_mapping MAX_MAPPING_SIZE newmap m2 True g)
         else (let (newmap, g) = copyMapping m1 g in (None, newmap, g)))
      else if mcount m1 \<noteq> 0 then
        (let (newmap, g) = copyMapping m2 g in unique_add_to_mapping MAX_MAPPING_SIZE newmap m1 True g)
      else (let (newmap, g) = copyMapping m2 g in (None, newmap, g)))"

text \<open>\<open>load_mapping_from_aggregate\<close> takes keys and values in turn from the stack; they move into
  the mapping. When it fails, it frees the mapping.\<close>

fun load_loop :: "(32 word \<Rightarrow> 32 word) \<Rightarrow> int \<Rightarrow> mapping_node list \<Rightarrow> int \<Rightarrow> mapping \<Rightarrow> map_globals
    \<Rightarrow> map_error option \<times> int \<times> mapping \<times> map_globals" where
  "load_loop mk MAX_MAPPING_SIZE [] cnt m g = (None, cnt, m, g)"
| "load_loop mk MAX_MAPPING_SIZE ((key, val) # r) cnt m g =
     (let (oi, key) = svalue_to_int mk key;
          i = masked oi (table_size m)
      in case chain_index key (table m ! i) of
           Some k \<Rightarrow>
             load_loop mk MAX_MAPPING_SIZE r cnt (lvalue_set m (i, k) val)
               (free_svalue (lvalue_get m (i, k)) (free_svalue key g))
         | None \<Rightarrow>
             (let (ok, i, m, g) = (if table m ! i \<noteq> [] then (True, i, m, g) else take_bucket oi i m g) in
              if \<not> ok then (Some Out_of_memory, cnt, m, g)
              else if cnt + 1 > MAX_MAPPING_SIZE then (Some Mapping_too_large, cnt, m, g)
              else load_loop mk MAX_MAPPING_SIZE r (cnt + 1)
                     (m\<lparr>table := (table m)[i := (key, val) # table m ! i]\<rparr>) (new_map_node g)))"

definition load_mapping_from_aggregate :: "(32 word \<Rightarrow> 32 word) \<Rightarrow> int \<Rightarrow> mapping_node list \<Rightarrow> map_globals
    \<Rightarrow> (map_error + mapping) \<times> map_globals" where
  "load_mapping_from_aggregate mk MAX_MAPPING_SIZE kvs g =
     (let (m, g) = allocate_mapping MAX_MAPPING_SIZE (int (length kvs)) g;
          (err, cnt, m, g) = load_loop mk MAX_MAPPING_SIZE kvs 0 m g;
          (m, g) = write_back cnt m g
      in case err of
           None \<Rightarrow> (Inr m, g)
         | Some e \<Rightarrow> (Inl e, dealloc_mapping m g))"

text \<open>\<open>map_mapping\<close>: the callback gets key and value; when it gives no value (its function is
  gone) the rest of the chain is left as it is.\<close>

fun map_chain :: "(svalue \<Rightarrow> svalue \<Rightarrow> svalue option) \<Rightarrow> mapping_node list \<Rightarrow> map_globals \<Rightarrow> mapping_node list \<times> map_globals" where
  "map_chain f [] g = ([], g)"
| "map_chain f (n # r) g =
     (case f (fst n) (snd n) of
        None \<Rightarrow> (n # r, g)
      | Some v \<Rightarrow>
          (let (r', g) = map_chain f r (assign_svalue_no_free v (free_svalue (snd n) g))
           in ((fst n, v) # r', g)))"

fun map_table :: "(svalue \<Rightarrow> svalue \<Rightarrow> svalue option) \<Rightarrow> mapping_node list list \<Rightarrow> map_globals
    \<Rightarrow> mapping_node list list \<times> map_globals" where
  "map_table f [] g = ([], g)"
| "map_table f (c # t) g = (let (c', g) = map_chain f c g; (t', g) = map_table f t g in (c' # t', g))"

definition map_mapping :: "(svalue \<Rightarrow> svalue \<Rightarrow> svalue option) \<Rightarrow> mapping \<Rightarrow> map_globals \<Rightarrow> mapping \<times> map_globals" where
  "map_mapping f m g =
     (let (m, g) = copyMapping m g;
          (t, g) = map_table f (rev (table m)) g
      in (m\<lparr>table := rev t\<rparr>, g))"

text \<open>\<open>filter_mapping\<close>; the key is new, so there is no search. \<open>None\<close> from the callback ends
  the chain.\<close>

fun filter_chain :: "(svalue \<Rightarrow> svalue \<Rightarrow> svalue option) \<Rightarrow> int \<Rightarrow> mapping_node list \<Rightarrow> int \<Rightarrow> mapping \<Rightarrow> map_globals
    \<Rightarrow> map_error option \<times> int \<times> mapping \<times> map_globals" where
  "filter_chain f MAX_MAPPING_SIZE [] cnt m g = (None, cnt, m, g)"
| "filter_chain f MAX_MAPPING_SIZE (elt # r) cnt m g =
     (case f (fst elt) (snd elt) of
        None \<Rightarrow> (None, cnt, m, g)
      | Some ret \<Rightarrow>
          (if sv_type ret \<noteq> T_NUMBER \<or> sv_u ret \<noteq> 0 then
             (let oi = node_hash elt;
                  i = masked oi (table_size m);
                  (ok, i, m, g) = (if table m ! i \<noteq> [] then (True, i, m, g) else take_bucket oi i m g)
              in if \<not> ok then (Some Out_of_memory, cnt, m, g)
                 else if cnt + 1 > MAX_MAPPING_SIZE then (Some Mapping_too_large, cnt, m, g)
                 else filter_chain f MAX_MAPPING_SIZE r (cnt + 1)
                        (m\<lparr>table := (table m)[i := elt # table m ! i]\<rparr>) (copy_node elt g))
           else filter_chain f MAX_MAPPING_SIZE r cnt m g))"

fun filter_loop :: "(svalue \<Rightarrow> svalue \<Rightarrow> svalue option) \<Rightarrow> int \<Rightarrow> mapping_node list list \<Rightarrow> int \<Rightarrow> mapping \<Rightarrow> map_globals
    \<Rightarrow> map_error option \<times> int \<times> mapping \<times> map_globals" where
  "filter_loop f MAX_MAPPING_SIZE [] cnt m g = (None, cnt, m, g)"
| "filter_loop f MAX_MAPPING_SIZE (c # t) cnt m g =
     (let (err, cnt, m, g) = filter_chain f MAX_MAPPING_SIZE c cnt m g in
      if err = None then filter_loop f MAX_MAPPING_SIZE t cnt m g else (err, cnt, m, g))"

definition filter_mapping :: "(svalue \<Rightarrow> svalue \<Rightarrow> svalue option) \<Rightarrow> int \<Rightarrow> mapping \<Rightarrow> map_globals
    \<Rightarrow> map_error option \<times> mapping \<times> map_globals" where
  "filter_mapping f MAX_MAPPING_SIZE m g =
     (let (newmap, g) = allocate_mapping MAX_MAPPING_SIZE 0 g;
          (err, cnt, newmap, g) = filter_loop f MAX_MAPPING_SIZE (rev (table m)) 0 newmap g;
          (newmap, g) = write_back cnt newmap g
      in (err, newmap, g))"

text \<open>\<open>compose_mapping\<close>: every value that is a key of \<open>m2\<close> is replaced by the value there, the
  other entries are deleted. A value that is a string gets shared on the way.\<close>

fun compose_chain :: "(32 word \<Rightarrow> 32 word) \<Rightarrow> mapping \<Rightarrow> mapping_node list \<Rightarrow> map_globals
    \<Rightarrow> mapping_node list \<times> nat \<times> map_globals" where
  "compose_chain mk m2 [] g = ([], 0, g)"
| "compose_chain mk m2 (n # r) g =
     (let (h, sv) = svalue_to_int mk (snd n) in
      case find_node sv (table m2 ! masked h (table_size m2)) of
        Some elt2 \<Rightarrow>
          (let g = assign_svalue_no_free (snd elt2) (free_svalue sv g);
               (r', deleted, g) = compose_chain mk m2 r g
           in ((fst n, snd elt2) # r', deleted, g))
      | None \<Rightarrow>
          (let g = free_node (free_svalue (fst n) (free_svalue sv g));
               (r', deleted, g) = compose_chain mk m2 r g
           in (r', deleted + 1, g)))"

fun compose_table :: "(32 word \<Rightarrow> 32 word) \<Rightarrow> mapping \<Rightarrow> mapping_node list list \<Rightarrow> 16 word \<Rightarrow> map_globals
    \<Rightarrow> mapping_node list list \<times> 16 word \<times> nat \<times> map_globals" where
  "compose_table mk m2 [] unf g = ([], unf, 0, g)"
| "compose_table mk m2 (c # t) unf g =
     (let (c', d, g) = compose_chain mk m2 c g;
          unf = (if c \<noteq> [] \<and> c' = [] then unf + 1 else unf);
          (t', unf, d', g) = compose_table mk m2 t unf g
      in (c' # t', unf, d + d', g))"

definition compose_mapping :: "(32 word \<Rightarrow> 32 word) \<Rightarrow> mapping \<Rightarrow> mapping \<Rightarrow> bool \<Rightarrow> map_globals \<Rightarrow> mapping \<times> map_globals" where
  "compose_mapping mk m1 m2 flag g =
     (let (m1, g) = (if flag then copyMapping m1 g else (m1, g));
          (t, unf, deleted, g) = compose_table mk m2 (table m1) (unfilled m1) g
      in (m1\<lparr>table := t, unfilled := unf, mcount := mcount m1 - int deleted\<rparr>,
          g\<lparr>total_mapping_nodes := total_mapping_nodes g - int deleted,
            total_mapping_size := total_mapping_size g - int deleted * sizeof_mapping_node_t\<rparr>))"

text \<open>The arrays hold one more reference to each item.\<close>

definition mapping_indices :: "mapping \<Rightarrow> map_globals \<Rightarrow> svalue list \<times> map_globals" where
  "mapping_indices m g =
     (let l = map fst (concat (rev (table m))) in (l, fold assign_svalue_no_free l g))"

definition mapping_values :: "mapping \<Rightarrow> map_globals \<Rightarrow> svalue list \<times> map_globals" where
  "mapping_values m g =
     (let l = map snd (concat (rev (table m))) in (l, fold assign_svalue_no_free l g))"

section \<open>Whole mappings: lemmas\<close>

text \<open>As \<open>balance\<close>, but for the loops that keep the count in a local variable.\<close>

definition tot :: "mapping \<Rightarrow> map_globals \<Rightarrow> int \<times> int \<times> int \<times> int \<times> (32 word \<Rightarrow> int)" where
  "tot m g = (num_mappings g, total_mapping_size g - sizeof_node_ptr * int (length (table m)),
     total_mapping_nodes g, nodes_out g - int (size (nodes m)), (\<lambda>x. refs g x - held (nodes m) x))"

definition sound :: "mapping \<Rightarrow> bool" where
  "sound m \<longleftrightarrow> (\<exists>k. inv k m)"

definition room :: "32 word \<Rightarrow> nat \<Rightarrow> mapping \<Rightarrow> map_globals \<Rightarrow> bool \<times> nat \<times> mapping \<times> map_globals" where
  "room h i m g = (if table m ! i \<noteq> [] then (True, i, m, g) else take_bucket h i m g)"

lemma room_new:
  assumes "inv k m" and "room (node_hash n) (bucket k (nkey n)) m g = (ok, i2, m2, g2)"
    and "good_key (fst n)" and "content m (nkey n) = None"
  defines "m3 \<equiv> m2\<lparr>table := (table m2)[i2 := n # table m2 ! i2]\<rparr>"
  shows "sound m2 \<and> content m2 = content m \<and> nodes m2 = nodes m \<and> mcount m2 = mcount m \<and> tot m2 g2 = tot m g"
    and "sound m3 \<and> content m3 = (content m)(nkey n \<mapsto> snd n) \<and> nodes m3 = add_mset n (nodes m)
      \<and> mcount m3 = mcount m \<and> tot m3 (copy_node n g2) = tot m g
      \<and> tot m3 (new_map_node g2) = (case tot m g of (a, b, c, d, e) \<Rightarrow> (a, b, c, d, \<lambda>x. e x - node_refs n x))"
proof -
  have t: "content m2 = content m \<and> nodes m2 = nodes m \<and> mcount m2 = mcount m
    \<and> (\<exists>k'. inv k' m2 \<and> i2 = bucket k' (nkey n))
    \<and> g2 = g\<lparr>total_mapping_size := total_mapping_size g
        + sizeof_node_ptr * (int (length (table m2)) - int (length (table m)))\<rparr>"
  proof (cases "table m ! bucket k (nkey n) = []")
    case True
    with assms(2) have "take_bucket (MAP_POINTER_HASH (nkey n)) (bucket k (nkey n)) m g = (ok, i2, m2, g2)"
      by (simp add: room_def node_hash_def)
    from take_bucket_ok [OF assms(1) refl True this] show ?thesis unfolding nodes_def by blast
  next
    case False
    with assms(2) have "i2 = bucket k (nkey n)" "m2 = m" "g2 = g" by (simp_all add: room_def)
    with assms(1) show ?thesis by auto
  qed
  then obtain k' where v: "inv k' m2" "i2 = bucket k' (nkey n)" by blast
  have g2: "tot m2 g2 = tot m g" using t by (simp add: tot_def algebra_simps)
  then show "sound m2 \<and> content m2 = content m \<and> nodes m2 = nodes m \<and> mcount m2 = mcount m \<and> tot m2 g2 = tot m g"
    using t v(1) unfolding sound_def by blast
  have tb: "table m3 = (table m2)[i2 := n # table m2 ! i2]" "table_size m3 = table_size m2" "mcount m3 = mcount m2"
    by (simp_all add: m3_def)
  have "content m2 (nkey n) = None" using t assms(4) by simp
  note p = push_inv [OF v assms(3) this tb(1,2)]
  have nd: "nodes m3 = add_mset n (nodes m2)" using p(3) by (simp add: nodes_def)
  have c: "tot m3 (copy_node n g2) = tot m2 g2"
    by (simp add: tot_def nd tb copy_node_def node_refs_def fun_eq_iff)
  have d: "tot m3 (new_map_node g2) = (case tot m2 g2 of (a, b, c, d, e) \<Rightarrow> (a, b, c, d, \<lambda>x. e x - node_refs n x))"
    by (simp add: tot_def nd tb fun_eq_iff)
  show "sound m3 \<and> content m3 = (content m)(nkey n \<mapsto> snd n) \<and> nodes m3 = add_mset n (nodes m)
      \<and> mcount m3 = mcount m \<and> tot m3 (copy_node n g2) = tot m g
      \<and> tot m3 (new_map_node g2) = (case tot m g of (a, b, c, d, e) \<Rightarrow> (a, b, c, d, \<lambda>x. e x - node_refs n x))"
    using p(1,2) nd c d g2 t tb(3) unfolding sound_def by auto
qed

text \<open>The nodes of a mapping, in any order, are an association list of its content.\<close>

lemma assoc_append: "assoc (c @ d) b = (case assoc c b of None \<Rightarrow> assoc d b | Some v \<Rightarrow> Some v)"
  by (induction c) auto

lemma assoc_buckets:
  assumes "inv k m" "\<forall>i \<in> set is. i < 2 ^ k" "distinct is"
  shows "assoc (concat (map ((!) (table m)) is)) b = (if bucket k b \<in> set is then content m b else None)
    \<and> distinct (map nkey (concat (map ((!) (table m)) is)))
    \<and> (\<forall>n \<in> set (concat (map ((!) (table m)) is)). good_key (fst n) \<and> bucket k (nkey n) \<in> set is)"
  using assms(2,3)
proof (induction "is")
  case (Cons i js)
  then have ch: "chain_ok k i (table m ! i)" using inv_chain [OF assms(1), of i] by simp
  have a: "assoc (table m ! i) b = (if bucket k b = i then content m b else None)"
  proof (cases "bucket k b = i")
    case True
    then show ?thesis using inv_content [OF assms(1), of b] by simp
  next
    case False
    then have "b \<notin> nkey ` set (table m ! i)" using ch by (auto simp: chain_ok_def)
    with False show ?thesis by (simp add: assoc_None)
  qed
  have IH: "assoc (concat (map ((!) (table m)) js)) b = (if bucket k b \<in> set js then content m b else None)"
    "distinct (map nkey (concat (map ((!) (table m)) js)))"
    "\<forall>n \<in> set (concat (map ((!) (table m)) js)). good_key (fst n) \<and> bucket k (nkey n) \<in> set js"
    using Cons by auto
  have "nkey ` set (table m ! i) \<inter> nkey ` set (concat (map ((!) (table m)) js)) = {}"
  proof -
    have "bucket k x = i" if "x \<in> nkey ` set (table m ! i)" for x using ch that by (auto simp: chain_ok_def)
    moreover have "bucket k x \<in> set js" if "x \<in> nkey ` set (concat (map ((!) (table m)) js))" for x
      using IH(3) that by auto
    ultimately show ?thesis using Cons.prems(2) by fastforce
  qed
  then have "distinct (map nkey (table m ! i @ concat (map ((!) (table m)) js)))"
    using IH(2) ch by (simp add: chain_ok_def image_Un)
  moreover have "assoc (table m ! i @ concat (map ((!) (table m)) js)) b =
      (if bucket k b \<in> set (i # js) then content m b else None)"
    using a IH(1) Cons.prems(2) by (auto simp: assoc_append split: option.split)
  moreover have "\<forall>n \<in> set (table m ! i @ concat (map ((!) (table m)) js)). good_key (fst n) \<and> bucket k (nkey n) \<in> set (i # js)"
    using IH(3) ch by (auto simp: chain_ok_def)
  ultimately show ?case by simp
qed simp

lemma nodes_assoc:
  assumes "sound m" "mset L = nodes m"
  shows "distinct (map nkey L)" "assoc L = content m" "\<forall>n \<in> set L. good_key (fst n)"
proof -
  from assms(1) obtain k where v: "inv k m" by (auto simp: sound_def)
  have t: "map ((!) (table m)) [0 ..< 2 ^ k] = table m"
    using map_nth [of "table m"] inv_length [OF v] by simp
  have a: "assoc (concat (table m)) b = content m b \<and> distinct (map nkey (concat (table m)))
    \<and> (\<forall>n \<in> set (concat (table m)). good_key (fst n))" for b
    using assoc_buckets [OF v, of "[0 ..< 2 ^ k]" b] unfolding t by auto
  have m: "mset (concat (table m)) = mset L" using assms(2) by (simp add: nodes_def)
  have d: "distinct (map nkey (concat (table m)))" using a by blast
  with m show "distinct (map nkey L)" by (metis mset_map mset_eq_imp_distinct_iff)
  have "assoc L = assoc (concat (table m))" using assoc_perm [OF d m] by simp
  then show "assoc L = content m" using a by (auto simp: fun_eq_iff)
  show "\<forall>n \<in> set L. good_key (fst n)" unfolding mset_eq_setD [OF m, symmetric] using a by blast
qed

lemma mset_concat_rev [simp]: "mset (concat (rev t)) = mset (concat t)"
  by (induction t) (simp_all add: ac_simps)

lemma balance_write_back:
  assumes "write_back cnt m g = (m', g')"
  shows "table m' = table m" "content m' = content m" "mcount m' = cnt" "sound m' = sound m"
    and "balance m' g' = (case tot m g of (a, b, c, d, e) \<Rightarrow> (a, b - sizeof_mapping_t - sizeof_mapping_node_t * mcount m, c - mcount m, d, e))"
  using assms
  by (auto simp: write_back_def Let_def content_def [abs_def] sound_def inv_def shape_def balance_def tot_def nodes_def
      algebra_simps)

lemma sound_lookup:
  assumes "sound m" "good_key lv"
  obtains k where "inv k m" "masked (MAP_POINTER_HASH (sv_u lv)) (table_size m) = bucket k (sv_u lv)"
    "bucket k (sv_u lv) < length (table m)"
    "chain_index lv (table m ! bucket k (sv_u lv)) = None \<longleftrightarrow> content m (sv_u lv) = None"
proof -
  from assms(1) obtain k where v: "inv k m" by (auto simp: sound_def)
  have i: "bucket k (sv_u lv) < 2 ^ k" by simp
  show thesis
    by (rule that [OF v inv_bucket [OF v]])
      (use chain_index_None [OF inv_chain [OF v i] assms(2)] inv_length [OF v] in \<open>simp_all add: inv_content [OF v]\<close>)
qed

lemma same_table:
  assumes "table m' = table m" "table_size m' = table_size m"
  shows "sound m' = sound m" "content m' = content m" "nodes m' = nodes m"
  using assms by (simp_all add: sound_def inv_def shape_def content_def [abs_def] nodes_def)

text \<open>Setting the value of a key that is there.\<close>

lemma set_existing:
  assumes "sound m" "good_key lv" "masked (MAP_POINTER_HASH (sv_u lv)) (table_size m) = i"
    and "chain_index lv (table m ! i) = Some j"
  shows "sound (lvalue_set m (i, j) v)" "content (lvalue_set m (i, j) v) = (content m)(sv_u lv \<mapsto> v)"
    and "size (nodes (lvalue_set m (i, j) v)) = size (nodes m)" "mcount (lvalue_set m (i, j) v) = mcount m"
    and "\<exists>N key. nodes m = add_mset (key, lvalue_get m (i, j)) N \<and> nodes (lvalue_set m (i, j) v) = add_mset (key, v) N"
    and "length (table (lvalue_set m (i, j) v)) = length (table m)"
    and "content m (sv_u lv) = Some (lvalue_get m (i, j))"
proof -
  let ?m = "m\<lparr>mcount := int (size (nodes m))\<rparr>"
  from assms(1) obtain k where v: "inv k m" by (auto simp: sound_def)
  from v have v': "inv k ?m" by (simp add: inv_def shape_def)
  then have ok: "mapping_ok (int (size (nodes m))) ?m" by (auto simp: mapping_ok_inv nodes_def)
  have i: "i = bucket k (sv_u lv)" using assms(3) inv_bucket [OF v] by simp
  then have i2: "i < 2 ^ k" by simp
  from chain_index_Some [OF inv_chain [OF v i2] assms(2,4)] have
    j: "j < length (table m ! i)" "nkey (table m ! i ! j) = sv_u lv"
    "assoc (table m ! i) (sv_u lv) = Some (snd (table m ! i ! j))" by simp_all
  then show "content m (sv_u lv) = Some (lvalue_get m (i, j))"
    by (simp add: inv_content [OF v] i lvalue_get_def)
  have p: "fst (i, j) < length (table ?m)" "snd (i, j) < length (table ?m ! fst (i, j))"
    "nkey (table ?m ! fst (i, j) ! snd (i, j)) = sv_u lv" using j i2 inv_length [OF v] by simp_all
  note s = lvalue_set_ok [OF ok p]
  let ?s = "lvalue_set m (i, j) v" and ?s' = "lvalue_set ?m (i, j) v"
  have e: "table ?s' = table ?s" "table_size ?s' = table_size ?s" by (simp_all add: lvalue_set_def)
  have "table ?m = table m" "table_size ?m = table_size m" by simp_all
  note e' = same_table [OF e] same_table [OF this]
  have "sound ?s'" using s(1) by (auto simp: mapping_ok_inv sound_def)
  then show "sound ?s" unfolding e'(1) .
  show "content ?s = (content m)(sv_u lv \<mapsto> v)" using s(2) [of v] unfolding e' .
  let ?n = "table m ! i ! j"
  have mem: "?n \<in># nodes m" using s(4) unfolding e' by simp
  then obtain N where N: "nodes m = add_mset ?n N" by (metis multi_member_split)
  have tm: "table ?m = table m" by simp
  have "nodes ?s = add_mset (fst ?n, v) (nodes m - {#?n#})" using s(3) [of v] unfolding e' tm fst_conv snd_conv .
  then have "nodes ?s = add_mset (fst ?n, v) N" unfolding N by simp
  moreover have "nodes m = add_mset (fst ?n, lvalue_get m (i, j)) N" using N by (simp add: lvalue_get_def)
  ultimately show "\<exists>N key. nodes m = add_mset (key, lvalue_get m (i, j)) N \<and> nodes ?s = add_mset (key, v) N"
    "size (nodes ?s) = size (nodes m)" by (blast, simp)
  show "mcount ?s = mcount m" "length (table ?s) = length (table m)" by (simp_all add: lvalue_set_def)
qed

lemma assign_svalue_tot:
  assumes "sound m" "good_key lv" "masked (MAP_POINTER_HASH (sv_u lv)) (table_size m) = i"
    and "chain_index lv (table m ! i) = Some j" and "assign_svalue m (i, j) v g = (m', g')"
  shows "tot m' g' = tot m g \<and> m' = lvalue_set m (i, j) v"
proof -
  note s = set_existing [OF assms(1-4)]
  from s(5) [of v] obtain N key where N: "nodes m = add_mset (key, lvalue_get m (i, j)) N"
    "nodes (lvalue_set m (i, j) v) = add_mset (key, v) N" by blast
  have "m' = lvalue_set m (i, j) v" "g' = assign_svalue_no_free v (free_svalue (lvalue_get m (i, j)) g)"
    using assms(5) by (simp_all add: assign_svalue_def)
  then show ?thesis by (simp add: tot_def N s(6) node_refs_def fun_eq_iff)
qed

text \<open>What a loop that adds the nodes of a list leaves, complete or cut short by an error.\<close>

definition added :: "int \<Rightarrow> mapping \<Rightarrow> map_globals \<Rightarrow> int \<Rightarrow> mapping \<Rightarrow> map_globals \<Rightarrow> bool" where
  "added M m g cnt m' g' \<longleftrightarrow> sound m' \<and> cnt = int (size (nodes m')) \<and> cnt \<le> M \<and> mcount m' = mcount m \<and> tot m' g' = tot m g"

lemma add_loop_added:
  assumes "sound m" "cnt = int (size (nodes m))" "cnt \<le> M" "\<forall>n \<in> set L. good_key (fst n)" "distinct (map nkey L)"
    and "add_loop assign M L cnt m g = (err, cnt', m', g')"
  shows "added M m g cnt' m' g'
    \<and> (err = None \<longrightarrow> (\<forall>b. content m' b = (if assign then (case assoc L b of None \<Rightarrow> content m b | Some v \<Rightarrow> Some v)
          else (case content m b of None \<Rightarrow> assoc L b | Some v \<Rightarrow> Some v))))
    \<and> (\<forall>b. content m' b = content m b \<or> (assoc L b \<noteq> None \<and> content m' b = assoc L b))
    \<and> (err = Some Mapping_too_large \<longrightarrow> cnt' = M)"
  using assms
proof (induction L arbitrary: cnt m g)
  case Nil
  then show ?case by (auto simp: added_def split: option.split)
next
  case (Cons n r)
  have gk: "good_key (fst n)" and d: "assoc r (nkey n) = None" using Cons.prems(4,5) by (auto simp: assoc_None)
  obtain k where k: "inv k m" "masked (MAP_POINTER_HASH (nkey n)) (table_size m) = bucket k (nkey n)"
    "bucket k (nkey n) < length (table m)"
    "chain_index (fst n) (table m ! bucket k (nkey n)) = None \<longleftrightarrow> content m (nkey n) = None"
    by (rule sound_lookup [OF Cons.prems(1) gk])
  let ?i = "bucket k (nkey n)"
  have hi: "masked (node_hash n) (table_size m) = ?i" using k(2) by (simp add: node_hash_def)
  show ?case
  proof (cases "chain_index (fst n) (table m ! ?i)")
    case (Some j)
    obtain m1 g1 where a: "assign_svalue m (?i, j) (snd n) g = (m1, g1)" by fastforce
    note s = set_existing [OF Cons.prems(1) gk k(2) Some]
      and t = assign_svalue_tot [OF Cons.prems(1) gk k(2) Some a]
    have m1: "sound m1" "content m1 = (content m)(nkey n \<mapsto> snd n)" "size (nodes m1) = size (nodes m)"
      "mcount m1 = mcount m" "tot m1 g1 = tot m g"
      using s(1-4) [of "snd n"] unfolding conjunct2 [OF t, symmetric] by (simp_all only: conjunct1 [OF t])
    show ?thesis
    proof (cases assign)
      case True
      have loop: "add_loop assign M r cnt m1 g1 = (err, cnt', m', g')"
        using Cons.prems(6) True unfolding add_loop.simps Let_def hi Some option.case a prod.case by simp
      have IH: "added M m1 g1 cnt' m' g' \<and> (err = None \<longrightarrow> (\<forall>b. content m' b = (if assign
            then (case assoc r b of None \<Rightarrow> content m1 b | Some v \<Rightarrow> Some v)
            else (case content m1 b of None \<Rightarrow> assoc r b | Some v \<Rightarrow> Some v))))
        \<and> (\<forall>b. content m' b = content m1 b \<or> (assoc r b \<noteq> None \<and> content m' b = assoc r b))
        \<and> (err = Some Mapping_too_large \<longrightarrow> cnt' = M)"
        by (rule Cons.IH [OF _ _ _ _ _ loop]) (use Cons.prems m1 in simp_all)
      show ?thesis proof (intro conjI impI allI)
        show "added M m g cnt' m' g'" using IH m1 by (simp add: added_def)
        fix b
        show "content m' b = (if assign then (case assoc (n # r) b of None \<Rightarrow> content m b | Some v \<Rightarrow> Some v)
            else (case content m b of None \<Rightarrow> assoc (n # r) b | Some v \<Rightarrow> Some v))" if "err = None"
          using IH that d m1(2) by (cases "b = nkey n") (simp_all add: True split: option.split)
        have "content m' b = content m1 b \<or> (assoc r b \<noteq> None \<and> content m' b = assoc r b)" using IH by blast
        then show "content m' b = content m b \<or> (assoc (n # r) b \<noteq> None \<and> content m' b = assoc (n # r) b)"
          using d by (cases "b = nkey n") (auto simp: m1(2))
      qed (use IH in blast)
    next
      case False
      have loop: "add_loop assign M r cnt m g = (err, cnt', m', g')"
        using Cons.prems(6) False unfolding add_loop.simps Let_def hi Some option.case by simp
      have IH: "added M m g cnt' m' g' \<and> (err = None \<longrightarrow> (\<forall>b. content m' b = (if assign
            then (case assoc r b of None \<Rightarrow> content m b | Some v \<Rightarrow> Some v)
            else (case content m b of None \<Rightarrow> assoc r b | Some v \<Rightarrow> Some v))))
        \<and> (\<forall>b. content m' b = content m b \<or> (assoc r b \<noteq> None \<and> content m' b = assoc r b))
        \<and> (err = Some Mapping_too_large \<longrightarrow> cnt' = M)"
        by (rule Cons.IH [OF _ _ _ _ _ loop]) (use Cons.prems Some hi in simp_all)
      show ?thesis proof (intro conjI impI allI)
        show "added M m g cnt' m' g'" using IH False by (simp add: added_def)
        fix b
        show "content m' b = (if assign then (case assoc (n # r) b of None \<Rightarrow> content m b | Some v \<Rightarrow> Some v)
            else (case content m b of None \<Rightarrow> assoc (n # r) b | Some v \<Rightarrow> Some v))" if "err = None"
          using IH that d s(7) by (cases "b = nkey n") (simp_all add: False split: option.split)
        have "content m' b = content m b \<or> (assoc r b \<noteq> None \<and> content m' b = assoc r b)" using IH by blast
        then show "content m' b = content m b \<or> (assoc (n # r) b \<noteq> None \<and> content m' b = assoc (n # r) b)"
          using d by (cases "b = nkey n") (auto simp: s(7))
      qed (use IH in blast)
    qed
  next
    case None
    then have new: "content m (nkey n) = None" using k(4) by simp
    obtain ok i2 m2 g2 where rm: "room (node_hash n) ?i m g = (ok, i2, m2, g2)" by (metis prod_cases4)
    note q = room_new [OF k(1) rm gk new]
    let ?m3 = "m2\<lparr>table := (table m2)[i2 := n # table m2 ! i2]\<rparr>" and ?g3 = "copy_node n g2"
    have eq: "(err, cnt', m', g') = (if \<not> ok then (Some Out_of_memory, cnt, if assign then m2 else m2\<lparr>unfilled := unfilled m2 + 1\<rparr>, g2)
      else if cnt + 1 > M then (Some Mapping_too_large, cnt, m2, g2) else add_loop assign M r (cnt + 1) ?m3 ?g3)"
      using Cons.prems(6) rm unfolding add_loop.simps Let_def hi None option.case room_def [symmetric] by simp
    consider "\<not> ok" | "ok" "cnt + 1 > M" | "ok" "cnt + 1 \<le> M" by linarith
    then show ?thesis
    proof cases
      case 1
      have u: "sound (m2\<lparr>unfilled := x\<rparr>) = sound m2" "content (m2\<lparr>unfilled := x\<rparr>) = content m2"
        "nodes (m2\<lparr>unfilled := x\<rparr>) = nodes m2" "tot (m2\<lparr>unfilled := x\<rparr>) g2 = tot m2 g2" for x
        by (simp_all add: sound_def inv_def shape_def content_def [abs_def] nodes_def tot_def)
      from 1 eq have "err = Some Out_of_memory" "cnt' = cnt" "m' = (if assign then m2 else m2\<lparr>unfilled := unfilled m2 + 1\<rparr>)" "g' = g2"
        by simp_all
      with q(1) Cons.prems u show ?thesis by (simp add: added_def)
    next
      case 2
      with eq have "err = Some Mapping_too_large" "cnt' = cnt" "m' = m2" "g' = g2" by simp_all
      with q(1) Cons.prems 2 show ?thesis by (simp add: added_def)
    next
      case 3
      with eq have loop: "add_loop assign M r (cnt + 1) ?m3 ?g3 = (err, cnt', m', g')" by simp
      have IH: "added M ?m3 ?g3 cnt' m' g' \<and> (err = None \<longrightarrow> (\<forall>b. content m' b = (if assign
            then (case assoc r b of None \<Rightarrow> content ?m3 b | Some v \<Rightarrow> Some v)
            else (case content ?m3 b of None \<Rightarrow> assoc r b | Some v \<Rightarrow> Some v))))
        \<and> (\<forall>b. content m' b = content ?m3 b \<or> (assoc r b \<noteq> None \<and> content m' b = assoc r b))
        \<and> (err = Some Mapping_too_large \<longrightarrow> cnt' = M)"
        by (rule Cons.IH [OF _ _ _ _ _ loop])
          (use Cons.prems q 3 hi None in simp_all)
      have c3: "content ?m3 = (content m)(nkey n \<mapsto> snd n)" using q(2) by blast
      show ?thesis proof (intro conjI impI allI)
        show "added M m g cnt' m' g'" using IH q(2) by (simp add: added_def)
        fix b
        show "content m' b = (if assign then (case assoc (n # r) b of None \<Rightarrow> content m b | Some v \<Rightarrow> Some v)
            else (case content m b of None \<Rightarrow> assoc (n # r) b | Some v \<Rightarrow> Some v))" if "err = None"
          using IH that d c3 new by (cases "b = nkey n") (simp_all add: c3 split: option.split)
        have "content m' b = content ?m3 b \<or> (assoc r b \<noteq> None \<and> content m' b = assoc r b)" using IH by blast
        then show "content m' b = content m b \<or> (assoc (n # r) b \<noteq> None \<and> content m' b = assoc (n # r) b)"
          using d by (cases "b = nkey n") (auto simp: c3 new)
      qed (use IH in blast)
    qed
  qed
qed

definition summary :: "map_globals \<Rightarrow> int \<times> int \<times> int \<times> int \<times> (32 word \<Rightarrow> int)" where
  "summary g = (num_mappings g, total_mapping_size g, total_mapping_nodes g, nodes_out g, refs g)"

text \<open>The globals after \<open>m\<close> has been made from nothing, and after it is gone again.\<close>

definition made :: "mapping \<Rightarrow> map_globals \<Rightarrow> map_globals \<Rightarrow> bool" where
  "made m g g' \<longleftrightarrow> balance m g' = (num_mappings g + 1, total_mapping_size g, total_mapping_nodes g, nodes_out g, refs g)"

lemma fold_copy_node:
  "num_mappings (fold copy_node L g) = num_mappings g" "total_mapping_size (fold copy_node L g) = total_mapping_size g"
  "total_mapping_nodes (fold copy_node L g) = total_mapping_nodes g"
  "nodes_out (fold copy_node L g) = nodes_out g + int (length L)"
  "refs (fold copy_node L g) x = refs g x + held (mset L) x"
  by (induction L arbitrary: g) (simp_all add: copy_node_def node_refs_def)

lemma fold_drop_node:
  "num_mappings (fold drop_node L g) = num_mappings g" "total_mapping_size (fold drop_node L g) = total_mapping_size g"
  "total_mapping_nodes (fold drop_node L g) = total_mapping_nodes g"
  "nodes_out (fold drop_node L g) = nodes_out g - int (length L)"
  "refs (fold drop_node L g) x = refs g x - held (mset L) x"
  by (induction L arbitrary: g) (simp_all add: drop_node_def node_refs_def)

lemma mapping_ok_sound: "mapping_ok M m \<Longrightarrow> sound m"
  by (auto simp: mapping_ok_inv sound_def)

lemma mapping_ok_count: "mapping_ok M m \<Longrightarrow> mcount m = int (size (nodes m))"
  by (simp add: mapping_ok_inv nodes_def)

lemma sound_size: "sound m \<Longrightarrow> table_size m + 1 = length (table m)"
  by (auto simp: sound_def inv_def shape_def)

lemma concat_rev_length: "length (concat (rev t)) = length (concat t)"
  by (rule length_concat_mset) simp

lemma dealloc_summary:
  assumes "sound m"
  shows "summary (dealloc_mapping m g) = (case balance m g of (a, b, c, d, e) \<Rightarrow> (a - 1, b, c, d, e))"
  using sound_size [OF assms]
  by (simp add: summary_def balance_def dealloc_mapping_def Let_def fold_drop_node nodes_def fun_eq_iff concat_rev_length
      del: length_concat)

lemma made_dealloc: "sound m \<Longrightarrow> made m g g' \<Longrightarrow> summary (dealloc_mapping m g') = summary g"
  using dealloc_summary [of m g'] by (simp add: made_def summary_def [of g])

lemma copyMapping_ok:
  assumes ok: "mapping_ok M m" and c: "copyMapping m g = (m', g')"
  shows "mapping_ok M m' \<and> content m' = content m \<and> nodes m' = nodes m \<and> mcount m' = mcount m \<and> made m' g g'"
proof -
  from ok obtain k where v: "inv k m" and cnt: "mcount m = int (length (concat (table m)))" "mcount m \<le> M"
    by (auto simp: mapping_ok_inv)
  have m': "m' = m\<lparr>table := map rev (table m)\<rparr>" using c by (simp add: copyMapping_def Let_def)
  have t: "table m' = map rev (table m)" "table_size m' = table_size m" "mcount m' = mcount m" by (simp_all add: m')
  have iv: "inv k m'" using v by (simp add: inv_def shape_def nodes_ok_def t)
  have ct: "content m' = content m"
  proof
    fix b
    have i: "bucket k b < 2 ^ k" by simp
    have "assoc (rev (table m ! bucket k b)) b = assoc (table m ! bucket k b) b"
      by (rule fun_cong [OF assoc_perm]) (use inv_chain [OF v i] in \<open>simp_all add: chain_ok_def flip: rev_map\<close>)
    then show "content m' b = content m b"
      using inv_length [OF v] by (simp add: inv_content [OF v] inv_content [OF iv] t)
  qed
  have mc: "mset (concat (map rev ts)) = mset (concat ts)" for ts :: "mapping_node list list"
    by (induction ts) simp_all
  then have nd: "nodes m' = nodes m" by (simp add: nodes_def t)
  have "length (concat (table m')) = length (concat (table m))" using mc unfolding t by (intro length_concat_mset)
  with iv cnt have ok': "mapping_ok M m'" by (auto simp: mapping_ok_inv t)
  have ts: "table_size m + 1 = length (table m)" using v inv_length [OF v] by (simp add: inv_def shape_def)
  have "made m' g g'"
  proof -
    have g': "g' = fold copy_node (concat (rev (table m))) (g\<lparr>total_mapping_nodes := total_mapping_nodes g + mcount m,
                total_mapping_size := total_mapping_size g + (sizeof_mapping_t
                  + sizeof_node_ptr * int (length (table m)) + sizeof_mapping_node_t * mcount m),
                num_mappings := num_mappings g + 1\<rparr>)"
      using c unfolding copyMapping_def Let_def ts by simp
    show ?thesis
      unfolding made_def balance_def nd t g'
      by (simp add: fold_copy_node fun_eq_iff nodes_def concat_rev_length del: length_concat)
  qed
  with ok' ct nd t show ?thesis by blast
qed

text \<open>A copy of a mapping has the same content, and freeing it gives back exactly what copying
  took: nodes, bytes and references.\<close>

theorem copyMapping_roundtrip:
  assumes "mapping_ok M m" and "copyMapping m g = (m', g')"
  shows "mapping_ok M m' \<and> content m' = content m \<and> summary (dealloc_mapping m' g') = summary g"
  using copyMapping_ok [OF assms] mapping_ok_sound [of M m'] made_dealloc [of m' g g'] by blast

text \<open>\<open>m1 + m2\<close> as functions: \<open>m2\<close> wins.\<close>

lemma add_nodes_ok:
  assumes ok1: "mapping_ok M m1" and ok2: "mapping_ok M m2" and r: "add_nodes assign M m1 m2 free_flag g = (err, m', g')"
  shows "mapping_ok M m'
    \<and> (if err = Some Out_of_memory \<and> free_flag then summary g' = (case balance m1 g of (a, b, c, d, e) \<Rightarrow> (a - 1, b, c, d, e))
       else balance m' g' = balance m1 g)
    \<and> (err = None \<longrightarrow> content m' = (if assign then content m1 ++ content m2 else content m2 ++ content m1))
    \<and> (\<forall>b. content m' b = content m1 b \<or> (content m2 b \<noteq> None \<and> content m' b = content m2 b))
    \<and> (err = Some Mapping_too_large \<longrightarrow> mcount m' = M)"
proof -
  let ?L = "concat (rev (table m2))"
  obtain err0 c m g0 where l: "add_loop assign M ?L (mcount m1) m1 g = (err0, c, m, g0)" by (metis prod_cases4)
  have "mset ?L = nodes m2" by (simp add: nodes_def)
  note L = nodes_assoc [OF mapping_ok_sound [OF ok2] this]
  have "mcount m1 \<le> M" using ok1 by (simp add: mapping_ok_inv)
  note a = add_loop_added [OF mapping_ok_sound [OF ok1] mapping_ok_count [OF ok1] this L(3,1) l, unfolded L(2)]
  obtain m3 g3 where w: "write_back c m g0 = (m3, g3)" by fastforce
  note b = balance_write_back [OF w]
  from r l w have e: "err = err0" "m' = m3" "g' = (if err = Some Out_of_memory \<and> free_flag then dealloc_mapping m3 g3 else g3)"
    by (auto simp: add_nodes_def)
  have ad: "added M m1 g c m g0" using a by blast
  then have ok: "mapping_ok M m3"
    using b(1-4) by (auto simp: added_def mapping_ok_inv sound_def nodes_def)
  have "balance m3 g3 = balance m1 g"
    using ad mapping_ok_count [OF ok1] unfolding b(5) by (simp add: added_def balance_def tot_def)
  moreover have "summary (dealloc_mapping m3 g3) = (case balance m3 g3 of (a, b, c, d, e) \<Rightarrow> (a - 1, b, c, d, e))"
    by (rule dealloc_summary [OF mapping_ok_sound [OF ok]])
  moreover have "err = None \<Longrightarrow> content m3 = (if assign then content m1 ++ content m2 else content m2 ++ content m1)"
    using a b(2) unfolding e(1) by (auto simp: map_add_def fun_eq_iff split: option.split)
  moreover have "\<forall>x. content m3 x = content m1 x \<or> (content m2 x \<noteq> None \<and> content m3 x = content m2 x)"
    using a unfolding b(2) by blast
  moreover have "err = Some Mapping_too_large \<longrightarrow> mcount m3 = M" using a b(3) unfolding e(1) by simp
  ultimately show ?thesis using ok unfolding e(2,3) by simp
qed

text \<open>\<open>m1 += m2\<close> makes \<open>m1\<close> the override of \<open>m1\<close> by \<open>m2\<close>, with all nodes, bytes
  and references accounted for; when it fails, \<open>m1\<close> holds some of the entries of \<open>m2\<close>, and
  \<open>MAX_MAPPING_SIZE\<close> entries if that was the limit.\<close>

theorem absorb_mapping_correct:
  assumes "mapping_ok M m1" and "mapping_ok M m2" and "absorb_mapping M m1 m2 g = (err, m', g')"
  shows "mapping_ok M m' \<and> balance m' g' = balance m1 g \<and> (err = None \<longrightarrow> content m' = content m1 ++ content m2)
    \<and> (\<forall>b. content m' b = content m1 b \<or> (content m2 b \<noteq> None \<and> content m' b = content m2 b))
    \<and> (err = Some Mapping_too_large \<longrightarrow> mcount m' = M)"
proof (cases "mcount m2 = 0")
  case True
  then have "nodes m2 = {#}" using mapping_ok_count [OF assms(2)] by simp
  then have "content m2 = Map.empty"
    using nodes_assoc(2) [OF mapping_ok_sound [OF assms(2)], of "[]"] by (simp add: fun_eq_iff)
  with True assms show ?thesis by (simp add: absorb_mapping_def)
next
  case False
  with assms(3) have "add_nodes True M m1 m2 False g = (err, m', g')" by (simp add: absorb_mapping_def add_to_mapping_def)
  from add_nodes_ok [OF assms(1,2) this] show ?thesis by simp
qed

text \<open>\<open>m1 + m2\<close> is a new mapping, the override of \<open>m1\<close> by \<open>m2\<close>, whichever of the two the
  code copies. What it costs is accounted for; a failure for lack of memory gives everything back, but
  when the sum is too large the half-filled new mapping is not freed: its nodes, bytes and references
  are lost.\<close>

theorem add_mapping_correct:
  assumes "mapping_ok M m1" and "mapping_ok M m2" and "add_mapping M m1 m2 g = (err, m', g')"
  shows "case err of
      None \<Rightarrow> mapping_ok M m' \<and> content m' = content m1 ++ content m2 \<and> made m' g g'
    | Some Out_of_memory \<Rightarrow> summary g' = summary g
    | Some Mapping_too_large \<Rightarrow> made m' g g' \<and> mcount m' = M \<and> num_mappings g' = num_mappings g + 1"
proof -
  have empty: "content m = Map.empty" if "mapping_ok M m" "mcount m = 0" for m
  proof -
    have "nodes m = {#}" using mapping_ok_count [OF that(1)] that(2) by simp
    then show ?thesis using nodes_assoc(2) [OF mapping_ok_sound [OF that(1)], of "[]"] by (simp add: fun_eq_iff)
  qed
  have copy: ?thesis if "copyMapping a g = (m', g')" "mapping_ok M a" "err = None" "content a = content m1 ++ content m2" for a
    using copyMapping_ok [OF that(2,1)] that by simp
  have add: ?thesis if c: "copyMapping a g = (a', ga)" "mapping_ok M a" and b: "mapping_ok M b"
    and n: "add_nodes assign M a' b True ga = (err, m', g')"
    and ct: "(if assign then content a ++ content b else content b ++ content a) = content m1 ++ content m2" for a b a' ga assign
  proof -
    note k = copyMapping_ok [OF c(2,1)]
    then have ok: "mapping_ok M a'" by blast
    note q = add_nodes_ok [OF ok b n]
    show ?thesis
    proof (cases err)
      case None
      with q k show ?thesis unfolding ct [symmetric] by (simp add: made_def)
    next
      case (Some e)
      show ?thesis
      proof (cases e)
        case Out_of_memory
        with q k Some show ?thesis by (simp add: made_def summary_def [of g])
      next
        case Mapping_too_large
        with q k Some have "balance m' g' = balance a' ga" "mcount m' = M" by simp_all
        then show ?thesis using k Some Mapping_too_large by (simp add: made_def) (simp add: balance_def)
      qed
    qed
  qed
  consider "mcount m1 \<ge> mcount m2" "mcount m2 \<noteq> 0" | "mcount m1 \<ge> mcount m2" "mcount m2 = 0"
    | "\<not> mcount m1 \<ge> mcount m2" "mcount m1 \<noteq> 0" | "\<not> mcount m1 \<ge> mcount m2" "mcount m1 = 0" by blast
  then show ?thesis
  proof cases
    case 1
    obtain a' ga where c: "copyMapping m1 g = (a', ga)" by fastforce
    with 1 assms(3) have "add_nodes True M a' m2 True ga = (err, m', g')" by (simp add: add_mapping_def add_to_mapping_def)
    from add [OF c assms(1,2) this] show ?thesis by simp
  next
    case 2
    then have "copyMapping m1 g = (m', g')" "err = None" using assms(3) by (auto simp: add_mapping_def split: prod.splits)
    from copy [OF this(1) assms(1) this(2)] show ?thesis using empty [OF assms(2)] 2 by simp
  next
    case 3
    obtain a' ga where c: "copyMapping m2 g = (a', ga)" by fastforce
    with 3 assms(3) have "add_nodes False M a' m1 True ga = (err, m', g')" by (simp add: add_mapping_def unique_add_to_mapping_def)
    from add [OF c assms(2,1) this] show ?thesis by simp
  next
    case 4
    then have "copyMapping m2 g = (m', g')" "err = None" using assms(3) by (auto simp: add_mapping_def split: prod.splits)
    from copy [OF this(1) assms(2) this(2)] show ?thesis using empty [OF assms(1)] 4 by simp
  qed
qed

text \<open>\<open>keys()\<close> and \<open>values()\<close> list every entry exactly once, in the same order, and each
  item of the arrays is one more reference.\<close>

theorem mapping_indices_values:
  assumes "mapping_ok M m" and "mapping_indices m g = (ks, g1)" and "mapping_values m g = (vs, g2)"
  shows "length ks = length vs \<and> int (length ks) = mcount m \<and> distinct (map sv_u ks)
    \<and> map_of (zip (map sv_u ks) vs) = content m
    \<and> refs g1 = (\<lambda>x. refs g x + (\<Sum>k\<leftarrow>ks. ref_of k x)) \<and> refs g2 = (\<lambda>x. refs g x + (\<Sum>v\<leftarrow>vs. ref_of v x))"
proof -
  let ?L = "concat (rev (table m))"
  have "mset ?L = nodes m" by (simp add: nodes_def)
  note L = nodes_assoc [OF mapping_ok_sound [OF assms(1)] this]
  have ks: "ks = map fst ?L" "vs = map snd ?L" "g1 = fold assign_svalue_no_free ks g" "g2 = fold assign_svalue_no_free vs g"
    using assms(2,3) by (auto simp: mapping_indices_def mapping_values_def Let_def)
  have f: "refs (fold assign_svalue_no_free l h) x = refs h x + (\<Sum>k\<leftarrow>l. ref_of k x)" for l h x
    by (induction l arbitrary: h) simp_all
  have "map_of (zip (map sv_u ks) vs) = content m"
    using L(2) unfolding ks(1,2) assoc_def by (simp add: zip_map_map comp_def zip_same_conv_map)
  moreover have "distinct (map sv_u ks)" using L(1) by (simp add: ks(1) comp_def)
  moreover have "int (length ks) = mcount m"
    using mapping_ok_count [OF assms(1)] unfolding ks(1) by (simp add: nodes_def concat_rev_length del: length_concat)
  ultimately show ?thesis using f unfolding ks(3,4) by (auto simp: ks(1,2) fun_eq_iff)
qed

section \<open>Aggregates, filter, map, composition\<close>

definition sub_refs :: "int \<times> int \<times> int \<times> int \<times> (32 word \<Rightarrow> int) \<Rightarrow> (32 word \<Rightarrow> int) \<Rightarrow> int \<times> int \<times> int \<times> int \<times> (32 word \<Rightarrow> int)" where
  "sub_refs t h = (case t of (a, b, c, d, e) \<Rightarrow> (a, b, c, d, \<lambda>x. e x - h x))"

lemma sub_refs_simps: "sub_refs t (\<lambda>x. 0) = t" "sub_refs (sub_refs t f) h = sub_refs t (\<lambda>x. f x + h x)"
  by (cases t, simp add: sub_refs_def fun_eq_iff algebra_simps)+

lemma held_abs: "held {#} = (\<lambda>x. 0)" "held (add_mset n N) = (\<lambda>x. node_refs n x + held N x)"
  by (simp_all add: fun_eq_iff)

lemma allocate_empty:
  "allocate_mapping M n g = (m, g') \<Longrightarrow> mcount m = 0 \<and> (\<exists>j. table m = replicate j [])"
  unfolding allocate_mapping_def Let_def case_prod_beta by auto

definition shared :: "(32 word \<Rightarrow> 32 word) \<Rightarrow> svalue \<Rightarrow> svalue" where
  "shared mk v = snd (svalue_to_int mk v)"

lemma svalue_to_int_shared: "svalue_to_int mk v = (MAP_POINTER_HASH (sv_u (shared mk v)), shared mk v)"
  by (simp add: shared_def svalue_to_int_def Let_def)

definition interned :: "(32 word \<Rightarrow> 32 word) \<Rightarrow> mapping_node list \<Rightarrow> mapping_node list" where
  "interned mk L = map (\<lambda>n. (shared mk (fst n), snd n)) L"

text \<open>\<open>D\<close> has gone into the mapping; \<open>R\<close> is left over when an error ends the loop.\<close>

lemma load_loop_ok:
  assumes "sound m" "cnt = int (size (nodes m))" "cnt \<le> M" "\<forall>n \<in> set L. good_key (shared mk (fst n))"
    and "load_loop mk M L cnt m g = (err, cnt', m', g')"
  shows "sound m' \<and> cnt' = int (size (nodes m')) \<and> cnt' \<le> M \<and> mcount m' = mcount m
    \<and> (\<exists>D R. interned mk L = D @ R \<and> (err = None \<longleftrightarrow> R = []) \<and> tot m' g' = sub_refs (tot m g) (held (mset D))
        \<and> (\<forall>b. content m' b = (case assoc (rev D) b of None \<Rightarrow> content m b | Some v \<Rightarrow> Some v)))
    \<and> (err = Some Mapping_too_large \<longrightarrow> cnt' = M)"
  using assms
proof (induction L arbitrary: cnt m g)
  case Nil
  then show ?case
    by (auto simp: interned_def sub_refs_simps held_abs intro!: exI [of _ "[]"])
next
  case (Cons kv r)
  obtain key val where kv: "kv = (key, val)" by fastforce
  let ?k = "shared mk key" let ?n = "(?k, val)"
  have gk: "good_key ?k" using Cons.prems(4) by (simp add: kv)
  obtain k where k: "inv k m" "masked (MAP_POINTER_HASH (sv_u ?k)) (table_size m) = bucket k (sv_u ?k)"
    "bucket k (sv_u ?k) < length (table m)"
    "chain_index ?k (table m ! bucket k (sv_u ?k)) = None \<longleftrightarrow> content m (sv_u ?k) = None"
    by (rule sound_lookup [OF Cons.prems(1) gk])
  let ?i = "bucket k (sv_u ?k)"
  have step: ?case
    if loop: "load_loop mk M r cnt1 m1 g1 = (err, cnt', m', g')"
      and p: "sound m1" "cnt1 = int (size (nodes m1))" "cnt1 \<le> M" "mcount m1 = mcount m"
        "content m1 = (content m)(sv_u ?k \<mapsto> val)" "tot m1 g1 = sub_refs (tot m g) (node_refs ?n)" for cnt1 m1 g1
  proof -
    have "sound m' \<and> cnt' = int (size (nodes m')) \<and> cnt' \<le> M \<and> mcount m' = mcount m1
      \<and> (\<exists>D R. interned mk r = D @ R \<and> (err = None \<longleftrightarrow> R = []) \<and> tot m' g' = sub_refs (tot m1 g1) (held (mset D))
          \<and> (\<forall>b. content m' b = (case assoc (rev D) b of None \<Rightarrow> content m1 b | Some v \<Rightarrow> Some v)))
      \<and> (err = Some Mapping_too_large \<longrightarrow> cnt' = M)"
      by (rule Cons.IH [OF p(1-3) _ loop]) (use Cons.prems in simp)
    then obtain D R where h: "sound m'" "cnt' = int (size (nodes m'))" "cnt' \<le> M" "mcount m' = mcount m1"
      "interned mk r = D @ R" "err = None \<longleftrightarrow> R = []" "tot m' g' = sub_refs (tot m1 g1) (held (mset D))"
      "\<forall>b. content m' b = (case assoc (rev D) b of None \<Rightarrow> content m1 b | Some v \<Rightarrow> Some v)"
      "err = Some Mapping_too_large \<longrightarrow> cnt' = M" by blast
    have "interned mk (kv # r) = (?n # D) @ R" using h(5) by (simp add: interned_def kv)
    moreover have "tot m' g' = sub_refs (tot m g) (held (mset (?n # D)))"
      using h(7) p(6) by (simp add: sub_refs_simps held_abs)
    moreover have "content m' b = (case assoc (rev (?n # D)) b of None \<Rightarrow> content m b | Some v \<Rightarrow> Some v)" for b
      using h(8) p(5) by (simp add: assoc_append split: option.split)
    ultimately have "\<exists>D R. interned mk (kv # r) = D @ R \<and> (err = None \<longleftrightarrow> R = []) \<and> tot m' g' = sub_refs (tot m g) (held (mset D))
        \<and> (\<forall>b. content m' b = (case assoc (rev D) b of None \<Rightarrow> content m b | Some v \<Rightarrow> Some v))"
      using h(6) by (intro exI [of _ "?n # D"] exI [of _ R]) simp
    with h p(4) show ?case by simp
  qed
  have stop: ?case if "err \<noteq> None" "cnt' = cnt" "sound m'" "content m' = content m" "nodes m' = nodes m" "mcount m' = mcount m"
    "tot m' g' = tot m g" "err = Some Mapping_too_large \<longrightarrow> cnt' = M"
  proof -
    have "interned mk (kv # r) \<noteq> []" by (simp add: interned_def)
    then have "\<exists>D R. interned mk (kv # r) = D @ R \<and> (err = None \<longleftrightarrow> R = []) \<and> tot m' g' = sub_refs (tot m g) (held (mset D))
        \<and> (\<forall>b. content m' b = (case assoc (rev D) b of None \<Rightarrow> content m b | Some v \<Rightarrow> Some v))"
      using that by (intro exI [of _ "[]"] exI [of _ "interned mk (kv # r)"]) (simp add: sub_refs_simps held_abs)
    with that Cons.prems(2,3) show ?thesis by simp
  qed
  show ?case
  proof (cases "chain_index ?k (table m ! ?i)")
    case (Some j)
    let ?m1 = "lvalue_set m (?i, j) val" and ?g1 = "free_svalue (lvalue_get m (?i, j)) (free_svalue ?k g)"
    have loop: "load_loop mk M r cnt ?m1 ?g1 = (err, cnt', m', g')"
      using Cons.prems(5) unfolding kv load_loop.simps svalue_to_int_shared prod.case Let_def k(2) Some option.case .
    note s = set_existing [OF Cons.prems(1) gk k(2) Some]
    from s(5) [of val] obtain N key' where N: "nodes m = add_mset (key', lvalue_get m (?i, j)) N" "nodes ?m1 = add_mset (key', val) N"
      by blast
    have "tot ?m1 ?g1 = sub_refs (tot m g) (node_refs ?n)"
      by (simp add: tot_def N s(6) sub_refs_def node_refs_def fun_eq_iff)
    with s Cons.prems show ?thesis by (intro step [OF loop]) simp_all
  next
    case None
    then have new: "content m (nkey ?n) = None" using k(4) by simp
    obtain ok i2 m2 g2 where rm: "room (node_hash ?n) (bucket k (nkey ?n)) m g = (ok, i2, m2, g2)" by (metis prod_cases4)
    have gk': "good_key (fst ?n)" using gk by simp
    note q = room_new [OF k(1) rm gk' new]
    let ?m3 = "m2\<lparr>table := (table m2)[i2 := ?n # table m2 ! i2]\<rparr>" and ?g3 = "new_map_node g2"
    have rm': "(if table m ! ?i \<noteq> [] then (True, ?i, m, g) else take_bucket (MAP_POINTER_HASH (sv_u ?k)) ?i m g) = (ok, i2, m2, g2)"
      using rm by (simp add: room_def node_hash_def)
    have eq: "(err, cnt', m', g') = (if \<not> ok then (Some Out_of_memory, cnt, m2, g2)
      else if cnt + 1 > M then (Some Mapping_too_large, cnt, m2, g2) else load_loop mk M r (cnt + 1) ?m3 ?g3)"
      using Cons.prems(5) unfolding kv load_loop.simps svalue_to_int_shared prod.case Let_def k(2) None option.case rm' by simp
    consider "\<not> ok" | "ok" "cnt + 1 > M" | "ok" "cnt + 1 \<le> M" by linarith
    then show ?thesis
    proof cases
      case 1
      with eq q(1) show ?thesis by (intro stop) simp_all
    next
      case 2
      with eq q(1) Cons.prems(3) show ?thesis by (intro stop) simp_all
    next
      case 3
      with eq have loop: "load_loop mk M r (cnt + 1) ?m3 ?g3 = (err, cnt', m', g')" by simp
      have "tot ?m3 ?g3 = sub_refs (tot m g) (node_refs ?n)" using q(2) unfolding sub_refs_def by blast
      with q(2) 3 Cons.prems(2) show ?thesis by (intro step [OF loop]) simp_all
    qed
  qed
qed

text \<open>\<open>([ k1 : v1, ... ])\<close> is the mapping of the pairs, later ones winning; the references
  of the values on the stack move into it. When it fails, everything that had moved is freed again,
  but the pairs not reached (\<open>R\<close>) keep their references: they leak.\<close>

theorem load_mapping_correct:
  assumes "0 \<le> M" and "M < 2 ^ 15" and "\<forall>n \<in> set L. good_key (shared mk (fst n))"
    and "load_mapping_from_aggregate mk M L g = (res, g')"
  shows "case res of
      Inr m \<Rightarrow> mapping_ok M m \<and> content m = assoc (rev (interned mk L))
        \<and> balance m g' = sub_refs (num_mappings g + 1, total_mapping_size g, total_mapping_nodes g, nodes_out g, refs g)
            (held (mset (interned mk L)))
    | Inl e \<Rightarrow> \<exists>D R. interned mk L = D @ R \<and> R \<noteq> [] \<and> summary g' = sub_refs (summary g) (held (mset D))"
proof -
  obtain m0 g0 where a: "allocate_mapping M (int (length L)) g = (m0, g0)" by fastforce
  obtain err c m1 g1 where l: "load_loop mk M L 0 m0 g0 = (err, c, m1, g1)" by (metis prod_cases4)
  obtain m2 g2 where w: "write_back c m1 g1 = (m2, g2)" by fastforce
  note al = allocate_mapping_correct [OF assms(1,2) a]
  obtain j where m0: "sound m0" "mcount m0 = 0" "content m0 = Map.empty" and t: "table m0 = replicate j []"
    using al mapping_ok_sound allocate_empty [OF a] by blast
  have n0: "nodes m0 = {#}" unfolding nodes_def t by simp
  have t0: "tot m0 g0 = (num_mappings g + 1, total_mapping_size g + sizeof_mapping_t, total_mapping_nodes g, nodes_out g, refs g)"
    using al by (simp add: tot_def balance_def n0 fun_eq_iff)
  have z: "(0::int) = int (size (nodes m0))" by (simp add: n0)
  note b = balance_write_back [OF w]
  from load_loop_ok [OF m0(1) z assms(1,3) l] obtain D R where h: "sound m1" "c = int (size (nodes m1))" "c \<le> M"
    "mcount m1 = 0" "interned mk L = D @ R" "err = None \<longleftrightarrow> R = []" "tot m1 g1 = sub_refs (tot m0 g0) (held (mset D))"
    "\<forall>b. content m1 b = (case assoc (rev D) b of None \<Rightarrow> content m0 b | Some v \<Rightarrow> Some v)"
    unfolding m0(2) by blast
  have c: "content m1 = assoc (rev D)" using h(8) m0(3) by (auto simp: fun_eq_iff split: option.split)
  have s2: "sound m2" using h(1) b(4) by simp
  have bal: "balance m2 g2 = sub_refs (num_mappings g + 1, total_mapping_size g, total_mapping_nodes g, nodes_out g, refs g)
      (held (mset D))"
    unfolding b(5) h(7) t0 by (simp add: sub_refs_def h(4))
  show ?thesis
  proof (cases err)
    case None
    then have res: "res = Inr m2" "g' = g2" using assms(4) a l w by (simp_all add: load_mapping_from_aggregate_def)
    have "mapping_ok M m2" using s2 h(2,3) b(1,3) by (simp add: mapping_ok_inv sound_def nodes_def)
    with bal c b(2) h(5,6) None show ?thesis by (simp add: res)
  next
    case (Some e)
    then have res: "res = Inl e" "g' = dealloc_mapping m2 g2"
      using assms(4) a l w by (simp_all add: load_mapping_from_aggregate_def)
    have "summary g' = sub_refs (summary g) (held (mset D))"
      unfolding res(2) dealloc_summary [OF s2] bal by (simp add: sub_refs_def summary_def)
    with h(5,6) Some show ?thesis by (auto simp: res(1))
  qed
qed

text \<open>Filtering is adding the nodes that pass to an empty mapping.\<close>

definition passes :: "(svalue \<Rightarrow> svalue \<Rightarrow> svalue option) \<Rightarrow> mapping_node \<Rightarrow> bool" where
  "passes f n \<longleftrightarrow> (case f (fst n) (snd n) of None \<Rightarrow> False | Some ret \<Rightarrow> sv_type ret \<noteq> T_NUMBER \<or> sv_u ret \<noteq> 0)"

lemma filter_as_add:
  assumes "sound m" "\<forall>n \<in> set L. good_key (fst n) \<and> content m (nkey n) = None \<and> f (fst n) (snd n) \<noteq> None"
    and "distinct (map nkey L)"
  shows "filter_chain f M L cnt m g = add_loop True M (filter (passes f) L) cnt m g"
  using assms
proof (induction L arbitrary: cnt m g)
  case (Cons n r)
  then obtain ret where ret: "f (fst n) (snd n) = Some ret" by auto
  show ?case
  proof (cases "sv_type ret \<noteq> T_NUMBER \<or> sv_u ret \<noteq> 0")
    case False
    then have "filter_chain f M r cnt m g = add_loop True M (filter (passes f) r) cnt m g"
      using Cons.prems by (intro Cons.IH) auto
    moreover have "\<not> passes f n" using False ret by (simp add: passes_def)
    ultimately show ?thesis using False ret by simp
  next
    case True
    then have pn: "passes f n" using ret by (simp add: passes_def)
    have gk: "good_key (fst n)" and new: "content m (nkey n) = None" using Cons.prems by auto
    obtain k where k: "inv k m" "masked (MAP_POINTER_HASH (nkey n)) (table_size m) = bucket k (nkey n)"
      "bucket k (nkey n) < length (table m)"
      "chain_index (fst n) (table m ! bucket k (nkey n)) = None \<longleftrightarrow> content m (nkey n) = None"
      by (rule sound_lookup [OF Cons.prems(1) gk])
    have hi: "masked (node_hash n) (table_size m) = bucket k (nkey n)" using k(2) by (simp add: node_hash_def)
    have ci: "chain_index (fst n) (table m ! bucket k (nkey n)) = None" using k(4) new by simp
    obtain ok i2 m2 g2 where rm: "room (node_hash n) (bucket k (nkey n)) m g = (ok, i2, m2, g2)" by (metis prod_cases4)
    note q = room_new [OF k(1) rm gk new]
    let ?m3 = "m2\<lparr>table := (table m2)[i2 := n # table m2 ! i2]\<rparr>"
    have s3: "sound ?m3" "content ?m3 = (content m)(nkey n \<mapsto> snd n)" using q(2) by blast+
    have "\<forall>x \<in> set r. good_key (fst x) \<and> content ?m3 (nkey x) = None \<and> f (fst x) (snd x) \<noteq> None"
      unfolding s3(2) using Cons.prems(2,3) by (auto simp: image_iff)
    then have IH: "filter_chain f M r (cnt + 1) ?m3 g3 = add_loop True M (filter (passes f) r) (cnt + 1) ?m3 g3" for g3
      using Cons.prems(3) s3(1) by (intro Cons.IH) auto
    have fl: "filter (passes f) (n # r) = n # filter (passes f) r" using pn by simp
    show ?thesis
      unfolding fl filter_chain.simps ret option.case if_P [OF True] add_loop.simps Let_def hi ci
        room_def [symmetric] rm prod.case IH by simp
  qed
qed simp

lemma filter_chain_append:
  "\<forall>n \<in> set c. f (fst n) (snd n) \<noteq> None \<Longrightarrow> filter_chain f M (c @ d) cnt m g =
     (case filter_chain f M c cnt m g of (err, cnt, m, g) \<Rightarrow>
      if err = None then filter_chain f M d cnt m g else (err, cnt, m, g))"
proof (induction c arbitrary: cnt m g)
  case (Cons n r)
  then obtain ret where ret: "f (fst n) (snd n) = Some ret" by auto
  have IH: "filter_chain f M (r @ d) cnt m g = (case filter_chain f M r cnt m g of (err, cnt, m, g) \<Rightarrow>
      if err = None then filter_chain f M d cnt m g else (err, cnt, m, g))" for cnt m g
    using Cons by simp
  obtain ok i2 m2 g2 where rm: "room (node_hash n) (masked (node_hash n) (table_size m)) m g = (ok, i2, m2, g2)"
    by (metis prod_cases4)
  show ?case
    unfolding append_Cons filter_chain.simps ret option.case Let_def room_def [symmetric] rm prod.case IH
    by simp
qed simp

lemma filter_loop_concat:
  "\<forall>n \<in> set (concat t). f (fst n) (snd n) \<noteq> None \<Longrightarrow> filter_loop f M t cnt m g = filter_chain f M (concat t) cnt m g"
  by (induction t arbitrary: cnt m g) (simp_all add: filter_chain_append Let_def cong: prod.case_cong if_cong)

text \<open>\<open>filter\<close> makes a new mapping of exactly the entries the callback accepts (a callback
  that always answers), in order, with everything accounted for.\<close>

theorem filter_mapping_correct:
  assumes "0 \<le> M" and "M < 2 ^ 15" and "mapping_ok M m" and "\<forall>n \<in># nodes m. f (fst n) (snd n) \<noteq> None"
    and "filter_mapping f M m g = (err, m', g')"
  shows "mapping_ok M m' \<and> made m' g g'
    \<and> (err = None \<longrightarrow> content m' = assoc (filter (passes f) (concat (rev (table m)))))"
proof -
  let ?L = "concat (rev (table m))"
  obtain m0 g0 where a: "allocate_mapping M 0 g = (m0, g0)" by fastforce
  note al = allocate_mapping_correct [OF assms(1,2) a]
  have L: "mset ?L = nodes m" by (simp add: nodes_def)
  note na = nodes_assoc [OF mapping_ok_sound [OF assms(3)] L]
  have tot_f: "\<forall>n \<in> set ?L. f (fst n) (snd n) \<noteq> None" using assms(4) L by (metis set_mset_mset)
  obtain j where m0: "sound m0" "mcount m0 = 0" "content m0 = Map.empty" and t: "table m0 = replicate j []"
    using al mapping_ok_sound allocate_empty [OF a] by blast
  have n0: "nodes m0 = {#}" unfolding nodes_def t by simp
  have t0: "tot m0 g0 = (num_mappings g + 1, total_mapping_size g + sizeof_mapping_t, total_mapping_nodes g, nodes_out g, refs g)"
    using al by (simp add: tot_def balance_def n0 fun_eq_iff)
  obtain c m1 g1 where l: "filter_loop f M (rev (table m)) 0 m0 g0 = (err, c, m1, g1)" and w: "write_back c m1 g1 = (m', g')"
    using assms(5) a by (auto simp: filter_mapping_def split: prod.splits)
  have "filter_loop f M (rev (table m)) 0 m0 g0 = filter_chain f M ?L 0 m0 g0"
    by (rule filter_loop_concat [OF tot_f])
  also have "\<dots> = add_loop True M (filter (passes f) ?L) 0 m0 g0"
    by (rule filter_as_add) (use m0 na tot_f in auto)
  finally have ad: "add_loop True M (filter (passes f) ?L) 0 m0 g0 = (err, c, m1, g1)" using l by simp
  have z: "(0::int) = int (size (nodes m0))" by (simp add: n0)
  have d: "distinct (map nkey (filter (passes f) ?L))" "\<forall>n \<in> set (filter (passes f) ?L). good_key (fst n)"
    using na(1) na(3) by (simp add: distinct_map_filter, meson filter_is_subset subsetD)
  note r = add_loop_added [OF m0(1) z assms(1) d(2,1) ad]
  then have x: "added M m0 g0 c m1 g1" by blast
  note b = balance_write_back [OF w]
  have "mapping_ok M m'" using x b(1,3,4) by (auto simp: added_def mapping_ok_inv sound_def nodes_def)
  moreover have "made m' g g'" unfolding made_def b(5) using x t0 m0(2) by (simp add: added_def)
  moreover have "content m' y = assoc (filter (passes f) ?L) y" if "err = None" for y
    using r that unfolding b(2) m0(3) by (auto split: option.split)
  ultimately show ?thesis by (simp add: fun_eq_iff)
qed

lemma map_chain_ok:
  assumes "\<forall>n \<in> set c. f (fst n) (snd n) \<noteq> None"
  defines "h \<equiv> \<lambda>n. (fst n, the (f (fst n) (snd n)))"
  shows "fst (map_chain f c g) = map h c
    \<and> refs (snd (map_chain f c g)) x - held (mset (map h c)) x = refs g x - held (mset c) x
    \<and> num_mappings (snd (map_chain f c g)) = num_mappings g
    \<and> total_mapping_size (snd (map_chain f c g)) = total_mapping_size g
    \<and> total_mapping_nodes (snd (map_chain f c g)) = total_mapping_nodes g
    \<and> nodes_out (snd (map_chain f c g)) = nodes_out g"
  using assms(1)
proof (induction c arbitrary: g)
  case (Cons n r)
  then obtain v where v: "f (fst n) (snd n) = Some v" by auto
  let ?g = "assign_svalue_no_free v (free_svalue (snd n) g)"
  have "fst (map_chain f r ?g) = map h r
    \<and> refs (snd (map_chain f r ?g)) x - held (mset (map h r)) x = refs ?g x - held (mset r) x
    \<and> num_mappings (snd (map_chain f r ?g)) = num_mappings ?g
    \<and> total_mapping_size (snd (map_chain f r ?g)) = total_mapping_size ?g
    \<and> total_mapping_nodes (snd (map_chain f r ?g)) = total_mapping_nodes ?g
    \<and> nodes_out (snd (map_chain f r ?g)) = nodes_out ?g"
    by (rule Cons.IH) (use Cons.prems in simp)
  with v show ?case by (simp add: case_prod_beta h_def node_refs_def)
qed simp

lemma map_table_ok:
  assumes "\<forall>n \<in> set (concat t). f (fst n) (snd n) \<noteq> None"
  defines "h \<equiv> \<lambda>n. (fst n, the (f (fst n) (snd n)))"
  shows "fst (map_table f t g) = map (map h) t
    \<and> refs (snd (map_table f t g)) x - held (mset (concat (map (map h) t))) x = refs g x - held (mset (concat t)) x
    \<and> num_mappings (snd (map_table f t g)) = num_mappings g
    \<and> total_mapping_size (snd (map_table f t g)) = total_mapping_size g
    \<and> total_mapping_nodes (snd (map_table f t g)) = total_mapping_nodes g
    \<and> nodes_out (snd (map_table f t g)) = nodes_out g"
  using assms(1)
proof (induction t arbitrary: g)
  case (Cons c t)
  then have "\<forall>n \<in> set c. f (fst n) (snd n) \<noteq> None" by simp
  note c = map_chain_ok [OF this, of g x, folded h_def]
  let ?g = "snd (map_chain f c g)"
  have "fst (map_table f t ?g) = map (map h) t
    \<and> refs (snd (map_table f t ?g)) x - held (mset (concat (map (map h) t))) x = refs ?g x - held (mset (concat t)) x
    \<and> num_mappings (snd (map_table f t ?g)) = num_mappings ?g
    \<and> total_mapping_size (snd (map_table f t ?g)) = total_mapping_size ?g
    \<and> total_mapping_nodes (snd (map_table f t ?g)) = total_mapping_nodes ?g
    \<and> nodes_out (snd (map_table f t ?g)) = nodes_out ?g"
    by (rule Cons.IH) (use Cons.prems in simp)
  with c show ?case by (simp add: case_prod_beta)
qed simp

text \<open>\<open>map\<close> makes a new mapping with the same keys and the values the callback gives (a
  callback that always answers), with everything accounted for.\<close>

theorem map_mapping_correct:
  assumes "mapping_ok M m" and "\<forall>n \<in># nodes m. f (fst n) (snd n) \<noteq> None" and "map_mapping f m g = (m', g')"
  shows "mapping_ok M m' \<and> made m' g g' \<and> nodes m' = image_mset (\<lambda>n. (fst n, the (f (fst n) (snd n)))) (nodes m)"
proof -
  let ?h = "\<lambda>n. (fst n, the (f (fst n) (snd n)))"
  obtain m1 g1 where c: "copyMapping m g = (m1, g1)" by fastforce
  note k = copyMapping_ok [OF assms(1) c]
  obtain t g2 where t: "map_table f (rev (table m1)) g1 = (t, g2)" by fastforce
  have m': "m' = m1\<lparr>table := rev t\<rparr>" "g' = g2" using assms(3) c t by (simp_all add: map_mapping_def)
  have "set (concat (rev (table m1))) = set_mset (nodes m1)" by (simp add: nodes_def)
  then have "\<forall>n \<in> set (concat (rev (table m1))). f (fst n) (snd n) \<noteq> None" using assms(2) k by simp
  note q = map_table_ok [OF this, of g1, unfolded t fst_conv snd_conv]
  then have tb: "table m' = map (map ?h) (table m1)" by (simp add: m'(1) rev_map)
  have nd: "nodes m' = image_mset ?h (nodes m1)"
    unfolding nodes_def tb map_concat [symmetric] by simp
  from k obtain kk where v: "inv kk m1" by (auto simp: mapping_ok_inv)
  have "chain_ok kk i (map ?h c) = chain_ok kk i c" for i c by (auto simp: chain_ok_def comp_def)
  with v have v': "inv kk m'" by (simp add: inv_def shape_def nodes_ok_def tb) (simp add: m'(1))
  have "mcount m' = mcount m1" by (simp add: m'(1))
  moreover have "length (concat (table m')) = length (concat (table m1))" unfolding tb map_concat [symmetric] by simp
  ultimately have ok: "mapping_ok M m'" using v' k by (auto simp: mapping_ok_inv)
  have "nodes m' = mset (concat (map (map ?h) (rev (table m1))))"
    unfolding nd map_concat [symmetric] by (simp add: nodes_def)
  then have "held (nodes m') x = held (mset (concat (map (map ?h) (rev (table m1))))) x" for x by simp
  moreover have "held (nodes m1) x = held (mset (concat (rev (table m1)))) x" for x by (simp add: nodes_def)
  ultimately have "refs g' x - held (nodes m') x = refs g1 x - held (nodes m1) x" for x using q by (simp add: m'(2))
  moreover have "size (nodes m') = size (nodes m1)" by (simp add: nd)
  moreover have "length (table m') = length (table m1)" by (simp add: tb)
  ultimately have "balance m' g' = balance m1 g1"
    using q \<open>mcount m' = mcount m1\<close> by (simp add: balance_def m'(2))
  with k ok nd show ?thesis by (simp add: made_def)
qed

lemma compose_chain_ok:
  assumes "mapping_ok M m2" "\<forall>n \<in> set c. good_key (shared mk (snd n))"
  defines "look \<equiv> \<lambda>n. content m2 (sv_u (shared mk (snd n)))"
  shows "case compose_chain mk m2 c g of (c', d, g') \<Rightarrow>
      c' = map (\<lambda>n. (fst n, the (look n))) (filter (\<lambda>n. look n \<noteq> None) c) \<and> d + length c' = length c
      \<and> refs g' x - held (mset c') x = refs g x - held (mset (map (\<lambda>n. (fst n, shared mk (snd n))) c)) x
      \<and> num_mappings g' = num_mappings g \<and> total_mapping_size g' = total_mapping_size g
      \<and> total_mapping_nodes g' = total_mapping_nodes g \<and> nodes_out g' = nodes_out g - int d"
  using assms(2)
proof (induction c arbitrary: g)
  case (Cons n r)
  let ?v = "shared mk (snd n)"
  have gk: "good_key ?v" using Cons.prems by simp
  note f = find_in_chain [OF assms(1) gk]
  show ?case
  proof (cases "find_node ?v (table m2 ! masked (MAP_POINTER_HASH (sv_u ?v)) (table_size m2))")
    case (Some e)
    let ?g = "assign_svalue_no_free (snd e) (free_svalue ?v g)"
    have l: "look n = Some (snd e)" using f Some by (simp add: look_def)
    obtain c' d g' where r: "compose_chain mk m2 r ?g = (c', d, g')" by (metis prod_cases3)
    have IH: "case compose_chain mk m2 r ?g of (c', d, g') \<Rightarrow>
      c' = map (\<lambda>n. (fst n, the (look n))) (filter (\<lambda>n. look n \<noteq> None) r) \<and> d + length c' = length r
      \<and> refs g' x - held (mset c') x = refs ?g x - held (mset (map (\<lambda>n. (fst n, shared mk (snd n))) r)) x
      \<and> num_mappings g' = num_mappings ?g \<and> total_mapping_size g' = total_mapping_size ?g
      \<and> total_mapping_nodes g' = total_mapping_nodes ?g \<and> nodes_out g' = nodes_out ?g - int d"
      by (rule Cons.IH) (use Cons.prems in simp)
    show ?thesis
      unfolding compose_chain.simps svalue_to_int_shared prod.case Some option.case Let_def r
      using IH [unfolded r prod.case] by (auto simp: l node_refs_def)
  next
    case None
    let ?g = "free_node (free_svalue (fst n) (free_svalue ?v g))"
    have l: "look n = None" using f None by (simp add: look_def)
    obtain c' d g' where r: "compose_chain mk m2 r ?g = (c', d, g')" by (metis prod_cases3)
    have IH: "case compose_chain mk m2 r ?g of (c', d, g') \<Rightarrow>
      c' = map (\<lambda>n. (fst n, the (look n))) (filter (\<lambda>n. look n \<noteq> None) r) \<and> d + length c' = length r
      \<and> refs g' x - held (mset c') x = refs ?g x - held (mset (map (\<lambda>n. (fst n, shared mk (snd n))) r)) x
      \<and> num_mappings g' = num_mappings ?g \<and> total_mapping_size g' = total_mapping_size ?g
      \<and> total_mapping_nodes g' = total_mapping_nodes ?g \<and> nodes_out g' = nodes_out ?g - int d"
      by (rule Cons.IH) (use Cons.prems in simp)
    show ?thesis
      unfolding compose_chain.simps svalue_to_int_shared prod.case None option.case Let_def r
      using IH [unfolded r prod.case] by (auto simp: l node_refs_def)
  qed
qed simp

lemma compose_table_ok:
  assumes "mapping_ok M m2" "\<forall>n \<in> set (concat t). good_key (shared mk (snd n))"
  defines "look \<equiv> \<lambda>n. content m2 (sv_u (shared mk (snd n)))"
  shows "case compose_table mk m2 t u g of (t', u', d, g') \<Rightarrow>
      t' = map (\<lambda>c. map (\<lambda>n. (fst n, the (look n))) (filter (\<lambda>n. look n \<noteq> None) c)) t
      \<and> d + length (concat t') = length (concat t)
      \<and> refs g' x - held (mset (concat t')) x = refs g x - held (mset (map (\<lambda>n. (fst n, shared mk (snd n))) (concat t))) x
      \<and> num_mappings g' = num_mappings g \<and> total_mapping_size g' = total_mapping_size g
      \<and> total_mapping_nodes g' = total_mapping_nodes g \<and> nodes_out g' = nodes_out g - int d"
  using assms(2)
proof (induction t arbitrary: u g)
  case (Cons c t)
  obtain c' d g1 where c: "compose_chain mk m2 c g = (c', d, g1)" by (metis prod_cases3)
  let ?u = "if c \<noteq> [] \<and> c' = [] then u + 1 else u"
  obtain t' u' d' g2 where r: "compose_table mk m2 t ?u g1 = (t', u', d', g2)" by (metis prod_cases4)
  have "\<forall>n \<in> set c. good_key (shared mk (snd n))" using Cons.prems by simp
  note q = compose_chain_ok [OF assms(1) this, where g = g and x = x, folded look_def, unfolded c prod.case]
  have "case compose_table mk m2 t ?u g1 of (t', u', d, g') \<Rightarrow>
      t' = map (\<lambda>c. map (\<lambda>n. (fst n, the (look n))) (filter (\<lambda>n. look n \<noteq> None) c)) t
      \<and> d + length (concat t') = length (concat t)
      \<and> refs g' x - held (mset (concat t')) x = refs g1 x - held (mset (map (\<lambda>n. (fst n, shared mk (snd n))) (concat t))) x
      \<and> num_mappings g' = num_mappings g1 \<and> total_mapping_size g' = total_mapping_size g1
      \<and> total_mapping_nodes g' = total_mapping_nodes g1 \<and> nodes_out g' = nodes_out g1 - int d"
    by (rule Cons.IH) (use Cons.prems in simp)
  with q show ?case unfolding compose_table.simps c prod.case Let_def r look_def by auto
qed simp

text \<open>\<open>m1 * m2\<close> is the composition of the two as functions, keys without an image deleted;
  with \<open>flag\<close> it is a new mapping, without it \<open>m1\<close> is changed. Everything is accounted for
  (when the values of \<open>m1\<close> that are strings are shared strings).\<close>

theorem compose_mapping_correct:
  assumes "mapping_ok M m1" and "mapping_ok M m2"
    and "\<forall>n \<in># nodes m1. good_key (snd n) \<and> shared mk (snd n) = snd n"
    and "compose_mapping mk m1 m2 flag g = (m', g')"
  shows "mapping_ok M m'
    \<and> content m' = (\<lambda>b. case content m1 b of None \<Rightarrow> None | Some v \<Rightarrow> content m2 (sv_u v))
    \<and> (if flag then made m' g g' else balance m' g' = balance m1 g)"
proof -
  obtain ma ga where c: "(if flag then copyMapping m1 g else (m1, g)) = (ma, ga)" by fastforce
  have k: "mapping_ok M ma" "content ma = content m1" "nodes ma = nodes m1"
    "if flag then made ma g ga else ma = m1 \<and> ga = g"
    using c copyMapping_ok [OF assms(1), of g ma ga] assms(1) by (auto split: if_splits)
  let ?look = "\<lambda>n. content m2 (sv_u (snd n))"
  obtain t u d g2 where t: "compose_table mk m2 (table ma) (unfilled ma) ga = (t, u, d, g2)" by (metis prod_cases4)
  have nn: "set (concat (table ma)) = set_mset (nodes m1)" using arg_cong [OF k(3), of set_mset] by (simp add: nodes_def)
  then have gk: "\<forall>n \<in> set (concat (table ma)). good_key (shared mk (snd n))" using assms(3) by simp
  note q = compose_table_ok [OF assms(2) gk, where u = "unfilled ma" and g = ga, unfolded t prod.case]
  have sh: "map (\<lambda>n. (fst n, shared mk (snd n))) (concat (table ma)) = concat (table ma)"
    using nn assms(3) by (intro map_idI) auto
  have lk: "map (\<lambda>c. map (\<lambda>n. (fst n, the (content m2 (sv_u (shared mk (snd n))))))
        (filter (\<lambda>n. content m2 (sv_u (shared mk (snd n))) \<noteq> None) c)) (table ma)
      = map (\<lambda>c. map (\<lambda>n. (fst n, the (?look n))) (filter (\<lambda>n. ?look n \<noteq> None) c)) (table ma)"
  proof (rule map_cong [OF refl])
    fix c assume "c \<in> set (table ma)"
    then have "\<forall>n \<in> set c. shared mk (snd n) = snd n" using nn assms(3) by auto
    then show "map (\<lambda>n. (fst n, the (content m2 (sv_u (shared mk (snd n))))))
        (filter (\<lambda>n. content m2 (sv_u (shared mk (snd n))) \<noteq> None) c)
      = map (\<lambda>n. (fst n, the (?look n))) (filter (\<lambda>n. ?look n \<noteq> None) c)"
      by (intro map_cong filter_cong) auto
  qed
  have m': "table m' = t" "table_size m' = table_size ma" "mcount m' = mcount ma - int d"
    and g': "g' = g2\<lparr>total_mapping_nodes := total_mapping_nodes g2 - int d,
        total_mapping_size := total_mapping_size g2 - int d * sizeof_mapping_node_t\<rparr>"
    using assms(4) c t unfolding compose_mapping_def by auto
  have tb: "table m' = map (\<lambda>c. map (\<lambda>n. (fst n, the (?look n))) (filter (\<lambda>n. ?look n \<noteq> None) c)) (table ma)"
    using q unfolding m'(1) lk by blast
  have dd: "d + length (concat t) = length (concat (table ma))" using q by blast
  from k(1) obtain kk where v: "inv kk ma" and cnt: "mcount ma = int (length (concat (table ma)))" "mcount ma \<le> M"
    by (auto simp: mapping_ok_inv)
  have "chain_ok kk i (map (\<lambda>n. (fst n, the (?look n))) (filter (\<lambda>n. ?look n \<noteq> None) c))" if "chain_ok kk i c" for i c
    using that by (auto simp: chain_ok_def comp_def distinct_map inj_on_def)
  with v have v': "inv kk m'" by (simp add: inv_def shape_def nodes_ok_def tb m'(2))
  have ok: "mapping_ok M m'" using v' cnt dd m' by (auto simp: mapping_ok_inv)
  have as: "assoc (map (\<lambda>n. (fst n, the (?look n))) (filter (\<lambda>n. ?look n \<noteq> None) c)) b =
      (case assoc c b of None \<Rightarrow> None | Some v \<Rightarrow> content m2 (sv_u v))" if "chain_ok kk i c" for c b i
    using that
  proof (induction c)
    case (Cons n c)
    then show ?case
      by (cases "nkey n = b"; cases "content m2 (sv_u (snd n))") (simp_all del: not_None_eq add: assoc_None [THEN iffD2])
  qed simp
  have "content m' b = (case content m1 b of None \<Rightarrow> None | Some v \<Rightarrow> content m2 (sv_u v))" for b
  proof -
    have i: "bucket kk b < 2 ^ kk" by simp
    from as [OF inv_chain [OF v i], of b] show ?thesis
      unfolding inv_content [OF v'] k(2) [symmetric] inv_content [OF v] tb using inv_length [OF v] by simp
  qed
  moreover have "balance m' g' = balance ma ga"
  proof -
    have r: "refs g2 x - held (mset (concat t)) x = refs ga x - held (nodes ma) x" for x
      using compose_table_ok [OF assms(2) gk, where u = "unfilled ma" and g = ga and x = x, unfolded t prod.case sh] unfolding nodes_def by blast
    have r: "refs g2 x - held (nodes m') x = refs ga x - held (nodes ma) x" for x
      using r by (simp add: nodes_def m'(1))
    have "num_mappings g2 = num_mappings ga" "total_mapping_size g2 = total_mapping_size ga"
      "total_mapping_nodes g2 = total_mapping_nodes ga" "nodes_out g2 = nodes_out ga - int d"
      using q by blast+
    moreover have "length t = length (table ma)" using tb unfolding m'(1) by simp
    moreover have "size (nodes ma) = d + size (nodes m')" using dd by (simp add: nodes_def m'(1))
    ultimately show ?thesis
      using r by (simp add: balance_def g' m' fun_eq_iff algebra_simps del: length_concat mset_concat)
  qed
  ultimately show ?thesis using ok k(4) by (auto simp: made_def split: if_splits)
qed

section \<open>Building mappings with string keys\<close>

text \<open>The functions the driver builds mappings with. The key is a C string at address \<open>key\<close>; as the
  lookup value is a constant, \<open>make_shared_string\<close> makes a reference that \<open>insert_in_mapping\<close> gives
  back when the insertion has succeeded (an error leaves the function before).\<close>

definition T_OBJECT :: "16 word" where "T_OBJECT = 0x10"
definition T_ARRAY :: "16 word" where "T_ARRAY = 0x8"
definition STRING_CONSTANT :: "16 word" where "STRING_CONSTANT = 0"
definition STRING_MALLOC :: "16 word" where "STRING_MALLOC = STRING_COUNTED"

definition add_refs :: "int \<Rightarrow> 32 word \<Rightarrow> map_globals \<Rightarrow> map_globals" where
  "add_refs d p g = g\<lparr>refs := (refs g)(p := refs g p + d)\<rparr>"

definition insert_in_mapping :: "(32 word \<Rightarrow> 32 word) \<Rightarrow> int \<Rightarrow> mapping \<Rightarrow> 32 word \<Rightarrow> map_globals
    \<Rightarrow> (map_error + lvalue) \<times> mapping \<times> map_globals" where
  "insert_in_mapping mk MAX_MAPPING_SIZE m key g =
     (let lv = \<lparr>sv_type = T_STRING, sv_subtype = STRING_CONSTANT, sv_u = key\<rparr>;
          (ret, m, g) = find_for_insert mk MAX_MAPPING_SIZE m lv True (add_refs 1 (mk key) g)
      in case ret of
           Inl e \<Rightarrow> (Inl e, m, g)
         | Inr p \<Rightarrow> (Inr p, m, add_refs (- 1) (mk key) g))"

text \<open>\<open>refs_made\<close> of the value's references are made by the call.\<close>

definition put_in_mapping :: "(32 word \<Rightarrow> 32 word) \<Rightarrow> int \<Rightarrow> mapping \<Rightarrow> 32 word \<Rightarrow> svalue \<Rightarrow> int \<Rightarrow> map_globals
    \<Rightarrow> map_error option \<times> mapping \<times> map_globals" where
  "put_in_mapping mk MAX_MAPPING_SIZE m key v refs_made g =
     (case insert_in_mapping mk MAX_MAPPING_SIZE m key g of
        (Inl e, m, g) \<Rightarrow> (Some e, m, g)
      | (Inr p, m, g) \<Rightarrow> (None, lvalue_set m p v, add_refs refs_made (sv_u v) g))"

definition add_mapping_pair where
  "add_mapping_pair mk MAX_MAPPING_SIZE m key value g =
     put_in_mapping mk MAX_MAPPING_SIZE m key \<lparr>sv_type = T_NUMBER, sv_subtype = 0, sv_u = value\<rparr> 0 g"

definition add_mapping_string where
  "add_mapping_string mk MAX_MAPPING_SIZE m key value g =
     put_in_mapping mk MAX_MAPPING_SIZE m key \<lparr>sv_type = T_STRING, sv_subtype = STRING_SHARED, sv_u = mk value\<rparr> 1 g"

definition add_mapping_malloced_string where
  "add_mapping_malloced_string mk MAX_MAPPING_SIZE m key value g =
     put_in_mapping mk MAX_MAPPING_SIZE m key \<lparr>sv_type = T_STRING, sv_subtype = STRING_MALLOC, sv_u = value\<rparr> 0 g"

definition add_mapping_object where
  "add_mapping_object mk MAX_MAPPING_SIZE m key value g =
     put_in_mapping mk MAX_MAPPING_SIZE m key \<lparr>sv_type = T_OBJECT, sv_subtype = 0, sv_u = value\<rparr> 1 g"

definition add_mapping_array where
  "add_mapping_array mk MAX_MAPPING_SIZE m key value g =
     put_in_mapping mk MAX_MAPPING_SIZE m key \<lparr>sv_type = T_ARRAY, sv_subtype = 0, sv_u = value\<rparr> 1 g"

definition add_mapping_shared_string where
  "add_mapping_shared_string mk MAX_MAPPING_SIZE m key value g =
     put_in_mapping mk MAX_MAPPING_SIZE m key \<lparr>sv_type = T_STRING, sv_subtype = STRING_SHARED, sv_u = value\<rparr> 1 g"

text \<open>The references of the globals, changed by \<open>d\<close> at one address.\<close>

definition off_by :: "int \<Rightarrow> 32 word \<Rightarrow> int \<times> int \<times> int \<times> int \<times> (32 word \<Rightarrow> int) \<Rightarrow> int \<times> int \<times> int \<times> int \<times> (32 word \<Rightarrow> int)" where
  "off_by d p t = (case t of (a, b, c, n, e) \<Rightarrow> (a, b, c, n, e(p := e p + d)))"

lemma off_by_simps: "off_by d p (off_by e p t) = off_by (d + e) p t" "off_by 0 p t = t"
  by (cases t; simp add: off_by_def algebra_simps)+

lemma balance_add_refs: "balance m (add_refs d p g) = off_by d p (balance m g)"
  by (simp add: balance_def off_by_def add_refs_def nodes_out_def fun_eq_iff)

lemma ref_svalue_const0u: "ref_svalue d const0u g = g"
  by (simp add: ref_svalue_def const0u_def T_NUMBER_def T_STRING_def T_REFED_def)

lemma find_for_insert_doTheFree:
  assumes "find_for_insert mk M m lv False g = (ret, m', g')" "\<And>p. ret = Inr p \<Longrightarrow> fst p < length (table m')"
  shows "find_for_insert mk M m lv True g = (ret, m', case ret of Inl e \<Rightarrow> g' | Inr p \<Rightarrow> free_svalue (lvalue_get m' p) g')"
proof -
  obtain oi lv' where sv: "svalue_to_int mk lv = (oi, lv')" by fastforce
  let ?i = "masked oi (table_size m) mod 2 ^ 16"
  show ?thesis
  proof (cases "chain_index lv' (table m ! ?i)")
    case (Some j)
    with assms show ?thesis
      unfolding find_for_insert_def sv Let_def prod.case Some option.case by (auto simp: lvalue_get_def)
  next
    case None
    obtain ok i m1 g1 where t: "(if table m ! ?i \<noteq> [] then (True, ?i, m, g) else take_bucket oi ?i m g) = (ok, i, m1, g1)"
      by (metis prod_cases4)
    from assms show ?thesis
      unfolding find_for_insert_def sv Let_def prod.case None option.case t
      by (auto simp: lvalue_get_def ref_svalue_const0u nth_list_update split: if_splits)
  qed
qed

lemma put_in_mapping_ok:
  assumes "mapping_ok M m" "put_in_mapping mk M m key v d g = (err, m', g')"
  shows "mapping_ok M m'
    \<and> (case err of
         None \<Rightarrow> content m' = (content m)(mk key \<mapsto> v) \<and> balance m' (add_refs (ref_of v (sv_u v)) (sv_u v) g') = off_by d (sv_u v) (balance m g)
       | Some e \<Rightarrow> content m' = content m \<and> balance m' g' = off_by 1 (mk key) (balance m g))"
proof -
  let ?k = "\<lparr>sv_type = T_STRING, sv_subtype = STRING_CONSTANT, sv_u = key\<rparr>"
  let ?s = "\<lparr>sv_type = T_STRING, sv_subtype = STRING_SHARED, sv_u = mk key\<rparr>"
  let ?g = "add_refs 1 (mk key) g"
  have sv: "svalue_to_int mk ?k = (MAP_POINTER_HASH (mk key), ?s)"
    by (simp add: svalue_to_int_def STRING_CONSTANT_def STRING_SHARED_def)
  have gk: "good_key ?s" by (simp add: good_key_def T_STRING_def T_REAL_def)
  obtain ret m1 g1 where f: "find_for_insert mk M m ?k False ?g = (ret, m1, g1)" by (metis prod_cases3)
  note i = find_for_insert_ok [OF assms(1) sv gk f]
  have "ret = Inr p \<Longrightarrow> fst p < length (table m1)" for p using i by simp
  note t = find_for_insert_doTheFree [OF f this]
  show ?thesis
  proof (cases ret)
    case (Inl e)
    with assms(2) t have "err = Some e" "m' = m1" "g' = g1"
      by (simp_all add: put_in_mapping_def insert_in_mapping_def)
    with i Inl show ?thesis by (simp add: balance_add_refs)
  next
    case (Inr p)
    with i have p: "mapping_ok M m1" "balance m1 g1 = balance m ?g" "fst p < length (table m1)"
      "snd p < length (table m1 ! fst p)" "nkey (table m1 ! fst p ! snd p) = mk key"
      "content m1 = (content m)(mk key \<mapsto> lvalue_get m1 p)" by auto
    have e: "err = None" "m' = lvalue_set m1 p v"
      "g' = add_refs d (sv_u v) (add_refs (- 1) (mk key) (free_svalue (lvalue_get m1 p) g1))"
      using assms(2) t Inr by (simp_all add: put_in_mapping_def insert_in_mapping_def)
    have a: "assign_svalue m1 p v g1 = (m', assign_svalue_no_free v (free_svalue (lvalue_get m1 p) g1))"
      by (simp add: assign_svalue_def e(2))
    have "assign_svalue_no_free v h = add_refs (ref_of v (sv_u v)) (sv_u v) h" for h
      by (simp add: ref_svalue_def add_refs_def ref_of_def counted_def)
    then have "add_refs (ref_of v (sv_u v)) (sv_u v) g'
        = add_refs d (sv_u v) (add_refs (- 1) (mk key) (assign_svalue_no_free v (free_svalue (lvalue_get m1 p) g1)))"
      by (simp add: e(3) add_refs_def fun_eq_iff)
    then have "balance m' (add_refs (ref_of v (sv_u v)) (sv_u v) g') = off_by d (sv_u v) (balance m g)"
      using assign_svalue_balance [OF p(1,3,4) a] p(2) by (simp add: balance_add_refs off_by_simps)
    moreover have "content m' = (content m)(mk key \<mapsto> v)"
      unfolding e(2) lvalue_set_ok(2) [OF p(1,3,4,5)] p(6) by simp
    ultimately show ?thesis using lvalue_set_ok(1) [OF p(1,3,4,5)] by (simp add: e(1,2))
  qed
qed

text \<open>The functions that build a mapping entry by entry set the value of the interned key and keep
  the books; when they fail, the reference to the interned key is never given back.\<close>

theorem add_mapping_entry_correct:
  assumes "mapping_ok M m"
    and "(v, err, m', g') \<in>
      {(\<lparr>sv_type = T_NUMBER, sv_subtype = 0, sv_u = x\<rparr>, add_mapping_pair mk M m key x g),
       (\<lparr>sv_type = T_STRING, sv_subtype = STRING_SHARED, sv_u = mk x\<rparr>, add_mapping_string mk M m key x g),
       (\<lparr>sv_type = T_STRING, sv_subtype = STRING_SHARED, sv_u = x\<rparr>, add_mapping_shared_string mk M m key x g),
       (\<lparr>sv_type = T_OBJECT, sv_subtype = 0, sv_u = x\<rparr>, add_mapping_object mk M m key x g),
       (\<lparr>sv_type = T_ARRAY, sv_subtype = 0, sv_u = x\<rparr>, add_mapping_array mk M m key x g),
       (\<lparr>sv_type = T_STRING, sv_subtype = STRING_MALLOC, sv_u = x\<rparr>, add_mapping_malloced_string mk M m key x (add_refs 1 x g))}"
  shows "mapping_ok M m' \<and> content m' = (if err = None then (content m)(mk key \<mapsto> v) else content m)
    \<and> (err = None \<longrightarrow> balance m' g' = balance m g)
    \<and> (err \<noteq> None \<longrightarrow> (\<exists>h. (h = g \<or> h = add_refs 1 x g) \<and> balance m' g' = off_by 1 (mk key) (balance m h)))"
proof -
  have cancel: "off_by d p a = off_by d p b \<Longrightarrow> a = b" for d p a b
    by (cases a; cases b) (auto simp: off_by_def fun_eq_iff split: if_splits)
  have *: ?thesis if "put_in_mapping mk M m key v d h = (err, m', g')" "d + e = ref_of v (sv_u v)" "h = add_refs e (sv_u v) g"
    "e = 0 \<or> e = 1 \<and> sv_u v = x" for d e h
  proof -
    have "add_refs 0 p g = g" for p by (simp add: add_refs_def)
    then have "h = g \<or> h = add_refs 1 x g" using that(3,4) by auto
    moreover have "off_by d (sv_u v) (balance m h) = off_by (d + e) (sv_u v) (balance m g)"
      by (simp add: that(3) balance_add_refs off_by_simps)
    ultimately show ?thesis
      using put_in_mapping_ok [OF assms(1) that(1)] unfolding that(2) [symmetric] balance_add_refs
      by (cases err) (auto dest: cancel)
  qed
  note d = ref_of_def counted_def T_NUMBER_def T_STRING_def T_OBJECT_def T_ARRAY_def STRING_SHARED_def STRING_MALLOC_def STRING_COUNTED_def T_REFED_def
  have z: "g = add_refs 0 p g" for p by (simp add: add_refs_def)
  from assms(2) consider
      (a) "v = \<lparr>sv_type = T_NUMBER, sv_subtype = 0, sv_u = x\<rparr>" "put_in_mapping mk M m key v 0 g = (err, m', g')"
    | (b) y where "v = \<lparr>sv_type = T_STRING, sv_subtype = STRING_SHARED, sv_u = y\<rparr>" "put_in_mapping mk M m key v 1 g = (err, m', g')"
    | (c) "v = \<lparr>sv_type = T_OBJECT, sv_subtype = 0, sv_u = x\<rparr>" "put_in_mapping mk M m key v 1 g = (err, m', g')"
    | (d) "v = \<lparr>sv_type = T_ARRAY, sv_subtype = 0, sv_u = x\<rparr>" "put_in_mapping mk M m key v 1 g = (err, m', g')"
    | (e) "v = \<lparr>sv_type = T_STRING, sv_subtype = STRING_MALLOC, sv_u = x\<rparr>" "put_in_mapping mk M m key v 0 (add_refs 1 x g) = (err, m', g')"
    by (auto simp: add_mapping_pair_def add_mapping_string_def add_mapping_shared_string_def add_mapping_object_def
        add_mapping_array_def add_mapping_malloced_string_def)
  then show ?thesis
  proof cases
    case a
    then show ?thesis by (intro * [OF a(2), where e = 0] z) (simp_all add: d)
  next
    case b
    then show ?thesis by (intro * [OF b(2), where e = 0] z) (simp_all add: d)
  next
    case c
    then show ?thesis by (intro * [OF c(2), where e = 0] z) (simp_all add: d)
  next
    case d
    then show ?thesis by (intro * [OF d(2), where e = 0] z) (simp_all add: T_ARRAY_def T_STRING_def T_REFED_def ref_of_def counted_def)
  next
    case e
    then show ?thesis by (intro * [OF e(2), where e = 1]) (simp_all add: d)
  qed
qed

text \<open>The lookup by a C string finds the value under the shared copy of the string, and undefined
  if there is no shared copy.\<close>

theorem find_string_in_mapping_correct:
  assumes "mapping_ok M m" and "\<forall>n \<in># nodes m. nkey n = p \<longrightarrow> sv_type (fst n) = T_STRING"
  shows "find_string_in_mapping None m = const0u
    \<and> find_string_in_mapping (Some p) m = (case content m p of None \<Rightarrow> const0u | Some v \<Rightarrow> v)"
proof -
  from assms(1) obtain k where v: "inv k m" by (auto simp: mapping_ok_inv)
  let ?c = "table m ! bucket k p"
  have "bucket k p < length (table m)" using inv_length [OF v] by simp
  then have "set ?c \<subseteq> set_mset (nodes m)" unfolding nodes_def using nth_mem by fastforce
  then have t: "\<forall>n \<in> set ?c. nkey n = p \<longrightarrow> sv_type (fst n) = T_STRING" using assms(2) by blast
  have "map_option snd (find (\<lambda>n. sv_type (fst n) = T_STRING \<and> sv_u (fst n) = p) c) = assoc c p"
    if "\<forall>n \<in> set c. nkey n = p \<longrightarrow> sv_type (fst n) = T_STRING" for c
    using that by (induction c) (auto simp: assoc_def)
  from this [OF t] show ?thesis
    unfolding find_string_in_mapping_def option.case inv_bucket [OF v] inv_content [OF v]
    by (auto split: option.splits)
qed

text \<open>A number and a float with the same 32 bits are one key: what is stored under the number is
  found under the float, since a lookup compares the types only when both are numbers or both are
  floats.\<close>

theorem keys_conflated_by_bits:
  assumes "mapping_ok M m" and "sv_type k1 = T_NUMBER" and "sv_type k2 = T_REAL" and "sv_u k1 = sv_u k2"
    and "good_key k2" and "assign_index mk M m k1 v g = (None, m', g')"
  shows "find_in_mapping mk m' k2 = v"
proof -
  have t: "T_NUMBER \<noteq> T_STRING" "T_REAL \<noteq> T_STRING" "T_NUMBER \<noteq> T_REAL" "T_NUMBER \<noteq> 0"
    by (simp_all add: T_NUMBER_def T_STRING_def T_REAL_def)
  have s: "svalue_to_int mk k1 = (MAP_POINTER_HASH (sv_u k1), k1)" "svalue_to_int mk k2 = (MAP_POINTER_HASH (sv_u k1), k2)"
    using assms(2-4) t by (simp_all add: svalue_to_int_def Let_def)
  have "good_key k1" using assms(2) t by (simp add: good_key_def)
  note a = assign_index_ok [OF assms(1) s(1) this assms(6)]
  then have "mapping_ok M m'" by blast
  note f = find_in_mapping_ok [OF this s(2) assms(5)]
  have "content m' (sv_u k2) = Some v" using a unfolding option.case assms(4) by (metis fun_upd_same)
  then show ?thesis using f by simp
qed

text \<open>Inserting a new key into a full mapping fails, but if its bucket is empty the bucket is
  booked as filled all the same: the count of unfilled buckets goes down, and at zero the table
  doubles, although nothing was inserted.\<close>

theorem full_mapping_still_grows:
  assumes "mapping_ok M m" and "mcount m = M" and "svalue_to_int mk key = (h, lv)"
    and "table m ! masked h (table_size m) = []" and "table_size m + 1 < MAX_TABLE_SIZE"
    and "assign_index mk M m key v g = (err, m', g')"
  shows "err = Some Mapping_too_large
    \<and> (if unfilled m = 1 then table_size m' = 2 * table_size m + 1
       else m' = m\<lparr>unfilled := unfilled m - 1\<rparr> \<and> g' = g)"
proof -
  from assms(1) obtain k where v: "inv k m" by (auto simp: mapping_ok_inv)
  from assms(3) have h: "h = MAP_POINTER_HASH (sv_u lv)" by (auto simp: svalue_to_int_def Let_def)
  have ts: "table_size m = 2 ^ k - 1" and "k < 15"
  proof -
    show ts: "table_size m = 2 ^ k - 1" using v by (simp add: inv_def shape_def)
    with assms(5) have "(2::nat) ^ k < 32768" by (simp add: MAX_TABLE_SIZE_def)
    also have "(32768::nat) = 2 ^ 15" by simp
    finally have "(2::nat) ^ k < 2 ^ 15" .
    show "k < 15" by (rule power_less_imp_less_exp [OF _ \<open>(2::nat) ^ k < 2 ^ 15\<close>]) simp
  qed
  have "(2::nat) ^ k \<le> 2 ^ 16" using \<open>k < 15\<close> by (intro power_increasing) simp_all
  moreover have "masked h (table_size m) < 2 ^ k" unfolding h inv_bucket [OF v] by simp
  ultimately have im: "masked h (table_size m) mod 2 ^ 16 = masked h (table_size m)" by (intro mod_less) linarith
  have e: "find_for_insert mk M m key False g =
      (let (ok, i, m, g) = take_bucket h (masked h (table_size m)) m g in
       if \<not> ok then (Inl Out_of_memory, m, g)
       else if mcount m + 1 > M then (Inl Mapping_too_large, m, g)
       else (Inr (i, 0),
                 m\<lparr>table := (table m)[i := (lv, const0u) # table m ! i], mcount := mcount m + 1\<rparr>,
                 (assign_svalue_no_free lv
                   (new_map_node (g\<lparr>total_mapping_size := total_mapping_size g + sizeof_mapping_node_t\<rparr>)))
                   \<lparr>total_mapping_nodes := total_mapping_nodes g + 1\<rparr>))"
    unfolding find_for_insert_def assms(3) Let_def prod.case im assms(4) chain_index.simps by simp
  show ?thesis
  proof (cases "unfilled m = 1")
    case False
    then have u: "unfilled m - 1 \<noteq> 0" by simp
    from assms(6) show ?thesis
      unfolding assign_index_def e take_bucket_def Let_def using u False assms(2) by simp
  next
    case True
    let ?m = "m\<lparr>unfilled := unfilled m - 1\<rparr>"
    have "shape k ?m" "nodes_ok k (table ?m)" using v by (simp_all add: inv_def shape_def)
    from growMap_ok [OF this \<open>k < 15\<close>, of g] obtain m1 where m1:
      "growMap ?m g = (True, m1, g\<lparr>total_mapping_size := total_mapping_size g + sizeof_node_ptr * 2 ^ k\<rparr>)"
      "shape (Suc k) m1" "mcount m1 = mcount m" by auto
    have "table_size m1 = 2 ^ Suc k - 1" using m1(2) by (simp add: shape_def)
    moreover have "(1::nat) \<le> 2 ^ k" by simp
    ultimately have "table_size m1 = 2 * table_size m + 1" unfolding ts power_Suc by linarith
    with assms(6) m1(3) show ?thesis
      unfolding assign_index_def e take_bucket_def Let_def m1(1) prod.case using True assms(2) by auto
  qed
qed

section \<open>Witnesses\<close>

definition number :: "32 word \<Rightarrow> svalue" where
  "number n = \<lparr>sv_type = T_NUMBER, sv_subtype = 0, sv_u = n\<rparr>"

definition demo_globals :: map_globals where
  "demo_globals = \<lparr>num_mappings = 1, total_mapping_size = 68, total_mapping_nodes = 1, free_nodes = 255, node_blocks = 1,
     refs = \<lambda>x. 0\<rparr>"

definition demo_mapping :: mapping where
  "demo_mapping = \<lparr>table = [(number 5, number 7)] # replicate 7 [], table_size = 7, unfilled = 5, mcount = 1\<rparr>"

lemma demo_mapping_ok: "1 \<le> M \<Longrightarrow> mapping_ok M demo_mapping"
proof -
  assume M: "1 \<le> M"
  have "bucket 3 5 = 0" by (simp add: bucket_def MAP_POINTER_HASH_def)
  then have "chain_ok 3 i (table demo_mapping ! i)" if "i < 8" for i
    using that
    by (cases i) (simp_all add: demo_mapping_def number_def good_key_def T_NUMBER_def T_REAL_def)
  then show ?thesis
    unfolding mapping_ok_def nodes_ok_def
    using M by (intro conjI exI [of _ 3]) (simp_all add: shape_def demo_mapping_def)
qed

lemma demo_ok: "mapping_ok 15000 demo_mapping"
  by (rule demo_mapping_ok) simp

lemma demo_number: "svalue_to_int mk (number n) = (MAP_POINTER_HASH n, number n)" "good_key (number n)" "sv_u (number n) = n"
  by (simp_all add: svalue_to_int_def number_def good_key_def T_NUMBER_def T_REAL_def T_STRING_def Let_def)

lemma demo_shared: "shared mk (number n) = number n"
  by (simp add: shared_def demo_number)

lemma demo_content: "content demo_mapping = [5 \<mapsto> number 7]"
proof
  fix b
  have "masked (MAP_POINTER_HASH 5) 7 = 0" by (simp add: masked_def MAP_POINTER_HASH_def)
  moreover have "masked (MAP_POINTER_HASH b) 7 < 8"
    using masked_simps(1) [of 3 b] by (simp add: bucket_def)
  ultimately show "content demo_mapping b = [5 \<mapsto> number 7] b"
    by (cases "masked (MAP_POINTER_HASH b) 7") (auto simp: content_def demo_mapping_def number_def assoc_def)
qed


lemma find_in_mapping_correct_witness:
  "find_in_mapping id demo_mapping (number 5) = number 7 \<and> find_in_mapping id demo_mapping (number 6) = const0u"
  using find_in_mapping_correct [OF demo_ok demo_number(1,2), of id 5]
    find_in_mapping_correct [OF demo_ok demo_number(1,2), of id 6]
  by (simp_all add: demo_number(3) demo_content)


lemma allocate_mapping_correct_witness:
  "case allocate_mapping 15000 20 demo_globals of (m, g') \<Rightarrow>
     mapping_ok 15000 m \<and> content m = Map.empty \<and> 20 \<le> length (table m) \<and> num_mappings g' = 2"
proof -
  obtain m g' where a: "allocate_mapping 15000 20 demo_globals = (m, g')" by fastforce
  have "(0::int) \<le> 15000" "(15000::int) < 2 ^ 15" by simp_all
  from allocate_mapping_correct [OF this a] show ?thesis unfolding a prod.case by (auto simp: demo_globals_def)
qed

lemma copyMapping_roundtrip_witness:
  "case copyMapping demo_mapping demo_globals of (m', g') \<Rightarrow>
     content m' = [5 \<mapsto> number 7] \<and> summary (dealloc_mapping m' g') = summary demo_globals"
proof -
  obtain m' g' where a: "copyMapping demo_mapping demo_globals = (m', g')" by fastforce
  from copyMapping_roundtrip [OF demo_ok a] show ?thesis unfolding a prod.case demo_content by simp
qed

lemma absorb_mapping_correct_witness:
  "case absorb_mapping 15000 demo_mapping demo_mapping demo_globals of (err, m', g') \<Rightarrow>
     mapping_ok 15000 m' \<and> (err = None \<longrightarrow> content m' = [5 \<mapsto> number 7])"
proof -
  obtain err m' g' where a: "absorb_mapping 15000 demo_mapping demo_mapping demo_globals = (err, m', g')" by (metis prod_cases3)
  from absorb_mapping_correct [OF demo_ok demo_ok a] show ?thesis unfolding a prod.case demo_content by simp
qed

lemma add_mapping_correct_witness:
  "case add_mapping 15000 demo_mapping demo_mapping demo_globals of (err, m', g') \<Rightarrow>
     err = None \<longrightarrow> content m' = [5 \<mapsto> number 7] \<and> made m' demo_globals g'"
proof -
  obtain err m' g' where a: "add_mapping 15000 demo_mapping demo_mapping demo_globals = (err, m', g')" by (metis prod_cases3)
  from add_mapping_correct [OF demo_ok demo_ok a] show ?thesis unfolding a prod.case demo_content by (cases err) auto
qed

lemma mapping_indices_values_witness:
  "case (mapping_indices demo_mapping demo_globals, mapping_values demo_mapping demo_globals) of ((ks, g1), (vs, g2)) \<Rightarrow>
     length ks = 1 \<and> map_of (zip (map sv_u ks) vs) = [5 \<mapsto> number 7]"
proof -
  obtain ks g1 vs g2 where a: "mapping_indices demo_mapping demo_globals = (ks, g1)"
    "mapping_values demo_mapping demo_globals = (vs, g2)" by fastforce
  have "mcount demo_mapping = 1" by (simp add: demo_mapping_def)
  with mapping_indices_values [OF demo_ok a] show ?thesis unfolding a prod.case demo_content by simp
qed

lemma load_mapping_correct_witness:
  "case load_mapping_from_aggregate id 15000 [(number 1, number 2), (number 1, number 3)] demo_globals of (res, g') \<Rightarrow>
     (case res of Inr m \<Rightarrow> content m 1 = Some (number 3) | Inl e \<Rightarrow> True)"
proof -
  let ?L = "[(number 1, number 2), (number 1, number 3)]"
  obtain res g' where a: "load_mapping_from_aggregate id 15000 ?L demo_globals = (res, g')" by fastforce
  have "\<forall>n \<in> set ?L. good_key (shared id (fst n))" by (simp add: demo_shared demo_number)
  moreover have "(0::int) \<le> 15000" "(15000::int) < 2 ^ 15" by simp_all
  moreover have "interned id ?L = ?L" by (simp add: interned_def demo_shared)
  ultimately show ?thesis
    using load_mapping_correct [OF _ _ _ a] unfolding a prod.case
    by (cases res) (simp_all add: assoc_def demo_number)
qed

lemma demo_nodes: "nodes demo_mapping = {#(number 5, number 7)#}"
  by (simp add: nodes_def demo_mapping_def)

lemma filter_mapping_correct_witness:
  "case filter_mapping (\<lambda>k v. Some v) 15000 demo_mapping demo_globals of (err, m', g') \<Rightarrow>
     err = None \<longrightarrow> content m' = [5 \<mapsto> number 7]"
proof -
  obtain err m' g' where a: "filter_mapping (\<lambda>k v. Some v) 15000 demo_mapping demo_globals = (err, m', g')" by (metis prod_cases3)
  have "(0::int) \<le> 15000" "(15000::int) < 2 ^ 15" "\<forall>n \<in># nodes demo_mapping. Some (snd n) \<noteq> None" by simp_all
  from filter_mapping_correct [OF this(1,2) demo_ok this(3) a] show ?thesis
    unfolding a prod.case by (simp add: demo_mapping_def passes_def number_def assoc_def)
qed

lemma map_mapping_correct_witness:
  "case map_mapping (\<lambda>k v. Some k) demo_mapping demo_globals of (m', g') \<Rightarrow>
     mapping_ok 15000 m' \<and> nodes m' = {#(number 5, number 5)#}"
proof -
  obtain m' g' where a: "map_mapping (\<lambda>k v. Some k) demo_mapping demo_globals = (m', g')" by fastforce
  have "\<forall>n \<in># nodes demo_mapping. Some (fst n) \<noteq> None" by simp
  from map_mapping_correct [OF demo_ok this a] show ?thesis unfolding a prod.case by (simp add: demo_nodes)
qed

lemma compose_mapping_correct_witness:
  "case compose_mapping id demo_mapping demo_mapping True demo_globals of (m', g') \<Rightarrow>
     mapping_ok 15000 m' \<and> content m' = Map.empty"
proof -
  obtain m' g' where a: "compose_mapping id demo_mapping demo_mapping True demo_globals = (m', g')" by fastforce
  have "\<forall>n \<in># nodes demo_mapping. good_key (snd n) \<and> shared id (snd n) = snd n"
    by (simp add: demo_nodes demo_number demo_shared)
  from compose_mapping_correct [OF demo_ok demo_ok this a] show ?thesis
    unfolding a prod.case demo_content by (auto simp: fun_eq_iff demo_number split: option.split)
qed

lemma add_mapping_entry_correct_witness:
  "case add_mapping_array id 15000 demo_mapping 100 200 demo_globals of (err, m', g') \<Rightarrow>
     err = None \<longrightarrow> content m' = [5 \<mapsto> number 7, 100 \<mapsto> \<lparr>sv_type = T_ARRAY, sv_subtype = 0, sv_u = 200\<rparr>]"
proof -
  obtain err m' g' where a: "add_mapping_array id 15000 demo_mapping 100 200 demo_globals = (err, m', g')" by (metis prod_cases3)
  from add_mapping_entry_correct [OF demo_ok, where mk = id and key = 100 and x = 200 and g = demo_globals and err = err
      and m' = m' and g' = g' and v = "\<lparr>sv_type = T_ARRAY, sv_subtype = 0, sv_u = 200\<rparr>"]
  show ?thesis unfolding a prod.case demo_content by simp
qed

lemma find_string_in_mapping_correct_witness:
  "find_string_in_mapping (Some 9) demo_mapping = const0u"
  using find_string_in_mapping_correct [OF demo_ok, of 9] by (simp add: demo_nodes demo_content demo_number)

lemma keys_conflated_by_bits_witness:
  "case assign_index id 15000 demo_mapping (number 0x3F800000) (number 1) demo_globals of (err, m', g') \<Rightarrow>
     find_in_mapping id m' \<lparr>sv_type = T_REAL, sv_subtype = 0, sv_u = 0x3F800000\<rparr> = number 1"
proof -
  obtain err m' g' where a: "assign_index id 15000 demo_mapping (number 0x3F800000) (number 1) demo_globals = (err, m', g')"
    by (metis prod_cases3)
  have "masked (MAP_POINTER_HASH 0x3F800000) 7 = 0" by (simp add: masked_def MAP_POINTER_HASH_def)
  then have "err = None"
    using a by (auto simp: assign_index_def find_for_insert_def svalue_to_int_def demo_mapping_def number_def msameval_def
        T_NUMBER_def T_STRING_def case_prod_beta Let_def split: if_splits)
  with a have a': "assign_index id 15000 demo_mapping (number 0x3F800000) (number 1) demo_globals = (None, m', g')" by simp
  have "find_in_mapping id m' \<lparr>sv_type = T_REAL, sv_subtype = 0, sv_u = 0x3F800000\<rparr> = number 1"
    by (rule keys_conflated_by_bits [OF demo_ok _ _ _ _ a']) (simp_all add: number_def good_key_def is_nan_def T_REAL_def)
  then show ?thesis by (simp add: a)
qed

lemma full_mapping_still_grows_witness:
  "assign_index id 1 demo_mapping (number 16) (number 0) demo_globals =
     (Some Mapping_too_large, demo_mapping\<lparr>unfilled := 4\<rparr>, demo_globals)"
proof -
  obtain err m' g' where a: "assign_index id 1 demo_mapping (number 16) (number 0) demo_globals = (err, m', g')"
    by (metis prod_cases3)
  have ok: "mapping_ok 1 demo_mapping" by (rule demo_mapping_ok) simp
  have "masked (MAP_POINTER_HASH 16) 7 = 1" by (simp add: masked_def MAP_POINTER_HASH_def)
  then have "table demo_mapping ! masked (MAP_POINTER_HASH 16) (table_size demo_mapping) = []"
    by (simp add: demo_mapping_def)
  from full_mapping_still_grows [OF ok _ demo_number(1) this _ a] show ?thesis
    unfolding a by (simp add: demo_mapping_def MAX_TABLE_SIZE_def)
qed

end
