(* ===== verification/Save_Restore.thy ===== *)
theory Save_Restore
  imports Prelude
begin

text \<open>
  Saving and restoring values and objects (\<open>object.c\<close>). A value is a tree; a mapping is the list of
  its entries in the order the code walks the table. Text is a list of characters. What the code
  reads is a buffer: the characters from the read pointer to the end of the allocated memory,
  terminating zeros included, so that reading beyond it is the outcome \<open>Crash\<close>. The recursive
  scanners take fuel; \<open>Timeout\<close> is running out of it.
  The conversion of floats to text (\<open>sprintf\<close>) and float arithmetic are arguments, and so is the
  comparison of two mapping keys (\<open>msameval\<close>, which compares addresses).
\<close>

section \<open>Values\<close>

datatype 'r lpc =
    Num "32 word"
  | Str string
  | Real 'r
  | Arr "'r lpc list"
  | Cls "'r lpc list"
  | Map "('r lpc \<times> 'r lpc) list"
  | Other

record 'r real_ops =
  r_format :: "'r \<Rightarrow> string"
  r_of_int :: "int \<Rightarrow> 'r"
  r_add :: "'r \<Rightarrow> 'r \<Rightarrow> 'r"
  r_mul :: "'r \<Rightarrow> 'r \<Rightarrow> 'r"
  r_div :: "'r \<Rightarrow> 'r \<Rightarrow> 'r"
  r_neg :: "'r \<Rightarrow> 'r"
  r_pow10 :: "int \<Rightarrow> 'r"

text \<open>Return codes, errors raised with \<open>error()\<close>, and wild memory accesses.\<close>

datatype rob = ROB_STRING_ERROR | ROB_ARRAY_ERROR | ROB_MAPPING_ERROR | ROB_NUMERAL_ERROR | ROB_GENERAL_ERROR | ROB_CLASS_ERROR

datatype lpc_error = Too_deep | Illegal_array_size | Mapping_exceeded | Illegal_file_format | Illegal_format rob

datatype 'a outcome = Done 'a | Rob rob | Error lpc_error | Crash | Timeout

fun and_then :: "'a outcome \<times> 's \<Rightarrow> ('a \<Rightarrow> 's \<Rightarrow> 'b outcome \<times> 's) \<Rightarrow> 'b outcome \<times> 's" where
  "and_then (Done x, s) f = f x s"
| "and_then (Rob e, s) f = (Rob e, s)"
| "and_then (Error e, s) f = (Error e, s)"
| "and_then (Crash, s) f = (Crash, s)"
| "and_then (Timeout, s) f = (Timeout, s)"

abbreviation NUL :: char where "NUL \<equiv> CHR 0x00"
abbreviation LF :: char where "LF \<equiv> CHR 0x0A"
abbreviation CR :: char where "CR \<equiv> CHR 0x0D"
abbreviation QUOTE :: char where "QUOTE \<equiv> CHR 0x22"
abbreviation BACKSLASH :: char where "BACKSLASH \<equiv> CHR 0x5C"

definition isdigit :: "char \<Rightarrow> bool" where
  "isdigit c \<longleftrightarrow> 48 \<le> (of_char c :: nat) \<and> (of_char c :: nat) \<le> 57"

definition digit_val :: "char \<Rightarrow> int" where
  "digit_val c = int (of_char c) - 48"

definition digit_char :: "nat \<Rightarrow> char" where
  "digit_char n = char_of (n + 48)"

section \<open>Saving\<close>

definition MAX_SAVE_SVALUE_DEPTH :: nat where "MAX_SAVE_SVALUE_DEPTH = 25"

text \<open>\<open>res < 0 ? (-res) & 0x7fffffff : res\<close>, and the number of divisions by ten.\<close>

definition magnitude :: "32 word \<Rightarrow> nat" where
  "magnitude n = unat (if n <s 0 then and (- n) 0x7FFFFFFF else n)"

fun more_digits :: "nat \<Rightarrow> int" where
  "more_digits res = (if res > 9 then more_digits (res div 10) + 1 else 0)"

declare more_digits.simps [simp del]

fun string_size :: "string \<Rightarrow> int" where
  "string_size [] = 0"
| "string_size (c # cp) = (if c = BACKSLASH \<or> c = QUOTE then 1 else 0) + 1 + string_size cp"

text \<open>\<open>svalue_save_size\<close> with the nesting depth it counts in \<open>save_svalue_depth\<close>.\<close>

definition deeper :: "nat \<Rightarrow> (nat \<Rightarrow> int outcome \<times> nat) \<Rightarrow> int outcome \<times> nat" where
  "deeper d f =
     (if d + 1 > MAX_SAVE_SVALUE_DEPTH then (Error Too_deep, d + 1)
      else and_then (f (d + 1)) (\<lambda>total d. (Done (total + 5), d - 1)))"

function svalue_save_size :: "'r real_ops \<Rightarrow> 'r lpc \<Rightarrow> nat \<Rightarrow> int outcome \<times> nat"
  and items_save_size :: "'r real_ops \<Rightarrow> 'r lpc list \<Rightarrow> int \<Rightarrow> nat \<Rightarrow> int outcome \<times> nat"
  and pairs_save_size :: "'r real_ops \<Rightarrow> ('r lpc \<times> 'r lpc) list \<Rightarrow> int \<Rightarrow> nat \<Rightarrow> int outcome \<times> nat" where
  "svalue_save_size ops (Str s) d = (Done (3 + string_size s), d)"
| "svalue_save_size ops (Arr vs) d = deeper d (items_save_size ops vs 0)"
| "svalue_save_size ops (Cls vs) d = deeper d (items_save_size ops vs 0)"
| "svalue_save_size ops (Map ps) d = deeper d (pairs_save_size ops ps 0)"
| "svalue_save_size ops (Num n) d = (Done ((if n <s 0 then 3 else 2) + more_digits (magnitude n)), d)"
| "svalue_save_size ops (Real r) d = (Done (int (length (r_format ops r)) + 1), d)"
| "svalue_save_size ops Other d = (Done 2, d)"
| "items_save_size ops [] acc d = (Done acc, d)"
| "items_save_size ops (v # vs) acc d =
     and_then (svalue_save_size ops v d) (\<lambda>n d. items_save_size ops vs (acc + n) d)"
| "pairs_save_size ops [] acc d = (Done acc, d)"
| "pairs_save_size ops ((k, v) # ps) acc d =
     and_then (svalue_save_size ops k d) (\<lambda>n d.
       and_then (svalue_save_size ops v d) (\<lambda>n' d. pairs_save_size ops ps (acc + (n + n')) d))"
  by pat_completeness auto
termination
  by (relation "measure (case_sum (\<lambda>(_, v, _). 2 * size v)
      (case_sum (\<lambda>(_, vs, _, _). 2 * size_list size vs + 1) (\<lambda>(_, ps, _, _). 2 * size_list (size_prod size size) ps + 1)))")
    auto

fun save_chars :: "string \<Rightarrow> string" where
  "save_chars [] = []"
| "save_chars (c # str) =
     (if c = QUOTE \<or> c = BACKSLASH then BACKSLASH # c # save_chars str
      else (if c = LF then CR else c) # save_chars str)"

text \<open>The digits are written from the last one backwards.\<close>

fun decimal :: "nat \<Rightarrow> string" where
  "decimal res = (if res div 10 = 0 then [] else decimal (res div 10)) @ [digit_char (res mod 10)]"

declare decimal.simps [simp del]

function save_svalue :: "'r real_ops \<Rightarrow> 'r lpc \<Rightarrow> string"
  and save_items :: "'r real_ops \<Rightarrow> 'r lpc list \<Rightarrow> string"
  and save_pairs :: "'r real_ops \<Rightarrow> ('r lpc \<times> 'r lpc) list \<Rightarrow> string" where
  "save_svalue ops (Str s) = QUOTE # save_chars s @ [QUOTE]"
| "save_svalue ops (Arr vs) = ''({'' @ save_items ops vs @ ''})''"
| "save_svalue ops (Cls vs) = ''(/'' @ save_items ops vs @ ''/)''"
| "save_svalue ops (Num n) = (if n <s 0 then ''-'' else []) @ decimal (magnitude n)"
| "save_svalue ops (Real r) = r_format ops r"
| "save_svalue ops (Map ps) = ''(['' @ save_pairs ops ps @ ''])''"
| "save_svalue ops Other = []"
| "save_items ops [] = []"
| "save_items ops (v # vs) = save_svalue ops v @ '','' @ save_items ops vs"
| "save_pairs ops [] = []"
| "save_pairs ops ((k, v) # ps) = save_svalue ops k @ '':'' @ save_svalue ops v @ '','' @ save_pairs ops ps"
  by pat_completeness auto
termination
  by (relation "measure (case_sum (\<lambda>(_, v). 2 * size v)
      (case_sum (\<lambda>(_, vs). 2 * size_list size vs + 1) (\<lambda>(_, ps). 2 * size_list (size_prod size size) ps + 1)))")
    auto

text \<open>\<open>save_variable\<close>; an error leaves the depth counter as it is.\<close>

definition save_variable :: "'r real_ops \<Rightarrow> 'r lpc \<Rightarrow> string outcome \<times> nat" where
  "save_variable ops v = and_then (svalue_save_size ops v 0) (\<lambda>n d. (Done (save_svalue ops v), d))"

section \<open>Scanning ahead\<close>

text \<open>The global state: the depth counter and the sizes found by scanning ahead. The array grows by
  doubling (\<open>max_depth\<close> is its length); what \<open>RESIZE\<close> adds is not initialised.\<close>

record save_state =
  save_svalue_depth :: nat
  sizes :: "int list"

function doubled :: "nat \<Rightarrow> nat \<Rightarrow> nat" where
  "doubled m depth = (if m \<le> depth \<and> 0 < m then doubled (2 * m) depth else m)"
  by pat_completeness auto
termination by (relation "measure (\<lambda>(m, depth). depth + 1 - m)") auto

declare doubled.simps [simp del]

definition set_size :: "nat \<Rightarrow> int \<Rightarrow> save_state \<Rightarrow> save_state" where
  "set_size depth n st =
     (let a = (if sizes st = [] then replicate (doubled 128 depth) 0
               else if length (sizes st) \<le> depth
               then sizes st @ replicate (doubled (2 * length (sizes st)) depth - length (sizes st)) 0
               else sizes st)
      in st\<lparr>sizes := a[depth := n]\<rparr>)"

text \<open>\<open>while ((c = *cp++) != '"') if ((c == '\0') || (c == '\\' && !*cp++)) return 0;\<close>\<close>

fun skip_string :: "string \<Rightarrow> string option outcome" where
  "skip_string [] = Crash"
| "skip_string (c # cp) =
     (if c = QUOTE then Done (Some cp)
      else if c = NUL then Done None
      else if c = BACKSLASH then
        (case cp of [] \<Rightarrow> Crash | d # cp' \<Rightarrow> if d = NUL then Done None else skip_string cp')
      else skip_string cp)"

fun strchr :: "string \<Rightarrow> char \<Rightarrow> string option outcome" where
  "strchr [] d = Crash"
| "strchr (c # cp) d = (if c = d then Done (Some (c # cp)) else if c = NUL then Done None else strchr cp d)"

text \<open>\<open>if (*cp++ != delim) return 0;\<close>\<close>

definition expect :: "char \<Rightarrow> string \<Rightarrow> string option outcome" where
  "expect delim cp = (case cp of [] \<Rightarrow> Crash | c # cp \<Rightarrow> Done (if c = delim then Some cp else None))"

definition next_delim :: "bool \<Rightarrow> bool \<Rightarrow> char" where
  "next_delim is_mapping index = (if is_mapping \<and> \<not> index then CHR '':'' else CHR '','')"

text \<open>The \<open>switch\<close> on the next character, which the two scanning functions share: an item with the
  text after its delimiter, a closing bracket with the text after it, or something wrong (a string
  without closing quote apart). \<open>sub\<close> scans a container (a mapping or not, its slot in \<open>sizes\<close>).\<close>

datatype token = Item string | Closing char string | Unterminated | Wrong

definition after :: "char \<Rightarrow> string \<Rightarrow> token outcome" where
  "after delim cp = (case expect delim cp of
       Done None \<Rightarrow> Done Wrong | Done (Some cp) \<Rightarrow> Done (Item cp) | _ \<Rightarrow> Crash)"

definition next_token :: "(string \<Rightarrow> bool \<Rightarrow> nat \<Rightarrow> save_state \<Rightarrow> string option outcome \<times> save_state) \<Rightarrow> char \<Rightarrow> string \<Rightarrow> save_state
    \<Rightarrow> token outcome \<times> save_state" where
  "next_token sub delim cp st =
     (case cp of
        [] \<Rightarrow> (Crash, st)
      | c # cp \<Rightarrow>
          if c = NUL then (Done Wrong, st)
          else if c = QUOTE then
            and_then (skip_string cp, st) (\<lambda>r st. case r of
                None \<Rightarrow> (Done Unterminated, st) | Some cp \<Rightarrow> (after delim cp, st))
          else if c = CHR ''('' then
            (case cp of
               [] \<Rightarrow> (Crash, st)
             | b # cp \<Rightarrow>
                 if b \<in> {CHR ''{'', CHR ''['', CHR ''/''} then
                   and_then (sub cp (b = CHR ''['') (save_svalue_depth st)
                              (st\<lparr>save_svalue_depth := save_svalue_depth st + 1\<rparr>))
                     (\<lambda>r st. case r of None \<Rightarrow> (Done Wrong, st) | Some cp \<Rightarrow> (after delim cp, st))
                 else (Done Wrong, st))
          else if c \<in> {CHR '']'', CHR ''/'', CHR ''}''} then (Done (Closing c cp), st)
          else if c \<in> {CHR '':'', CHR '',''} then (Done (if c = delim then Item cp else Wrong), st)
          else and_then (strchr cp delim, st) (\<lambda>r st. (Done (case r of None \<Rightarrow> Wrong | Some cp \<Rightarrow> Item (tl cp)), st)))"

text \<open>The loop of \<open>restore_internal_size\<close>: \<open>sz\<close> items so far, \<open>index\<close> is set between key and value.
  The result is the text after the closing bracket, or \<open>None\<close> (return 0).\<close>

fun internal_size :: "nat \<Rightarrow> string \<Rightarrow> bool \<Rightarrow> nat \<Rightarrow> int \<Rightarrow> bool \<Rightarrow> save_state \<Rightarrow> string option outcome \<times> save_state" where
  "internal_size 0 cp is_mapping depth sz index st = (Timeout, st)"
| "internal_size (Suc fuel) cp is_mapping depth sz index st =
     and_then (next_token (\<lambda>cp m d. internal_size fuel cp m d 0 False) (next_delim is_mapping index) cp st) (\<lambda>t st.
       case t of
         Item cp \<Rightarrow> internal_size fuel cp is_mapping depth (sz + 1) (is_mapping \<and> \<not> index) st
       | Closing c cp \<Rightarrow>
           and_then (expect (CHR '')'') cp, st) (\<lambda>r st. case r of
               None \<Rightarrow> (Done None, st)
             | Some cp \<Rightarrow>
                 if is_mapping = (c = CHR '']'') then (Done (Some cp), set_size depth sz st) else (Done None, st))
       | Unterminated \<Rightarrow> (Done None, st)
       | Wrong \<Rightarrow> (Done None, st))"

text \<open>The loop of \<open>restore_size\<close>; -1 is an error, but a string without its closing quote is the
  size 0. The depth counter is reset at the closing bracket only.\<close>

fun size_loop :: "nat \<Rightarrow> string \<Rightarrow> bool \<Rightarrow> int \<Rightarrow> bool \<Rightarrow> save_state \<Rightarrow> (int \<times> string) outcome \<times> save_state" where
  "size_loop 0 cp is_mapping sz index st = (Timeout, st)"
| "size_loop (Suc fuel) cp is_mapping sz index st =
     and_then (next_token (\<lambda>cp m d. internal_size fuel cp m d 0 False) (next_delim is_mapping index) cp st) (\<lambda>t st.
       case t of
         Item cp \<Rightarrow> size_loop fuel cp is_mapping (sz + 1) (is_mapping \<and> \<not> index) st
       | Closing c cp \<Rightarrow>
           and_then (expect (CHR '')'') cp, st\<lparr>save_svalue_depth := 0\<rparr>) (\<lambda>r st. case r of
               None \<Rightarrow> (Done (- 1, cp), st)
             | Some cp \<Rightarrow> (Done (if is_mapping = (c = CHR '']'') then sz else - 1, cp), st))
       | Unterminated \<Rightarrow> (Done (0, cp), st)
       | Wrong \<Rightarrow> (Done (- 1, cp), st))"

definition restore_size :: "nat \<Rightarrow> string \<Rightarrow> bool \<Rightarrow> save_state \<Rightarrow> (int \<times> string) outcome \<times> save_state" where
  "restore_size fuel cp is_mapping st = size_loop fuel cp is_mapping 0 False st"

section \<open>Restoring strings and numbers\<close>

text \<open>After the first backslash the characters are copied; this loop does not test for the end.\<close>

fun scan_escaped :: "string \<Rightarrow> string \<Rightarrow> (string \<times> string) outcome" where
  "scan_escaped [] new = Crash"
| "scan_escaped (c # cp) new =
     (if c = QUOTE then Done (new, cp)
      else if c = BACKSLASH then
        (case cp of [] \<Rightarrow> Crash | d # cp' \<Rightarrow> if d = NUL then Rob ROB_STRING_ERROR else scan_escaped cp' (new @ [d]))
      else scan_escaped cp (new @ [if c = CR then LF else c]))"

fun scan_string :: "string \<Rightarrow> string \<Rightarrow> (string \<times> string) outcome" where
  "scan_string [] new = Crash"
| "scan_string (c # cp) new =
     (if c = QUOTE then Done (new, cp)
      else if c = BACKSLASH then
        (case cp of [] \<Rightarrow> Crash | d # cp' \<Rightarrow> if d = NUL then Rob ROB_STRING_ERROR else scan_escaped cp' (new @ [d]))
      else if c = NUL then Rob ROB_STRING_ERROR
      else scan_string cp (new @ [if c = CR then LF else c]))"

text \<open>The result is copied with \<open>strcpy\<close>, up to the first zero.\<close>

definition copied :: "string \<Rightarrow> 'r lpc" where
  "copied new = Str (takeWhile (\<lambda>c. c \<noteq> NUL) new)"

definition restore_interior_string :: "string \<Rightarrow> save_state \<Rightarrow> ('r lpc \<times> string) outcome \<times> save_state" where
  "restore_interior_string cp st = and_then (scan_string cp [], st) (\<lambda>(new, cp) st. (Done (copied new, cp), st))"

definition restore_hash_string :: "string \<Rightarrow> save_state \<Rightarrow> ('r lpc \<times> string) outcome \<times> save_state" where
  "restore_hash_string cp st = and_then (scan_string cp [], st) (\<lambda>(new, cp) st. (Done (copied new, cp), st))"

definition restore_string :: "string \<Rightarrow> save_state \<Rightarrow> 'r lpc outcome \<times> save_state" where
  "restore_string cp st = and_then (scan_string cp [], st) (\<lambda>(new, cp) st.
     (case cp of
        [] \<Rightarrow> Crash
      | c # _ \<Rightarrow> if c \<noteq> NUL then Rob ROB_STRING_ERROR else Done (copied new), st))"

text \<open>\<open>while ((c = *cp++) && isdigit(c))\<close>: the number, the character that ended it, the rest.\<close>

fun scan_digits :: "string \<Rightarrow> 32 word \<Rightarrow> (32 word \<times> char \<times> string) outcome" where
  "scan_digits [] res = Crash"
| "scan_digits (c # cp) res =
     (if c \<noteq> NUL \<and> isdigit c then scan_digits cp (res * 10 + word_of_int (digit_val c)) else Done (res, c, cp))"

fun scan_fraction :: "'r real_ops \<Rightarrow> char \<Rightarrow> string \<Rightarrow> 'r \<Rightarrow> 'r \<Rightarrow> ('r \<times> char \<times> string) outcome" where
  "scan_fraction ops c [] f1 f2 = Crash"
| "scan_fraction ops c (d # cp) f1 f2 =
     (let f1 = r_add ops f1 (r_div ops (r_of_int ops (digit_val c)) f2);
          f2 = r_mul ops f2 (r_of_int ops 10)
      in if d \<noteq> NUL \<and> isdigit d then scan_fraction ops d cp f1 f2 else Done (f1, d, cp))"

text \<open>The exponent after the \<open>e\<close>: the power of ten, or \<open>None\<close>.\<close>

definition scan_exponent :: "'r real_ops \<Rightarrow> string \<Rightarrow> ('r \<times> string) option outcome" where
  "scan_exponent ops cp =
     (case cp of
        [] \<Rightarrow> Crash
      | c # cp \<Rightarrow>
          if c = CHR ''+'' \<or> c = CHR ''-'' then
            (case scan_digits cp 0 of
               Done (expo, _, cp) \<Rightarrow> Done (Some (r_pow10 ops (sint (if c = CHR ''+'' then expo else - expo)), cp))
             | _ \<Rightarrow> Crash)
          else Done None)"

definition signed :: "'r real_ops \<Rightarrow> bool \<Rightarrow> 'r \<Rightarrow> 'r lpc" where
  "signed ops neg f1 = Real (if neg then r_neg ops f1 else f1)"

definition parse_numeric :: "'r real_ops \<Rightarrow> string \<Rightarrow> char \<Rightarrow> ('r lpc \<times> string) option outcome" where
  "parse_numeric ops cp c =
     (let neg = (c = CHR ''-'') in
      case (if neg then (case cp of [] \<Rightarrow> None | c # cp \<Rightarrow> Some (c, cp)) else Some (c, cp)) of
        None \<Rightarrow> Crash
      | Some (c, cp) \<Rightarrow>
          if neg \<and> \<not> isdigit c then Done None
          else (case scan_digits cp (word_of_int (digit_val c)) of
              Done (res, c, cp) \<Rightarrow>
                (if c = CHR ''.'' then
                   (case cp of
                      [] \<Rightarrow> Crash
                    | c # cp \<Rightarrow>
                        if \<not> isdigit c then Done None
                        else (case scan_fraction ops c cp (r_of_int ops 0) (r_of_int ops 10) of
                            Done (f1, c, cp) \<Rightarrow>
                              (let f1 = r_add ops f1 (r_of_int ops (sint res)) in
                               if c = CHR ''e'' then
                                 (case scan_exponent ops cp of
                                    Done None \<Rightarrow> Done None
                                  | Done (Some (p, cp)) \<Rightarrow> Done (Some (signed ops neg (r_mul ops f1 p), cp))
                                  | _ \<Rightarrow> Crash)
                               else Done (Some (signed ops neg f1, cp)))
                          | _ \<Rightarrow> Crash))
                 else if c = CHR ''e'' then
                   (case scan_exponent ops cp of
                      Done None \<Rightarrow> Done None
                    | Done (Some (p, cp)) \<Rightarrow> Done (Some (signed ops neg (r_mul ops (r_of_int ops (sint res)) p), cp))
                    | _ \<Rightarrow> Crash)
                 else Done (Some (Num (if neg then - res else res), cp)))
            | _ \<Rightarrow> Crash))"

section \<open>Restoring containers\<close>

text \<open>An entry goes to the front unless its key is there; the new key is freed then.\<close>

fun put_entry :: "('r lpc \<Rightarrow> 'r lpc \<Rightarrow> bool) \<Rightarrow> 'r lpc \<Rightarrow> 'r lpc \<Rightarrow> ('r lpc \<times> 'r lpc) list \<Rightarrow> ('r lpc \<times> 'r lpc) list option" where
  "put_entry same key value [] = None"
| "put_entry same key value ((k, v) # m) =
     (if same key k then Some ((k, value) # m) else map_option (Cons (k, v)) (put_entry same key value m))"

text \<open>The size of a container: scanned ahead at the top level, looked up below it.\<close>

definition size_ahead :: "nat \<Rightarrow> string \<Rightarrow> bool \<Rightarrow> save_state \<Rightarrow> (int \<times> string) outcome \<times> save_state" where
  "size_ahead fuel cp is_mapping st =
     (if save_svalue_depth st \<noteq> 0 then
        (if save_svalue_depth st - 1 < length (sizes st) then (Done (sizes st ! (save_svalue_depth st - 1), cp), st)
         else (Crash, st))
      else restore_size fuel cp is_mapping st)"

definition is_numeral_start :: "char \<Rightarrow> bool" where
  "is_numeral_start c \<longleftrightarrow> c = CHR ''-'' \<or> isdigit c"

text \<open>The limits are run time options. \<open>restore_items\<close> is \<open>restore_array\<close> and \<open>restore_class\<close>, which differ
  in the allocation and the error code; a mapping whose scan fails is reported as restored, but
  nothing is assigned (\<open>None\<close>).\<close>

record 'r save_config =
  reals :: "'r real_ops"
  same :: "'r lpc \<Rightarrow> 'r lpc \<Rightarrow> bool"
  max_array_size :: int
  max_mapping_size :: int

text \<open>The recursion is tied by fuel at \<open>restore_container\<close>; the loops take it as the argument \<open>sub\<close>,
  which gets the character that opens the container.\<close>

type_synonym 'r restorer = "char \<Rightarrow> string \<Rightarrow> save_state \<Rightarrow> ('r lpc option \<times> string) outcome \<times> save_state"

definition restore_nested :: "'r restorer \<Rightarrow> rob \<Rightarrow> string \<Rightarrow> save_state \<Rightarrow> ('r lpc \<times> string) outcome \<times> save_state" where
  "restore_nested sub generic cp st =
     (let st = st\<lparr>save_svalue_depth := save_svalue_depth st + 1\<rparr> in
      case cp of
        [] \<Rightarrow> (Crash, st)
      | c # cp \<Rightarrow>
          if c \<in> {CHR ''['', CHR ''{'', CHR ''/''} then
            and_then (sub c cp st) (\<lambda>(r, cp) st.
              case r of None \<Rightarrow> (Crash, st) | Some v \<Rightarrow> (Done (v, drop 1 cp), st))
          else (Rob generic, st))"

definition restore_numeral :: "'r real_ops \<Rightarrow> string \<Rightarrow> char \<Rightarrow> save_state \<Rightarrow> ('r lpc \<times> string) outcome \<times> save_state" where
  "restore_numeral ops cp c st =
     and_then (parse_numeric ops cp c, st) (\<lambda>r st. (case r of None \<Rightarrow> Rob ROB_NUMERAL_ERROR | Some x \<Rightarrow> Done x, st))"

definition restore_key :: "'r save_config \<Rightarrow> 'r restorer \<Rightarrow> char \<Rightarrow> string \<Rightarrow> save_state \<Rightarrow> ('r lpc \<times> string) outcome \<times> save_state" where
  "restore_key cfg sub c cp st =
     (if c = QUOTE then and_then (restore_hash_string cp st) (\<lambda>(k, cp) st. (Done (k, drop 1 cp), st))
      else if c = CHR ''('' then restore_nested sub ROB_MAPPING_ERROR cp st
      else if c = CHR '':'' then (Done (Num 0, cp), st)
      else if is_numeral_start c then restore_numeral (reals cfg) cp c st
      else (Rob ROB_MAPPING_ERROR, st))"

definition restore_map_value :: "'r save_config \<Rightarrow> 'r restorer \<Rightarrow> char \<Rightarrow> string \<Rightarrow> save_state \<Rightarrow> ('r lpc \<times> string) outcome \<times> save_state" where
  "restore_map_value cfg sub c cp st =
     (if c = QUOTE then and_then (restore_interior_string cp st) (\<lambda>(v, cp) st. (Done (v, drop 1 cp), st))
      else if c = CHR ''('' then restore_nested sub ROB_MAPPING_ERROR cp st
      else if is_numeral_start c then restore_numeral (reals cfg) cp c st
      else if c = CHR '','' then (Done (Num 0, cp), st)
      else (Rob ROB_MAPPING_ERROR, st))"

text \<open>In an array or class, a bad string is reported as a bad array or class.\<close>

definition restore_item :: "'r save_config \<Rightarrow> 'r restorer \<Rightarrow> rob \<Rightarrow> char \<Rightarrow> string \<Rightarrow> save_state \<Rightarrow> ('r lpc \<times> string) outcome \<times> save_state" where
  "restore_item cfg sub generic c cp st =
     (if c = QUOTE then
        (case restore_interior_string cp st of
           (Rob e, st) \<Rightarrow> (Rob generic, st)
         | r \<Rightarrow> and_then r (\<lambda>(v, cp) st. (Done (v, drop 1 cp), st)))
      else if c = CHR '','' then (Done (Num 0, cp), st)
      else if c = CHR ''('' then restore_nested sub generic cp st
      else if is_numeral_start c then restore_numeral (reals cfg) cp c st
      else (Rob generic, st))"

fun mapping_loop :: "'r save_config \<Rightarrow> 'r restorer \<Rightarrow> nat \<Rightarrow> string \<Rightarrow> ('r lpc \<times> 'r lpc) list \<Rightarrow> save_state
    \<Rightarrow> ('r lpc option \<times> string) outcome \<times> save_state" where
  "mapping_loop cfg sub 0 cp m st = (Timeout, st)"
| "mapping_loop cfg sub (Suc fuel) cp m st =
     (case cp of
        [] \<Rightarrow> (Crash, st)
      | c # cp \<Rightarrow>
          if c = CHR '']'' then (Done (Some (Map m), tl cp), st)
          else and_then (restore_key cfg sub c cp st) (\<lambda>(key, cp) st.
            case cp of
              [] \<Rightarrow> (Crash, st)
            | c # cp \<Rightarrow>
                and_then (restore_map_value cfg sub c cp st) (\<lambda>(value, cp) st.
                  case put_entry (same cfg) key value m of
                    Some m \<Rightarrow> mapping_loop cfg sub fuel cp m st
                  | None \<Rightarrow>
                      if int (length m) + 1 > max_mapping_size cfg then (Error Mapping_exceeded, st)
                      else mapping_loop cfg sub fuel cp ((key, value) # m) st)))"

definition restore_mapping :: "'r save_config \<Rightarrow> 'r restorer \<Rightarrow> nat \<Rightarrow> string \<Rightarrow> save_state
    \<Rightarrow> ('r lpc option \<times> string) outcome \<times> save_state" where
  "restore_mapping cfg sub fuel cp st =
     and_then (size_ahead fuel cp True st) (\<lambda>(sz, str) st.
       if sz < 0 then (Done (None, str), st)
       else if sz = 0 then (Done (Some (Map []), drop 2 str), st)
       else mapping_loop cfg sub fuel cp [] st)"

fun items_loop :: "'r save_config \<Rightarrow> 'r restorer \<Rightarrow> rob \<Rightarrow> nat \<Rightarrow> string \<Rightarrow> 'r lpc list \<Rightarrow> save_state
    \<Rightarrow> ('r lpc list \<times> string) outcome \<times> save_state" where
  "items_loop cfg sub generic 0 cp vs st = (Done (vs, cp), st)"
| "items_loop cfg sub generic (Suc n) cp vs st =
     (case cp of
        [] \<Rightarrow> (Crash, st)
      | c # cp \<Rightarrow>
          and_then (restore_item cfg sub generic c cp st) (\<lambda>(v, cp) st. items_loop cfg sub generic n cp (vs @ [v]) st))"

definition restore_array :: "'r save_config \<Rightarrow> 'r restorer \<Rightarrow> nat \<Rightarrow> string \<Rightarrow> save_state
    \<Rightarrow> ('r lpc option \<times> string) outcome \<times> save_state" where
  "restore_array cfg sub fuel cp st =
     and_then (size_ahead fuel cp False st) (\<lambda>(sz, str) st.
       if sz < 0 then (Rob ROB_ARRAY_ERROR, st)
       else if sz > max_array_size cfg then (Error Illegal_array_size, st)
       else and_then (items_loop cfg sub ROB_ARRAY_ERROR (nat sz) cp [] st) (\<lambda>(vs, cp) st.
         (Done (Some (Arr vs), drop 2 cp), st)))"

definition restore_class :: "'r save_config \<Rightarrow> 'r restorer \<Rightarrow> nat \<Rightarrow> string \<Rightarrow> save_state
    \<Rightarrow> ('r lpc option \<times> string) outcome \<times> save_state" where
  "restore_class cfg sub fuel cp st =
     and_then (size_ahead fuel cp False st) (\<lambda>(sz, str) st.
       if sz < 0 then (Rob ROB_CLASS_ERROR, st)
       else and_then (items_loop cfg sub ROB_CLASS_ERROR (nat sz) cp [] st) (\<lambda>(vs, cp) st.
         (Done (Some (Cls vs), drop 2 cp), st)))"

fun restore_container :: "'r save_config \<Rightarrow> nat \<Rightarrow> 'r restorer" where
  "restore_container cfg 0 c cp st = (Timeout, st)"
| "restore_container cfg (Suc fuel) c cp st =
     (if c = CHR ''['' then restore_mapping cfg (restore_container cfg fuel) fuel cp st
      else if c = CHR ''{'' then restore_array cfg (restore_container cfg fuel) fuel cp st
      else restore_class cfg (restore_container cfg fuel) fuel cp st)"

section \<open>Restoring variables and objects\<close>

text \<open>\<open>v\<close> is the value of the variable before; an unknown character gives zero.\<close>

definition restore_top :: "'r save_config \<Rightarrow> nat \<Rightarrow> string \<Rightarrow> save_state \<Rightarrow> 'r lpc option outcome \<times> save_state" where
  "restore_top cfg fuel cp st =
     (case cp of
        [] \<Rightarrow> (Crash, st)
      | c # cp \<Rightarrow>
          if c = QUOTE then and_then (restore_string cp st) (\<lambda>v st. (Done (Some v), st))
          else if c = CHR ''('' then
            (case cp of
               [] \<Rightarrow> (Crash, st)
             | c # cp \<Rightarrow>
                 let (r, st) =
                   (if c \<in> {CHR ''['', CHR ''{'', CHR ''/''} then
                      and_then (restore_container cfg fuel c cp st) (\<lambda>(v, _) st. (Done v, st))
                    else (Rob ROB_GENERAL_ERROR, st))
                 in case r of
                      Error e \<Rightarrow> (Error e, st)
                    | _ \<Rightarrow> (r, if save_svalue_depth st \<noteq> 0 then \<lparr>save_svalue_depth = 0, sizes = []\<rparr> else st))
          else if is_numeral_start c then
            and_then (restore_numeral (reals cfg) cp c st) (\<lambda>(v, _) st. (Done (Some v), st))
          else (Done (Some (Num 0)), st))"

definition restore_svalue :: "'r save_config \<Rightarrow> nat \<Rightarrow> string \<Rightarrow> 'r lpc \<Rightarrow> save_state \<Rightarrow> 'r lpc outcome \<times> save_state" where
  "restore_svalue cfg fuel cp v st =
     and_then (restore_top cfg fuel cp st) (\<lambda>r st. (Done (case r of None \<Rightarrow> v | Some v \<Rightarrow> v), st))"

text \<open>\<open>safe_restore_svalue\<close> restores into a local variable whose type is set and whose number is
  not: \<open>junk\<close>.\<close>

definition safe_restore_svalue :: "'r save_config \<Rightarrow> nat \<Rightarrow> 32 word \<Rightarrow> string \<Rightarrow> 'r lpc \<Rightarrow> save_state \<Rightarrow> 'r lpc outcome \<times> save_state" where
  "safe_restore_svalue cfg fuel junk cp v st =
     and_then (restore_top cfg fuel cp st) (\<lambda>r st. (Done (case r of None \<Rightarrow> Num junk | Some v \<Rightarrow> v), st))"

text \<open>\<open>restore_variable\<close> on a fresh variable. The message for a bad class is missing: the variable is 0.\<close>

definition restore_variable :: "'r save_config \<Rightarrow> nat \<Rightarrow> string \<Rightarrow> 'r lpc \<Rightarrow> save_state \<Rightarrow> 'r lpc outcome \<times> save_state" where
  "restore_variable cfg fuel str v st =
     (case restore_svalue cfg fuel str v st of
        (Rob e, st) \<Rightarrow> (if e = ROB_CLASS_ERROR then Done (Num 0) else Error (Illegal_format e), st)
      | r \<Rightarrow> r)"

text \<open>A program: the inherited programs with their type modifiers, and its own variables.\<close>

datatype program = Program (inherits: "(program \<times> 16 word) list") (variable_table: "(string \<times> 16 word) list")

definition NAME_STATIC :: "16 word" where "NAME_STATIC = 0x0200"
definition NAME_PRIVATE :: "16 word" where "NAME_PRIVATE = 0x0800"
definition NAME_PUBLIC :: "16 word" where "NAME_PUBLIC = 0x2000"

definition is_static :: "16 word \<Rightarrow> bool" where
  "is_static t \<longleftrightarrow> and t NAME_STATIC \<noteq> 0"

fun own_index :: "(string \<times> 16 word) list \<Rightarrow> nat \<Rightarrow> string \<Rightarrow> (nat \<times> 16 word) option" where
  "own_index [] idx name = None"
| "own_index ((x, t) # vars) idx name = (if x = name then Some (idx, t) else own_index vars (Suc idx) name)"

text \<open>Found at an index with its type, or not found and the index after the program.\<close>

fun fgv_recurse :: "program \<Rightarrow> nat \<Rightarrow> string \<Rightarrow> nat \<times> 16 word option"
  and fgv_inherits :: "(program \<times> 16 word) list \<Rightarrow> nat \<Rightarrow> string \<Rightarrow> nat \<times> 16 word option" where
  "fgv_recurse (Program inh vars) idx name =
     (case fgv_inherits inh idx name of
        (idx, Some t) \<Rightarrow> (idx, Some t)
      | (idx, None) \<Rightarrow>
          (case own_index vars idx name of
             Some (i, t) \<Rightarrow> (i, Some t)
           | None \<Rightarrow> (idx + length vars, None)))"
| "fgv_inherits [] idx name = (idx, None)"
| "fgv_inherits ((p, type_mod) # inh) idx name =
     (case fgv_recurse p idx name of
        (idx, Some t) \<Rightarrow> (idx, Some (or t type_mod))
      | (idx, None) \<Rightarrow> fgv_inherits inh idx name)"

text \<open>\<open>known\<close> is \<open>findstring\<close>: whether the name is a shared string at all.\<close>

definition find_global_variable :: "(string \<Rightarrow> bool) \<Rightarrow> program \<Rightarrow> string \<Rightarrow> (nat \<times> 16 word) option" where
  "find_global_variable known prog name =
     (if known name then
        (case fgv_recurse prog 0 name of
           (idx, Some t) \<Rightarrow> Some (idx, if and t NAME_PUBLIC \<noteq> 0 then and t (not NAME_PRIVATE) else t)
         | (idx, None) \<Rightarrow> None)
      else None)"

text \<open>\<open>save_object_recurse\<close>: the text written, and the values not reached yet. Writing does not fail.\<close>

fun save_own :: "'r real_ops \<Rightarrow> bool \<Rightarrow> (string \<times> 16 word) list \<Rightarrow> 'r lpc list \<Rightarrow> nat \<Rightarrow> (string \<times> 'r lpc list) outcome \<times> nat" where
  "save_own ops save_zeros [] svp d = (Done ([], svp), d)"
| "save_own ops save_zeros ((x, t) # vars) svp d =
     (case svp of
        [] \<Rightarrow> (Crash, d)
      | v # svp \<Rightarrow>
          if is_static t then save_own ops save_zeros vars svp d
          else and_then (save_variable ops v) (\<lambda>str d.
            let line = (if save_zeros \<or> str \<noteq> ''0'' then x @ '' '' @ str @ [LF] else []) in
            and_then (save_own ops save_zeros vars svp d) (\<lambda>(r, svp) d. (Done (line @ r, svp), d))))"

fun save_object_recurse :: "'r real_ops \<Rightarrow> bool \<Rightarrow> program \<Rightarrow> 16 word \<Rightarrow> 'r lpc list \<Rightarrow> nat \<Rightarrow> (string \<times> 'r lpc list) outcome \<times> nat"
  and save_inherits :: "'r real_ops \<Rightarrow> bool \<Rightarrow> (program \<times> 16 word) list \<Rightarrow> 16 word \<Rightarrow> 'r lpc list \<Rightarrow> nat
      \<Rightarrow> (string \<times> 'r lpc list) outcome \<times> nat" where
  "save_object_recurse ops save_zeros (Program inh vars) type svp d =
     and_then (save_inherits ops save_zeros inh type svp d) (\<lambda>(a, svp) d.
       if is_static type then (Done (a, drop (length vars) svp), d)
       else and_then (save_own ops save_zeros vars svp d) (\<lambda>(b, svp) d. (Done (a @ b, svp), d)))"
| "save_inherits ops save_zeros [] type svp d = (Done ([], svp), d)"
| "save_inherits ops save_zeros ((p, type_mod) # inh) type svp d =
     and_then (save_object_recurse ops save_zeros p (or type_mod type) svp d) (\<lambda>(a, svp) d.
       and_then (save_inherits ops save_zeros inh type svp d) (\<lambda>(b, svp) d. (Done (a @ b, svp), d)))"

text \<open>The contents of the file of \<open>save_object\<close>.\<close>

definition save_object :: "'r real_ops \<Rightarrow> bool \<Rightarrow> string \<Rightarrow> program \<Rightarrow> 'r lpc list \<Rightarrow> nat \<Rightarrow> string outcome \<times> nat" where
  "save_object ops save_zeros prog_name prog vars d =
     and_then (save_object_recurse ops save_zeros prog 0 vars d) (\<lambda>(str, _) d. (Done (''#/'' @ prog_name @ [LF] @ str), d))"

text \<open>\<open>clear_non_statics\<close>.\<close>

fun cns_just_count :: "program \<Rightarrow> nat \<Rightarrow> nat"
  and cns_count_inherits :: "(program \<times> 16 word) list \<Rightarrow> nat \<Rightarrow> nat" where
  "cns_just_count (Program inh vars) idx = cns_count_inherits inh idx + length vars"
| "cns_count_inherits [] idx = idx"
| "cns_count_inherits ((p, _) # inh) idx = cns_count_inherits inh (cns_just_count p idx)"

fun clear_own :: "(string \<times> 16 word) list \<Rightarrow> nat \<Rightarrow> 'r lpc list \<Rightarrow> 'r lpc list" where
  "clear_own [] idx vs = vs"
| "clear_own ((x, t) # vars) idx vs = clear_own vars (Suc idx) (if is_static t then vs else vs[idx := Num 0])"

fun cns_recurse :: "program \<Rightarrow> nat \<Rightarrow> 'r lpc list \<Rightarrow> nat \<times> 'r lpc list"
  and cns_inherits :: "(program \<times> 16 word) list \<Rightarrow> nat \<Rightarrow> 'r lpc list \<Rightarrow> nat \<times> 'r lpc list" where
  "cns_recurse (Program inh vars) idx vs =
     (let (idx, vs) = cns_inherits inh idx vs in (idx + length vars, clear_own vars idx vs))"
| "cns_inherits [] idx vs = (idx, vs)"
| "cns_inherits ((p, type_mod) # inh) idx vs =
     (if is_static type_mod then cns_inherits inh (cns_just_count p idx) vs
      else (let (idx, vs) = cns_recurse p idx vs in cns_inherits inh idx vs))"

definition clear_non_statics :: "program \<Rightarrow> 'r lpc list \<Rightarrow> 'r lpc list" where
  "clear_non_statics prog vs = snd (cns_recurse prog 0 vs)"

text \<open>\<open>restore_object_from_buff\<close>: one line at a time; the newline is overwritten with a zero, the
  buffer goes on after it. \<open>split_line\<close> gives the line, and the buffer after its newline.\<close>

fun split_line :: "string \<Rightarrow> (string \<times> string option) outcome" where
  "split_line [] = Crash"
| "split_line (c # buf) =
     (if c = LF then Done ([NUL], Some buf)
      else if c = NUL then Done ([NUL], None)
      else (case split_line buf of Done (l, r) \<Rightarrow> Done (c # l, r) | _ \<Rightarrow> Crash))"

fun split_space :: "string \<Rightarrow> (string \<times> string) option" where
  "split_space [] = None"
| "split_space (c # buf) =
     (if c = CHR '' '' then Some ([], buf)
      else if c = NUL then None
      else map_option (apfst (Cons c)) (split_space buf))"

text \<open>What the restoring functions can read is the line with its zero and the buffer behind it.\<close>

definition restore_line :: "'r save_config \<Rightarrow> nat \<Rightarrow> 32 word \<Rightarrow> (string \<Rightarrow> bool) \<Rightarrow> program \<Rightarrow> bool \<Rightarrow> string \<Rightarrow> string
    \<Rightarrow> 'r lpc list \<Rightarrow> save_state \<Rightarrow> 'r lpc list outcome \<times> save_state" where
  "restore_line cfg fuel junk known prog noclear line behind vs st =
     (if hd line = CHR ''#'' then (Done vs, st)
      else case split_space line of
        None \<Rightarrow> (Error Illegal_file_format, st)
      | Some (var, cp) \<Rightarrow>
          if length var \<ge> 100 then (Error Illegal_file_format, st)
          else case find_global_variable known prog var of
            None \<Rightarrow> (Done vs, st)
          | Some (idx, t) \<Rightarrow>
              if is_static t then (Done vs, st)
              else if length vs \<le> idx then (Crash, st)
              else (case (if noclear then safe_restore_svalue cfg fuel junk (cp @ behind) (vs ! idx) st
                          else restore_svalue cfg fuel (cp @ behind) (vs ! idx) st) of
                      (Rob e, st) \<Rightarrow> (Error (Illegal_format e), st)
                    | r \<Rightarrow> and_then r (\<lambda>v st. (Done (vs[idx := v]), st))))"

fun restore_object_from_buff :: "'r save_config \<Rightarrow> nat \<Rightarrow> 32 word \<Rightarrow> (string \<Rightarrow> bool) \<Rightarrow> program \<Rightarrow> bool \<Rightarrow> nat \<Rightarrow> string
    \<Rightarrow> 'r lpc list \<Rightarrow> save_state \<Rightarrow> 'r lpc list outcome \<times> save_state" where
  "restore_object_from_buff cfg fuel junk known prog noclear 0 buf vs st = (Timeout, st)"
| "restore_object_from_buff cfg fuel junk known prog noclear (Suc n) buf vs st =
     (case split_line buf of
        Done (line, rest) \<Rightarrow>
          if line = [NUL] \<and> (buf = [] \<or> hd buf = NUL) then (Done vs, st)
          else and_then (restore_line cfg fuel junk known prog noclear line (case rest of None \<Rightarrow> [] | Some b \<Rightarrow> b) vs st)
            (\<lambda>vs st. case rest of
               None \<Rightarrow> (Done vs, st)
             | Some b \<Rightarrow> restore_object_from_buff cfg fuel junk known prog noclear n b vs st)
      | _ \<Rightarrow> (Crash, st))"

text \<open>\<open>restore_object\<close> on the contents of the file; an empty file does nothing.\<close>

definition restore_object :: "'r save_config \<Rightarrow> nat \<Rightarrow> 32 word \<Rightarrow> (string \<Rightarrow> bool) \<Rightarrow> program \<Rightarrow> bool \<Rightarrow> string
    \<Rightarrow> 'r lpc list \<Rightarrow> save_state \<Rightarrow> 'r lpc list outcome \<times> save_state" where
  "restore_object cfg fuel junk known prog noclear file vs st =
     (if file = [] then (Done vs, st)
      else restore_object_from_buff cfg fuel junk known prog noclear (Suc (length file)) (file @ [NUL])
             (if noclear then vs else clear_non_statics prog vs) st)"

section \<open>The buffer of the saved text\<close>

lemma and_then_Done [simp]: "and_then x f = (Done y, s) \<longleftrightarrow> (\<exists>a t. x = (Done a, t) \<and> f a t = (Done y, s))"
  by (cases "(x, f)" rule: and_then.cases) auto

lemma of_char_digit [simp]: "d < 10 \<Longrightarrow> (of_char (digit_char d) :: nat) = d + 48"
  by (simp add: digit_char_def of_char_mod_256)

lemma isdigit_digit_char [simp]: "d < 10 \<Longrightarrow> isdigit (digit_char d)"
  by (simp add: isdigit_def)

lemma digit_val_digit_char [simp]: "d < 10 \<Longrightarrow> digit_val (digit_char d) = int d"
  by (simp add: digit_val_def)

lemma length_decimal: "int (length (decimal n)) = 1 + more_digits n"
proof (induction n rule: decimal.induct)
  case (1 n)
  show ?case
  proof (cases "n div 10 = 0")
    case True
    then show ?thesis by (simp add: decimal.simps [of n] more_digits.simps [of n] div_eq_0_iff)
  next
    case False
    with 1 have "int (length (decimal (n div 10))) = 1 + more_digits (n div 10)" .
    then show ?thesis using False by (simp add: decimal.simps [of n] more_digits.simps [of n] div_eq_0_iff)
  qed
qed

lemma string_size_length: "string_size s = int (length (save_chars s))"
  by (induction s) auto

text \<open>The nesting depth of a value, and what \<open>svalue_save_size\<close> returns: the length of the text and
  its zero, and one more for a value that is not saved at all.\<close>

function nesting :: "'r lpc \<Rightarrow> nat" and nesting_items :: "'r lpc list \<Rightarrow> nat" and nesting_pairs :: "('r lpc \<times> 'r lpc) list \<Rightarrow> nat" where
  "nesting (Arr vs) = Suc (nesting_items vs)"
| "nesting (Cls vs) = Suc (nesting_items vs)"
| "nesting (Map ps) = Suc (nesting_pairs ps)"
| "nesting (Num n) = 0"
| "nesting (Str s) = 0"
| "nesting (Real r) = 0"
| "nesting Other = 0"
| "nesting_items [] = 0"
| "nesting_items (v # vs) = max (nesting v) (nesting_items vs)"
| "nesting_pairs [] = 0"
| "nesting_pairs ((k, v) # ps) = max (nesting k) (max (nesting v) (nesting_pairs ps))"
  by pat_completeness auto
termination
  by (relation "measure (case_sum (\<lambda>v. 2 * size v)
      (case_sum (\<lambda>vs. 2 * size_list size vs + 1) (\<lambda>ps. 2 * size_list (size_prod size size) ps + 1)))")
    auto

function unsaved :: "'r lpc \<Rightarrow> nat" and unsaved_items :: "'r lpc list \<Rightarrow> nat" and unsaved_pairs :: "('r lpc \<times> 'r lpc) list \<Rightarrow> nat" where
  "unsaved (Arr vs) = unsaved_items vs"
| "unsaved (Cls vs) = unsaved_items vs"
| "unsaved (Map ps) = unsaved_pairs ps"
| "unsaved (Num n) = 0"
| "unsaved (Str s) = 0"
| "unsaved (Real r) = 0"
| "unsaved Other = 1"
| "unsaved_items [] = 0"
| "unsaved_items (v # vs) = unsaved v + unsaved_items vs"
| "unsaved_pairs [] = 0"
| "unsaved_pairs ((k, v) # ps) = unsaved k + unsaved v + unsaved_pairs ps"
  by pat_completeness auto
termination
  by (relation "measure (case_sum (\<lambda>v. 2 * size v)
      (case_sum (\<lambda>vs. 2 * size_list size vs + 1) (\<lambda>ps. 2 * size_list (size_prod size size) ps + 1)))")
    auto

lemma save_size_result:
  "d \<le> 25 \<Longrightarrow> svalue_save_size ops v d =
    (if d + nesting v \<le> 25 then (Done (int (length (save_svalue ops v) + 1 + unsaved v)), d) else (Error Too_deep, 26))"
  "d \<le> 25 \<Longrightarrow> items_save_size ops vs acc d =
    (if d + nesting_items vs \<le> 25 then (Done (acc + int (length (save_items ops vs) + unsaved_items vs)), d) else (Error Too_deep, 26))"
  "d \<le> 25 \<Longrightarrow> pairs_save_size ops ps acc d =
    (if d + nesting_pairs ps \<le> 25 then (Done (acc + int (length (save_pairs ops ps) + unsaved_pairs ps)), d) else (Error Too_deep, 26))"
proof (induction ops v d and ops vs acc d and ops ps acc d
    rule: svalue_save_size_items_save_size_pairs_save_size.induct)
qed (auto simp: deeper_def MAX_SAVE_SVALUE_DEPTH_def string_size_length length_decimal max_def)

section \<open>Reading back strings and numbers\<close>

definition no_nul :: "string \<Rightarrow> bool" where
  "no_nul s \<longleftrightarrow> NUL \<notin> set s"

definition cr_to_lf :: "string \<Rightarrow> string" where
  "cr_to_lf s = map (\<lambda>c. if c = CR then LF else c) s"

lemma scan_escaped_saved: "no_nul s \<Longrightarrow> scan_escaped (save_chars s @ QUOTE # cp) new = Done (new @ cr_to_lf s, cp)"
  by (induction s arbitrary: new) (auto simp: no_nul_def cr_to_lf_def)

lemma scan_string_saved: "no_nul s \<Longrightarrow> scan_string (save_chars s @ QUOTE # cp) new = Done (new @ cr_to_lf s, cp)"
  by (induction s arbitrary: new) (auto simp: no_nul_def cr_to_lf_def scan_escaped_saved)

lemma copied_saved: "no_nul s \<Longrightarrow> copied (cr_to_lf s) = Str (cr_to_lf s)"
  by (simp add: copied_def no_nul_def cr_to_lf_def takeWhile_eq_all_conv) auto

lemma skip_string_saved: "no_nul s \<Longrightarrow> skip_string (save_chars s @ QUOTE # cp) = Done (Some cp)"
  by (induction s) (auto simp: no_nul_def)

lemma not_isdigit_special [simp]:
  "\<not> isdigit (CHR '','')" "\<not> isdigit (CHR '':'')" "\<not> isdigit (CHR 0x00)" "\<not> isdigit (CHR ''('')" "\<not> isdigit (CHR ''-'')"
  "\<not> isdigit (CHR '']'')" "\<not> isdigit (CHR 0x22)" "\<not> isdigit (CHR ''/'')" "\<not> isdigit (CHR ''}'')" "\<not> isdigit (CHR ''.'')" "\<not> isdigit (CHR ''e'')"
  by (simp_all add: isdigit_def)

lemma isdigit_not_special: "isdigit c \<Longrightarrow> c \<notin> {NUL, QUOTE, CHR ''('', CHR '')'', CHR ''['', CHR '']'', CHR ''{'', CHR ''}'', CHR ''/'', CHR '':'', CHR '','', CHR ''-''}"
  by (auto simp: isdigit_def)

lemma decimal_digits: "\<forall>c \<in> set (decimal n). isdigit c"
proof (induction n rule: decimal.induct)
  case (1 n)
  then show ?case by (cases "n div 10 = 0") (simp_all add: decimal.simps [of n])
qed

lemma decimal_not_Nil: "decimal n \<noteq> []"
  by (simp add: decimal.simps [of n])

lemma scan_digits_append:
  "\<forall>c \<in> set a. isdigit c \<Longrightarrow> scan_digits (a @ b) res = scan_digits b (fold (\<lambda>c r. r * 10 + word_of_int (digit_val c)) a res)"
  by (induction a arbitrary: res) (auto simp: isdigit_not_special)

lemma fold_decimal: "fold (\<lambda>c r. r * 10 + word_of_int (digit_val c)) (decimal n) 0 = (of_nat n :: 32 word)"
proof (induction n rule: decimal.induct)
  case (1 n)
  show ?case
  proof (cases "n div 10 = 0")
    case True
    then show ?thesis by (simp add: decimal.simps [of n] div_eq_0_iff)
  next
    case False
    with 1 have "fold (\<lambda>c r. r * 10 + word_of_int (digit_val c)) (decimal (n div 10)) 0 = (of_nat (n div 10) :: 32 word)" .
    moreover have "(of_nat n :: 32 word) = of_nat (n div 10) * 10 + of_nat (n mod 10)"
      by (metis div_mult_mod_eq of_nat_add of_nat_mult of_nat_numeral)
    ultimately show ?thesis using False by (simp add: decimal.simps [of n])
  qed
qed

text \<open>The delimiters after a saved value.\<close>

definition ends :: "char \<Rightarrow> bool" where
  "ends c \<longleftrightarrow> c = CHR '','' \<or> c = CHR '':'' \<or> c = NUL"

lemma parse_numeric_decimal:
  assumes "ends d" "decimal n = c # ds"
  shows "parse_numeric ops (ds @ d # cp) c = Done (Some (Num (of_nat n), cp))"
    "parse_numeric ops (decimal n @ d # cp) (CHR ''-'') = Done (Some (Num (- of_nat n), cp))"
proof -
  have dg: "isdigit c" "\<forall>c \<in> set ds. isdigit c" using decimal_digits [of n] assms(2) by auto
  have f: "fold (\<lambda>c r. r * 10 + word_of_int (digit_val c)) ds (word_of_int (digit_val c)) = (of_nat n :: 32 word)"
    using fold_decimal [of n] assms(2) by simp
  have "scan_digits (d # cp) res = Done (res, d, cp)" for res
    using assms(1) by (auto simp: ends_def)
  then have sd: "scan_digits (ds @ d # cp) (word_of_int (digit_val c)) = Done (of_nat n, d, cp)"
    by (simp add: scan_digits_append [OF dg(2)] f)
  have "c \<noteq> CHR ''-''" "d \<noteq> CHR ''.''" "d \<noteq> CHR ''e''"
    using isdigit_not_special [OF dg(1)] assms(1) by (auto simp: ends_def)
  then show "parse_numeric ops (ds @ d # cp) c = Done (Some (Num (of_nat n), cp))"
    "parse_numeric ops (decimal n @ d # cp) (CHR ''-'') = Done (Some (Num (- of_nat n), cp))"
    using dg(1) by (simp_all add: parse_numeric_def sd assms(2))
qed

text \<open>A negative number is written with its magnitude, except for the most negative one.\<close>

lemma magnitude_negative:
  assumes "n <s 0" "n \<noteq> 0x80000000"
  shows "(of_nat (magnitude n) :: 32 word) = - n"
proof -
  have "2 ^ 31 \<le> uint n"
  proof (rule ccontr)
    assume "\<not> 2 ^ 31 \<le> uint n"
    then have "signed_take_bit 31 (uint n) = uint n"
      by (intro signed_take_bit_int_eq_self) (simp_all add: order_trans [OF _ uint_ge_0])
    then have "sint n = uint n" by (simp add: sint_uint)
    with assms(1) show False by (simp add: word_sless_alt)
  qed
  moreover have "uint n \<noteq> 2 ^ 31" 
  proof
    assume "uint n = 2 ^ 31"
    then have "word_of_int (uint n) = (word_of_int (2 ^ 31) :: 32 word)" by (rule arg_cong)
    with assms(2) show False by simp
  qed
  ultimately have "uint (- n) < 2 ^ 31"
    using uint_lt2p [of n] by (simp add: uint_word_ariths zmod_zminus1_eq_if)
  then have "uint (take_bit 31 (- n)) = uint (- n)" by (simp add: unsigned_take_bit_eq take_bit_int_eq_self)
  then have "take_bit 31 (- n) = - n" by (simp only: word_uint_eq_iff)
  moreover have "(0x7FFFFFFF :: 32 word) = mask 31" by (simp add: mask_eq_exp_minus_1)
  ultimately have "and (- n) 0x7FFFFFFF = - n" by (simp add: take_bit_eq_mask)
  with assms(1) show ?thesis by (simp add: magnitude_def)
qed

definition restored_num :: "32 word \<Rightarrow> 32 word" where
  "restored_num n = (if n = 0x80000000 then 0 else n)"

lemma read_number: "(if n <s 0 then - of_nat (magnitude n) else of_nat (magnitude n)) = restored_num n"
proof -
  have "\<not> (0 :: 32 word) <s 0" by simp
  moreover have "(0x80000000 :: 32 word) <s 0" by (simp add: word_sless_alt)
  ultimately show ?thesis
    by (auto simp: magnitude_negative restored_num_def) (simp_all add: magnitude_def)
qed

section \<open>Scanning saved text ahead\<close>

text \<open>A float that is read back as it was written (the printing and the arithmetic are arguments).\<close>

definition reads_back :: "'r real_ops \<Rightarrow> 'r \<Rightarrow> bool" where
  "reads_back ops r \<longleftrightarrow> r_format ops r \<noteq> [] \<and> is_numeral_start (hd (r_format ops r))
     \<and> (\<forall>c \<in> set (r_format ops r). c \<noteq> LF \<and> \<not> ends c)
     \<and> (\<forall>d cp. ends d \<longrightarrow> parse_numeric ops (tl (r_format ops r) @ d # cp) (hd (r_format ops r)) = Done (Some (Real r, cp)))"

text \<open>What a value is restored to: a return in a string becomes a newline, the most negative number and
  what cannot be saved become 0, and the entries of a mapping come in the opposite order.\<close>

function restored :: "'r lpc \<Rightarrow> 'r lpc" and restored_items :: "'r lpc list \<Rightarrow> 'r lpc list"
  and restored_pairs :: "('r lpc \<times> 'r lpc) list \<Rightarrow> ('r lpc \<times> 'r lpc) list" where
  "restored (Arr vs) = Arr (restored_items vs)"
| "restored (Cls vs) = Cls (restored_items vs)"
| "restored (Map ps) = Map (rev (restored_pairs ps))"
| "restored (Num n) = Num (restored_num n)"
| "restored (Str s) = Str (cr_to_lf s)"
| "restored (Real r) = Real r"
| "restored Other = Num 0"
| "restored_items [] = []"
| "restored_items (v # vs) = restored v # restored_items vs"
| "restored_pairs [] = []"
| "restored_pairs ((k, v) # ps) = (restored k, restored v) # restored_pairs ps"
  by pat_completeness auto
termination
  by (relation "measure (case_sum (\<lambda>v. 2 * size v)
      (case_sum (\<lambda>vs. 2 * size_list size vs + 1) (\<lambda>ps. 2 * size_list (size_prod size size) ps + 1)))")
    auto

text \<open>The values for which that holds: C strings, floats that are read back, sizes within the limits, and
  different keys.\<close>

function storable :: "'r save_config \<Rightarrow> 'r lpc \<Rightarrow> bool" and storable_items :: "'r save_config \<Rightarrow> 'r lpc list \<Rightarrow> bool"
  and storable_pairs :: "'r save_config \<Rightarrow> ('r lpc \<times> 'r lpc) list \<Rightarrow> bool" where
  "storable cfg (Arr vs) = (int (length vs) \<le> max_array_size cfg \<and> storable_items cfg vs)"
| "storable cfg (Cls vs) = storable_items cfg vs"
| "storable cfg (Map ps) =
     (int (length ps) \<le> max_mapping_size cfg \<and> storable_pairs cfg ps
      \<and> sorted_wrt (\<lambda>p q. \<not> same cfg (fst q) (fst p)) (restored_pairs ps))"
| "storable cfg (Num n) = True"
| "storable cfg (Str s) = no_nul s"
| "storable cfg (Real r) = reads_back (reals cfg) r"
| "storable cfg Other = True"
| "storable_items cfg [] = True"
| "storable_items cfg (v # vs) = (storable cfg v \<and> storable_items cfg vs)"
| "storable_pairs cfg [] = True"
| "storable_pairs cfg ((k, v) # ps) = (storable cfg k \<and> storable cfg v \<and> storable_pairs cfg ps)"
  by pat_completeness auto
termination
  by (relation "measure (case_sum (\<lambda>(_, v). 2 * size v)
      (case_sum (\<lambda>(_, vs). 2 * size_list size vs + 1) (\<lambda>(_, ps). 2 * size_list (size_prod size size) ps + 1)))")
    auto

text \<open>The state after scanning a value: its containers take the next slots of \<open>sizes\<close>, in the order they
  open.\<close>

abbreviation next_depth :: "save_state \<Rightarrow> save_state" where
  "next_depth st \<equiv> st\<lparr>save_svalue_depth := save_svalue_depth st + 1\<rparr>"

function scanned :: "'r lpc \<Rightarrow> save_state \<Rightarrow> save_state" and scanned_items :: "'r lpc list \<Rightarrow> save_state \<Rightarrow> save_state"
  and scanned_pairs :: "('r lpc \<times> 'r lpc) list \<Rightarrow> save_state \<Rightarrow> save_state" where
  "scanned (Arr vs) st = set_size (save_svalue_depth st) (int (length vs)) (scanned_items vs (next_depth st))"
| "scanned (Cls vs) st = set_size (save_svalue_depth st) (int (length vs)) (scanned_items vs (next_depth st))"
| "scanned (Map ps) st = set_size (save_svalue_depth st) (2 * int (length ps)) (scanned_pairs ps (next_depth st))"
| "scanned (Num n) st = st"
| "scanned (Str s) st = st"
| "scanned (Real r) st = st"
| "scanned Other st = st"
| "scanned_items [] st = st"
| "scanned_items (v # vs) st = scanned_items vs (scanned v st)"
| "scanned_pairs [] st = st"
| "scanned_pairs ((k, v) # ps) st = scanned_pairs ps (scanned v (scanned k st))"
  by pat_completeness auto
termination
  by (relation "measure (case_sum (\<lambda>(v, _). 2 * size v)
      (case_sum (\<lambda>(vs, _). 2 * size_list size vs + 1) (\<lambda>(ps, _). 2 * size_list (size_prod size size) ps + 1)))")
    auto

lemma strchr_skip: "\<forall>c \<in> set a. c \<noteq> d \<and> c \<noteq> NUL \<Longrightarrow> strchr (a @ d # cp) d = Done (Some (d # cp))"
  by (induction a) auto

lemma after_Item [simp]: "after d (d # cp) = Done (Item cp)"
  by (simp add: after_def expect_def)

lemma token_numeral:
  assumes "is_numeral_start c" "\<forall>x \<in> set a. \<not> ends x" "d = CHR '','' \<or> d = CHR '':''"
  shows "next_token sub d (c # a @ d # cp) st = (Done (Item cp), st)"
proof -
  have "\<forall>x \<in> set a. x \<noteq> d \<and> x \<noteq> NUL" using assms(2,3) by (auto simp: ends_def)
  moreover have "c \<notin> {NUL, QUOTE, CHR ''('', CHR '']'', CHR ''/'', CHR ''}'', CHR '':'', CHR '',''}"
  proof (cases "c = CHR ''-''")
    case False
    then have "isdigit c" using assms(1) by (simp add: is_numeral_start_def)
    from isdigit_not_special [OF this] show ?thesis by simp
  qed simp
  ultimately show ?thesis by (simp add: next_token_def strchr_skip)
qed

lemma isdigit_not_ends: "isdigit c \<Longrightarrow> \<not> ends c"
  by (auto simp: ends_def)

lemma token_number:
  assumes "d = CHR '','' \<or> d = CHR '':''"
  shows "next_token sub d (save_svalue ops (Num n) @ d # cp) st = (Done (Item cp), st)"
proof -
  obtain c ds where c: "decimal (magnitude n) = c # ds" using decimal_not_Nil by (metis neq_Nil_conv)
  have dg: "isdigit c" "\<forall>x \<in> set ds. \<not> ends x" "\<forall>x \<in> set (c # ds). \<not> ends x"
    using decimal_digits [of "magnitude n"] c by (auto simp: isdigit_not_ends)
  show ?thesis
    using token_numeral [of "CHR ''-''" "c # ds" d sub cp st] token_numeral [of c ds d sub cp st] dg assms
    by (auto simp: c is_numeral_start_def)
qed

lemma token_real:
  assumes "reads_back ops r" "d = CHR '','' \<or> d = CHR '':''"
  shows "next_token sub d (save_svalue ops (Real r) @ d # cp) st = (Done (Item cp), st)"
proof -
  obtain c a where c: "r_format ops r = c # a" using assms(1) by (auto simp: reads_back_def neq_Nil_conv)
  show ?thesis
    using token_numeral [of c a d sub cp st] assms by (auto simp: c reads_back_def)
qed

text \<open>Scanning what was saved.\<close>

lemma scan_saved:
  "storable cfg v \<Longrightarrow> length (save_svalue (reals cfg) v) \<le> fuel \<Longrightarrow> d = CHR '','' \<or> d = CHR '':''
    \<Longrightarrow> next_token (\<lambda>cp m d. internal_size fuel cp m d 0 False) d (save_svalue (reals cfg) v @ d # cp) st = (Done (Item cp), scanned v st)"
  "storable_items cfg vs \<Longrightarrow> length (save_items (reals cfg) vs) < fuel \<Longrightarrow> e = CHR ''}'' \<or> e = CHR ''/''
    \<Longrightarrow> internal_size fuel (save_items (reals cfg) vs @ e # CHR '')'' # cp) False depth sz False st
       = (Done (Some cp), set_size depth (sz + int (length vs)) (scanned_items vs st))"
  "storable_pairs cfg ps \<Longrightarrow> length (save_pairs (reals cfg) ps) < fuel
    \<Longrightarrow> internal_size fuel (save_pairs (reals cfg) ps @ CHR '']'' # CHR '')'' # cp) True depth sz False st
       = (Done (Some cp), set_size depth (sz + 2 * int (length ps)) (scanned_pairs ps st))"
proof (induction cfg v and cfg vs and cfg ps arbitrary: fuel d cp st and fuel e cp depth sz st and fuel cp depth sz st
    rule: storable_storable_items_storable_pairs.induct)
  case (1 cfg vs)
  then show ?case by (simp add: next_token_def)
next
  case (2 cfg vs)
  then show ?case by (simp add: next_token_def)
next
  case (3 cfg ps)
  then show ?case by (simp add: next_token_def)
next
  case (4 cfg n)
  then show ?case using token_number by simp
next
  case (5 cfg s)
  then show ?case by (simp add: next_token_def skip_string_saved)
next
  case (6 cfg r)
  then show ?case using token_real by simp
next
  case (7 cfg)
  then show ?case by (auto simp: next_token_def)
next
  case (8 cfg)
  then show ?case by (cases fuel) (auto simp: next_token_def expect_def next_delim_def)
next
  case (9 cfg v vs)
  then obtain f where f: "fuel = Suc f" by (cases fuel) auto
  have v: "next_token (\<lambda>cp m d. internal_size f cp m d 0 False) (CHR '','') (save_svalue (reals cfg) v @ CHR '','' # q) st
      = (Done (Item q), scanned v st)" for q
    using "9.prems" by (intro "9.IH"(1)) (simp_all add: f)
  have r: "internal_size f (save_items (reals cfg) vs @ e # CHR '')'' # cp) False depth (sz + 1) False (scanned v st)
      = (Done (Some cp), set_size depth (sz + 1 + int (length vs)) (scanned_items vs (scanned v st)))"
    using "9.prems" by (intro "9.IH"(2)) (simp_all add: f)
  show ?case using r by (simp add: f next_delim_def v add.assoc)
next
  case (10 cfg)
  then show ?case by (cases fuel) (auto simp: next_token_def expect_def next_delim_def)
next
  case (11 cfg k v ps)
  then obtain g where f: "fuel = Suc (Suc g)" by (cases fuel; cases "fuel - 1") auto
  have k: "next_token (\<lambda>cp m d. internal_size (Suc g) cp m d 0 False) (CHR '':'') (save_svalue (reals cfg) k @ CHR '':'' # q) st
      = (Done (Item q), scanned k st)" for q
    using "11.prems" by (intro "11.IH"(1)) (simp_all add: f)
  have v: "next_token (\<lambda>cp m d. internal_size g cp m d 0 False) (CHR '','') (save_svalue (reals cfg) v @ CHR '','' # q) (scanned k st)
      = (Done (Item q), scanned v (scanned k st))" for q
    using "11.prems" by (intro "11.IH"(2)) (simp_all add: f)
  have r: "internal_size g (save_pairs (reals cfg) ps @ CHR '']'' # CHR '')'' # cp) True depth (sz + 1 + 1) False (scanned v (scanned k st))
      = (Done (Some cp), set_size depth (sz + 1 + 1 + 2 * int (length ps)) (scanned_pairs ps (scanned v (scanned k st))))"
    using "11.prems" by (intro "11.IH"(3)) (simp_all add: f)
  show ?case using r by (simp add: f next_delim_def k v add.assoc)
qed

text \<open>The sizes of the containers in a value, in the order they open, and where they stand.\<close>

function conts :: "'r lpc \<Rightarrow> int list" and conts_items :: "'r lpc list \<Rightarrow> int list" and conts_pairs :: "('r lpc \<times> 'r lpc) list \<Rightarrow> int list" where
  "conts (Arr vs) = int (length vs) # conts_items vs"
| "conts (Cls vs) = int (length vs) # conts_items vs"
| "conts (Map ps) = 2 * int (length ps) # conts_pairs ps"
| "conts (Num n) = []"
| "conts (Str s) = []"
| "conts (Real r) = []"
| "conts Other = []"
| "conts_items [] = []"
| "conts_items (v # vs) = conts v @ conts_items vs"
| "conts_pairs [] = []"
| "conts_pairs ((k, v) # ps) = conts k @ conts v @ conts_pairs ps"
  by pat_completeness auto
termination
  by (relation "measure (case_sum (\<lambda>v. 2 * size v)
      (case_sum (\<lambda>vs. 2 * size_list size vs + 1) (\<lambda>ps. 2 * size_list (size_prod size size) ps + 1)))")
    auto

definition seg :: "save_state \<Rightarrow> nat \<Rightarrow> int list \<Rightarrow> bool" where
  "seg st d xs \<longleftrightarrow> (\<forall>j < length xs. d + j < length (sizes st) \<and> sizes st ! (d + j) = xs ! j)"

lemma seg_Nil [simp]: "seg st d []"
  by (simp add: seg_def)

lemma seg_append [simp]: "seg st d (xs @ ys) \<longleftrightarrow> seg st d xs \<and> seg st (d + length xs) ys"
  unfolding seg_def
proof (intro iffI conjI allI impI; (elim conjE)?)
  fix j assume *: "\<forall>j<length (xs @ ys). d + j < length (sizes st) \<and> sizes st ! (d + j) = (xs @ ys) ! j"
  show "j < length ys \<Longrightarrow> d + length xs + j < length (sizes st)" "j < length ys \<Longrightarrow> sizes st ! (d + length xs + j) = ys ! j"
    using * [rule_format, of "length xs + j"] by (simp_all add: add.assoc)
qed (auto simp: nth_append, metis add.assoc add_diff_inverse_nat nat_add_left_cancel_less,
     metis add.assoc add_diff_inverse_nat nat_add_left_cancel_less)

lemma seg_Cons [simp]: "seg st d (x # xs) \<longleftrightarrow> d < length (sizes st) \<and> sizes st ! d = x \<and> seg st (Suc d) xs"
proof -
  have "seg st d [x] \<longleftrightarrow> d < length (sizes st) \<and> sizes st ! d = x" by (simp add: seg_def)
  with seg_append [of st d "[x]" xs] show ?thesis by simp
qed

lemma seg_depth [simp]: "seg (st\<lparr>save_svalue_depth := e\<rparr>) d xs = seg st d xs"
  by (simp add: seg_def)

lemma doubled_gt: "0 < m \<Longrightarrow> depth < doubled m depth \<and> m \<le> doubled m depth"
  by (induction m depth rule: doubled.induct) (subst (1 2) doubled.simps, auto)

lemma set_size_props:
  "d < length (sizes (set_size d n st))" "length (sizes st) \<le> length (sizes (set_size d n st))"
  "sizes (set_size d n st) ! d = n" "i \<noteq> d \<Longrightarrow> i < length (sizes st) \<Longrightarrow> sizes (set_size d n st) ! i = sizes st ! i"
  "save_svalue_depth (set_size d n st) = save_svalue_depth st"
proof -
  have "d < doubled 128 d" "2 * length (sizes st) \<le> doubled (2 * length (sizes st)) d" "d < doubled (2 * length (sizes st)) d"
    if "sizes st \<noteq> []" using that doubled_gt [of 128 d] doubled_gt [of "2 * length (sizes st)" d] by auto
  moreover have "d < doubled 128 d" using doubled_gt [of 128 d] by simp
  ultimately show "d < length (sizes (set_size d n st))" "length (sizes st) \<le> length (sizes (set_size d n st))"
    "sizes (set_size d n st) ! d = n" "i \<noteq> d \<Longrightarrow> i < length (sizes st) \<Longrightarrow> sizes (set_size d n st) ! i = sizes st ! i"
    "save_svalue_depth (set_size d n st) = save_svalue_depth st"
    by (auto simp: set_size_def Let_def nth_append)
qed

lemma seg_set_size: "seg st e xs \<Longrightarrow> d < e \<Longrightarrow> seg (set_size d n st) e xs"
proof -
  assume *: "seg st e xs" "d < e"
  show ?thesis unfolding seg_def
  proof (intro allI impI)
    fix j assume "j < length xs"
    with * have "e + j < length (sizes st)" "sizes st ! (e + j) = xs ! j" "e + j \<noteq> d" by (auto simp: seg_def)
    with set_size_props(2) [of st d n] set_size_props(4) [of "e + j" d st n]
    show "e + j < length (sizes (set_size d n st)) \<and> sizes (set_size d n st) ! (e + j) = xs ! j" by simp
  qed
qed

definition keeps :: "nat \<Rightarrow> save_state \<Rightarrow> save_state \<Rightarrow> bool" where
  "keeps d st st' \<longleftrightarrow> length (sizes st) \<le> length (sizes st') \<and> (\<forall>i < length (sizes st). i < d \<longrightarrow> sizes st' ! i = sizes st ! i)"

lemma keeps_refl [simp]: "keeps d st st" "keeps d st (st\<lparr>save_svalue_depth := e\<rparr>)"
  by (simp_all add: keeps_def)

lemma keeps_trans: "keeps d st st' \<Longrightarrow> keeps e st' st'' \<Longrightarrow> d \<le> e \<Longrightarrow> keeps d st st''"
  by (auto simp: keeps_def)

lemma keeps_seg: "keeps e st st' \<Longrightarrow> seg st d xs \<Longrightarrow> d + length xs \<le> e \<Longrightarrow> seg st' d xs"
  by (auto simp: keeps_def seg_def)

lemma keeps_set_size: "keeps d (st\<lparr>save_svalue_depth := e\<rparr>) st' \<Longrightarrow> keeps d st (set_size d n st')"
  using set_size_props(2) [of st' d n] set_size_props(4) [of _ d st' n] by (auto simp: keeps_def)

definition scanned_ok :: "save_state \<Rightarrow> int list \<Rightarrow> save_state \<Rightarrow> bool" where
  "scanned_ok st xs st' \<longleftrightarrow> save_svalue_depth st' = save_svalue_depth st + length xs
     \<and> seg st' (save_svalue_depth st) xs \<and> keeps (save_svalue_depth st) st st'"

lemma scanned_ok_refl [simp]: "scanned_ok st [] st"
  by (simp add: scanned_ok_def)

lemma scanned_ok_append: "scanned_ok st xs st1 \<Longrightarrow> scanned_ok st1 ys st2 \<Longrightarrow> scanned_ok st (xs @ ys) st2"
  by (auto simp: scanned_ok_def intro: keeps_trans keeps_seg)

lemma scanned_ok_container:
  "scanned_ok (next_depth st) xs st' \<Longrightarrow> scanned_ok st (n # xs) (set_size (save_svalue_depth st) n st')"
proof -
  let ?D = "save_svalue_depth st"
  assume "scanned_ok (next_depth st) xs st'"
  then have *: "save_svalue_depth st' = Suc (?D + length xs)" "seg st' (Suc ?D) xs" "keeps (Suc ?D) (next_depth st) st'"
    by (simp_all add: scanned_ok_def)
  then have "keeps ?D (next_depth st) st'" by (auto simp: keeps_def)
  from keeps_set_size [OF this] have "keeps ?D st (set_size ?D n st')" .
  moreover have "seg (set_size ?D n st') (Suc ?D) xs" using * by (intro seg_set_size) simp_all
  ultimately show ?thesis using * set_size_props(1,3) [of ?D n st'] by (simp add: scanned_ok_def set_size_props(5))
qed

lemma scanned_ok_value:
  fixes v :: "'r lpc" and vs :: "'r lpc list" and ps :: "('r lpc \<times> 'r lpc) list"
  shows "scanned_ok st (conts v) (scanned v st)"
  "scanned_ok st (conts_items vs) (scanned_items vs st)"
  "scanned_ok st (conts_pairs ps) (scanned_pairs ps st)"
proof (induction v st and vs st and ps st rule: scanned_scanned_items_scanned_pairs.induct)
qed (auto intro: scanned_ok_append scanned_ok_container)

section \<open>Restoring saved text\<close>

definition advance :: "save_state \<Rightarrow> nat \<Rightarrow> save_state" where
  "advance st n = st\<lparr>save_svalue_depth := save_svalue_depth st + n\<rparr>"

lemma advance_simps [simp]: "advance st 0 = st" "advance (advance st m) n = advance st (m + n)"
  "sizes (advance st n) = sizes st" "save_svalue_depth (advance st n) = save_svalue_depth st + n" "seg (advance st n) d xs = seg st d xs"
  by (simp_all add: advance_def add.assoc)

text \<open>A saved value followed by its delimiter is read back wherever it may stand.\<close>

definition reads :: "'r save_config \<Rightarrow> 'r restorer \<Rightarrow> 'r lpc \<Rightarrow> save_state \<Rightarrow> bool" where
  "reads cfg sub v st \<longleftrightarrow>
     (\<forall>cp. (case save_svalue (reals cfg) v @ CHR '','' # cp of [] \<Rightarrow> False | c # cs \<Rightarrow>
            (\<forall>g. restore_item cfg sub g c cs st = (Done (restored v, cp), advance st (length (conts v))))
            \<and> restore_map_value cfg sub c cs st = (Done (restored v, cp), advance st (length (conts v))))
        \<and> (case save_svalue (reals cfg) v @ CHR '':'' # cp of [] \<Rightarrow> False | c # cs \<Rightarrow>
            c \<noteq> CHR '']'' \<and> restore_key cfg sub c cs st = (Done (restored v, cp), advance st (length (conts v)))))"

lemma reads_item:
  assumes "reads cfg sub v st"
  obtains c cs where "save_svalue (reals cfg) v @ CHR '','' # cp = c # cs"
    "restore_item cfg sub g c cs st = (Done (restored v, cp), advance st (length (conts v)))"
    "restore_map_value cfg sub c cs st = (Done (restored v, cp), advance st (length (conts v)))"
  using assms unfolding reads_def by (cases "save_svalue (reals cfg) v @ CHR '','' # cp") (auto dest!: spec [of _ cp])

lemma reads_key:
  assumes "reads cfg sub v st"
  obtains c cs where "save_svalue (reals cfg) v @ CHR '':'' # cp = c # cs" "c \<noteq> CHR '']''"
    "restore_key cfg sub c cs st = (Done (restored v, cp), advance st (length (conts v)))"
  using assms unfolding reads_def by (cases "save_svalue (reals cfg) v @ CHR '':'' # cp") (auto dest!: spec [of _ cp])

lemma reads_numeral:
  assumes "save_svalue (reals cfg) v = c # a" "is_numeral_start c" "conts v = []"
    and "\<And>d cp. d = CHR '','' \<or> d = CHR '':'' \<Longrightarrow> parse_numeric (reals cfg) (a @ d # cp) c = Done (Some (restored v, cp))"
  shows "reads cfg sub v st"
proof -
  have "c \<notin> {QUOTE, CHR ''('', CHR '']'', CHR '':'', CHR '',''}"
  proof (cases "c = CHR ''-''")
    case False
    then have "isdigit c" using assms(2) by (simp add: is_numeral_start_def)
    from isdigit_not_special [OF this] show ?thesis by simp
  qed simp
  then show ?thesis
    using assms by (simp add: reads_def restore_item_def restore_map_value_def restore_key_def restore_numeral_def)
qed

lemma reads_num: "reads cfg sub (Num n) st"
proof -
  obtain c ds where c: "decimal (magnitude n) = c # ds" using decimal_not_Nil by (metis neq_Nil_conv)
  have dg: "isdigit c" using decimal_digits [of "magnitude n"] c by auto
  show ?thesis
  proof (cases "n <s 0")
    case True
    then have r: "- of_nat (magnitude n) = restored_num n" using read_number [of n] by simp
    show ?thesis
      using True parse_numeric_decimal(2) [OF _ c, of _ "reals cfg"] r
      by (intro reads_numeral [where c = "CHR ''-''" and a = "decimal (magnitude n)"])
        (auto simp: is_numeral_start_def ends_def)
  next
    case False
    then have r: "of_nat (magnitude n) = restored_num n" using read_number [of n] by simp
    show ?thesis
      using False dg parse_numeric_decimal(1) [OF _ c, of _ "reals cfg"] r
      by (intro reads_numeral [where c = c and a = ds]) (auto simp: is_numeral_start_def ends_def c)
  qed
qed

lemma reads_real:
  assumes "reads_back (reals cfg) r"
  shows "reads cfg sub (Real r) st"
proof -
  obtain c a where c: "r_format (reals cfg) r = c # a" using assms by (auto simp: reads_back_def neq_Nil_conv)
  show ?thesis
    using assms by (intro reads_numeral [where c = c and a = a]) (auto simp: reads_back_def c ends_def)
qed

lemma reads_string: "no_nul s \<Longrightarrow> reads cfg sub (Str s) st"
  by (simp add: reads_def restore_item_def restore_map_value_def restore_key_def restore_interior_string_def
      restore_hash_string_def scan_string_saved copied_saved)

lemma reads_other: "reads cfg sub Other st"
  by (simp add: reads_def restore_item_def restore_map_value_def restore_key_def is_numeral_start_def)

lemma reads_container:
  assumes "save_svalue (reals cfg) v = CHR ''('' # b # a" "b \<in> {CHR ''['', CHR ''{'', CHR ''/''}"
    and "\<And>cp. sub b (a @ cp) (advance st 1) = (Done (Some (restored v), cp), advance st (length (conts v)))"
  shows "reads cfg sub v st"
proof -
  have "restore_nested sub g (b # a @ d # cp) st = (Done (restored v, cp), advance st (length (conts v)))" for g d cp
    using assms(2,3) by (auto simp: restore_nested_def advance_def)
  then show ?thesis
    by (simp add: reads_def assms(1) restore_item_def restore_map_value_def restore_key_def)
qed

lemma put_entry_fresh: "\<forall>p \<in> set m. \<not> eq key (fst p) \<Longrightarrow> put_entry eq key value m = None"
  by (induction m) auto

lemma length_restored_pairs [simp]: "length (restored_pairs ps) = length ps"
  by (induction ps) auto

lemma save_pairs_length: "length ps \<le> length (save_pairs ops ps)"
  by (induction ps) auto

lemma restore_saved:
  "storable cfg v \<Longrightarrow> length (save_svalue (reals cfg) v) \<le> fuel \<Longrightarrow> seg st (save_svalue_depth st) (conts v)
    \<Longrightarrow> reads cfg (restore_container cfg fuel) v st"
  "storable_items cfg vs \<Longrightarrow> length (save_items (reals cfg) vs) \<le> fuel \<Longrightarrow> seg st (save_svalue_depth st) (conts_items vs)
    \<Longrightarrow> items_loop cfg (restore_container cfg fuel) g (length vs) (save_items (reals cfg) vs @ cp) acc st
      = (Done (acc @ restored_items vs, cp), advance st (length (conts_items vs)))"
  "storable_pairs cfg ps \<Longrightarrow> length (save_pairs (reals cfg) ps) \<le> fuel \<Longrightarrow> length ps < n \<Longrightarrow> seg st (save_svalue_depth st) (conts_pairs ps)
    \<Longrightarrow> sorted_wrt (\<lambda>p q. \<not> same cfg (fst q) (fst p)) (rev m @ restored_pairs ps)
    \<Longrightarrow> int (length m + length ps) \<le> max_mapping_size cfg
    \<Longrightarrow> mapping_loop cfg (restore_container cfg fuel) n (save_pairs (reals cfg) ps @ CHR '']'' # CHR '')'' # cp) m st
      = (Done (Some (Map (rev (restored_pairs ps) @ m)), cp), advance st (length (conts_pairs ps)))"
proof (induction cfg v and cfg vs and cfg ps arbitrary: fuel st and fuel st cp acc g and fuel st cp m n
    rule: storable_storable_items_storable_pairs.induct)
  case (1 cfg vs)
  then obtain f where f: "fuel = Suc f" by (cases fuel) auto
  let ?st = "advance st 1"
  have "items_loop cfg (restore_container cfg f) ROB_ARRAY_ERROR (length vs) (save_items (reals cfg) vs @ cp) [] ?st
      = (Done ([] @ restored_items vs, cp), advance ?st (length (conts_items vs)))" for cp
    using "1.prems" by (intro "1.IH") (simp_all add: f)
  then show ?case
    using "1.prems" by (intro reads_container) (auto simp: f restore_array_def size_ahead_def)
next
  case (2 cfg vs)
  then obtain f where f: "fuel = Suc f" by (cases fuel) auto
  let ?st = "advance st 1"
  have "items_loop cfg (restore_container cfg f) ROB_CLASS_ERROR (length vs) (save_items (reals cfg) vs @ cp) [] ?st
      = (Done ([] @ restored_items vs, cp), advance ?st (length (conts_items vs)))" for cp
    using "2.prems" by (intro "2.IH") (simp_all add: f)
  then show ?case
    using "2.prems" by (intro reads_container) (auto simp: f restore_class_def size_ahead_def)
next
  case (3 cfg ps)
  then obtain f where f: "fuel = Suc f" by (cases fuel) auto
  let ?st = "advance st 1"
  have "length ps < f" using "3.prems"(2) save_pairs_length [of ps "reals cfg"] by (simp add: f)
  then have "mapping_loop cfg (restore_container cfg f) f (save_pairs (reals cfg) ps @ CHR '']'' # CHR '')'' # cp) [] ?st
      = (Done (Some (Map (rev (restored_pairs ps) @ [])), cp), advance ?st (length (conts_pairs ps)))" for cp
    using "3.prems" by (intro "3.IH") (simp_all add: f)
  then show ?case
    using "3.prems" by (intro reads_container) (auto simp: f restore_mapping_def size_ahead_def)
next
  case (4 cfg n)
  show ?case by (rule reads_num)
next
  case (5 cfg s)
  then show ?case by (intro reads_string) simp
next
  case (6 cfg r)
  then show ?case by (intro reads_real) simp
next
  case (7 cfg)
  show ?case by (rule reads_other)
next
  case (8 cfg)
  show ?case by simp
next
  case (9 cfg v vs)
  have "reads cfg (restore_container cfg fuel) v st" using "9.prems" by (intro "9.IH"(1)) simp_all
  moreover have "items_loop cfg (restore_container cfg fuel) g (length vs) (save_items (reals cfg) vs @ cp) (acc @ [restored v]) (advance st (length (conts v)))
      = (Done ((acc @ [restored v]) @ restored_items vs, cp), advance (advance st (length (conts v))) (length (conts_items vs)))"
    using "9.prems" by (intro "9.IH"(2)) simp_all
  moreover from calculation obtain c cs where c: "save_svalue (reals cfg) v @ CHR '','' # save_items (reals cfg) vs @ cp = c # cs"
    "restore_item cfg (restore_container cfg fuel) g c cs st
      = (Done (restored v, save_items (reals cfg) vs @ cp), advance st (length (conts v)))"
    using reads_item by blast
  ultimately show ?case by simp
next
  case (10 cfg)
  then show ?case by (cases n) simp_all
next
  case (11 cfg k v ps)
  then obtain n' where n: "n = Suc n'" by (cases n) auto
  let ?sub = "restore_container cfg fuel"
  let ?r = "save_pairs (reals cfg) ps @ CHR '']'' # CHR '')'' # cp"
  let ?q = "save_svalue (reals cfg) v @ CHR '','' # ?r"
  let ?s1 = "advance st (length (conts k))"
  let ?s2 = "advance ?s1 (length (conts v))"
  have "reads cfg ?sub k st" using "11.prems" by (intro "11.IH"(1)) simp_all
  then obtain c cs where k: "save_svalue (reals cfg) k @ CHR '':'' # ?q = c # cs" "c \<noteq> CHR '']''"
    "restore_key cfg ?sub c cs st = (Done (restored k, ?q), ?s1)" by (rule reads_key)
  have "reads cfg ?sub v ?s1" using "11.prems" by (intro "11.IH"(2)) simp_all
  then obtain d ds where v: "?q = d # ds" "restore_map_value cfg ?sub d ds ?s1 = (Done (restored v, ?r), ?s2)"
    by (rule reads_item)
  have "put_entry (same cfg) (restored k) (restored v) m = None"
    using "11.prems"(5) by (intro put_entry_fresh) (auto simp: sorted_wrt_append)
  moreover have "mapping_loop cfg ?sub n' ?r ((restored k, restored v) # m) ?s2
      = (Done (Some (Map (rev (restored_pairs ps) @ (restored k, restored v) # m)), cp), advance ?s2 (length (conts_pairs ps)))"
    using "11.prems" by (intro "11.IH"(3)) (simp_all add: n add.assoc)
  moreover have "int (length m) + 1 \<le> max_mapping_size cfg" using "11.prems"(6) by simp
  moreover have "save_pairs (reals cfg) ((k, v) # ps) @ CHR '']'' # CHR '')'' # cp = c # cs" using k(1) by simp
  ultimately show ?case using k(2,3) v by (simp add: n add.assoc)
qed

text \<open>The top level, where the sizes are found by scanning ahead.\<close>

lemma size_saved_items:
  "storable_items cfg vs \<Longrightarrow> length (save_items (reals cfg) vs) < fuel \<Longrightarrow> e = CHR ''}'' \<or> e = CHR ''/''
    \<Longrightarrow> size_loop fuel (save_items (reals cfg) vs @ e # CHR '')'' # cp) False sz False st
      = (Done (sz + int (length vs), cp), (scanned_items vs st)\<lparr>save_svalue_depth := 0\<rparr>)"
proof (induction vs arbitrary: fuel sz st)
  case Nil
  then show ?case by (cases fuel) (auto simp: next_token_def expect_def next_delim_def)
next
  case (Cons v vs)
  then obtain f where f: "fuel = Suc f" by (cases fuel) auto
  have v: "next_token (\<lambda>cp m d. internal_size f cp m d 0 False) (CHR '','') (save_svalue (reals cfg) v @ CHR '','' # q) st
      = (Done (Item q), scanned v st)" for q
    using Cons.prems by (intro scan_saved(1)) (simp_all add: f)
  have r: "size_loop f (save_items (reals cfg) vs @ e # CHR '')'' # cp) False (sz + 1) False (scanned v st)
      = (Done (sz + 1 + int (length vs), cp), (scanned_items vs (scanned v st))\<lparr>save_svalue_depth := 0\<rparr>)"
    using Cons.prems by (intro Cons.IH) (simp_all add: f)
  show ?case using r by (simp add: f next_delim_def v add.assoc)
qed

lemma size_saved_pairs:
  "storable_pairs cfg ps \<Longrightarrow> length (save_pairs (reals cfg) ps) < fuel
    \<Longrightarrow> size_loop fuel (save_pairs (reals cfg) ps @ CHR '']'' # CHR '')'' # cp) True sz False st
      = (Done (sz + 2 * int (length ps), cp), (scanned_pairs ps st)\<lparr>save_svalue_depth := 0\<rparr>)"
proof (induction ps arbitrary: fuel sz st)
  case Nil
  then show ?case by (cases fuel) (auto simp: next_token_def expect_def next_delim_def)
next
  case (Cons p ps)
  obtain k v where p: "p = (k, v)" by fastforce
  with Cons obtain g where f: "fuel = Suc (Suc g)" by (cases fuel; cases "fuel - 1") auto
  have k: "next_token (\<lambda>cp m d. internal_size (Suc g) cp m d 0 False) (CHR '':'') (save_svalue (reals cfg) k @ CHR '':'' # q) st
      = (Done (Item q), scanned k st)" for q
    using Cons.prems by (intro scan_saved(1)) (simp_all add: f p)
  have v: "next_token (\<lambda>cp m d. internal_size g cp m d 0 False) (CHR '','') (save_svalue (reals cfg) v @ CHR '','' # q) (scanned k st)
      = (Done (Item q), scanned v (scanned k st))" for q
    using Cons.prems by (intro scan_saved(1)) (simp_all add: f p)
  have r: "size_loop g (save_pairs (reals cfg) ps @ CHR '']'' # CHR '')'' # cp) True (sz + 1 + 1) False (scanned v (scanned k st))
      = (Done (sz + 1 + 1 + 2 * int (length ps), cp), (scanned_pairs ps (scanned v (scanned k st)))\<lparr>save_svalue_depth := 0\<rparr>)"
    using Cons.prems by (intro Cons.IH) (simp_all add: f p)
  show ?case using r by (simp add: f p next_delim_def k v add.assoc)
qed

definition reset_depth :: "save_state \<Rightarrow> save_state" where
  "reset_depth st = st\<lparr>save_svalue_depth := 0\<rparr>"

lemma reset_depth_simps [simp]: "save_svalue_depth (reset_depth st) = 0" "seg (reset_depth st) d xs = seg st d xs"
  by (simp_all add: reset_depth_def)

lemma restore_container_saved:
  assumes "storable cfg v" "save_svalue (reals cfg) v = CHR ''('' # b # a" "length a < fuel" "save_svalue_depth st = 0"
    and "b \<in> {CHR ''['', CHR ''{'', CHR ''/''}"
  shows "\<exists>cp' st'. restore_container cfg (Suc fuel) b (a @ cp) st = (Done (Some (restored v), cp'), st')"
proof -
  have s: "seg (reset_depth (scanned_items vs st)) 0 (conts_items vs)" "seg (reset_depth (scanned_pairs ps st)) 0 (conts_pairs ps)"
    for vs :: "'a lpc list" and ps :: "('a lpc \<times> 'a lpc) list"
    using scanned_ok_value(2) [of st vs] scanned_ok_value(3) [of st ps] assms(4) by (simp_all add: scanned_ok_def)
  have it: "items_loop cfg (restore_container cfg fuel) g (length vs) (save_items (reals cfg) vs @ cp) [] (reset_depth (scanned_items vs st))
      = (Done ([] @ restored_items vs, cp), advance (reset_depth (scanned_items vs st)) (length (conts_items vs)))"
    if "storable_items cfg vs" "length (save_items (reals cfg) vs) < fuel" for vs g cp
    using that s by (intro restore_saved(2)) simp_all
  consider (Arr) vs where "v = Arr vs" | (Cls) vs where "v = Cls vs" | (Map) ps where "v = Map ps"
  proof -
    have "decimal n \<noteq> CHR ''('' # x" for n x
      using decimal_digits [of n] by (cases "decimal n") auto
    then have n: "save_svalue (reals cfg) (Num n) \<noteq> CHR ''('' # x" for n x by simp
    have r: "r_format (reals cfg) r \<noteq> CHR ''('' # x" if "storable cfg (Real r)" for r x
    proof
      assume "r_format (reals cfg) r = CHR ''('' # x"
      moreover have "is_numeral_start (hd (r_format (reals cfg) r))" using that unfolding storable.simps reads_back_def by blast
      ultimately show False by (simp add: is_numeral_start_def)
    qed
    have "\<exists>vs ps. v = Arr vs \<or> v = Cls vs \<or> v = Map ps"
    proof (cases v)
      case (Num k)
      with n [of k] assms(2) show ?thesis by simp
    next
      case (Real k)
      with r [of k] assms(1,2) show ?thesis by simp
    qed (use assms(2) in simp_all)
    with that show ?thesis by blast
  qed
  then show ?thesis
  proof cases
    case Arr
    then have *: "storable_items cfg vs" "length (save_items (reals cfg) vs) < fuel" "b = CHR ''{''"
      "a = save_items (reals cfg) vs @ ''})''" using assms(1-3) by auto
    show ?thesis
      using assms(1,4) it [OF *(1,2)] size_saved_items [OF *(1,2), of "CHR ''}''" cp 0 st]
      by (simp add: * Arr restore_array_def size_ahead_def restore_size_def reset_depth_def)
  next
    case Cls
    then have *: "storable_items cfg vs" "length (save_items (reals cfg) vs) < fuel" "b = CHR ''/''"
      "a = save_items (reals cfg) vs @ ''/)''" using assms(1-3) by auto
    show ?thesis
      using assms(1,4) it [OF *(1,2)] size_saved_items [OF *(1,2), of "CHR ''/''" cp 0 st]
      by (simp add: * Cls restore_class_def size_ahead_def restore_size_def reset_depth_def)
  next
    case Map
    then have *: "storable_pairs cfg ps" "length (save_pairs (reals cfg) ps) < fuel" "b = CHR ''[''"
      "a = save_pairs (reals cfg) ps @ ''])''" using assms(1-3) by auto
    have "length ps < fuel" using *(2) save_pairs_length [of ps "reals cfg"] by simp
    then have "mapping_loop cfg (restore_container cfg fuel) fuel (save_pairs (reals cfg) ps @ CHR '']'' # CHR '')'' # cp) [] (reset_depth (scanned_pairs ps st))
      = (Done (Some (Map (rev (restored_pairs ps) @ [])), cp), advance (reset_depth (scanned_pairs ps st)) (length (conts_pairs ps)))"
      using * s assms(1) Map by (intro restore_saved(3)) simp_all
    then show ?thesis
      using assms(1,4) size_saved_pairs [OF *(1,2), of cp 0 st]
      by (auto simp: * Map restore_mapping_def size_ahead_def restore_size_def reset_depth_def)
  qed
qed

lemma restore_top_saved:
  assumes "storable cfg v" "length (save_svalue (reals cfg) v) < fuel" "save_svalue_depth st = 0"
  shows "\<exists>st'. restore_top cfg fuel (save_svalue (reals cfg) v @ NUL # behind) st = (Done (Some (restored v)), st') \<and> save_svalue_depth st' = 0"
proof -
  have num: ?thesis if "save_svalue (reals cfg) v = c # a" "is_numeral_start c"
    "parse_numeric (reals cfg) (a @ NUL # behind) c = Done (Some (restored v, behind))" for c a
  proof -
    have "c \<notin> {QUOTE, CHR ''(''}"
      using that(2) isdigit_not_special [of c] by (cases "c = CHR ''-''") (simp_all add: is_numeral_start_def)
    with that assms(3) show ?thesis by (simp add: restore_top_def restore_numeral_def)
  qed
  have cont: ?thesis if "save_svalue (reals cfg) v = CHR ''('' # b # a" "b \<in> {CHR ''['', CHR ''{'', CHR ''/''}" for b a
  proof -
    have "length (save_svalue (reals cfg) v) = length a + 2" using that(1) by simp
    with assms(2) obtain f where f: "fuel = Suc f" "length a < f" by (cases fuel) auto
    from restore_container_saved [OF assms(1) that(1) f(2) assms(3) that(2)] obtain cp' st' where
      "restore_container cfg (Suc f) b (a @ NUL # behind) st = (Done (Some (restored v), cp'), st')" by blast
    with that show ?thesis by (simp add: restore_top_def f(1))
  qed
  show ?thesis
  proof (cases v)
    case (Num n)
    obtain c ds where c: "decimal (magnitude n) = c # ds" using decimal_not_Nil by (metis neq_Nil_conv)
    have dg: "isdigit c" using decimal_digits [of "magnitude n"] c by auto
    have "ends NUL" by (simp add: ends_def)
    note p = parse_numeric_decimal [OF this c, of "reals cfg" behind]
    show ?thesis
    proof (cases "n <s 0")
      case True
      then have "- of_nat (magnitude n) = restored_num n" using read_number [of n] by simp
      then show ?thesis
        using True p(2) by (intro num [where c = "CHR ''-''" and a = "decimal (magnitude n)"]) (simp_all add: Num is_numeral_start_def)
    next
      case False
      then have "of_nat (magnitude n) = restored_num n" using read_number [of n] by simp
      then show ?thesis
        using False p(1) dg by (intro num [where c = c and a = ds]) (simp_all add: Num is_numeral_start_def c)
    qed
  next
    case (Str s)
    with assms show ?thesis by (simp add: restore_top_def restore_string_def scan_string_saved copied_saved)
  next
    case (Real r)
    then have r: "reads_back (reals cfg) r" using assms(1) by simp
    then obtain c a where c: "r_format (reals cfg) r = c # a" by (auto simp: reads_back_def neq_Nil_conv)
    show ?thesis
      using r by (intro num [where c = c and a = a]) (auto simp: Real c reads_back_def ends_def)
  next
    case Other
    with assms(3) show ?thesis by (simp add: restore_top_def is_numeral_start_def)
  next
    case (Arr vs)
    show ?thesis by (rule cont [where b = "CHR ''{''" and a = "save_items (reals cfg) vs @ ''})''"]) (simp_all add: Arr)
  next
    case (Cls vs)
    show ?thesis by (rule cont [where b = "CHR ''/''" and a = "save_items (reals cfg) vs @ ''/)''"]) (simp_all add: Cls)
  next
    case (Map ps)
    show ?thesis by (rule cont [where b = "CHR ''[''" and a = "save_pairs (reals cfg) ps @ ''])''"]) (simp_all add: Map)
  qed
qed

section \<open>Properties of values\<close>



text \<open>After a value nested too deep has been refused, the next array, class or mapping that is
  restored makes the driver crash: the depth counter is still 26, so the size of the container is
  read from \<open>sizes\<close>, which is a null pointer.\<close>

theorem too_deep_save_breaks_restore:
  assumes "nesting v > MAX_SAVE_SVALUE_DEPTH" and "save_variable ops v = (r, d)" and "c \<in> {CHR ''['', CHR ''{'', CHR ''/''}"
    and "1 < fuel"
  shows "r = Error Too_deep \<and> fst (restore_svalue cfg fuel (CHR ''('' # c # cp) old \<lparr>save_svalue_depth = d, sizes = []\<rparr>) = Crash"
proof -
  have "r = Error Too_deep" "d = 26"
    using assms(1,2) by (auto simp: save_variable_def save_size_result MAX_SAVE_SVALUE_DEPTH_def)
  moreover obtain f where "fuel = Suc f" using assms(4) by (cases fuel) auto
  ultimately show ?thesis using assms(3)
    by (auto simp: restore_svalue_def restore_top_def restore_mapping_def restore_array_def restore_class_def size_ahead_def)
qed

lemma scan_escaped_runs_on: "QUOTE \<notin> set t \<Longrightarrow> BACKSLASH \<notin> set t \<Longrightarrow> scan_escaped (t @ r) new = scan_escaped r (new @ cr_to_lf t)"
  by (induction t arbitrary: new) (auto simp: cr_to_lf_def)

lemma scan_string_plain:
  "QUOTE \<notin> set a \<Longrightarrow> BACKSLASH \<notin> set a \<Longrightarrow> no_nul a \<Longrightarrow> scan_string (a @ r) new = scan_string r (new @ cr_to_lf a)"
  by (induction a arbitrary: new) (auto simp: cr_to_lf_def no_nul_def)

text \<open>A string whose closing quote is missing is an error as long as no character in it is escaped;
  after an escaped one the search for the quote does not stop at the end of the text and runs
  through whatever memory is behind it.\<close>

theorem unterminated_string_overrun:
  assumes "QUOTE \<notin> set (a @ b @ behind)" and "BACKSLASH \<notin> set (a @ b @ behind)" and "no_nul (a @ b)" and "c \<noteq> NUL"
  shows "fst (restore_svalue cfg fuel (QUOTE # a @ [NUL] @ behind) old st) = Rob ROB_STRING_ERROR
    \<and> fst (restore_svalue cfg fuel (QUOTE # a @ [BACKSLASH, c] @ b @ [NUL] @ behind) old st) = Crash"
proof -
  have "scan_string (a @ NUL # behind) [] = Rob ROB_STRING_ERROR"
    using assms by (subst scan_string_plain) (auto simp: no_nul_def)
  moreover have "scan_string (a @ BACKSLASH # c # b @ NUL # behind) [] = Crash"
  proof -
    have "scan_escaped ((b @ NUL # behind) @ []) new = Crash" for new
      by (subst scan_escaped_runs_on) (use assms in auto)
    then have e: "scan_escaped (b @ NUL # behind) new = Crash" for new by simp
    show ?thesis using assms e by (subst scan_string_plain) (auto simp: no_nul_def)
  qed
  ultimately show ?thesis by (simp add: restore_svalue_def restore_top_def restore_string_def)
qed

section \<open>Saving and restoring objects\<close>

text \<open>All variables of a program with their types, in the order of the object's values.\<close>

fun flat :: "program \<Rightarrow> 16 word \<Rightarrow> (string \<times> 16 word) list" and flat_inherits :: "(program \<times> 16 word) list \<Rightarrow> 16 word \<Rightarrow> (string \<times> 16 word) list" where
  "flat (Program inh vars) t = flat_inherits inh t @ map (\<lambda>(x, t'). (x, or t' t)) vars"
| "flat_inherits [] t = []"
| "flat_inherits ((p, m) # inh) t = flat p (or m t) @ flat_inherits inh t"

lemma is_static_or [simp]: "is_static (or a b) \<longleftrightarrow> is_static a \<or> is_static b"
  by (auto simp: is_static_def NAME_STATIC_def bit_eq_iff bit_simps)

lemma is_static_0 [simp]: "\<not> is_static 0"
  by (simp add: is_static_def)

definition statics :: "(string \<times> 16 word) list \<Rightarrow> bool list" where
  "statics l = map (\<lambda>v. is_static (snd v)) l"

lemma statics_simps [simp]: "statics [] = []" "statics (a @ b) = statics a @ statics b" "length (statics l) = length l"
  "i < length l \<Longrightarrow> statics l ! i = is_static (snd (l ! i))"
  by (simp_all add: statics_def)

lemma flat_type:
  fixes t0 t1 :: "16 word"
  shows "map fst (flat p t) = map fst (flat p 0) \<and> statics (flat p t) = map (\<lambda>b. b \<or> is_static t) (statics (flat p 0))"
  "map fst (flat_inherits inh t) = map fst (flat_inherits inh 0)
    \<and> statics (flat_inherits inh t) = map (\<lambda>b. b \<or> is_static t) (statics (flat_inherits inh 0))"
proof (induction p t0 and inh t1 arbitrary: t and t rule: flat_flat_inherits.induct)
  case (1 inh vars t0)
  from 1 [of t] show ?case by (simp add: statics_def case_prod_beta comp_def)
next
  case (3 p m inh t0)
  from "3.IH"(1) [of "or m t"] "3.IH"(1) [of m] "3.IH"(2) [of t] show ?case
    by (simp add: comp_def disj_commute disj_left_commute disj_assoc)
qed simp

lemma length_flat: "length (flat p t) = length (flat p 0)" "length (flat_inherits inh t) = length (flat_inherits inh 0)"
  using arg_cong [OF conjunct1 [OF flat_type(1) [of p t]], of length] arg_cong [OF conjunct1 [OF flat_type(2) [of inh t]], of length]
  by simp_all

text \<open>What \<open>find_global_variable\<close> finds.\<close>

lemma own_index_found:
  "distinct (map fst vars) \<Longrightarrow> i < length vars \<Longrightarrow> own_index vars idx (fst (vars ! i)) = Some (idx + i, snd (vars ! i))"
proof (induction vars arbitrary: idx i)
  case (Cons a vars)
  obtain x t where a: "a = (x, t)" by fastforce
  show ?case
  proof (cases i)
    case (Suc j)
    with Cons.prems have "fst (vars ! j) \<in> fst ` set vars" by simp
    with Cons.prems(1) a have "x \<noteq> fst (vars ! j)" by auto
    with Suc Cons a show ?thesis by simp
  qed (simp add: a)
qed simp

lemma own_index_None: "x \<notin> fst ` set vars \<Longrightarrow> own_index vars idx x = None"
  by (induction vars arbitrary: idx) auto

lemma fgv_None:
  "x \<notin> set (map fst (flat p t)) \<Longrightarrow> fgv_recurse p idx x = (idx + length (flat p 0), None)"
  "x \<notin> set (map fst (flat_inherits inh t)) \<Longrightarrow> fgv_inherits inh idx x = (idx + length (flat_inherits inh 0), None)"
proof (induction p t and inh t arbitrary: idx and idx rule: flat_flat_inherits.induct)
  case (1 inh vars t)
  have "x \<notin> set (map fst (flat_inherits inh t))" "x \<notin> fst ` set vars" using "1.prems" by (auto simp: image_iff case_prod_beta)
  with 1 own_index_None show ?case by simp
next
  case (3 p m inh t)
  have "x \<notin> set (map fst (flat p (or m t)))" "x \<notin> set (map fst (flat_inherits inh t))" using "3.prems" by auto
  with 3 length_flat(1) [of p m] show ?case by simp
qed simp

lemma fgv_found:
  "distinct (map fst (flat p t)) \<Longrightarrow> i < length (flat p t) \<Longrightarrow>
    \<exists>t'. fgv_recurse p idx (fst (flat p t ! i)) = (idx + i, Some t') \<and> (is_static t' \<or> is_static t \<longleftrightarrow> statics (flat p t) ! i)"
  "distinct (map fst (flat_inherits inh t)) \<Longrightarrow> i < length (flat_inherits inh t) \<Longrightarrow>
    \<exists>t'. fgv_inherits inh idx (fst (flat_inherits inh t ! i)) = (idx + i, Some t')
      \<and> (is_static t' \<or> is_static t \<longleftrightarrow> statics (flat_inherits inh t) ! i)"
proof (induction p t and inh t arbitrary: idx i and idx i rule: flat_flat_inherits.induct)
  case (1 inh vars t)
  let ?I = "flat_inherits inh t"
  show ?case
  proof (cases "i < length ?I")
    case True
    with "1.prems" "1.IH" [of i idx] show ?thesis by (auto simp: nth_append)
  next
    case False
    let ?j = "i - length ?I"
    have j: "?j < length vars" using False "1.prems"(2) by simp
    have x: "fst (flat (Program inh vars) t ! i) = fst (vars ! ?j)" using False j by (simp add: nth_append case_prod_beta)
    have "distinct (map fst vars)" using "1.prems"(1) by (simp add: comp_def case_prod_beta)
    note f = own_index_found [OF this j]
    have "fst (vars ! ?j) \<in> fst ` set vars" using j by simp
    then have "fst (vars ! ?j) \<notin> set (map fst ?I)" using "1.prems"(1) by (auto simp: image_iff case_prod_beta)
    note n = fgv_None(2) [OF this, of idx]
    have "fgv_recurse (Program inh vars) idx (fst (vars ! ?j)) = (idx + i, Some (snd (vars ! ?j)))"
      unfolding fgv_recurse.simps n prod.case option.case f using False length_flat(2) [of inh t] by simp
    moreover have "statics (flat (Program inh vars) t) ! i \<longleftrightarrow> is_static (snd (vars ! ?j)) \<or> is_static t"
      using False j by (simp add: nth_append case_prod_beta)
    ultimately show ?thesis unfolding x by blast
  qed
next
  case (3 p m inh t)
  let ?P = "flat p (or m t)"
  show ?case
  proof (cases "i < length ?P")
    case True
    then obtain t' where "fgv_recurse p idx (fst (?P ! i)) = (idx + i, Some t')"
      "is_static t' \<or> is_static (or m t) \<longleftrightarrow> statics ?P ! i" using "3.prems" "3.IH"(1) [of i idx] by auto
    then show ?thesis using True by (auto simp: nth_append)
  next
    case False
    let ?j = "i - length ?P"
    have j: "?j < length (flat_inherits inh t)" using False "3.prems"(2) by simp
    have x: "flat_inherits ((p, m) # inh) t ! i = flat_inherits inh t ! ?j" using False by (simp add: nth_append)
    have "fst (flat_inherits inh t ! ?j) \<in> set (map fst (flat_inherits inh t))" using j by simp
    then have "fst (flat_inherits inh t ! ?j) \<notin> set (map fst ?P)" using "3.prems"(1) by auto
    note n = fgv_None(1) [OF this, of idx]
    from "3.prems"(1) j "3.IH"(2) [of ?j "idx + length (flat p 0)"] obtain t' where t':
      "fgv_inherits inh (idx + length (flat p 0)) (fst (flat_inherits inh t ! ?j)) = (idx + length (flat p 0) + ?j, Some t')"
      "is_static t' \<or> is_static t \<longleftrightarrow> statics (flat_inherits inh t) ! ?j" by auto
    have "fgv_inherits ((p, m) # inh) idx (fst (flat_inherits inh t ! ?j)) = (idx + i, Some t')"
      unfolding fgv_inherits.simps n prod.case option.case t'(1) using False length_flat(1) [of p "or m t"] by simp
    moreover have "statics (flat_inherits ((p, m) # inh) t) ! i = statics (flat_inherits inh t) ! ?j"
      using False by (simp add: nth_append)
    ultimately show ?thesis unfolding x using t'(2) by blast
  qed
qed simp

lemma find_variable:
  assumes "distinct (map fst (flat p 0))" "i < length (flat p 0)" "known (fst (flat p 0 ! i))"
  shows "\<exists>t. find_global_variable known p (fst (flat p 0 ! i)) = Some (i, t) \<and> (is_static t \<longleftrightarrow> statics (flat p 0) ! i)"
proof -
  from fgv_found(1) [OF assms(1,2), of 0] obtain t' where
    t': "fgv_recurse p 0 (fst (flat p 0 ! i)) = (i, Some t')" "is_static t' \<longleftrightarrow> statics (flat p 0) ! i" by auto
  have "and (not NAME_PRIVATE) NAME_STATIC = NAME_STATIC" by (simp add: NAME_STATIC_def NAME_PRIVATE_def)
  then have "is_static (and t' (not NAME_PRIVATE)) \<longleftrightarrow> is_static t'" by (simp add: is_static_def and.assoc)
  then show ?thesis using t' assms(3) by (simp add: find_global_variable_def)
qed

text \<open>The lines \<open>save_object_recurse\<close> writes.\<close>

fun saved_lines :: "'r real_ops \<Rightarrow> bool \<Rightarrow> (string \<times> 16 word) list \<Rightarrow> 'r lpc list \<Rightarrow> string" where
  "saved_lines ops save_zeros ((x, t) # l) (v # vs) =
     (if is_static t \<or> (\<not> save_zeros \<and> save_svalue ops v = ''0'') then [] else x @ '' '' @ save_svalue ops v @ [LF])
     @ saved_lines ops save_zeros l vs"
| "saved_lines ops save_zeros _ _ = []"

definition shallow :: "string \<times> 16 word \<Rightarrow> 'r lpc \<Rightarrow> bool" where
  "shallow x v \<longleftrightarrow> is_static (snd x) \<or> nesting v \<le> MAX_SAVE_SVALUE_DEPTH"

lemma shallow_pair [simp]: "shallow (x, t) v \<longleftrightarrow> is_static t \<or> nesting v \<le> MAX_SAVE_SVALUE_DEPTH"
  by (simp add: shallow_def)

lemma split_length: "length vs = m + n \<Longrightarrow> \<exists>x y. vs = x @ y \<and> length x = m \<and> length y = n"
  by (rule exI [of _ "take m vs"], rule exI [of _ "drop m vs"]) simp

lemma saved_lines_append:
  "length a = length vs \<Longrightarrow> saved_lines ops z (a @ b) (vs @ ws) = saved_lines ops z a vs @ saved_lines ops z b ws"
  by (induction a vs rule: list_induct2) auto

lemma saved_lines_static:
  "\<forall>x \<in> set l. is_static (snd x) \<Longrightarrow> saved_lines ops z l vs = []"
  by (induction ops z l vs rule: saved_lines.induct) auto

lemma save_own_lines:
  "list_all2 shallow (map (\<lambda>(x, t'). (x, or t' t)) vars) vs \<Longrightarrow> \<not> is_static t \<Longrightarrow>
    \<exists>d'. save_own ops z vars (vs @ r) d = (Done (saved_lines ops z (map (\<lambda>(x, t'). (x, or t' t)) vars) vs, r), d')"
proof (induction vars arbitrary: vs d)
  case (Cons a vars)
  obtain x t' where a: "a = (x, t')" by fastforce
  with Cons.prems obtain v ws where vs: "vs = v # ws" "list_all2 shallow (map (\<lambda>(x, t'). (x, or t' t)) vars) ws"
    "is_static t' \<or> nesting v \<le> MAX_SAVE_SVALUE_DEPTH"
    by (auto simp: list_all2_Cons1)
  show ?case
  proof (cases "is_static t'")
    case True
    with Cons.IH [OF vs(2) Cons.prems(2), of d] show ?thesis by (simp add: a vs(1))
  next
    case False
    with vs(3) have "save_variable ops v = (Done (save_svalue ops v), 0)"
      by (simp add: save_variable_def save_size_result MAX_SAVE_SVALUE_DEPTH_def)
    with Cons.IH [OF vs(2) Cons.prems(2), of 0] False Cons.prems(2) show ?thesis by (auto simp: a vs(1) Let_def)
  qed
qed simp

lemma save_object_lines:
  "list_all2 shallow (flat p t) vs \<Longrightarrow>
    \<exists>d'. save_object_recurse ops z p t (vs @ r) d = (Done (saved_lines ops z (flat p t) vs, r), d')"
  "list_all2 shallow (flat_inherits inh t) vs \<Longrightarrow>
    \<exists>d'. save_inherits ops z inh t (vs @ r) d = (Done (saved_lines ops z (flat_inherits inh t) vs, r), d')"
proof (induction p t and inh t arbitrary: vs r d and vs r d rule: flat_flat_inherits.induct)
  case (1 inh vars t)
  let ?m = "map (\<lambda>(x, t'). (x, or t' t)) vars"
  from "1.prems" obtain a b where ab: "vs = a @ b" "list_all2 shallow (flat_inherits inh t) a" "list_all2 shallow ?m b"
    by (auto simp: list_all2_append1)
  from "1.IH" [OF ab(2), of "b @ r" d] obtain d1 where
    d1: "save_inherits ops z inh t (a @ b @ r) d = (Done (saved_lines ops z (flat_inherits inh t) a, b @ r), d1)" by auto
  have l: "saved_lines ops z (flat (Program inh vars) t) vs = saved_lines ops z (flat_inherits inh t) a @ saved_lines ops z ?m b"
    using ab(2) by (simp add: ab(1) saved_lines_append list_all2_lengthD)
  show ?case
  proof (cases "is_static t")
    case True
    have "length b = length vars" using ab(3) by (auto dest: list_all2_lengthD)
    moreover have "saved_lines ops z ?m b = []" using True by (intro saved_lines_static) auto
    ultimately show ?thesis using True d1 l by (simp add: ab(1))
  next
    case False
    from save_own_lines [OF ab(3) False, of ops z r d1] d1 l False show ?thesis by (auto simp: ab(1))
  qed
next
  case (3 p m inh t)
  from "3.prems" obtain a b where ab: "vs = a @ b" "list_all2 shallow (flat p (or m t)) a" "list_all2 shallow (flat_inherits inh t) b"
    by (auto simp: list_all2_append1)
  from "3.IH"(1) [OF ab(2), of "b @ r" d] obtain d1 where
    d1: "save_object_recurse ops z p (or m t) (a @ b @ r) d = (Done (saved_lines ops z (flat p (or m t)) a, b @ r), d1)" by auto
  from "3.IH"(2) [OF ab(3), of r d1] d1 ab(2) show ?case by (auto simp: ab(1) saved_lines_append list_all2_lengthD)
qed simp

text \<open>What \<open>clear_non_statics\<close> leaves.\<close>

definition cleared :: "bool list \<Rightarrow> 'r lpc list \<Rightarrow> 'r lpc list" where
  "cleared b vs = map2 (\<lambda>s v. if s then v else Num 0) b vs"

lemma cleared_append: "length a = length vs \<Longrightarrow> cleared (a @ b) (vs @ ws) = cleared a vs @ cleared b ws"
  by (simp add: cleared_def)

lemma length_cleared [simp]: "length a = length vs \<Longrightarrow> length (cleared a vs) = length vs"
  by (simp add: cleared_def)

lemma clear_own_cleared:
  "length vs = length vars \<Longrightarrow> clear_own vars (length a) (a @ vs @ b) = a @ cleared (statics vars) vs @ b"
proof (induction vars arbitrary: a vs)
  case (Cons y vars)
  obtain x t where y: "y = (x, t)" by fastforce
  from Cons.prems obtain v ws where vs: "vs = v # ws" "length ws = length vars" by (cases vs) auto
  show ?case
    using Cons.IH [OF vs(2), of "a @ [v]"] Cons.IH [OF vs(2), of "a @ [Num 0]"]
    by (auto simp: y vs(1) cleared_def statics_def)
qed (simp add: cleared_def)

lemma cns_just_count_flat:
  "cns_just_count p idx = idx + length (flat p t)"
  "cns_count_inherits inh idx = idx + length (flat_inherits inh t)"
proof (induction p t and inh t arbitrary: idx and idx rule: flat_flat_inherits.induct)
qed simp_all

lemma cns_recurse_cleared:
  "\<not> is_static t \<Longrightarrow> length vs = length (flat p t) \<Longrightarrow>
    cns_recurse p (length a) (a @ vs @ b) = (length a + length (flat p t), a @ cleared (statics (flat p t)) vs @ b)"
  "\<not> is_static t \<Longrightarrow> length vs = length (flat_inherits inh t) \<Longrightarrow>
    cns_inherits inh (length a) (a @ vs @ b) = (length a + length (flat_inherits inh t), a @ cleared (statics (flat_inherits inh t)) vs @ b)"
proof (induction p t and inh t arbitrary: a vs b and a vs b rule: flat_flat_inherits.induct)
  case (1 inh vars t)
  let ?I = "flat_inherits inh t"
  from "1.prems"(2) obtain x y where vs: "vs = x @ y" "length x = length ?I" "length y = length vars"
    using split_length [of vs "length ?I" "length vars"] by auto
  have s: "statics (map (\<lambda>(x, t'). (x, or t' t)) vars) = statics vars"
    using "1.prems"(1) by (simp add: statics_def case_prod_beta comp_def)
  have "clear_own vars (length (a @ cleared (statics ?I) x)) ((a @ cleared (statics ?I) x) @ y @ b)
      = (a @ cleared (statics ?I) x) @ cleared (statics vars) y @ b" by (rule clear_own_cleared [OF vs(3)])
  then show ?case
    using "1.IH" [OF "1.prems"(1) vs(2), of a "y @ b"] vs(2) by (simp add: vs(1) s cleared_append)
next
  case (2 t)
  then show ?case by (simp add: cleared_def)
next
  case (3 p m inh t)
  let ?P = "flat p (or m t)"
  from "3.prems"(2) obtain x y where vs: "vs = x @ y" "length x = length ?P" "length y = length (flat_inherits inh t)"
    using split_length [of vs "length ?P" "length (flat_inherits inh t)"] by auto
  show ?case
  proof (cases "is_static m")
    case True
    have "\<forall>i < length x. statics ?P ! i" using True flat_type(1) [of p "or m t"] vs(2) length_flat(1) [of p "or m t"] by simp
    then have c: "cleared (statics ?P) x = x" using vs(2) by (intro nth_equalityI) (simp_all add: cleared_def)
    from "3.IH"(2) [OF "3.prems"(1) vs(3), of "a @ x" b] show ?thesis
      using True vs(2) by (simp add: vs(1) cleared_append c cns_just_count_flat(1) [of p _ "or m t"])
  next
    case False
    then have "\<not> is_static (or m t)" using "3.prems"(1) by simp
    from "3.IH"(1) [OF this vs(2), of a "y @ b"] "3.IH"(2) [OF "3.prems"(1) vs(3), of "a @ cleared (statics ?P) x" b]
    show ?thesis using False vs(2) by (simp add: vs(1) cleared_append)
  qed
qed

text \<open>Saved text has no newline and no zero in it, so it stays on its line.\<close>

definition one_line :: "string \<Rightarrow> bool" where
  "one_line s \<longleftrightarrow> NUL \<notin> set s \<and> LF \<notin> set s"

lemma one_line_simps [simp]: "one_line []" "one_line (c # s) \<longleftrightarrow> c \<noteq> NUL \<and> c \<noteq> LF \<and> one_line s" "one_line (a @ b) \<longleftrightarrow> one_line a \<and> one_line b"
  by (auto simp: one_line_def)

lemma one_line_decimal [simp]: "one_line (decimal n)"
proof -
  have "\<not> isdigit LF" by (simp add: isdigit_def)
  then show ?thesis using decimal_digits [of n] by (auto simp: one_line_def)
qed

lemma one_line_chars: "no_nul s \<Longrightarrow> one_line (save_chars s)"
  by (induction s) (auto simp: no_nul_def)

lemma one_line_saved:
  "storable cfg v \<Longrightarrow> one_line (save_svalue (reals cfg) v)"
  "storable_items cfg vs \<Longrightarrow> one_line (save_items (reals cfg) vs)"
  "storable_pairs cfg ps \<Longrightarrow> one_line (save_pairs (reals cfg) ps)"
proof (induction cfg v and cfg vs and cfg ps rule: storable_storable_items_storable_pairs.induct)
  case (6 cfg r)
  then have "\<forall>c \<in> set (r_format (reals cfg) r). c \<noteq> LF \<and> \<not> ends c" unfolding storable.simps reads_back_def by blast
  then show ?case by (auto simp: one_line_def ends_def)
qed (auto simp: one_line_chars)

lemma split_line_saved: "one_line a \<Longrightarrow> split_line (a @ LF # r) = Done (a @ [NUL], Some r)"
  by (induction a) auto

lemma split_space_saved: "CHR '' '' \<notin> set x \<Longrightarrow> NUL \<notin> set x \<Longrightarrow> split_space (x @ CHR '' '' # r) = Some (x, r)"
  by (induction x) auto

text \<open>A value written as \<open>0\<close> is restored to 0.\<close>

lemma saved_zero: "storable cfg v \<Longrightarrow> save_svalue (reals cfg) v = ''0'' \<Longrightarrow> restored v = Num 0"
proof (cases v)
  case (Num n)
  assume "save_svalue (reals cfg) v = ''0''"
  then have *: "\<not> n <s 0" "decimal (magnitude n) = ''0''" by (auto simp: Num split: if_splits)
  have "digit_val (CHR ''0'') = 0" by (simp add: digit_val_def)
  with fold_decimal [of "magnitude n"] * have "(of_nat (magnitude n) :: 32 word) = 0" by simp
  with read_number [of n] * show "restored v = Num 0" by (simp add: Num)
next
  case (Real r)
  assume "storable cfg v" "save_svalue (reals cfg) v = ''0''"
  then have f: "r_format (reals cfg) r = ''0''"
    and p: "parse_numeric (reals cfg) (tl (r_format (reals cfg) r) @ NUL # []) (hd (r_format (reals cfg) r)) = Done (Some (Real r, []))"
    proof -
      have "reads_back (reals cfg) r" using \<open>storable cfg v\<close> by (simp add: Real)
      moreover have "ends NUL" by (simp add: ends_def)
      ultimately show "parse_numeric (reals cfg) (tl (r_format (reals cfg) r) @ NUL # []) (hd (r_format (reals cfg) r)) = Done (Some (Real r, []))"
        unfolding reads_back_def by blast
    qed (simp add: Real)
  have "digit_char 0 = CHR ''0''" by code_simp
  then have "decimal 0 = ''0''" by (simp add: decimal.simps)
  from parse_numeric_decimal(1) [OF _ this, of NUL "reals cfg" "[]"] p show "restored v = Num 0"
    by (simp add: f ends_def)
qed auto

text \<open>A variable that can be saved and found again.\<close>

definition restorable :: "'r save_config \<Rightarrow> (string \<Rightarrow> bool) \<Rightarrow> string \<times> 16 word \<Rightarrow> 'r lpc \<Rightarrow> bool" where
  "restorable cfg known x v \<longleftrightarrow> is_static (snd x) \<or>
     (known (fst x) \<and> fst x \<noteq> [] \<and> hd (fst x) \<noteq> CHR ''#'' \<and> one_line (fst x) \<and> CHR '' '' \<notin> set (fst x) \<and> length (fst x) < 100
      \<and> storable cfg v \<and> nesting v \<le> MAX_SAVE_SVALUE_DEPTH)"

fun merged :: "(string \<times> 16 word) list \<Rightarrow> 'r lpc list \<Rightarrow> 'r lpc list \<Rightarrow> 'r lpc list" where
  "merged (x # l) (v # vs) (w # ws) = (if is_static (snd x) then w else restored v) # merged l vs ws"
| "merged _ _ _ = []"

lemma length_merged [simp]: "length l = length vs \<Longrightarrow> length vs = length ws \<Longrightarrow> length (merged l vs ws) = length ws"
  by (induction l vs ws rule: list_induct3) auto

lemma restore_line_saved:
  assumes "distinct (map fst (flat p 0))" "i < length (flat p 0)" "flat p 0 ! i = (x, t)" "\<not> is_static t"
    and "restorable cfg known (x, t) v" "length (save_svalue (reals cfg) v) < fuel" "save_svalue_depth st = 0" "i < length ws"
  shows "\<exists>st'. restore_line cfg fuel junk known p False (x @ '' '' @ save_svalue (reals cfg) v @ [NUL]) behind ws st
      = (Done (ws[i := restored v]), st') \<and> save_svalue_depth st' = 0"
proof -
  have x: "known x" "x \<noteq> []" "hd x \<noteq> CHR ''#''" "CHR '' '' \<notin> set x" "NUL \<notin> set x" "length x < 100" "storable cfg v"
    using assms(4,5) by (auto simp: restorable_def one_line_def)
  from find_variable [OF assms(1,2), of known] assms(3,4) x(1) obtain t' where
    t': "find_global_variable known p x = Some (i, t')" "\<not> is_static t'" using assms(2) by auto
  from restore_top_saved [OF x(7) assms(6,7), of behind] obtain st' where
    "restore_top cfg fuel (save_svalue (reals cfg) v @ NUL # behind) st = (Done (Some (restored v)), st')" "save_svalue_depth st' = 0" by blast
  moreover have "split_space (x @ '' '' @ save_svalue (reals cfg) v @ [NUL]) = Some (x, save_svalue (reals cfg) v @ [NUL])"
    using split_space_saved [OF x(4,5)] by simp
  moreover have "hd (x @ '' '' @ save_svalue (reals cfg) v @ [NUL]) \<noteq> CHR ''#''" using x(2,3) by (cases x) auto
  ultimately show ?thesis using x(6) t' assms(8) by (simp add: restore_line_def restore_svalue_def)
qed

lemma restore_lines:
  assumes "distinct (map fst (flat p 0))" and "length l = length vs" and "length vs = length w2"
  shows "flat p 0 = l1 @ l \<Longrightarrow> length w1 = length l1
    \<Longrightarrow> list_all2 (restorable cfg known) l vs
    \<Longrightarrow> list_all2 (\<lambda>x w. is_static (snd x) \<or> w = Num 0) l w2
    \<Longrightarrow> length (saved_lines (reals cfg) z l vs) < fuel \<Longrightarrow> length (saved_lines (reals cfg) z l vs) < n \<Longrightarrow> save_svalue_depth st = 0
    \<Longrightarrow> \<exists>st'. restore_object_from_buff cfg fuel junk known p False n (saved_lines (reals cfg) z l vs @ [NUL]) (w1 @ w2) st
       = (Done (w1 @ merged l vs w2), st') \<and> save_svalue_depth st' = 0"
  using assms(2,3)
proof (induction l vs w2 arbitrary: l1 w1 st n rule: list_induct3)
  case Nil
  then show ?case by (cases n) simp_all
next
  case (Cons a l v vs w ws)
  obtain x t where a: "a = (x, t)" by fastforce
  obtain k where n: "n = Suc k" using Cons.prems(6) by (cases n) auto
  have fl: "flat p 0 = (l1 @ [a]) @ l" using Cons.prems(1) by simp
  let ?L = "saved_lines (reals cfg) z l vs"
  have L: "length ?L < fuel" "length ?L < n" using Cons.prems(5,6) by (simp_all add: a split: if_splits)
  show ?case
  proof (cases "is_static t \<or> (\<not> z \<and> save_svalue (reals cfg) v = ''0'')")
    case True
    then have s: "saved_lines (reals cfg) z (a # l) (v # vs) = ?L" by (simp add: a)
    have w: "(if is_static t then w else restored v) = w"
      using True Cons.prems(3,4) saved_zero [of cfg v] by (auto simp: a restorable_def)
    from Cons.IH [OF fl, of "w1 @ [w]" n st] Cons.prems L show ?thesis unfolding s by (auto simp: a w)
  next
    case False
    let ?i = "length l1"
    let ?line = "x @ '' '' @ save_svalue (reals cfg) v"
    have s: "saved_lines (reals cfg) z (a # l) (v # vs) = ?line @ [LF] @ ?L" using False by (simp add: a)
    have r: "restorable cfg known (x, t) v" using Cons.prems(3) by (simp add: a)
    have i: "flat p 0 ! ?i = (x, t)" "?i < length (flat p 0)" using Cons.prems(1) by (simp_all add: a)
    have fu: "length (save_svalue (reals cfg) v) < fuel" using Cons.prems(5) unfolding s by simp
    have ns: "\<not> is_static t" using False by simp
    have wi: "?i < length (w1 @ w # ws)" using Cons.prems(2) by simp
    from restore_line_saved [OF assms(1) i(2,1) ns r fu Cons.prems(7) wi] obtain st1 where
      st1: "restore_line cfg fuel junk known p False (?line @ [NUL]) (?L @ [NUL]) (w1 @ w # ws) st
        = (Done ((w1 @ w # ws)[?i := restored v]), st1)" "save_svalue_depth st1 = 0" by force
    have u: "(w1 @ w # ws)[?i := restored v] = (w1 @ [restored v]) @ ws" using Cons.prems(2) by (simp add: list_update_append)
    have ol: "one_line ?line" "?line \<noteq> []"
      using r ns one_line_saved(1) [of cfg v] by (auto simp: restorable_def)
    have sl: "split_line ((?line @ [LF] @ ?L) @ [NUL]) = Done (?line @ [NUL], Some (?L @ [NUL]))"
      using split_line_saved [OF ol(1), of "?L @ [NUL]"] by simp
    have "length ?L < k" using Cons.prems(6) unfolding s n by simp
    with Cons.IH [OF fl, of "w1 @ [restored v]" k st1] Cons.prems(2-4) L st1(2) obtain st2 where
      st2: "restore_object_from_buff cfg fuel junk known p False k (?L @ [NUL]) ((w1 @ [restored v]) @ ws) st1
        = (Done ((w1 @ [restored v]) @ merged l vs ws), st2)" "save_svalue_depth st2 = 0" by auto
    have c: "\<not> (?line @ [NUL] = [NUL] \<and> ((?line @ [LF] @ ?L) @ [NUL] = [] \<or> hd ((?line @ [LF] @ ?L) @ [NUL]) = NUL))"
      using ol(2) by simp
    show ?thesis
      unfolding s n restore_object_from_buff.simps sl outcome.case prod.case if_not_P [OF c] option.case st1(1) u
        and_then.simps st2(1)
      using st2(2) ns by (simp add: a)
  qed
qed


section \<open>Restoring always ends\<close>

text \<open>A result that did not run out of fuel, and whose rest is no longer than a bound.\<close>

definition within :: "('a \<Rightarrow> nat) \<Rightarrow> nat \<Rightarrow> 'a outcome \<Rightarrow> bool" where
  "within f n r \<longleftrightarrow> (case r of Timeout \<Rightarrow> False | Done x \<Rightarrow> f x \<le> n | _ \<Rightarrow> True)"

lemma within_simps [simp]:
  "within f n (Done x) \<longleftrightarrow> f x \<le> n" "within f n (Rob e)" "within f n (Error er)" "within f n Crash" "\<not> within f n Timeout"
  by (simp_all add: within_def)

lemma within_mono: "within f m r \<Longrightarrow> m \<le> n \<Longrightarrow> within f n r"
  by (cases r) auto

lemma within_and_then:
  "within f m (fst x) \<Longrightarrow> (\<And>a s. f a \<le> m \<Longrightarrow> within g n (fst (k a s))) \<Longrightarrow> within g n (fst (and_then x k))"
  by (cases "(x, k)" rule: and_then.cases) auto

lemma within_Suc: "within f n r \<Longrightarrow> within f (Suc n) r"
  by (cases r) auto

lemma within_if: "(b \<Longrightarrow> within f n (fst x)) \<Longrightarrow> (\<not> b \<Longrightarrow> within f n (fst y)) \<Longrightarrow> within f n (fst (if b then x else y))"
  by simp

definition opt_len :: "string option \<Rightarrow> nat" where
  "opt_len r = (case r of None \<Rightarrow> 0 | Some s \<Rightarrow> length s)"

lemma opt_len_simps [simp]: "opt_len None = 0" "opt_len (Some s) = length s"
  by (simp_all add: opt_len_def)

fun token_len :: "token \<Rightarrow> nat" where
  "token_len (Item s) = length s"
| "token_len (Closing c s) = length s"
| "token_len _ = 0"

lemma skip_string_within: "within opt_len (length cp) (skip_string cp)"
proof (induction cp rule: skip_string.induct)
  case (2 c cp)
  show ?case
  proof (cases cp)
    case (Cons d r)
    with 2 show ?thesis by (simp add: within_Suc)
  qed (use 2 in simp)
qed simp

lemma strchr_within: "within opt_len (length cp) (strchr cp d)"
  by (induction cp d rule: strchr.induct) (auto intro: within_Suc)

lemma after_within: "within token_len (length cp - 1) (after d cp)"
  by (auto simp: after_def expect_def split: list.split)

lemma expect_within: "within opt_len (length cp - 1) (expect d cp)"
  by (auto simp: expect_def split: list.split)

lemma next_token_within:
  assumes "\<And>cp' m d st. length cp' + 2 \<le> length cp \<Longrightarrow> within opt_len (length cp') (fst (sub cp' m d st))"
  shows "within token_len (length cp - 1) (fst (next_token sub delim cp st))"
proof (cases cp)
  case (Cons c r)
  have str: "within token_len (length r) (fst (and_then (skip_string r, st) (\<lambda>r st. case r of
                None \<Rightarrow> (Done Unterminated, st) | Some cp \<Rightarrow> (after delim cp, st))))"
    by (rule within_and_then [where f = opt_len and m = "length r"])
      (auto simp: skip_string_within split: option.split intro: within_mono [OF after_within])
  have par: "within token_len (length r) (fst (and_then (sub q m e s) (\<lambda>r st. case r of
                None \<Rightarrow> (Done Wrong, st) | Some cp \<Rightarrow> (after delim cp, st))))" if "length q < length r" for q m e s
    by (rule within_and_then [where f = opt_len and m = "length q"])
      (use that in \<open>auto simp: Cons intro!: assms split: option.split intro: within_mono [OF after_within]\<close>)
  have def: "within token_len (length r) (fst (and_then (strchr r delim, st)
      (\<lambda>r st. (Done (case r of None \<Rightarrow> Wrong | Some cp \<Rightarrow> Item (tl cp)), st))))"
    by (rule within_and_then [where f = opt_len and m = "length r"]) (auto simp: strchr_within split: option.split)
  show ?thesis
    unfolding next_token_def Cons list.case Let_def
  proof (intro within_if)
    show "within token_len (length (c # r) - 1) (fst (case r of [] \<Rightarrow> (Crash, st) | b # cp \<Rightarrow>
                 if b \<in> {CHR ''{'', CHR ''['', CHR ''/''} then
                   and_then (sub cp (b = CHR ''['') (save_svalue_depth st) (next_depth st))
                     (\<lambda>r st. case r of None \<Rightarrow> (Done Wrong, st) | Some cp \<Rightarrow> (after delim cp, st))
                 else (Done Wrong, st)))"
    proof (cases r)
      case (Cons b q)
      show ?thesis unfolding Cons list.case
      proof (rule within_if)
        show "within token_len (length (c # b # q) - 1) (fst (and_then (sub q (b = CHR ''['') (save_svalue_depth st) (next_depth st))
                     (\<lambda>r st. case r of None \<Rightarrow> (Done Wrong, st) | Some cp \<Rightarrow> (after delim cp, st))))"
          using par [of q "b = CHR ''[''" "save_svalue_depth st" "next_depth st"] by (simp add: Cons del: and_then.simps)
      qed simp
    qed simp
  next
    show "within token_len (length (c # r) - 1) (fst (and_then (skip_string r, st) (\<lambda>r st. case r of
                None \<Rightarrow> (Done Unterminated, st) | Some cp \<Rightarrow> (after delim cp, st))))" using str by simp
  next
    show "within token_len (length (c # r) - 1) (fst (and_then (strchr r delim, st)
      (\<lambda>r st. (Done (case r of None \<Rightarrow> Wrong | Some cp \<Rightarrow> Item (tl cp)), st))))" using def by simp
  qed simp_all
qed (simp add: next_token_def)

lemma internal_size_within:
  "length cp < fuel \<Longrightarrow> within opt_len (length cp) (fst (internal_size fuel cp m depth sz index st))"
proof (induction fuel arbitrary: cp m depth sz index st)
  case (Suc fuel)
  show ?case
  proof (cases cp)
    case Nil
    then show ?thesis by (simp add: next_token_def)
  next
    case (Cons c0 r0)
  have t: "within token_len (length cp - 1) (fst (next_token (\<lambda>cp m d. internal_size fuel cp m d 0 False) (next_delim m index) cp st))"
    by (rule next_token_within) (use Suc in auto)
  show ?thesis
    unfolding internal_size.simps
  proof (rule within_and_then [OF t])
    fix a s assume a: "token_len a \<le> length cp - 1"
    show "within opt_len (length cp) (fst (case a of
         Item cp \<Rightarrow> internal_size fuel cp m depth (sz + 1) (m \<and> \<not> index) s
       | Closing c cp \<Rightarrow>
           and_then (expect (CHR '')'') cp, s) (\<lambda>r st. case r of
               None \<Rightarrow> (Done None, st)
             | Some cp \<Rightarrow>
                 if m = (c = CHR '']'') then (Done (Some cp), set_size depth sz st) else (Done None, st))
       | Unterminated \<Rightarrow> (Done None, s)
       | Wrong \<Rightarrow> (Done None, s)))"
    proof (cases a)
      case (Item q)
      have "length q < length cp" using a by (simp add: Item Cons)
      moreover from this have "within opt_len (length q) (fst (internal_size fuel q m depth (sz + 1) (m \<and> \<not> index) s))"
        using Suc.prems by (intro Suc.IH) simp
      ultimately show ?thesis by (simp add: Item within_mono [of opt_len "length q"])
    next
      case (Closing c q)
      have "within opt_len (length cp) (fst (and_then (expect (CHR '')'') q, s) (\<lambda>r st. case r of
               None \<Rightarrow> (Done None, st)
             | Some cp \<Rightarrow> if m = (c = CHR '']'') then (Done (Some cp), set_size depth sz st) else (Done None, st))))"
        by (rule within_and_then [where f = opt_len and m = "length cp"])
          (use a Closing in \<open>auto split: option.split intro: within_mono [OF expect_within]\<close>)
      then show ?thesis by (simp add: Closing)
    qed simp_all
  qed
  qed
qed simp

abbreviation snd_len :: "'a \<times> string \<Rightarrow> nat" where
  "snd_len x \<equiv> length (snd x)"

lemma size_loop_within:
  "length cp < fuel \<Longrightarrow> within snd_len (length cp) (fst (size_loop fuel cp m sz index st))"
proof (induction fuel arbitrary: cp sz index st)
  case (Suc fuel)
  show ?case
  proof (cases cp)
    case Nil
    then show ?thesis by (simp add: next_token_def)
  next
    case (Cons c0 r0)
    have t: "within token_len (length cp - 1) (fst (next_token (\<lambda>cp m d. internal_size fuel cp m d 0 False) (next_delim m index) cp st))"
      by (rule next_token_within) (use Suc in \<open>auto intro: internal_size_within\<close>)
    show ?thesis
      unfolding size_loop.simps
    proof (rule within_and_then [OF t])
      fix a s assume a: "token_len a \<le> length cp - 1"
      show "within snd_len (length cp) (fst (case a of
         Item cp \<Rightarrow> size_loop fuel cp m (sz + 1) (m \<and> \<not> index) s
       | Closing c cp \<Rightarrow>
           and_then (expect (CHR '')'') cp, s\<lparr>save_svalue_depth := 0\<rparr>) (\<lambda>r st. case r of
               None \<Rightarrow> (Done (- 1, cp), st)
             | Some cp \<Rightarrow> (Done (if m = (c = CHR '']'') then sz else - 1, cp), st))
       | Unterminated \<Rightarrow> (Done (0, cp), s)
       | Wrong \<Rightarrow> (Done (- 1, cp), s)))"
      proof (cases a)
        case (Item q)
        have "length q < length cp" using a by (simp add: Item Cons)
        moreover from this have "within snd_len (length q) (fst (size_loop fuel q m (sz + 1) (m \<and> \<not> index) s))"
          using Suc.prems by (intro Suc.IH) simp
        ultimately show ?thesis by (simp add: Item within_mono [of snd_len "length q"])
      next
        case (Closing c q)
        have "length q \<le> length cp" using a Closing by simp
        then have "within snd_len (length cp) (fst (and_then (expect (CHR '')'') q, s\<lparr>save_svalue_depth := 0\<rparr>) (\<lambda>r st. case r of
               None \<Rightarrow> (Done (- 1, q), st)
             | Some cp \<Rightarrow> (Done (if m = (c = CHR '']'') then sz else - 1, cp), st))))"
          by (intro within_and_then [where f = opt_len and m = "length cp"])
            (auto split: option.split intro: within_mono [OF expect_within])
        then show ?thesis by (simp add: Closing)
      qed simp_all
    qed
  qed
qed simp

lemma size_ahead_within:
  "length cp < fuel \<Longrightarrow> within snd_len (length cp) (fst (size_ahead fuel cp m st))"
  by (auto simp: size_ahead_def restore_size_def size_loop_within)

lemma scan_escaped_within: "within snd_len (length cp) (scan_escaped cp new)"
proof (induction cp new rule: scan_escaped.induct)
  case (2 c cp new)
  show ?case
  proof (cases cp)
    case (Cons d r)
    with 2 show ?thesis by (simp add: within_Suc)
  qed (use 2 in simp)
qed simp

lemma scan_string_within: "within snd_len (length cp) (scan_string cp new)"
proof (induction cp new rule: scan_string.induct)
  case (2 c cp new)
  show ?case
  proof (cases cp)
    case (Cons d r)
    with 2 scan_escaped_within [of r] show ?thesis by (simp add: within_Suc)
  qed (use 2 in simp)
qed simp

lemma scan_digits_len: "scan_digits cp r = Done (x, c, q) \<Longrightarrow> length q < length cp"
  by (induction cp r rule: scan_digits.induct) (auto split: if_splits)

lemma scan_digits_end: "scan_digits cp r = Crash \<or> (\<exists>x. scan_digits cp r = Done x)"
  by (induction cp r rule: scan_digits.induct) auto

lemma scan_fraction_len: "scan_fraction ops c cp f g = Done (x, d, q) \<Longrightarrow> length q < length cp"
  by (induction ops c cp f g rule: scan_fraction.induct) (fastforce simp: Let_def split: if_splits)+

lemma scan_exponent_len: "scan_exponent ops cp = Done (Some (x, q)) \<Longrightarrow> length q < length cp"
  by (auto simp: scan_exponent_def split: list.splits if_splits outcome.splits dest: scan_digits_len)

lemma parse_numeric_len:
  assumes "parse_numeric ops cp c = Done (Some (v, q))"
  shows "length q < length cp"
proof -
  have d: "scan_digits a r = Done (x, c, q) \<Longrightarrow> length q < length a" for a r x c q by (rule scan_digits_len)
  show ?thesis
    using assms unfolding parse_numeric_def Let_def
    by (auto split: list.splits if_splits outcome.splits option.splits prod.splits
        dest!: scan_digits_len scan_exponent_len scan_fraction_len)
qed

lemma parse_numeric_end: "parse_numeric ops cp c \<noteq> Timeout"
proof
  assume "parse_numeric ops cp c = Timeout"
  then show False
    unfolding parse_numeric_def Let_def
    by (auto split: list.splits if_splits outcome.splits option.splits prod.splits)
qed

lemma restore_numeral_within: "within snd_len (length cp) (fst (restore_numeral ops cp c st))"
proof (cases "parse_numeric ops cp c")
  case (Done r)
  then show ?thesis
    using parse_numeric_len [of ops cp c]
    by (cases r) (auto simp: restore_numeral_def)
qed (use parse_numeric_end [of ops cp c] in \<open>auto simp: restore_numeral_def\<close>)

lemma drop1_within: "within snd_len n (fst x) \<Longrightarrow> within snd_len n (fst (and_then x (\<lambda>(v, cp) st. (Done (v, drop 1 cp), st))))"
  by (rule within_and_then) (auto split: prod.split)

lemma restore_string_within:
  "within snd_len (length cp) (fst (restore_interior_string cp st))" "within snd_len (length cp) (fst (restore_hash_string cp st))"
  unfolding restore_interior_string_def restore_hash_string_def
  by (rule within_and_then [where f = snd_len and m = "length cp"]; use scan_string_within [of cp "[]"] in \<open>auto split: prod.split\<close>)+

text \<open>\<open>sub\<close> ends on every text two characters shorter than \<open>n\<close>.\<close>

definition ends_below :: "nat \<Rightarrow> 'r restorer \<Rightarrow> bool" where
  "ends_below n sub \<longleftrightarrow> (\<forall>c cp st. length cp + 2 \<le> n \<longrightarrow> within snd_len (length cp) (fst (sub c cp st)))"

lemma restore_nested_within:
  assumes "ends_below (Suc (length cp)) sub"
  shows "within snd_len (length cp) (fst (restore_nested sub g cp st))"
proof (cases cp)
  case (Cons c r)
  have "within snd_len (length r) (fst (and_then (sub c r (next_depth st)) (\<lambda>(r, cp) st.
              case r of None \<Rightarrow> (Crash, st) | Some v \<Rightarrow> (Done (v, drop 1 cp), st))))"
    by (rule within_and_then [where f = snd_len and m = "length r"])
      (use assms in \<open>auto simp: ends_below_def Cons split: prod.split option.split\<close>)
  from within_Suc [OF this] show ?thesis
    unfolding restore_nested_def Let_def Cons list.case by (intro within_if) simp_all
qed (simp add: restore_nested_def)

lemma restore_key_within:
  "ends_below (Suc (length cp)) sub \<Longrightarrow> within snd_len (length cp) (fst (restore_key cfg sub c cp st))"
  unfolding restore_key_def
  by (intro within_if drop1_within restore_string_within restore_nested_within restore_numeral_within) simp_all

lemma restore_map_value_within:
  "ends_below (Suc (length cp)) sub \<Longrightarrow> within snd_len (length cp) (fst (restore_map_value cfg sub c cp st))"
  unfolding restore_map_value_def
  by (intro within_if drop1_within restore_string_within restore_nested_within restore_numeral_within) simp_all

lemma rob_case_within:
  "within snd_len n (fst x) \<Longrightarrow> within snd_len n (fst (case x of (Rob e, st) \<Rightarrow> (Rob g, st)
         | r \<Rightarrow> and_then r (\<lambda>(v, cp) st. (Done (v, drop 1 cp), st))))"
  by (cases x; cases "fst x") auto

lemma restore_item_within:
  "ends_below (Suc (length cp)) sub \<Longrightarrow> within snd_len (length cp) (fst (restore_item cfg sub g c cp st))"
  unfolding restore_item_def
  by (intro within_if rob_case_within restore_string_within restore_nested_within restore_numeral_within) simp_all

lemma ends_below_mono: "ends_below n sub \<Longrightarrow> m \<le> n \<Longrightarrow> ends_below m sub"
  by (auto simp: ends_below_def)

lemma within_and_then_pair:
  "within snd_len m (fst x) \<Longrightarrow> (\<And>v q s. length q \<le> m \<Longrightarrow> within g n (fst (k v q s)))
    \<Longrightarrow> within g n (fst (and_then x (\<lambda>(v, q) s. k v q s)))"
  by (rule within_and_then) auto

lemma items_loop_within:
  "ends_below (length cp) sub \<Longrightarrow> within snd_len (length cp) (fst (items_loop cfg sub g n cp vs st))"
proof (induction n arbitrary: cp vs st)
  case (Suc n)
  show ?case
  proof (cases cp)
    case (Cons c r)
    have "within snd_len (length r) (fst (and_then (restore_item cfg sub g c r st)
        (\<lambda>(v, cp) st. items_loop cfg sub g n cp (vs @ [v]) st)))"
    proof (rule within_and_then_pair)
      show "within snd_len (length r) (fst (restore_item cfg sub g c r st))"
        using Suc.prems by (intro restore_item_within) (simp add: Cons)
    next
      fix v q s assume q: "length (q :: string) \<le> length r"
      have "ends_below (length q) sub" by (rule ends_below_mono [OF Suc.prems]) (use q in \<open>simp add: Cons\<close>)
      from within_mono [OF Suc.IH [OF this] q]
      show "within snd_len (length r) (fst (items_loop cfg sub g n q (vs @ [v]) s))" .
    qed
    then show ?thesis by (simp add: Cons within_Suc)
  qed simp
qed simp

lemma mapping_loop_within:
  "ends_below (length cp) sub \<Longrightarrow> length cp < fuel \<Longrightarrow> within snd_len (length cp) (fst (mapping_loop cfg sub fuel cp m st))"
proof (induction fuel arbitrary: cp m st)
  case (Suc fuel)
  show ?case
  proof (cases cp)
    case (Cons c r)
    have next_entry: "within snd_len (length r) (fst (and_then (restore_map_value cfg sub d u s) (\<lambda>(value, cp) st.
                  case put_entry (same cfg) key value m of
                    Some m \<Rightarrow> mapping_loop cfg sub fuel cp m st
                  | None \<Rightarrow>
                      if int (length m) + 1 > max_mapping_size cfg then (Error Mapping_exceeded, st)
                      else mapping_loop cfg sub fuel cp ((key, value) # m) st)))" if u: "length u < length r" for key d u s
    proof (rule within_and_then_pair)
      have sub: "ends_below (Suc (length u)) sub"
        by (rule ends_below_mono [OF Suc.prems(1)]) (use u in \<open>simp add: Cons\<close>)
      then show "within snd_len (length u) (fst (restore_map_value cfg sub d u s))" by (rule restore_map_value_within)
      fix v w s' assume w: "length (w :: string) \<le> length u"
      have "ends_below (length w) sub" by (rule ends_below_mono [OF sub]) (use w in simp)
      moreover have "length w < fuel" using w u Suc.prems(2) by (simp add: Cons)
      ultimately have "within snd_len (length w) (fst (mapping_loop cfg sub fuel w m' s'))" for m' by (rule Suc.IH)
      then have "within snd_len (length r) (fst (mapping_loop cfg sub fuel w m' s'))" for m'
        by (rule within_mono) (use w u in simp)
      then show "within snd_len (length r) (fst (case put_entry (same cfg) key v m of
                    Some m \<Rightarrow> mapping_loop cfg sub fuel w m s'
                  | None \<Rightarrow>
                      if int (length m) + 1 > max_mapping_size cfg then (Error Mapping_exceeded, s')
                      else mapping_loop cfg sub fuel w ((key, v) # m) s'))"
        by (simp split: option.split)
    qed
    have "within snd_len (length r) (fst (and_then (restore_key cfg sub c r st) (\<lambda>(key, cp) st.
            case cp of
              [] \<Rightarrow> (Crash, st)
            | c # cp \<Rightarrow>
                and_then (restore_map_value cfg sub c cp st) (\<lambda>(value, cp) st.
                  case put_entry (same cfg) key value m of
                    Some m \<Rightarrow> mapping_loop cfg sub fuel cp m st
                  | None \<Rightarrow>
                      if int (length m) + 1 > max_mapping_size cfg then (Error Mapping_exceeded, st)
                      else mapping_loop cfg sub fuel cp ((key, value) # m) st))))"
    proof (rule within_and_then_pair)
      show "within snd_len (length r) (fst (restore_key cfg sub c r st))"
        using Suc.prems by (intro restore_key_within) (simp add: Cons)
      fix key q s assume q: "length (q :: string) \<le> length r"
      show "within snd_len (length r) (fst (case q of
              [] \<Rightarrow> (Crash, s)
            | c # cp \<Rightarrow>
                and_then (restore_map_value cfg sub c cp s) (\<lambda>(value, cp) st.
                  case put_entry (same cfg) key value m of
                    Some m \<Rightarrow> mapping_loop cfg sub fuel cp m st
                  | None \<Rightarrow>
                      if int (length m) + 1 > max_mapping_size cfg then (Error Mapping_exceeded, st)
                      else mapping_loop cfg sub fuel cp ((key, value) # m) st)))"
      proof (cases q)
        case (Cons d u)
        with q have "length u < length r" by simp
        from next_entry [OF this, of d s key] show ?thesis unfolding Cons list.case .
      qed simp
    qed
    from within_Suc [OF this] show ?thesis unfolding Cons mapping_loop.simps list.case length_Cons
      by (intro within_if) simp_all
  qed simp
qed simp

lemma restore_container_ends: "ends_below fuel (restore_container cfg fuel)"
proof (induction fuel)
  case 0
  then show ?case by (simp add: ends_below_def)
next
  case (Suc fuel)
  show ?case unfolding ends_below_def
  proof (intro allI impI)
    fix c and cp :: string and st assume "length cp + 2 \<le> Suc fuel"
    then have l: "length cp < fuel" by simp
    let ?sub = "restore_container cfg fuel"
    have e: "ends_below (length cp) ?sub" by (rule ends_below_mono [OF Suc]) (use l in simp)
    have it: "within snd_len (length cp) (fst (and_then (items_loop cfg ?sub g n cp [] s) (\<lambda>(vs, cp) st. (Done (f vs, drop 2 cp), st))))"
      for g n s and f :: "'a lpc list \<Rightarrow> 'a lpc option"
      by (rule within_and_then_pair [OF items_loop_within [OF e]]) simp
    note sz = size_ahead_within [OF l, of _ st]
    have "within snd_len (length cp) (fst (restore_array cfg ?sub fuel cp st))"
      unfolding restore_array_def by (rule within_and_then_pair [OF sz], intro within_if it) simp_all
    moreover have "within snd_len (length cp) (fst (restore_class cfg ?sub fuel cp st))"
      unfolding restore_class_def by (rule within_and_then_pair [OF sz], intro within_if it) simp_all
    moreover have "within snd_len (length cp) (fst (restore_mapping cfg ?sub fuel cp st))"
      unfolding restore_mapping_def
      by (rule within_and_then_pair [OF sz], intro within_if mapping_loop_within [OF e l]) simp_all
    ultimately show "within snd_len (length cp) (fst (restore_container cfg (Suc fuel) c cp st))" by simp
  qed
qed

lemma reset_within:
  "within f n (fst x) \<Longrightarrow> within f n (fst (case x of (r, st) \<Rightarrow> (case r of
       Error e \<Rightarrow> (Error e, st) | _ \<Rightarrow> (r, if save_svalue_depth st \<noteq> 0 then z else st))))"
  by (cases x; cases "fst x") auto

text \<open>C13. Restoring a variable ends for every text: fuel for its length is enough, so \<open>Timeout\<close> never
  comes out of \<open>restore_svalue\<close>, whatever the text and the state.\<close>

theorem restore_svalue_ends:
  "fst (restore_svalue cfg (Suc (length cp)) cp old st) \<noteq> Timeout"
proof -
  have c: "within (\<lambda>_. 0) 0 (fst (and_then (restore_container cfg (Suc (length cp)) c q st) (\<lambda>(v, _) st. (Done v, st))))"
    if "length q \<le> length cp - 2" "2 \<le> length cp" for c q
  proof (rule within_and_then_pair)
    show "within snd_len (length q) (fst (restore_container cfg (Suc (length cp)) c q st))"
      using restore_container_ends [of "Suc (length cp)" cfg] that by (auto simp: ends_below_def)
  qed simp
  have str: "within (\<lambda>_. 0) 0 (fst (and_then (restore_string q st) (\<lambda>v st. (Done (Some v), st))))" for q
  proof (rule within_and_then [where f = "\<lambda>_. 0"])
    show "within (\<lambda>_. 0) 0 (fst (restore_string q st))"
      using scan_string_within [of q "[]"] unfolding restore_string_def
      by (intro within_and_then_pair [where m = "length q"]) (auto split: list.split)
  qed simp
  have num: "within (\<lambda>_. 0) 0 (fst (and_then (restore_numeral (reals cfg) q c st) (\<lambda>(v, _) st. (Done (Some v), st))))" for q c
    by (rule within_and_then_pair [OF restore_numeral_within]) simp
  have "within (\<lambda>_. 0) 0 (fst (restore_top cfg (Suc (length cp)) cp st))"
  proof (cases cp)
    case (Cons c r)
    show ?thesis
      unfolding restore_top_def Cons list.case Let_def
    proof (intro within_if)
      show "within (\<lambda>_. 0) 0 (fst (and_then (restore_string r st) (\<lambda>v st. (Done (Some v), st))))" by (rule str)
      show "within (\<lambda>_. 0) 0 (fst (and_then (restore_numeral (reals cfg) r c st) (\<lambda>(v, _) st. (Done (Some v), st))))" by (rule num)
    next
      show "within (\<lambda>_. 0) 0 (fst (case r of
               [] \<Rightarrow> (Crash, st)
             | ca # q \<Rightarrow>
                 case (if ca \<in> {CHR ''['', CHR ''{'', CHR ''/''} then
                      and_then (restore_container cfg (Suc (length (c # r))) ca q st) (\<lambda>(v, _) st. (Done v, st))
                    else (Rob ROB_GENERAL_ERROR, st)) of (r, st) \<Rightarrow>
                    case r of
                      Error e \<Rightarrow> (Error e, st)
                    | _ \<Rightarrow> (r, if save_svalue_depth st \<noteq> 0 then \<lparr>save_svalue_depth = 0, sizes = []\<rparr> else st)))"
      proof (cases r)
        case (Cons ca q)
        have "within (\<lambda>_. 0) 0 (fst (if ca \<in> {CHR ''['', CHR ''{'', CHR ''/''} then
                      and_then (restore_container cfg (Suc (length (c # r))) ca q st) (\<lambda>(v, _) st. (Done v, st))
                    else (Rob ROB_GENERAL_ERROR, st)))"
          using c [of q ca] by (intro within_if) (simp_all add: \<open>cp = c # r\<close> Cons)
        from reset_within [OF this] show ?thesis unfolding Cons list.case .
      qed simp
    qed simp
  qed (simp add: restore_top_def)
  then have "within (\<lambda>_. 0) 0 (fst (restore_svalue cfg (Suc (length cp)) cp old st))"
    unfolding restore_svalue_def by (rule within_and_then) simp
  then show ?thesis by auto
qed

section \<open>Witnesses\<close>

definition demo_ops :: "unit real_ops" where
  "demo_ops = \<lparr>r_format = \<lambda>_. ''0.0'', r_of_int = \<lambda>_. (), r_add = \<lambda>_ _. (), r_mul = \<lambda>_ _. (), r_div = \<lambda>_ _. (),
     r_neg = \<lambda>_. (), r_pow10 = \<lambda>_. ()\<rparr>"

definition demo_cfg :: "unit save_config" where
  "demo_cfg = \<lparr>reals = demo_ops, same = (=), max_array_size = 15000, max_mapping_size = 15000\<rparr>"

definition demo_value :: "unit lpc" where
  "demo_value = Map [(Str ''a'', Arr [Num 1, Str [QUOTE, LF], Map []]), (Num (- 5), Other)]"

definition demo_state :: save_state where
  "demo_state = \<lparr>save_svalue_depth = 0, sizes = []\<rparr>"

lemma demo_value_ok:
  "storable demo_cfg demo_value" "nesting demo_value = 3" "length (save_svalue demo_ops demo_value) < 100"
  "save_svalue_depth demo_state = 0"
proof -
  have "magnitude 1 = 1" "\<not> (1 :: 32 word) <s 0" "magnitude (- 5) = 5" "(- 5 :: 32 word) <s 0" by code_simp+
  then show "length (save_svalue demo_ops demo_value) < 100"
    by (simp add: demo_value_def decimal.simps)
  show "storable demo_cfg demo_value" by (simp add: demo_value_def demo_cfg_def no_nul_def)
qed (simp_all add: demo_value_def demo_state_def)


fun nest :: "nat \<Rightarrow> unit lpc" where
  "nest 0 = Num 0"
| "nest (Suc n) = Arr [nest n]"

lemma nesting_nest: "nesting (nest n) = n"
  by (induction n) simp_all

lemma too_deep_save_breaks_restore_witness:
  "fst (save_variable demo_ops (nest 26)) = Error Too_deep
   \<and> fst (restore_svalue demo_cfg 100 (''({1,})'' @ [NUL]) Other \<lparr>save_svalue_depth = snd (save_variable demo_ops (nest 26)), sizes = []\<rparr>) = Crash"
proof -
  have "MAX_SAVE_SVALUE_DEPTH < nesting (nest 26)" unfolding nesting_nest by (simp add: MAX_SAVE_SVALUE_DEPTH_def)
  from too_deep_save_breaks_restore [OF this prod.collapse [symmetric], of "CHR ''{''" 100 demo_ops demo_cfg "''1,})'' @ [NUL]" Other]
  show ?thesis by simp
qed

lemma unterminated_string_overrun_witness:
  "fst (restore_svalue demo_cfg 9 (QUOTE # ''ab'' @ [NUL] @ ''foo'') Other demo_state) = Rob ROB_STRING_ERROR
   \<and> fst (restore_svalue demo_cfg 9 (QUOTE # ''a'' @ [BACKSLASH, CHR ''n''] @ ''b'' @ [NUL] @ ''foo'') Other demo_state) = Crash"
  using unterminated_string_overrun [of "''ab''" "[]" "''foo''" "CHR ''n''" demo_cfg 9 Other demo_state]
    unterminated_string_overrun [of "''a''" "''b''" "''foo''" "CHR ''n''" demo_cfg 9 Other demo_state]
  by (simp add: no_nul_def)

definition demo_program :: program where
  "demo_program = Program [(Program [] [(''hp'', 0)], 0)] [(''name'', 0), (''tmp'', NAME_STATIC)]"


end
