(* ===== verification/Object_Table.thy ===== *)
theory Object_Table
  imports String_Table
begin

text \<open>
  The two tables through which the driver finds objects: the table of object names of
  \<open>otable.c\<close> and the table of living names in \<open>object.c\<close>. An object is known by its address;
  \<open>objects\<close> is the heap of \<open>object_t\<close>, and the chains that \<open>next_hash\<close> and
  \<open>next_hashed_living\<close> link through the objects are lists of addresses. A living name is a
  shared string of \<open>String_Table\<close>. \<open>None\<close> is an access through a null or dangling pointer, or a
  chain that is linked into a circle.
\<close>

section \<open>State\<close>

definition O_ENABLE_COMMANDS :: "16 word" where "O_ENABLE_COMMANDS = 0x04"
definition O_DESTRUCTED :: "16 word" where "O_DESTRUCTED = 0x10"
definition O_ONCE_INTERACTIVE :: "16 word" where "O_ONCE_INTERACTIVE = 0x40"
definition O_HIDDEN :: "16 word" where "O_HIDDEN = 0x400"
definition O_COMPILED_PROGRAM :: "16 word" where "O_COMPILED_PROGRAM = 0x4000"
definition CFG_LIVING_HASH_SIZE :: nat where "CFG_LIVING_HASH_SIZE = 256"

record object_t =
  obj_name :: string
  flags :: "16 word"
  living_name :: "addr option"

record object_tables =
  objects :: "addr \<rightharpoonup> object_t"
  obj_table :: "addr list list"
  otable_size :: nat
  obj_searches :: int
  obj_probes :: int
  objs_found :: int
  objs_in_table :: int
  user_obj_lookups :: int
  user_obj_found :: int
  hashed_living :: "addr list list"
  num_living_names :: int
  num_searches :: int
  search_length :: int
  strings :: strtab

definition has_flag :: "16 word \<Rightarrow> object_t \<Rightarrow> bool" where
  "has_flag f b \<longleftrightarrow> and (flags b) f \<noteq> 0"

section \<open>The table of object names\<close>

definition init_otable :: "nat \<Rightarrow> object_tables \<Rightarrow> object_tables" where
  "init_otable OTABLE_SIZE st =
     (let n = pow2_loop OTABLE_SIZE 0 in st\<lparr>obj_table := replicate n [], otable_size := n\<rparr>)"

definition ObjHash :: "object_tables \<Rightarrow> string \<Rightarrow> nat" where
  "ObjHash st s = and (whashstr s 40) (otable_size st - 1)"

definition named :: "object_tables \<Rightarrow> string \<Rightarrow> addr \<Rightarrow> bool" where
  "named st s a = (case objects st a of Some b \<Rightarrow> obj_name b = s | None \<Rightarrow> False)"

definition find_obj_n :: "string \<Rightarrow> object_tables \<Rightarrow> addr option \<times> object_tables" where
  "find_obj_n s st =
     (let h = ObjHash st s;
          chain = obj_table st ! h;
          (res, chain') = chain_find (named st s) [] chain;
          probes = (case res of None \<Rightarrow> length chain
                    | Some a \<Rightarrow> Suc (length (takeWhile (\<lambda>a. \<not> named st s a) chain)))
      in (res, st\<lparr>obj_table := (obj_table st)[h := chain'],
                  obj_searches := obj_searches st + 1, obj_probes := obj_probes st + int probes,
                  objs_found := objs_found st + (if res = None then 0 else 1)\<rparr>))"

text \<open>Linking an object that is in the chain already would make the chain circular.\<close>

definition enter_object_hash :: "addr \<Rightarrow> object_tables \<Rightarrow> object_tables option" where
  "enter_object_hash ob st =
     (case objects st ob of
        None \<Rightarrow> None
      | Some b \<Rightarrow>
          (let h = ObjHash st (obj_name b);
               st = snd (find_obj_n (obj_name b) st)
           in if ob \<in> set (obj_table st ! h) then None
              else Some (st\<lparr>obj_table := (obj_table st)[h := ob # obj_table st ! h],
                            objs_in_table := objs_in_table st + 1\<rparr>)))"

definition enter_object_hash_at_end :: "addr \<Rightarrow> object_tables \<Rightarrow> object_tables option" where
  "enter_object_hash_at_end ob st =
     (case objects st ob of
        None \<Rightarrow> None
      | Some b \<Rightarrow>
          (let h = ObjHash st (obj_name b);
               st = snd (find_obj_n (obj_name b) st)
           in if ob \<in> set (obj_table st ! h) then None
              else Some (st\<lparr>obj_table := (obj_table st)[h := obj_table st ! h @ [ob]],
                            objs_in_table := objs_in_table st + 1\<rparr>)))"

text \<open>The new head is what comes after the object, wherever in the chain it is.\<close>

definition remove_object_hash :: "addr \<Rightarrow> object_tables \<Rightarrow> object_tables option" where
  "remove_object_hash ob st =
     (case objects st ob of
        None \<Rightarrow> None
      | Some b \<Rightarrow>
          (let h = ObjHash st (obj_name b);
               st = snd (find_obj_n (obj_name b) st)
           in case dropWhile (\<lambda>a. a \<noteq> ob) (obj_table st ! h) of
                [] \<Rightarrow> None
              | _ # next_hash \<Rightarrow> Some (st\<lparr>obj_table := (obj_table st)[h := next_hash],
                                          objs_in_table := objs_in_table st - 1\<rparr>)))"

text \<open>
  \<open>remove_precompiled_hashes\<close> reads \<open>next_hash\<close> of an entry it has just freed; \<open>intact\<close> says
  whether the freed block still holds what it held.
\<close>

fun drop_precompiled :: "bool \<Rightarrow> object_tables \<Rightarrow> string \<Rightarrow> addr list \<Rightarrow> (addr list \<times> addr set) option" where
  "drop_precompiled intact st s [] = Some ([], {})"
| "drop_precompiled intact st s (a # next_hash) =
     (case objects st a of
        None \<Rightarrow> None
      | Some b \<Rightarrow>
          if has_flag O_COMPILED_PROGRAM b \<and> obj_name b = s then
            (if intact then map_option (apsnd (insert a)) (drop_precompiled intact st s next_hash) else None)
          else map_option (apfst (Cons a)) (drop_precompiled intact st s next_hash))"

definition remove_precompiled_hashes :: "bool \<Rightarrow> string \<Rightarrow> object_tables \<Rightarrow> object_tables option" where
  "remove_precompiled_hashes intact s st =
     (let h = ObjHash st s in
      case drop_precompiled intact st s (obj_table st ! h) of
        None \<Rightarrow> None
      | Some (chain, freed) \<Rightarrow>
          Some (st\<lparr>obj_table := (obj_table st)[h := chain],
                   objects := (\<lambda>a. if a \<in> freed then None else objects st a)\<rparr>))"

definition lookup_object_hash :: "string \<Rightarrow> object_tables \<Rightarrow> addr option \<times> object_tables" where
  "lookup_object_hash s st =
     (let (ob, st) = find_obj_n s st
      in (ob, st\<lparr>user_obj_lookups := user_obj_lookups st + 1,
                 user_obj_found := user_obj_found st + (if ob = None then 0 else 1)\<rparr>))"

section \<open>The table of living names\<close>

definition hash_living_name :: "string \<Rightarrow> nat" where
  "hash_living_name s = and (whashstr s 20) (CFG_LIVING_HASH_SIZE - 1)"

definition living :: "object_tables \<Rightarrow> addr \<rightharpoonup> string" where
  "living st a = (case objects st a of
     Some b \<Rightarrow> (case living_name b of Some p \<Rightarrow> text_of (strings st) p | None \<Rightarrow> None)
   | None \<Rightarrow> None)"

text \<open>
  \<open>allowed\<close> is what the master object answers to \<open>valid_hide\<close> for the current object; it is
  asked anew for every hidden object passed.
\<close>

definition may_be_found :: "bool \<Rightarrow> bool \<Rightarrow> object_t \<Rightarrow> bool" where
  "may_be_found allowed user b \<longleftrightarrow>
     (has_flag O_HIDDEN b \<longrightarrow> allowed) \<and> (user \<longrightarrow> has_flag O_ONCE_INTERACTIVE b) \<and> has_flag O_ENABLE_COMMANDS b"

definition is_sought :: "object_tables \<Rightarrow> bool \<Rightarrow> bool \<Rightarrow> string \<Rightarrow> addr \<Rightarrow> bool" where
  "is_sought st allowed user s a =
     (case objects st a of Some b \<Rightarrow> may_be_found allowed user b \<and> living st a = Some s | None \<Rightarrow> False)"

definition find_living_object :: "bool \<Rightarrow> string option \<Rightarrow> bool \<Rightarrow> object_tables \<Rightarrow> addr option \<times> object_tables" where
  "find_living_object allowed name user st =
     (case name of
        None \<Rightarrow> (None, st)
      | Some s \<Rightarrow>
          (let h = hash_living_name s;
               chain = hashed_living st ! h;
               (res, chain') = chain_find (is_sought st allowed user s) [] chain;
               probes = (case res of None \<Rightarrow> length chain
                         | Some a \<Rightarrow> Suc (length (takeWhile (\<lambda>a. \<not> is_sought st allowed user s a) chain)))
           in (res, st\<lparr>hashed_living := (hashed_living st)[h := chain'],
                       num_searches := num_searches st + 1, search_length := search_length st + int probes\<rparr>)))"

definition remove_living_name :: "addr \<Rightarrow> object_tables \<Rightarrow> object_tables option" where
  "remove_living_name ob st =
     (case objects st ob of
        None \<Rightarrow> None
      | Some b \<Rightarrow>
          (case living_name b of
             None \<Rightarrow> None
           | Some p \<Rightarrow>
               (case text_of (strings st) p of
                  None \<Rightarrow> None
                | Some s \<Rightarrow>
                    (let h = hash_living_name s in
                     case unhook ob (hashed_living st ! h) of
                       None \<Rightarrow> None
                     | Some chain \<Rightarrow>
                         (case free_string p (strings st) of
                            None \<Rightarrow> None
                          | Some strs \<Rightarrow>
                              Some (st\<lparr>num_living_names := num_living_names st - 1,
                                       hashed_living := (hashed_living st)[h := chain], strings := strs,
                                       objects := (objects st)(ob \<mapsto> b\<lparr>living_name := None\<rparr>)\<rparr>))))))"

text \<open>\<open>a\<close> is the address of a block the string table may allocate, \<open>m\<close> the longest string.\<close>

definition set_living_name :: "nat \<Rightarrow> addr \<Rightarrow> addr \<Rightarrow> string \<Rightarrow> object_tables \<Rightarrow> object_tables option" where
  "set_living_name m a ob name st =
     (case objects st ob of
        None \<Rightarrow> None
      | Some b \<Rightarrow>
          if has_flag O_DESTRUCTED b then Some st
          else (case (if living_name b = None then Some st else remove_living_name ob st) of
                  None \<Rightarrow> None
                | Some st \<Rightarrow>
                    (let h = hash_living_name name;
                         (p, strs) = make_shared_string m a name (strings st)
                     in Some (st\<lparr>num_living_names := num_living_names st + 1,
                                 hashed_living := (hashed_living st)[h := ob # hashed_living st ! h], strings := strs,
                                 objects := (objects st)(ob \<mapsto> b\<lparr>living_name := Some p\<rparr>)\<rparr>))))"

section \<open>The table of object names refines a map\<close>

text \<open>
  The objects of a name, in the order in which the table would give them: a real object comes before
  a precompiled one that was entered at the end.
\<close>

definition entries :: "object_tables \<Rightarrow> string \<Rightarrow> addr list" where
  "entries st s = filter (named st s) (obj_table st ! ObjHash st s)"

definition first :: "'a list \<Rightarrow> 'a option" where
  "first xs = (case xs of [] \<Rightarrow> None | x # _ \<Rightarrow> Some x)"

definition otable_ok :: "object_tables \<Rightarrow> bool" where
  "otable_ok st \<longleftrightarrow>
     (\<exists>k. otable_size st = 2 ^ k) \<and> length (obj_table st) = otable_size st
     \<and> objs_in_table st = int (sum_list (map length (obj_table st)))
     \<and> (\<forall>h < length (obj_table st). distinct (obj_table st ! h)
          \<and> (\<forall>a \<in> set (obj_table st ! h). \<exists>b. objects st a = Some b \<and> ObjHash st (obj_name b) = h))"

lemma chain_find_filter:
  assumes "Q = P \<or> (\<forall>x. Q x \<longrightarrow> \<not> P x)" and "\<forall>x \<in> set pre. \<not> P x"
  shows "filter Q (snd (chain_find P pre xs)) = filter Q (rev pre @ xs)"
  using assms(2)
proof (induction xs arbitrary: pre)
  case (Cons a xs)
  show ?case
  proof (cases "P a")
    case True
    have "filter Q (rev pre) = []" if "Q = P" using that Cons.prems by (auto simp: filter_empty_conv)
    with True assms(1) show ?thesis by auto
  next
    case False
    with Cons.IH [of "a # pre"] Cons.prems show ?thesis by simp
  qed
qed simp

lemma ObjHash_less: "otable_ok st \<Longrightarrow> ObjHash st s < length (obj_table st)"
  by (auto simp: otable_ok_def ObjHash_def)

lemma ObjHash_cong: "otable_size st' = otable_size st \<Longrightarrow> ObjHash st' = ObjHash st"
  by (simp add: ObjHash_def fun_eq_iff)

lemma find_obj_n_frame [simp]:
  "objects (snd (find_obj_n s st)) = objects st" "otable_size (snd (find_obj_n s st)) = otable_size st"
  "hashed_living (snd (find_obj_n s st)) = hashed_living st" "strings (snd (find_obj_n s st)) = strings st"
  "objs_in_table (snd (find_obj_n s st)) = objs_in_table st" "num_living_names (snd (find_obj_n s st)) = num_living_names st"
  "obj_table (snd (find_obj_n s st)) = (obj_table st)[ObjHash st s := snd (chain_find (named st s) [] (obj_table st ! ObjHash st s))]"
  by (simp_all add: find_obj_n_def Let_def split: prod.splits)

lemma find_first: "find P xs = first (filter P xs)"
  by (induction xs) (auto simp: first_def)

lemma find_obj_n_result: "fst (find_obj_n s st) = first (entries st s)"
  by (simp add: find_obj_n_def Let_def entries_def case_prod_beta chain_find_result find_first)

lemma named_cong: "objects st' = objects st \<Longrightarrow> named st' = named st"
  by (simp add: named_def fun_eq_iff)

lemma sum_length_update:
  "h < length tbl \<Longrightarrow> int (sum_list (map length (tbl[h := c]))) = int (sum_list (map length tbl)) + int (length c) - int (length (tbl ! h))"
  by (induction tbl arbitrary: h) (auto simp: nth_Cons split: nat.splits)

text \<open>Replacing a chain by one that holds objects of the same hash value, each once.\<close>

lemma otable_ok_update:
  assumes "otable_ok st" "h < length (obj_table st)" "distinct c"
    and "\<And>a. a \<in> set c \<Longrightarrow> \<exists>b. objects st a = Some b \<and> ObjHash st (obj_name b) = h"
    and "objects st' = objects st" "otable_size st' = otable_size st" "obj_table st' = (obj_table st)[h := c]"
    and "objs_in_table st' = objs_in_table st + int (length c) - int (length (obj_table st ! h))"
  shows "otable_ok st'"
proof -
  have "ObjHash st' = ObjHash st" by (rule ObjHash_cong) (rule assms)
  with assms show ?thesis by (auto simp: otable_ok_def nth_update_if sum_length_update)
qed

lemma otable_chain:
  assumes "otable_ok st" "h < length (obj_table st)"
  shows "distinct (obj_table st ! h)" "a \<in> set (obj_table st ! h) \<Longrightarrow> \<exists>b. objects st a = Some b \<and> ObjHash st (obj_name b) = h"
  using assms by (auto simp: otable_ok_def)

lemma find_obj_n_ok:
  assumes "otable_ok st"
  shows "otable_ok (snd (find_obj_n s st))" and "entries (snd (find_obj_n s st)) = entries st"
proof -
  let ?st = "snd (find_obj_n s st)" and ?h = "ObjHash st s"
  let ?c = "snd (chain_find (named st s) [] (obj_table st ! ?h))"
  have h: "?h < length (obj_table st)" by (rule ObjHash_less [OF assms])
  show "otable_ok ?st"
  proof (rule otable_ok_update [OF assms h])
    show "distinct ?c" using otable_chain(1) [OF assms h] by (intro chain_find_distinct) simp
    show "\<exists>b. objects st a = Some b \<and> ObjHash st (obj_name b) = ?h" if "a \<in> set ?c" for a
      using that otable_chain(2) [OF assms h] by (simp add: chain_find_set)
  qed (simp_all add: chain_find_length)
  show "entries ?st = entries st"
  proof
    fix n
    have H: "ObjHash ?st = ObjHash st" by (rule ObjHash_cong) simp
    have N: "named ?st = named st" by (rule named_cong) simp
    have "filter (named st n) ?c = filter (named st n) (obj_table st ! ?h)"
      using chain_find_filter [of "named st n" "named st s" "[]" "obj_table st ! ?h"]
      by (force simp: named_def split: option.splits)
    then show "entries ?st n = entries st n" 
      using ObjHash_less [OF assms, of n] by (auto simp: entries_def H N nth_update_if)
  qed
qed

text \<open>Changing the chain of a name.\<close>

lemma entries_update:
  assumes "otable_ok st" "h = ObjHash st s" "objects st' = objects st" "otable_size st' = otable_size st"
    and "obj_table st' = (obj_table st)[h := c]"
    and "\<And>n. n \<noteq> s \<Longrightarrow> ObjHash st n = h \<Longrightarrow> filter (named st n) c = filter (named st n) (obj_table st ! h)"
  shows "entries st' = (entries st)(s := filter (named st s) c)"
proof
  fix n
  have "ObjHash st' = ObjHash st" "named st' = named st" using assms by (auto intro: ObjHash_cong named_cong)
  then show "entries st' n = ((entries st)(s := filter (named st s) c)) n"
    using assms ObjHash_less [OF assms(1), of s] ObjHash_less [OF assms(1), of n]
    by (auto simp: entries_def nth_update_if)
qed

definition in_table :: "object_tables \<Rightarrow> addr \<Rightarrow> bool" where
  "in_table st a \<longleftrightarrow> (\<exists>b. objects st a = Some b \<and> a \<in> set (entries st (obj_name b)))"

lemma in_chain_iff:
  "objects st a = Some b \<Longrightarrow> a \<in> set (obj_table st ! ObjHash st (obj_name b)) \<longleftrightarrow> in_table st a"
  by (simp add: in_table_def entries_def named_def)

lemma enter_object_hash_spec:
  assumes "otable_ok st" and "objects st ob = Some b" and "\<not> in_table st ob"
  shows "\<exists>st'. enter_object_hash ob st = Some st' \<and> otable_ok st' \<and> objects st' = objects st
      \<and> entries st' = (entries st)(obj_name b := ob # entries st (obj_name b))"
    and "\<exists>st'. enter_object_hash_at_end ob st = Some st' \<and> otable_ok st' \<and> objects st' = objects st
      \<and> entries st' = (entries st)(obj_name b := entries st (obj_name b) @ [ob])"
proof -
  let ?h = "ObjHash st (obj_name b)" and ?s = "snd (find_obj_n (obj_name b) st)"
  have ok: "otable_ok ?s" "entries ?s = entries st" by (rule find_obj_n_ok [OF assms(1)])+
  have H: "ObjHash ?s = ObjHash st" by (rule ObjHash_cong) simp
  have h: "?h < length (obj_table ?s)" using ObjHash_less [OF assms(1)] by simp
  let ?c = "obj_table ?s ! ?h"
  have out: "ob \<notin> set ?c" using assms(3) in_chain_iff [of ?s ob b] assms(2) ok(2) H by (simp add: in_table_def)
  have nob: "named ?s (obj_name b) ob" "\<And>n. n \<noteq> obj_name b \<Longrightarrow> \<not> named ?s n ob"
    using assms(2) by (auto simp: named_def)
  have cf: "filter (named ?s (obj_name b)) ?c = entries st (obj_name b)"
    by (simp only: ok(2) [symmetric] entries_def H)
  note chain = otable_chain [OF ok(1) h]
  {
    fix c' assume c': "distinct c'" "set c' = insert ob (set ?c)" "length c' = Suc (length ?c)"
      "\<And>n. n \<noteq> obj_name b \<Longrightarrow> filter (named ?s n) c' = filter (named ?s n) ?c"
    let ?st = "?s\<lparr>obj_table := (obj_table ?s)[?h := c'], objs_in_table := objs_in_table ?s + 1\<rparr>"
    have "otable_ok ?st"
      by (rule otable_ok_update [OF ok(1) h c'(1)]) (use assms(2) chain(2) c' H in auto)
    moreover have "entries ?st = (entries ?s)(obj_name b := filter (named ?s (obj_name b)) c')"
      by (rule entries_update [OF ok(1)]) (use c'(4) H in auto)
    ultimately have "otable_ok ?st \<and> objects ?st = objects st \<and> entries ?st = (entries st)(obj_name b := filter (named ?s (obj_name b)) c')"
      by (simp add: ok(2))
  } note upd = this
  show "\<exists>st'. enter_object_hash ob st = Some st' \<and> otable_ok st' \<and> objects st' = objects st
      \<and> entries st' = (entries st)(obj_name b := ob # entries st (obj_name b))"
    using upd [of "ob # ?c"] chain(1) out nob cf assms(2)
    by (simp add: enter_object_hash_def Let_def del: find_obj_n_frame)
  show "\<exists>st'. enter_object_hash_at_end ob st = Some st' \<and> otable_ok st' \<and> objects st' = objects st
      \<and> entries st' = (entries st)(obj_name b := entries st (obj_name b) @ [ob])"
    using upd [of "?c @ [ob]"] chain(1) out nob cf assms(2)
    by (simp add: enter_object_hash_at_end_def Let_def del: find_obj_n_frame)
qed

lemma chain_find_head: "find P xs = Some a \<Longrightarrow> \<exists>ys. snd (chain_find P pre xs) = a # ys"
  by (simp add: chain_find_eq)

lemma remove_object_hash_spec:
  assumes "otable_ok st" and "objects st ob = Some b" and "entries st (obj_name b) = ob # obs"
  shows "\<exists>st'. remove_object_hash ob st = Some st' \<and> otable_ok st' \<and> objects st' = objects st
      \<and> entries st' = (entries st)(obj_name b := obs)"
proof -
  let ?h = "ObjHash st (obj_name b)" and ?s = "snd (find_obj_n (obj_name b) st)"
  have ok: "otable_ok ?s" "entries ?s = entries st" by (rule find_obj_n_ok [OF assms(1)])+
  have H: "ObjHash ?s = ObjHash st" by (rule ObjHash_cong) simp
  have h: "?h < length (obj_table ?s)" using ObjHash_less [OF assms(1)] by simp
  have "find (named st (obj_name b)) (obj_table st ! ?h) = Some ob"
    using assms(3) by (simp add: find_first entries_def first_def)
  then obtain c where c: "obj_table ?s ! ?h = ob # c"
    using chain_find_head [of "named st (obj_name b)" "obj_table st ! ?h" ob "[]"] ObjHash_less [OF assms(1)] by auto
  have nob: "named ?s (obj_name b) ob" "\<And>n. n \<noteq> obj_name b \<Longrightarrow> \<not> named ?s n ob"
    using assms(2) by (auto simp: named_def)
  have "filter (named ?s (obj_name b)) (ob # c) = ob # obs"
    by (simp only: c [symmetric] assms(3) [symmetric] ok(2) [symmetric] entries_def H)
  with nob(1) have f: "filter (named ?s (obj_name b)) c = obs" by simp
  let ?st = "?s\<lparr>obj_table := (obj_table ?s)[?h := c], objs_in_table := objs_in_table ?s - 1\<rparr>"
  have "otable_ok ?st"
    by (rule otable_ok_update [OF ok(1) h]) (use otable_chain [OF ok(1) h] c H in \<open>auto simp del: find_obj_n_frame(6)\<close>)
  moreover have "entries ?st = (entries ?s)(obj_name b := filter (named ?s (obj_name b)) c)"
    by (rule entries_update [OF ok(1)]) (use nob c H in \<open>auto simp del: find_obj_n_frame(6)\<close>)
  ultimately show ?thesis
    using assms(2) c f ok(2) by (simp add: remove_object_hash_def Let_def del: find_obj_n_frame(6))
qed

lemma lookup_object_hash_spec:
  assumes "otable_ok st"
  shows "\<exists>st'. lookup_object_hash s st = (first (entries st s), st') \<and> otable_ok st' \<and> objects st' = objects st
    \<and> entries st' = entries st"
proof -
  let ?s = "snd (find_obj_n s st)"
  have ok: "otable_ok ?s" "entries ?s = entries st" by (rule find_obj_n_ok [OF assms])+
  have "otable_ok (?s\<lparr>user_obj_lookups := i, user_obj_found := j\<rparr>)" for i j
    using ok(1) by (auto simp: otable_ok_def ObjHash_def)
  moreover have "entries (x\<lparr>user_obj_lookups := i, user_obj_found := j\<rparr>) = entries x" for x i j
    by (simp add: entries_def ObjHash_def named_def fun_eq_iff cong: filter_cong)
  ultimately show ?thesis
    using find_obj_n_result [of s st] ok(2) by (simp add: lookup_object_hash_def case_prod_beta del: find_obj_n_frame(6))
qed

lemma drop_precompiled_spec:
  assumes "\<forall>a \<in> set c. objects st a \<noteq> None"
  shows "drop_precompiled intact st s c =
    (let dead = (\<lambda>a. named st s a \<and> has_flag O_COMPILED_PROGRAM (the (objects st a))) in
     if intact \<or> filter dead c = [] then Some (filter (\<lambda>a. \<not> dead a) c, set (filter dead c)) else None)"
  using assms
proof (induction c)
  case (Cons a c)
  then obtain b where b: "objects st a = Some b" by auto
  then have "named st s a \<longleftrightarrow> obj_name b = s" by (simp add: named_def)
  with Cons b show ?case by (cases "has_flag O_COMPILED_PROGRAM b"; cases "obj_name b = s") (auto simp: Let_def)
qed simp

lemma remove_precompiled_hashes_spec:
  assumes "otable_ok st"
  shows "remove_precompiled_hashes True s st \<noteq> None"
    and "remove_precompiled_hashes True s st = Some st' \<Longrightarrow>
      entries st' = (entries st)(s := filter (\<lambda>a. \<not> has_flag O_COMPILED_PROGRAM (the (objects st a))) (entries st s))
      \<and> objects st' = (\<lambda>a. if a \<in> set (entries st s) \<and> has_flag O_COMPILED_PROGRAM (the (objects st a)) then None else objects st a)"
    and "(remove_precompiled_hashes False s st = None) =
      (\<exists>a \<in> set (entries st s). has_flag O_COMPILED_PROGRAM (the (objects st a)))"
proof -
  let ?h = "ObjHash st s" and ?dead = "\<lambda>a. named st s a \<and> has_flag O_COMPILED_PROGRAM (the (objects st a))"
  let ?c = "obj_table st ! ?h"
  have h: "?h < length (obj_table st)" by (rule ObjHash_less [OF assms])
  have live: "\<forall>a \<in> set ?c. objects st a \<noteq> None" using otable_chain(2) [OF assms h] by fastforce
  note d = drop_precompiled_spec [OF live, of _ s, unfolded Let_def]
  let ?fr = "{x \<in> set ?c. named st s x \<and> has_flag O_COMPILED_PROGRAM (the (objects st x))}"
  show "remove_precompiled_hashes True s st \<noteq> None" by (simp add: remove_precompiled_hashes_def d Let_def)
  show "(remove_precompiled_hashes False s st = None) =
      (\<exists>a \<in> set (entries st s). has_flag O_COMPILED_PROGRAM (the (objects st a)))"
    by (auto simp: remove_precompiled_hashes_def d Let_def entries_def filter_empty_conv)
  assume "remove_precompiled_hashes True s st = Some st'"
  then have st': "st' = st\<lparr>obj_table := (obj_table st)[?h := filter (\<lambda>a. \<not> ?dead a) ?c],
      objects := (\<lambda>a. if a \<in> ?fr then None else objects st a)\<rparr>"
    by (simp add: remove_precompiled_hashes_def d Let_def)
  have H: "ObjHash st' = ObjHash st" by (rule ObjHash_cong) (simp add: st')
  have T: "obj_table st' = (obj_table st)[?h := filter (\<lambda>a. \<not> ?dead a) ?c]" by (simp add: st')
  have N: "named st' n a = (named st n a \<and> a \<notin> ?fr)" for n a by (auto simp: named_def st')
  have ne: "named st n a \<Longrightarrow> named st s a \<Longrightarrow> n = s" for n a by (auto simp: named_def split: option.splits)
  have "entries st' n = (if n = s then filter (\<lambda>a. \<not> has_flag O_COMPILED_PROGRAM (the (objects st a))) (entries st s) else entries st n)" for n
  proof -
    let ?cn = "obj_table st ! ObjHash st n"
    have "entries st' n = filter (named st' n) (if ObjHash st n = ?h then filter (\<lambda>a. \<not> ?dead a) ?c else ?cn)"
      using ObjHash_less [OF assms, of n] by (simp add: entries_def H T nth_update_if)
    also have "\<dots> = filter (\<lambda>a. named st n a \<and> \<not> ?dead a) ?cn"
    proof (cases "ObjHash st n = ?h")
      case False
      then have "a \<in> set ?cn \<Longrightarrow> a \<notin> set ?c" for a
        using otable_chain(2) [OF assms h, of a] otable_chain(2) [OF assms ObjHash_less [OF assms], of a n] by auto
      moreover have "a \<in> set ?cn \<Longrightarrow> \<not> named st s a" for a
        using False otable_chain(2) [OF assms ObjHash_less [OF assms], of a n] by (auto simp: named_def)
      ultimately show ?thesis using False by (auto simp: N intro!: filter_cong)
    qed (auto simp: N intro!: filter_cong)
    finally show ?thesis by (auto simp: entries_def dest: ne intro!: filter_cong)
  qed
  then show "entries st' = (entries st)(s := filter (\<lambda>a. \<not> has_flag O_COMPILED_PROGRAM (the (objects st a))) (entries st s))
      \<and> objects st' = (\<lambda>a. if a \<in> set (entries st s) \<and> has_flag O_COMPILED_PROGRAM (the (objects st a)) then None else objects st a)"
    by (auto simp: fun_eq_iff st' entries_def)
qed

section \<open>The invariant of the living names\<close>

definition bearers :: "object_tables \<Rightarrow> addr \<Rightarrow> addr set" where
  "bearers st p = {a. \<exists>b. objects st a = Some b \<and> living_name b = Some p}"

definition living_hash :: "object_tables \<Rightarrow> addr \<Rightarrow> nat" where
  "living_hash st a = (case living st a of Some s \<Rightarrow> hash_living_name s | None \<Rightarrow> 0)"

text \<open>
  The names are alive in the string table, which owes the objects a reference each; the chains hold
  every object with a living name once, in the chain of its name; and the count is right.
\<close>

definition living_ok :: "object_tables \<Rightarrow> bool" where
  "living_ok st \<longleftrightarrow> length (hashed_living st) = CFG_LIVING_HASH_SIZE \<and> table_ok (strings st)
     \<and> finite (dom (living st)) \<and> (\<forall>p. finite (bearers st p)) \<and> held (strings st) (\<lambda>p. card (bearers st p))
     \<and> buckets_ok (living_hash st) (dom (living st)) (hashed_living st)
     \<and> num_living_names st = int (card (dom (living st)))"

lemma hash_living_name_less: "hash_living_name s < CFG_LIVING_HASH_SIZE"
proof -
  have "hash_living_name s = whashstr s 20 mod 2 ^ 8"
    unfolding hash_living_name_def CFG_LIVING_HASH_SIZE_def using and_pow2_minus_1 [of "whashstr s 20" 8] by simp
  then show ?thesis by (simp add: CFG_LIVING_HASH_SIZE_def)
qed

lemma living_Some:
  assumes "living_ok st" "objects st a = Some b" "living_name b = Some p"
  shows "\<exists>s. text_of (strings st) p = Some s \<and> living st a = Some s"
proof -
  have "a \<in> bearers st p" using assms by (auto simp: bearers_def)
  then have "0 < card (bearers st p)" using assms(1) card_gt_0_iff by (fastforce simp: living_ok_def)
  then have "text_of (strings st) p \<noteq> None" using assms(1) held.held_live by (fastforce simp: living_ok_def)
  then show ?thesis using assms by (auto simp: living_def)
qed

lemma living_in_chain:
  assumes "living_ok st" "living st a = Some s"
  shows "a \<in> set (hashed_living st ! hash_living_name s)"
  using assms buckets_okD(2) [of "living_hash st" "dom (living st)" "hashed_living st" "hash_living_name s"]
    hash_living_name_less [of s] by (auto simp: living_ok_def living_hash_def)

lemma living_hash_cong: "living st' = living st \<Longrightarrow> living_hash st' = living_hash st"
  by (simp add: living_hash_def fun_eq_iff)

section \<open>Finding a living object\<close>

lemma find_living_object_spec:
  assumes "living_ok st" and "find_living_object allowed (Some s) user st = (r, st')"
  shows "living_ok st'" and "objects st' = objects st" and "strings st' = strings st" and "living st' = living st"
    and "case r of
        Some a \<Rightarrow> is_sought st allowed user s a
          \<and> hashed_living st' = (hashed_living st)[hash_living_name s :=
              a # takeWhile (\<lambda>a. \<not> is_sought st allowed user s a) (hashed_living st ! hash_living_name s)
                @ tl (dropWhile (\<lambda>a. \<not> is_sought st allowed user s a) (hashed_living st ! hash_living_name s))]
      | None \<Rightarrow> (\<forall>a. \<not> is_sought st allowed user s a)"
proof -
  let ?h = "hash_living_name s" and ?P = "is_sought st allowed user s"
  let ?c = "chain_find ?P [] (hashed_living st ! ?h)"
  have h: "?h < length (hashed_living st)" using assms(1) hash_living_name_less by (simp add: living_ok_def)
  have e: "fst ?c = r" "hashed_living st' = (hashed_living st)[?h := snd ?c]" "objects st' = objects st" "strings st' = strings st"
    "num_living_names st' = num_living_names st"
    using assms(2) by (auto simp: find_living_object_def Let_def split: prod.splits)
  show L: "living st' = living st" by (simp add: living_def fun_eq_iff e split: option.split)
  have "buckets_ok (living_hash st) (dom (living st)) (hashed_living st')"
    unfolding e using assms(1) by (intro buckets) (auto simp: living_ok_def chain_find_mset)
  with assms(1) show "living_ok st'"
    by (simp add: living_ok_def e L living_hash_cong [OF L] bearers_def)
  show "objects st' = objects st" "strings st' = strings st" by fact+
  have f: "find ?P (hashed_living st ! ?h) = r" using e(1) by (simp add: chain_find_result)
  show "case r of
        Some a \<Rightarrow> is_sought st allowed user s a
          \<and> hashed_living st' = (hashed_living st)[hash_living_name s :=
              a # takeWhile (\<lambda>a. \<not> is_sought st allowed user s a) (hashed_living st ! hash_living_name s)
                @ tl (dropWhile (\<lambda>a. \<not> is_sought st allowed user s a) (hashed_living st ! hash_living_name s))]
      | None \<Rightarrow> (\<forall>a. \<not> is_sought st allowed user s a)"
  proof (cases r)
    case None
    with f have "\<forall>a \<in> set (hashed_living st ! ?h). \<not> ?P a" by (simp add: find_None_iff)
    moreover have "?P a \<Longrightarrow> a \<in> set (hashed_living st ! ?h)" for a
      using living_in_chain [OF assms(1)] by (auto simp: is_sought_def split: option.splits)
    ultimately show ?thesis using None by auto
  next
    case (Some a)
    with f find_Some_D [OF f [unfolded Some]] show ?thesis by (simp add: e chain_find_eq)
  qed
qed

section \<open>Giving and taking living names\<close>

lemma bearers_upd:
  assumes "objects st' = (objects st)(ob \<mapsto> b)"
  shows "bearers st' p = (if living_name b = Some p then insert ob (bearers st p) else bearers st p - {ob})"
  using assms by (auto simp: bearers_def split: if_splits)

text \<open>A change of one object and of the string table, when the other names keep their text.\<close>

lemma living_upd:
  assumes "objects st' = (objects st)(ob \<mapsto> b)"
    and "\<And>a c p. a \<noteq> ob \<Longrightarrow> objects st a = Some c \<Longrightarrow> living_name c = Some p \<Longrightarrow> text_of (strings st') p = text_of (strings st) p"
  shows "living st' = (living st)(ob := (case living_name b of Some p \<Rightarrow> text_of (strings st') p | None \<Rightarrow> None))"
proof
  fix a
  show "living st' a = ((living st)(ob := (case living_name b of Some p \<Rightarrow> text_of (strings st') p | None \<Rightarrow> None))) a"
  proof (cases "objects st a")
    case (Some c)
    then show ?thesis using assms(2) [OF _ Some] by (cases "living_name c") (auto simp: living_def assms(1))
  qed (auto simp: living_def assms(1))
qed

lemma remove_living_name_spec:
  assumes ok: "living_ok st" and ob: "objects st ob = Some b" "living_name b = Some p"
  shows "\<exists>st'. remove_living_name ob st = Some st' \<and> living_ok st' \<and> living st' = (living st)(ob := None)
    \<and> objects st' = (objects st)(ob \<mapsto> b\<lparr>living_name := None\<rparr>)
    \<and> (\<forall>q. text_of (strings st') q = None \<or> text_of (strings st') q = text_of (strings st) q)"
proof -
  let ?n = "\<lambda>p. card (bearers st p)"
  obtain s where s: "text_of (strings st) p = Some s" "living st ob = Some s" using living_Some [OF ok ob] by blast
  let ?h = "hash_living_name s"
  have h: "living_hash st ob = ?h" by (simp add: living_hash_def s)
  obtain c where c: "unhook ob (hashed_living st ! ?h) = Some c" "mset (hashed_living st ! ?h) = add_mset ob (mset c)"
    using unhook_mset [OF living_in_chain [OF ok s(2)]] by blast
  have fin: "finite (bearers st q)" for q using ok by (simp add: living_ok_def)
  have obp: "ob \<in> bearers st p" using ob by (auto simp: bearers_def)
  then have pos: "0 < ?n p" using fin by (auto simp: card_gt_0_iff)
  have ts: "table_ok (strings st)" "held (strings st) ?n" using ok by (auto simp: living_ok_def)
  from held.release_held [OF ts, of p] pos obtain strs where
    f: "free_string p (strings st) = Some strs" "table_ok strs" "held strs (?n(p := ?n p - 1))"
       "\<forall>q. text_of strs q = text_of (strings st) q \<or> q = p \<and> text_of strs q = None" by blast
  let ?b = "b\<lparr>living_name := None\<rparr>"
  let ?st = "st\<lparr>num_living_names := num_living_names st - 1, hashed_living := (hashed_living st)[?h := c], strings := strs,
                objects := (objects st)(ob \<mapsto> ?b)\<rparr>"
  have r: "remove_living_name ob st = Some ?st" by (simp add: remove_living_name_def ob s c f)
  have B: "bearers ?st q = bearers st q - {ob}" for q by (subst bearers_upd [of _ st ob ?b]) simp_all
  have n: "(\<lambda>q. card (bearers ?st q)) = ?n(p := ?n p - 1)"
  proof
    fix q
    show "card (bearers ?st q) = (?n(p := ?n p - 1)) q"
    proof (cases "q = p")
      case False
      then have "ob \<notin> bearers st q" using ob by (auto simp: bearers_def)
      with False show ?thesis by (simp add: B)
    qed (simp add: B obp)
  qed
  have L: "living ?st = (living st)(ob := None)"
  proof (subst living_upd [of _ st ob ?b])
    fix a d q
    assume a: "a \<noteq> ob" "objects st a = Some d" "living_name d = Some q"
    then have "a \<in> bearers ?st q" by (simp add: B) (auto simp: bearers_def)
    then have "0 < card (bearers ?st q)" using fin by (simp add: B card_gt_0_iff) blast
    then have "0 < (?n(p := ?n p - 1)) q" using n by metis
    with held.release_keeps [OF ts pos f(1)] show "text_of (strings ?st) q = text_of (strings st) q" by simp
  qed simp_all
  have "living_ok ?st"
  proof -
    have D: "dom (living ?st) = dom (living st) - {ob}" by (auto simp: L)
    have "\<And>a. a \<in> dom (living st) - {ob} \<Longrightarrow> living_hash st a = living_hash ?st a"
      by (simp add: living_hash_def L)
    from buckets_ok_cong [OF this]
    have cong: "buckets_ok (living_hash st) (dom (living st) - {ob}) tbl = buckets_ok (living_hash ?st) (dom (living st) - {ob}) tbl" for tbl .
    have "buckets_ok (living_hash st) (dom (living st) - {ob}) ((hashed_living st)[living_hash st ob := c])"
      using ok c(2) by (intro buckets) (auto simp: living_ok_def h)
    then have "buckets_ok (living_hash ?st) (dom (living ?st)) (hashed_living ?st)"
      by (simp add: D cong h)
    moreover have "Suc (card (dom (living st) - {ob})) = card (dom (living st))"
      using ok s(2) by (intro card_Suc_Diff1) (auto simp: living_ok_def)
    then have "int (card (dom (living ?st))) = num_living_names st - 1"
      using ok unfolding D by (simp add: living_ok_def)
    moreover have "held (strings ?st) (\<lambda>q. card (bearers ?st q))" unfolding n using f(3) by simp
    moreover have "finite (bearers ?st q)" for q by (simp add: B fin)
    ultimately show ?thesis using ok f(2) unfolding living_ok_def D by simp
  qed
  with r L f(4) show ?thesis by (intro exI [of _ ?st]) auto
qed

lemma link_living_name:
  assumes ok: "living_ok st" and ob: "objects st ob = Some d" "living_name d = None"
    and a: "length s \<le> m" "text_of (strings st) a = None" and i: "make_shared_string m a s (strings st) = (p, strs)"
    and st': "st' = st\<lparr>num_living_names := num_living_names st + 1,
        hashed_living := (hashed_living st)[hash_living_name s := ob # hashed_living st ! hash_living_name s], strings := strs,
        objects := (objects st)(ob \<mapsto> b\<lparr>living_name := Some p\<rparr>)\<rparr>"
  shows "living_ok st'" and "living st' = (living st)(ob \<mapsto> s)"
proof -
  let ?n = "\<lambda>p. card (bearers st p)" and ?b = "b\<lparr>living_name := Some p\<rparr>"
  have fin: "finite (bearers st q)" for q using ok by (simp add: living_ok_def)
  have none: "living st ob = None" using ob by (simp add: living_def)
  have nob: "ob \<notin> bearers st q" for q using ob by (simp add: bearers_def)
  have ts: "table_ok (strings st)" "held (strings st) ?n" using ok by (auto simp: living_ok_def)
  note io = sh.intern_ok [OF ts(1) a(1,2) i] and ih = held.intern_held [OF ts(1) a(1,2) ts(2) i]
  have s': "strings st' = strs" "objects st' = (objects st)(ob \<mapsto> ?b)" by (simp_all add: st')
  have B: "bearers st' q = (if q = p then insert ob (bearers st q) else bearers st q)" for q
    using bearers_upd [OF s'(2), of q] nob by auto
  have n: "(\<lambda>q. card (bearers st' q)) = ?n(p := ?n p + 1)"
    by (auto simp: B fun_eq_iff nob fin)
  show L: "living st' = (living st)(ob \<mapsto> s)"
  proof (subst living_upd [OF s'(2)])
    fix a' c q
    assume "objects st a' = Some c" "living_name c = Some q"
    with living_Some [OF ok] obtain s' where "text_of (strings st) q = Some s'" by blast
    with sh.intern_keeps [OF ts(1) a(1,2) i] show "text_of (strings st') q = text_of (strings st) q" by (simp add: s')
  qed (use io in \<open>simp add: s'\<close>)
  have D: "dom (living st') = insert ob (dom (living st))" by (auto simp: L)
  have h: "living_hash st' ob = hash_living_name s" by (simp add: living_hash_def L)
  have "\<And>a. a \<in> dom (living st) \<Longrightarrow> living_hash st a = living_hash st' a"
    using none by (auto simp: living_hash_def L)
  then have "buckets_ok (living_hash st) (dom (living st)) tbl = buckets_ok (living_hash st') (dom (living st)) tbl" for tbl
    by (rule buckets_ok_cong)
  then have "buckets_ok (living_hash st') (dom (living st)) (hashed_living st)"
    using ok by (simp add: living_ok_def)
  then have "buckets_ok (living_hash st') (dom (living st')) (hashed_living st')"
    unfolding D using buckets_insert [of "living_hash st'" "dom (living st)" "hashed_living st" ob] none h
    by (auto simp: st')
  moreover have "card (dom (living st')) = Suc (card (dom (living st)))"
    unfolding D using ok none by (subst card_insert_disjoint) (auto simp: living_ok_def)
  moreover have "held (strings st') (\<lambda>q. card (bearers st' q))" unfolding n s' using ih .
  moreover have "table_ok (strings st')" using io by (simp add: s')
  moreover have "finite (bearers st' q)" for q by (simp add: B fin)
  moreover have "num_living_names st' = num_living_names st + 1" "length (hashed_living st') = length (hashed_living st)"
    by (simp_all add: st')
  ultimately show "living_ok st'" using ok unfolding living_ok_def by (simp add: D)
qed

lemma set_living_name_spec:
  assumes ok: "living_ok st" and ob: "objects st ob = Some b" "\<not> has_flag O_DESTRUCTED b"
    and a: "length s \<le> m" "text_of (strings st) a = None"
  shows "\<exists>st'. set_living_name m a ob s st = Some st' \<and> living_ok st' \<and> living st' = (living st)(ob \<mapsto> s)"
proof (cases "living_name b")
  case None
  obtain p strs where i: "make_shared_string m a s (strings st) = (p, strs)" by fastforce
  from link_living_name [OF ok ob(1) None a i refl, of b] show ?thesis
    using None ob by (simp add: set_living_name_def i Let_def)
next
  case (Some q)
  from remove_living_name_spec [OF ok ob(1) Some] obtain st1 where
    r: "remove_living_name ob st = Some st1" "living_ok st1" "living st1 = (living st)(ob := None)"
       "objects st1 = (objects st)(ob \<mapsto> b\<lparr>living_name := None\<rparr>)" "text_of (strings st1) a = None"
    using a(2) by metis
  obtain p strs where i: "make_shared_string m a s (strings st1) = (p, strs)" by fastforce
  have "objects st1 ob = Some (b\<lparr>living_name := None\<rparr>)" by (simp add: r(4))
  from link_living_name [OF r(2) this _ a(1) r(5) i refl, of b] show ?thesis
    using Some ob by (simp add: set_living_name_def i r(1,3,4) Let_def)
qed

section \<open>Properties\<close>

text \<open>C15. The table of object names refines a map from names to lists of objects: a lookup gives the
  first object of the name, whatever it does to the order of the chains; entering puts the object
  before, entering at the end behind the others of its name; removing the first one uncovers the
  next. No operation disturbs the other names, follows a dangling pointer or loses the count.\<close>

theorem object_table_refines_map:
  assumes "otable_ok st" and "objects st ob = Some b"
  shows "(\<exists>st'. lookup_object_hash s st = (first (entries st s), st') \<and> otable_ok st' \<and> objects st' = objects st \<and> entries st' = entries st)
    \<and> (\<not> in_table st ob \<longrightarrow>
        (\<exists>st'. enter_object_hash ob st = Some st' \<and> otable_ok st' \<and> objects st' = objects st
          \<and> entries st' = (entries st)(obj_name b := ob # entries st (obj_name b)))
        \<and> (\<exists>st'. enter_object_hash_at_end ob st = Some st' \<and> otable_ok st' \<and> objects st' = objects st
          \<and> entries st' = (entries st)(obj_name b := entries st (obj_name b) @ [ob])))
    \<and> (first (entries st (obj_name b)) = Some ob \<longrightarrow>
        (\<exists>st'. remove_object_hash ob st = Some st' \<and> otable_ok st' \<and> objects st' = objects st
          \<and> entries st' = (entries st)(obj_name b := tl (entries st (obj_name b)))))"
proof -
  have "\<exists>st'. remove_object_hash ob st = Some st' \<and> otable_ok st' \<and> objects st' = objects st \<and> entries st' = (entries st)(obj_name b := tl (entries st (obj_name b)))"
    if "first (entries st (obj_name b)) = Some ob"
    using that remove_object_hash_spec [OF assms] by (auto simp: first_def split: list.splits)
  with lookup_object_hash_spec [OF assms(1)] enter_object_hash_spec [OF assms] show ?thesis by blast
qed

text \<open>Removing the precompiled entries of a name leaves its other objects in their order and frees
  exactly those entries, provided a freed block can still be read: the loop takes the link to the
  next entry out of the block it has just freed.\<close>

theorem remove_precompiled_reads_freed:
  assumes "otable_ok st"
  shows "(\<exists>st'. remove_precompiled_hashes True s st = Some st'
      \<and> entries st' = (entries st)(s := filter (\<lambda>a. \<not> has_flag O_COMPILED_PROGRAM (the (objects st a))) (entries st s))
      \<and> objs_in_table st' = objs_in_table st)
    \<and> (remove_precompiled_hashes False s st = None \<longleftrightarrow>
        (\<exists>a \<in> set (entries st s). has_flag O_COMPILED_PROGRAM (the (objects st a))))"
proof -
  obtain st' where st': "remove_precompiled_hashes True s st = Some st'"
    using remove_precompiled_hashes_spec(1) [OF assms] by blast
  moreover have "objs_in_table st' = objs_in_table st"
    using st' by (auto simp: remove_precompiled_hashes_def Let_def split: option.splits)
  ultimately have "\<exists>st'. remove_precompiled_hashes True s st = Some st'
      \<and> entries st' = (entries st)(s := filter (\<lambda>a. \<not> has_flag O_COMPILED_PROGRAM (the (objects st a))) (entries st s))
      \<and> objs_in_table st' = objs_in_table st"
    using remove_precompiled_hashes_spec(2) [OF assms st'] by blast
  then show ?thesis using remove_precompiled_hashes_spec(3) [OF assms] by (rule conjI)
qed


text \<open>\<open>find_living_object\<close> finds an object exactly when one of that name may be found by the caller
  (hidden objects only if the master allows it, with \<open>user\<close> only those that were interactive
  once), gives such an object, changes no name, and gives the same one when asked again.\<close>

theorem find_living_object_correct:
  assumes "living_ok st" and "find_living_object allowed (Some s) user st = (r, st')"
  shows "living_ok st' \<and> living st' = living st
    \<and> (r = None \<longleftrightarrow> \<not> (\<exists>a b. objects st a = Some b \<and> living st a = Some s \<and> may_be_found allowed user b))
    \<and> (\<forall>a. r = Some a \<longrightarrow> living st a = Some s \<and> may_be_found allowed user (the (objects st a)))
    \<and> fst (find_living_object allowed (Some s) user st') = r"
proof -
  note spec = find_living_object_spec [OF assms]
  have sought: "is_sought st' = is_sought st"
    unfolding is_sought_def spec(2,4) ..
  have iff: "is_sought st allowed user s a \<longleftrightarrow> (\<exists>b. objects st a = Some b \<and> living st a = Some s \<and> may_be_found allowed user b)" for a
    by (auto simp: is_sought_def split: option.splits)
  obtain r2 st2 where f2: "find_living_object allowed (Some s) user st' = (r2, st2)" by fastforce
  note spec2 = find_living_object_spec [OF spec(1) f2]
  have "r2 = r"
  proof (cases r)
    case None
    with spec(5) spec2(5) show ?thesis by (auto simp: sought split: option.splits)
  next
    case (Some a)
    have h: "hash_living_name s < length (hashed_living st)" using assms(1) hash_living_name_less by (simp add: living_ok_def)
    from spec(5) Some have "is_sought st allowed user s a" "\<exists>c. hashed_living st' ! hash_living_name s = a # c"
      using h by auto
    with f2 show ?thesis
      by (auto simp: find_living_object_def Let_def sought Some split: prod.splits)
  qed
  moreover have "r = None \<longleftrightarrow> \<not> (\<exists>a. is_sought st allowed user s a)" using spec(5) by (auto split: option.splits)
  moreover have "r = Some a \<Longrightarrow> is_sought st allowed user s a" for a using spec(5) by simp
  ultimately show ?thesis using spec(1,4) iff f2 by (auto split: option.splits)
qed

section \<open>Witnesses\<close>

definition demo_objects :: "addr \<rightharpoonup> object_t" where
  "demo_objects = [10 \<mapsto> \<lparr>obj_name = ''std/room'', flags = 0, living_name = None\<rparr>,
     11 \<mapsto> \<lparr>obj_name = ''std/room'', flags = O_COMPILED_PROGRAM, living_name = None\<rparr>,
     12 \<mapsto> \<lparr>obj_name = ''std/user#1'', flags = O_ENABLE_COMMANDS, living_name = None\<rparr>]"

definition demo_tables :: object_tables where
  "demo_tables = init_otable 100 \<lparr>objects = demo_objects, obj_table = [], otable_size = 0, obj_searches = 0, obj_probes = 0,
     objs_found = 0, objs_in_table = 0, user_obj_lookups = 0, user_obj_found = 0,
     hashed_living = replicate CFG_LIVING_HASH_SIZE [], num_living_names = 0, num_searches = 1, search_length = 1,
     strings = init_strings 100\<rparr>"

lemma init_otable_ok: "objs_in_table st = 0 \<Longrightarrow> otable_ok (init_otable n st) \<and> entries (init_otable n st) = (\<lambda>_. [])"
proof -
  assume z: "objs_in_table st = 0"
  obtain k where "pow2_loop n 0 = 2 ^ k" using pow2_loop_result [of 0 n] by blast
  with z show ?thesis
    by (auto simp: init_otable_def otable_ok_def entries_def ObjHash_def Let_def sum_list_replicate fun_eq_iff)
qed

lemma demo_tables_ok:
  "otable_ok demo_tables" "entries demo_tables = (\<lambda>_. [])" "objects demo_tables = demo_objects" "living_ok demo_tables"
  "text_of (strings demo_tables) a = None" "living demo_tables = Map.empty"
proof -
  show "otable_ok demo_tables" "entries demo_tables = (\<lambda>_. [])"
    unfolding demo_tables_def by (simp_all add: init_otable_ok)
  show o: "objects demo_tables = demo_objects" by (simp add: demo_tables_def init_otable_def Let_def)
  have n: "living_name b = None" if "demo_objects a = Some b" for a b using that by (auto simp: demo_objects_def split: if_splits)
  show L: "living demo_tables = Map.empty"
    by (auto simp: living_def fun_eq_iff o n split: option.split)
  have B: "bearers demo_tables p = {}" for p by (auto simp: bearers_def o n)
  have s: "strings demo_tables = init_strings 100" by (simp add: demo_tables_def init_otable_def Let_def)
  show "living_ok demo_tables"
    unfolding living_ok_def B L s
    by (simp add: demo_tables_def init_otable_def Let_def init_strings_ok held_def buckets_empty)
  show "text_of (strings demo_tables) a = None" by (simp add: s text_of_def init_strings_def Let_def)
qed

text \<open>A precompiled entry behind the real object, which takes over when the real one is removed.\<close>

lemma object_table_refines_map_witness:
  "\<exists>s1 s2 s3 s4 s5. enter_object_hash 10 demo_tables = Some s1 \<and> enter_object_hash_at_end 11 s1 = Some s2
     \<and> lookup_object_hash ''std/room'' s2 = (Some 10, s3) \<and> remove_object_hash 10 s3 = Some s4
     \<and> lookup_object_hash ''std/room'' s4 = (Some 11, s5)"
proof -
  let ?r = "\<lparr>obj_name = ''std/room'', flags = 0, living_name = None\<rparr>"
    and ?c = "\<lparr>obj_name = ''std/room'', flags = O_COMPILED_PROGRAM, living_name = None\<rparr>"
  note D = demo_tables_ok
  have o: "demo_objects 10 = Some ?r" "demo_objects 11 = Some ?c" by (simp_all add: demo_objects_def)
  have "objects demo_tables 10 = Some ?r" by (simp add: D(3) o)
  from object_table_refines_map [OF D(1) this, of "[]"] obtain s1 where
    s1: "enter_object_hash 10 demo_tables = Some s1" "otable_ok s1" "objects s1 = demo_objects"
    "entries s1 = (entries demo_tables)(''std/room'' := [10])" by (auto simp: D(2,3) in_table_def)
  then have "objects s1 11 = Some ?c" "\<not> in_table s1 11" by (simp_all add: o in_table_def D(2))
  with object_table_refines_map [OF s1(2), of 11 ?c "[]"] obtain s2 where
    s2: "enter_object_hash_at_end 11 s1 = Some s2" "otable_ok s2" "objects s2 = demo_objects"
    "entries s2 ''std/room'' = [10, 11]" by (auto simp: s1(3,4))
  then have "objects s2 10 = Some ?r" by (simp add: o)
  from object_table_refines_map [OF s2(2) this, of "''std/room''"] obtain s3 where
    s3: "lookup_object_hash ''std/room'' s2 = (Some 10, s3)" "otable_ok s3" "objects s3 = demo_objects"
    "entries s3 ''std/room'' = [10, 11]" by (auto simp: first_def s2(3,4))
  then have "objects s3 10 = Some ?r" by (simp add: o)
  from object_table_refines_map [OF s3(2) this, of "[]"] obtain s4 where
    s4: "remove_object_hash 10 s3 = Some s4" "otable_ok s4" "objects s4 = demo_objects"
    "entries s4 ''std/room'' = [11]" by (auto simp: first_def s3(3,4))
  then have "objects s4 10 = Some ?r" by (simp add: o)
  from object_table_refines_map [OF s4(2) this, of "''std/room''"] obtain s5 where
    "lookup_object_hash ''std/room'' s4 = (Some 11, s5)" by (auto simp: first_def s4(4))
  with s1 s2 s3 s4 show ?thesis by blast
qed

lemma remove_precompiled_reads_freed_witness:
  "\<exists>s1. enter_object_hash_at_end 11 demo_tables = Some s1 \<and> remove_precompiled_hashes False ''std/room'' s1 = None
     \<and> (\<exists>s2. remove_precompiled_hashes True ''std/room'' s1 = Some s2 \<and> entries s2 ''std/room'' = [] \<and> objs_in_table s2 = objs_in_table s1)"
proof -
  note D = demo_tables_ok
  have o: "demo_objects 11 = Some \<lparr>obj_name = ''std/room'', flags = O_COMPILED_PROGRAM, living_name = None\<rparr>"
    by (simp add: demo_objects_def)
  then have "objects demo_tables 11 = Some \<lparr>obj_name = ''std/room'', flags = O_COMPILED_PROGRAM, living_name = None\<rparr>"
    by (simp add: D(3))
  from enter_object_hash_spec(2) [OF D(1) this] obtain s1 where
    s1: "enter_object_hash_at_end 11 demo_tables = Some s1" "otable_ok s1" "objects s1 = demo_objects"
    "entries s1 ''std/room'' = [11]" by (auto simp: D(2,3) in_table_def)
  have "has_flag O_COMPILED_PROGRAM (the (demo_objects 11))" by (simp add: o has_flag_def O_COMPILED_PROGRAM_def)
  with remove_precompiled_reads_freed [OF s1(2), of "''std/room''"] s1 show ?thesis by auto
qed


lemma find_living_object_correct_witness:
  "\<exists>s2. find_living_object True (Some ''bob'') True demo_tables = (None, s2) \<and> living_ok s2"
proof -
  obtain r s2 where f: "find_living_object True (Some ''bob'') True demo_tables = (r, s2)" by fastforce
  from find_living_object_correct [OF demo_tables_ok(4) f] demo_tables_ok(6) show ?thesis
    by (intro exI [of _ s2]) (auto simp: f)
qed

end
