(* ===== verification/Uids.thy ===== *)
theory Uids
  imports Avl_Tree String_Table
begin

text \<open>
  User ids (\<open>packages/uids.c\<close>): a balanced tree of \<open>userid_t\<close>, each with a shared string as its
  name, and the efuns that read and set the ids of objects. The tree compares names by address, so
  the tables of \<open>Avl_Tree\<close> and \<open>String_Table\<close> work together here. \<open>userids\<close> is the heap
  of \<open>userid_t\<close>; \<open>None\<close> is an access through a null or dangling pointer.
\<close>

section \<open>State and operations\<close>

record uid_state =
  uids :: "addr tree"
  userids :: "addr \<rightharpoonup> addr"
  backbone_uid :: "addr option"
  root_uid :: "addr option"
  names :: strtab

text \<open>The result is negative, zero or positive as the first name lies before, at or behind the other.\<close>

definition uidcmp :: "(addr \<rightharpoonup> addr) \<Rightarrow> addr \<Rightarrow> addr \<Rightarrow> int" where
  "uidcmp h uid1 uid2 =
     (let name1 = the (h uid1); name2 = the (h uid2)
      in if name1 < name2 then -1 else if name1 > name2 then 1 else 0)"

text \<open>
  \<open>a\<close> and \<open>u\<close> are the addresses the allocator gives for a string and a \<open>userid_t\<close>, \<open>tmp\<close>
  the one of the local \<open>t_uid\<close>.
\<close>

definition add_uid :: "nat \<Rightarrow> addr \<Rightarrow> addr \<Rightarrow> addr \<Rightarrow> string \<Rightarrow> uid_state \<Rightarrow> (addr \<times> uid_state) option" where
  "add_uid m a u tmp name st =
     (let (sname, strs) = make_shared_string m a name (names st)
      in case tree_srch (uids st) (uidcmp ((userids st)(tmp \<mapsto> sname))) tmp of
           Some uid \<Rightarrow>
             (case free_string sname strs of
                None \<Rightarrow> None
              | Some strs \<Rightarrow> Some (uid, st\<lparr>names := strs\<rparr>))
         | None \<Rightarrow>
             (let h = (userids st)(u \<mapsto> sname) in
              case tree_add (uidcmp h) False u (uids st) of
                None \<Rightarrow> None
              | Some (t, _) \<Rightarrow> Some (u, st\<lparr>uids := t, userids := h, names := strs\<rparr>)))"

text \<open>Giving a user id another name, as \<open>set_root_uid\<close> and \<open>set_backbone_uid\<close> do.\<close>

definition rename_uid :: "nat \<Rightarrow> addr \<Rightarrow> addr \<Rightarrow> string \<Rightarrow> uid_state \<Rightarrow> uid_state option" where
  "rename_uid m a r name st =
     (case tree_delete (uidcmp (userids st)) r False (uids st) of
        None \<Rightarrow> None
      | Some (t, _, _) \<Rightarrow>
          (let (p, strs) = make_shared_string m a name (names st);
               h = (userids st)(r \<mapsto> p)
           in case tree_add (uidcmp h) False r t of
                None \<Rightarrow> None
              | Some (t, _) \<Rightarrow> Some (st\<lparr>uids := t, userids := h, names := strs\<rparr>)))"

definition set_root_uid :: "nat \<Rightarrow> addr \<Rightarrow> addr \<Rightarrow> addr \<Rightarrow> string \<Rightarrow> uid_state \<Rightarrow> (addr \<times> uid_state) option" where
  "set_root_uid m a u tmp name st =
     (case root_uid st of
        None \<Rightarrow> map_option (\<lambda>(uid, st). (uid, st\<lparr>root_uid := Some uid\<rparr>)) (add_uid m a u tmp name st)
      | Some r \<Rightarrow> map_option (\<lambda>st. (r, st)) (rename_uid m a r name st))"

definition set_backbone_uid :: "nat \<Rightarrow> addr \<Rightarrow> addr \<Rightarrow> addr \<Rightarrow> string \<Rightarrow> uid_state \<Rightarrow> (addr \<times> uid_state) option" where
  "set_backbone_uid m a u tmp name st =
     (case backbone_uid st of
        None \<Rightarrow> map_option (\<lambda>(uid, st). (uid, st\<lparr>backbone_uid := Some uid\<rparr>)) (add_uid m a u tmp name st)
      | Some r \<Rightarrow> map_option (\<lambda>st. (r, st)) (rename_uid m a r name st))"

section \<open>The efuns\<close>

text \<open>The ids of the objects; a number, a string or an error is what an efun leaves on the stack.\<close>

record ids =
  uid :: "addr option"
  euid :: "addr option"

record world =
  owner_ids :: "addr \<rightharpoonup> ids"
  table :: uid_state

datatype efun_result = Number int | Text string | Bad_arg | Illegal_export

datatype seteuid_arg = Num_arg int | Str_arg string

datatype geteuid_arg = Obj_arg addr | Fun_arg "addr option"

definition f_export_uid :: "addr \<Rightarrow> addr \<Rightarrow> world \<Rightarrow> (efun_result \<times> world) option" where
  "f_export_uid current_object ob w =
     (case (owner_ids w current_object, owner_ids w ob) of
        (Some c, Some b) \<Rightarrow>
          Some (if euid c = None then (Illegal_export, w)
                else if euid b \<noteq> None then (Number 0, w)
                else (Number 1, w\<lparr>owner_ids := (owner_ids w)(ob \<mapsto> b\<lparr>uid := euid c\<rparr>)\<rparr>))
      | _ \<Rightarrow> None)"

definition uid_text :: "uid_state \<Rightarrow> addr \<Rightarrow> string option" where
  "uid_text st u = Option.bind (userids st u) (text_of (names st))"

definition f_geteuid :: "geteuid_arg \<Rightarrow> world \<Rightarrow> efun_result option" where
  "f_geteuid arg w =
     (case arg of
        Fun_arg None \<Rightarrow> Some (Number 0)
      | Fun_arg (Some ob) \<Rightarrow>
          (case owner_ids w ob of
             None \<Rightarrow> None
           | Some b \<Rightarrow> (case euid b of None \<Rightarrow> Some (Number 0) | Some u \<Rightarrow> map_option Text (uid_text (table w) u)))
      | Obj_arg ob \<Rightarrow>
          (case owner_ids w ob of
             None \<Rightarrow> None
           | Some b \<Rightarrow> (case euid b of None \<Rightarrow> Some (Number 0) | Some u \<Rightarrow> map_option Text (uid_text (table w) u))))"

definition f_getuid :: "addr \<Rightarrow> world \<Rightarrow> efun_result option" where
  "f_getuid ob w =
     (case owner_ids w ob of
        None \<Rightarrow> None
      | Some b \<Rightarrow> (case uid b of None \<Rightarrow> None | Some u \<Rightarrow> map_option Text (uid_text (table w) u)))"

text \<open>\<open>approved\<close> is what the master's \<open>valid_seteuid\<close> answers for the current object and the name.\<close>

definition f_seteuid :: "(addr \<Rightarrow> string \<Rightarrow> bool) \<Rightarrow> nat \<Rightarrow> addr \<Rightarrow> addr \<Rightarrow> addr \<Rightarrow> addr \<Rightarrow> seteuid_arg \<Rightarrow> world
    \<Rightarrow> (efun_result \<times> world) option" where
  "f_seteuid approved m a u tmp current_object arg w =
     (case owner_ids w current_object of
        None \<Rightarrow> None
      | Some c \<Rightarrow>
          (case arg of
             Num_arg n \<Rightarrow>
               Some (if n \<noteq> 0 then (Bad_arg, w)
                     else (Number 1, w\<lparr>owner_ids := (owner_ids w)(current_object \<mapsto> c\<lparr>euid := None\<rparr>)\<rparr>))
           | Str_arg s \<Rightarrow>
               if \<not> approved current_object s then Some (Number 0, w)
               else map_option (\<lambda>(v, t). (Number 1, w\<lparr>table := t,
                      owner_ids := (owner_ids w)(current_object \<mapsto> c\<lparr>euid := Some v\<rparr>)\<rparr>))
                      (add_uid m a u tmp s (table w))))"

section \<open>The invariant\<close>

interpretation uc: comparator "uidcmp h" for h
  by unfold_locales (auto simp: uidcmp_def Let_def split: if_splits)

lemma uidcmp_0: "uidcmp h u v = 0 \<longleftrightarrow> the (h u) = the (h v)"
  by (auto simp: uidcmp_def Let_def)

definition bearers :: "uid_state \<Rightarrow> addr \<Rightarrow> addr set" where
  "bearers st p = {u. userids st u = Some p}"

text \<open>
  The tree is balanced and ordered and holds allocated ids; the string table owes every id a
  reference on its name.
\<close>

definition uids_ok :: "uid_state \<Rightarrow> bool" where
  "uids_ok st \<longleftrightarrow> table_ok (names st) \<and> tree_ok (uidcmp (userids st)) (uids st)
     \<and> set (inorder (uids st)) \<subseteq> dom (userids st) \<and> finite (dom (userids st))
     \<and> held (names st) (\<lambda>p. card (bearers st p))
     \<and> (\<forall>r. root_uid st = Some r \<or> backbone_uid st = Some r \<longrightarrow> r \<in> dom (userids st))"

definition uid_of :: "uid_state \<Rightarrow> string \<Rightarrow> addr option" where
  "uid_of st s = find (\<lambda>u. uid_text st u = Some s) (inorder (uids st))"

lemma finite_bearers: "finite (dom (userids st)) \<Longrightarrow> finite (bearers st p)"
  by (rule finite_subset [of _ "dom (userids st)"]) (auto simp: bearers_def)

lemma uid_live:
  assumes "uids_ok st" "userids st u = Some p"
  shows "0 < card (bearers st p)" "\<exists>s. text_of (names st) p = Some s"
proof -
  show pos: "0 < card (bearers st p)"
    using assms finite_bearers [of st p] by (auto simp: uids_ok_def card_gt_0_iff bearers_def)
  have "held (names st) (\<lambda>p. card (bearers st p))" using assms by (simp add: uids_ok_def)
  from held.held_live [OF this pos] show "\<exists>s. text_of (names st) p = Some s" by auto
qed

lemma sorted_wrt_distinct:
  "sorted_wrt P xs \<Longrightarrow> a \<in> set xs \<Longrightarrow> b \<in> set xs \<Longrightarrow> a = b \<or> P a b \<or> P b a"
  by (induction xs) auto

lemma uid_of_iff:
  assumes "uids_ok st"
  shows "uid_of st s = Some u \<longleftrightarrow> u \<in> set (inorder (uids st)) \<and> uid_text st u = Some s"
proof
  assume u: "u \<in> set (inorder (uids st)) \<and> uid_text st u = Some s"
  have one: "v = u" if v: "v \<in> set (inorder (uids st))" "uid_text st v = Some s" for v
  proof -
    from u v obtain p q where p: "userids st u = Some p" "text_of (names st) p = Some s"
      and q: "userids st v = Some q" "text_of (names st) q = Some s"
      by (auto simp: uid_text_def bind_eq_Some_conv)
    moreover have "table_ok (names st)" using assms by (simp add: uids_ok_def)
    ultimately have "p = q" by (blast intro: sh.content_inj)
    with p q have "uidcmp (userids st) u v = 0" "uidcmp (userids st) v u = 0" by (simp_all add: uidcmp_0)
    with sorted_wrt_distinct [of "\<lambda>a b. uidcmp (userids st) a b < 0" "inorder (uids st)" v u] assms u v
    show ?thesis by (auto simp: uids_ok_def tree_ok_def)
  qed
  have "find (\<lambda>u. uid_text st u = Some s) (inorder (uids st)) \<noteq> None"
    using u by (auto simp: find_None_iff)
  then show "uid_of st s = Some u"
    using one by (auto simp: uid_of_def dest: find_Some_D)
qed (auto simp: uid_of_def dest: find_Some_D)

lemma tree_ok_heap:
  assumes "tree_ok (uidcmp h) t" and "\<And>u. u \<in> set (inorder t) \<Longrightarrow> h' u = h u"
  shows "tree_ok (uidcmp h') t"
proof -
  have "sorted_wrt (\<lambda>a b. uidcmp h' a b < 0) (inorder t)"
  proof (rule sorted_wrt_mono_rel)
    show "sorted_wrt (\<lambda>a b. uidcmp h a b < 0) (inorder t)" using assms(1) by (simp add: tree_ok_def)
    show "uidcmp h' a b < 0" if "a \<in> set (inorder t)" "b \<in> set (inorder t)" "uidcmp h a b < 0" for a b
      using that assms(2) by (simp add: uidcmp_def)
  qed
  with assms(1) show ?thesis by (simp add: tree_ok_def)
qed

section \<open>Adding a user id\<close>

lemma add_uid_spec:
  assumes ok: "uids_ok st" and a: "length name \<le> m" "text_of (names st) a = None"
    and u: "userids st u = None" "userids st tmp = None" "u \<noteq> tmp"
  shows "\<exists>v st'. add_uid m a u tmp name st = Some (v, st') \<and> uids_ok st' \<and> v = (case uid_of st name of Some v \<Rightarrow> v | None \<Rightarrow> u)
    \<and> uid_of st' = (uid_of st)(name \<mapsto> v) \<and> root_uid st' = root_uid st \<and> backbone_uid st' = backbone_uid st
    \<and> dom (userids st') = insert v (dom (userids st)) \<and> (\<forall>w \<in> dom (userids st). uid_text st' w = uid_text st w)"
proof -
  let ?c = "\<lambda>p. card (bearers st p)" and ?T = "set (inorder (uids st))"
  have ts: "table_ok (names st)" "held (names st) ?c" "tree_ok (uidcmp (userids st)) (uids st)" "?T \<subseteq> dom (userids st)"
    "finite (dom (userids st))"
    using ok by (auto simp: uids_ok_def)
  obtain p strs where i: "make_shared_string m a name (names st) = (p, strs)" by fastforce
  note io = sh.intern_ok [OF ts(1) a i] and ih = held.intern_held [OF ts(1) a ts(2) i]
  let ?h = "(userids st)(tmp \<mapsto> p)"
  have notin: "tmp \<notin> ?T" "u \<notin> ?T" using ts(4) u by auto
  then have "tree_ok (uidcmp ?h) (uids st)" by (intro tree_ok_heap [OF ts(3)]) auto
  then have srch: "tree_srch (uids st) (uidcmp ?h) tmp = Some v \<longleftrightarrow> v \<in> ?T \<and> userids st v = Some p" for v
    using uc.tr.srch_iff [of ?h "uids st" tmp v] notin ts(4) by (auto simp: uidcmp_0)
  have same: "text_of strs q = text_of (names st) q" if "0 < ?c q" for q
    using held.held_live [OF ts(2) that] sh.intern_keeps [OF ts(1) a i, of q] by auto
  have by_name: "uid_text st v = Some name \<longleftrightarrow> userids st v = Some p" for v
  proof
    assume "uid_text st v = Some name"
    then obtain q where q: "userids st v = Some q" "text_of (names st) q = Some name"
      by (auto simp: uid_text_def bind_eq_Some_conv)
    with sh.intern_keeps [OF ts(1) a i q(2)] have "text_of strs q = Some name" by simp
    with io have "p = q" by (intro sh.content_inj [of strs p name q]) simp_all
    with q show "userids st v = Some p" by simp
  next
    assume v: "userids st v = Some p"
    then have "text_of (names st) p \<noteq> None" using uid_live [OF ok] by auto
    with io v show "uid_text st v = Some name" by (auto simp: uid_text_def)
  qed
  show ?thesis
  proof (cases "uid_of st name")
    case (Some v)
    then have v: "v \<in> ?T" "userids st v = Some p" using uid_of_iff [OF ok] by_name by auto
    then have s: "tree_srch (uids st) (uidcmp ?h) tmp = Some v" by (simp add: srch)
    from io have "table_ok strs" by simp
    from held.release_held [OF this ih, of p] obtain strs' where
      f: "free_string p strs = Some strs'" "table_ok strs'" "held strs' (?c(p := ?c p))" by auto
    have "?c(p := ?c p) = ?c" by (rule fun_upd_triv)
    with f(3) have hc: "held strs' ?c" by metis
    have kept: "text_of strs' q = text_of (names st) q" if "0 < ?c q" for q
      using held.release_keeps [OF _ ih _ f(1), of q] that same [OF that] io by (cases "q = p") auto
    have same_text: "uid_text (st\<lparr>names := strs'\<rparr>) w = uid_text st w" for w
      using kept uid_live(1) [OF ok] by (cases "userids st w") (auto simp: uid_text_def)
    from this have "uid_of (st\<lparr>names := strs'\<rparr>) = uid_of st" by (simp add: uid_of_def fun_eq_iff)
    moreover have "uids_ok (st\<lparr>names := strs'\<rparr>)" using ok f(2) hc by (simp add: uids_ok_def bearers_def)
    moreover have "add_uid m a u tmp name st = Some (v, st\<lparr>names := strs'\<rparr>)" by (simp add: add_uid_def i s f)
    ultimately show ?thesis using Some ts(4) v(1) same_text by (auto simp: fun_eq_iff)
  next
    case None
    then have none: "tree_srch (uids st) (uidcmp ?h) tmp = None"
      using srch by_name uid_of_iff [OF ok, of name] by (cases "tree_srch (uids st) (uidcmp ?h) tmp") auto
    let ?g = "(userids st)(u \<mapsto> p)"
    have gt: "tree_ok (uidcmp ?g) (uids st)" using notin by (intro tree_ok_heap [OF ts(3)]) auto
    have ne: "uidcmp ?g u v \<noteq> 0" if "v \<in> ?T" for v
      using that None notin ts(4) by_name [of v] uid_of_iff [OF ok, of name v] by (auto simp: uidcmp_0)
    from uc.tr.add_ok [OF gt, of u] obtain t fr where
      t: "tree_add (uidcmp ?g) False u (uids st) = Some (t, fr)" "tree_ok (uidcmp ?g) t" "set (inorder t) = insert u ?T"
      using ne by auto
    let ?st = "st\<lparr>uids := t, userids := ?g, names := strs\<rparr>"
    have r: "add_uid m a u tmp name st = Some (u, ?st)" by (simp add: add_uid_def i none t Let_def)
    have B: "bearers ?st q = (if q = p then insert u (bearers st q) else bearers st q)" for q
      using u(1) by (auto simp: bearers_def)
    have nb: "u \<notin> bearers st q" for q using u(1) by (simp add: bearers_def)
    have "(\<lambda>q. card (bearers ?st q)) = ?c(p := ?c p + 1)"
      by (simp add: B fun_eq_iff nb finite_bearers [OF ts(5)])
    then have "held strs (\<lambda>q. card (bearers ?st q))" using ih by simp
    then have ok': "uids_ok ?st"
      using ok t ts io by (auto simp: uids_ok_def)
    have ut: "uid_text ?st w = (if w = u then Some name else uid_text st w)" for w
      using io same uid_live(1) [OF ok] by (cases "userids st w") (auto simp: uid_text_def)
    have "uid_of ?st s = ((uid_of st)(name \<mapsto> u)) s" for s
    proof -
      have "uid_of ?st s = Some w \<longleftrightarrow> ((uid_of st)(name \<mapsto> u)) s = Some w" for w
        using uid_of_iff [OF ok', of s w] uid_of_iff [OF ok, of s w] uid_of_iff [OF ok, of name w] None notin
        by (auto simp: ut t)
      then show ?thesis by (metis not_Some_eq)
    qed
    moreover have "w \<noteq> u" if "w \<in> dom (userids st)" for w using that u(1) by auto
    ultimately show ?thesis using r ok' None ut by (auto simp: fun_eq_iff)
  qed
qed

section \<open>Renaming a user id\<close>

lemma rename_uid_spec:
  assumes ok: "uids_ok st" and a: "length name \<le> m" "text_of (names st) a = None" and r: "uid_of st old = Some r"
  shows "\<exists>st'. rename_uid m a r name st = Some st' \<and> uids_ok st' \<and> uid_of st' = ((uid_of st)(old := None))(name \<mapsto> r)
    \<and> root_uid st' = root_uid st \<and> backbone_uid st' = backbone_uid st \<and> dom (userids st') = dom (userids st)"
proof -
  let ?c = "\<lambda>p. card (bearers st p)" and ?T = "set (inorder (uids st))"
  have ts: "table_ok (names st)" "held (names st) ?c" "tree_ok (uidcmp (userids st)) (uids st)" "?T \<subseteq> dom (userids st)"
    "finite (dom (userids st))"
    using ok by (auto simp: uids_ok_def)
  obtain p strs where i: "make_shared_string m a name (names st) = (p, strs)" by fastforce
  note io = sh.intern_ok [OF ts(1) a i] and ih = held.intern_held [OF ts(1) a ts(2) i]
  have same: "text_of strs q = text_of (names st) q" if "0 < ?c q" for q
    using held.held_live [OF ts(2) that] sh.intern_keeps [OF ts(1) a i, of q] by auto
  have rT: "r \<in> ?T" "uid_text st r = Some old" using r uid_of_iff [OF ok] by auto
  then obtain q where q: "userids st r = Some q" by (auto simp: uid_text_def bind_eq_Some_conv)
  have inj: "v = r" if "v \<in> ?T" "userids st v = Some q" for v
  proof -
    from that rT(2) q have "uid_text st v = Some old" by (simp add: uid_text_def)
    with that(1) uid_of_iff [OF ok, of old v] r show ?thesis by simp
  qed
  have eq: "uidcmp (userids st) v r = 0 \<longleftrightarrow> v = r" if "v \<in> ?T" for v
    using inj [OF that] ts(4) that q by (auto simp: uidcmp_0)
  from uc.tr.rem_ok [OF ts(3), of r] obtain t ret fr where
    t: "tree_delete (uidcmp (userids st)) r False (uids st) = Some (t, ret, fr)" "tree_ok (uidcmp (userids st)) t"
       "set (inorder t) = {v \<in> ?T. uidcmp (userids st) v r \<noteq> 0}" by auto
  then have T: "set (inorder t) = ?T - {r}" using eq by auto
  let ?h = "(userids st)(r \<mapsto> p)"
  have "tree_ok (uidcmp ?h) t" using T by (intro tree_ok_heap [OF t(2)]) auto
  from uc.tr.add_ok [OF this, of r] obtain t' fr' where
    t': "tree_add (uidcmp ?h) False r t = Some (t', fr')" "tree_ok (uidcmp ?h) t'"
        "set (inorder t') = insert r {v \<in> ?T - {r}. uidcmp ?h r v \<noteq> 0}" by (auto simp: T)
  let ?st = "st\<lparr>uids := t', userids := ?h, names := strs\<rparr>"
  have res: "rename_uid m a r name st = Some ?st" by (simp add: rename_uid_def t(1) i t'(1) Let_def)
  have B: "bearers ?st x = (if x = p then insert r (bearers st x) else bearers st x - {r})" for x
    by (auto simp: bearers_def)
  have fin: "finite (bearers st x)" for x by (rule finite_bearers [OF ts(5)])
  have le: "card (bearers ?st x) \<le> (?c(p := ?c p + 1)) x" for x
    by (simp add: B card_insert_le_m1 card_insert_if fin card_Diff1_le)
  have held': "held strs (\<lambda>x. card (bearers ?st x))"
    using ih le unfolding held_def by (meson le_trans order.strict_trans2)
  have "r \<in> dom (userids st)" using q by auto
  then have D: "dom ?h = dom (userids st)" by auto
  have ok': "uids_ok ?st"
    using ok t' ts(4) io held' unfolding uids_ok_def by (auto simp: D)
  have ut: "uid_text ?st w = (if w = r then Some name else uid_text st w)" for w
    using io same uid_live(1) [OF ok] by (cases "userids st w") (auto simp: uid_text_def)
  have nm: "uidcmp ?h r v = 0 \<longleftrightarrow> uid_text st v = Some name" if v: "v \<in> ?T" "v \<noteq> r" for v
  proof -
    obtain x where x: "userids st v = Some x" using v ts(4) by auto
    then have xt: "uid_text st v = text_of strs x" using same uid_live(1) [OF ok x] by (simp add: uid_text_def)
    have "p = x \<longleftrightarrow> text_of strs x = Some name"
    proof
      assume "text_of strs x = Some name"
      with io show "p = x" by (intro sh.content_inj [of strs p name x]) simp_all
    qed (use io in simp)
    then show ?thesis using x v by (simp add: uidcmp_0 xt)
  qed
  have "uid_of ?st s = (((uid_of st)(old := None))(name \<mapsto> r)) s" for s
  proof -
    have "uid_of ?st s = Some w \<longleftrightarrow> (((uid_of st)(old := None))(name \<mapsto> r)) s = Some w" for w
      using uid_of_iff [OF ok', of s w] uid_of_iff [OF ok, of s w] uid_of_iff [OF ok, of old w] r rT(1) nm [of w]
      by (auto simp: ut t'(3))
    then show ?thesis by (metis not_Some_eq)
  qed
  with res ok' D show ?thesis by auto
qed

text \<open>The ids of all objects are allocated.\<close>

definition ids_ok :: "world \<Rightarrow> bool" where
  "ids_ok w \<longleftrightarrow> uids_ok (table w)
     \<and> (\<forall>ob b v. owner_ids w ob = Some b \<and> (euid b = Some v \<or> uid b = Some v) \<longrightarrow> v \<in> dom (userids (table w)))"

section \<open>Properties\<close>

text \<open>C17. \<open>add_uid\<close> refines a map from names to user ids: a name that has an id keeps it (the string
  shared for the search is given back), another one gets the new block; no other name is touched and
  every id that was handed out keeps its name.\<close>

theorem add_uid_refines_map:
  assumes "uids_ok st" and "length name \<le> m" and "text_of (names st) a = None"
    and "userids st u = None" and "userids st tmp = None" and "u \<noteq> tmp"
  shows "\<exists>v st'. add_uid m a u tmp name st = Some (v, st') \<and> uids_ok st'
    \<and> v = (case uid_of st name of Some v \<Rightarrow> v | None \<Rightarrow> u) \<and> uid_of st' = (uid_of st)(name \<mapsto> v)
    \<and> (\<forall>w \<in> dom (userids st). uid_text st' w = uid_text st w)"
  using add_uid_spec [OF assms] by blast

text \<open>A second \<open>set_root_uid\<close> or \<open>set_backbone_uid\<close> gives the same id the new name. When
  another id has that name already, that one is dropped from the table: no name leads to it any more,
  though objects still carry it, and later additions of the name give the renamed id.\<close>

theorem renaming_drops_namesake:
  assumes "uids_ok st" and "length name \<le> m" and "text_of (names st) a = None"
    and "uid_of st old = Some r"
  shows "(root_uid st = Some r \<longrightarrow> (\<exists>st'. set_root_uid m a u tmp name st = Some (r, st') \<and> uids_ok st'
      \<and> uid_of st' = ((uid_of st)(old := None))(name \<mapsto> r)
      \<and> (\<forall>v. uid_of st name = Some v \<and> v \<noteq> r \<longrightarrow> v \<in> dom (userids st') \<and> (\<forall>s. uid_of st' s \<noteq> Some v))))
    \<and> (backbone_uid st = Some r \<longrightarrow> (\<exists>st'. set_backbone_uid m a u tmp name st = Some (r, st') \<and> uids_ok st'
      \<and> uid_of st' = ((uid_of st)(old := None))(name \<mapsto> r)
      \<and> (\<forall>v. uid_of st name = Some v \<and> v \<noteq> r \<longrightarrow> v \<in> dom (userids st') \<and> (\<forall>s. uid_of st' s \<noteq> Some v))))"
proof -
  from rename_uid_spec [OF assms] obtain st' where
    st': "rename_uid m a r name st = Some st'" "uids_ok st'" "uid_of st' = ((uid_of st)(old := None))(name \<mapsto> r)"
      "dom (userids st') = dom (userids st)" by blast
  have "v \<in> dom (userids st') \<and> (\<forall>s. uid_of st' s \<noteq> Some v)" if v: "uid_of st name = Some v" "v \<noteq> r" for v
  proof -
    note u = uid_of_iff [OF assms(1)]
    have "uid_of st s = Some v \<Longrightarrow> s = name" for s using v u [of s v] u [of name v] by simp
    moreover have "v \<in> dom (userids st)" using v u [of name v] assms(1) by (auto simp: uids_ok_def)
    ultimately show ?thesis using v(2) by (auto simp: st'(3,4))
  qed
  with st' show ?thesis by (auto simp: set_root_uid_def set_backbone_uid_def)
qed

text \<open>\<open>seteuid\<close>: approved by the master, the object's effective id reads back as the given name and
  no other object's ids change their names; refused, nothing changes. \<open>export_uid\<close> then makes the
  effective id the uid of an object that has no effective id, and of no other.\<close>

theorem seteuid_geteuid:
  assumes "ids_ok w" and "owner_ids w me = Some c"
    and "length s \<le> m" and "text_of (names (table w)) a = None"
    and "userids (table w) u = None" and "userids (table w) tmp = None" and "u \<noteq> tmp"
  shows "if approved me s then
      (\<exists>w'. f_seteuid approved m a u tmp me (Str_arg s) w = Some (Number 1, w') \<and> ids_ok w'
        \<and> f_geteuid (Obj_arg me) w' = Some (Text s) \<and> f_geteuid (Fun_arg (Some me)) w' = Some (Text s)
        \<and> (\<forall>ob. ob \<noteq> me \<longrightarrow> f_geteuid (Obj_arg ob) w' = f_geteuid (Obj_arg ob) w)
        \<and> (\<forall>ob. f_getuid ob w' = f_getuid ob w)
        \<and> (\<forall>ob b. owner_ids w' ob = Some b \<longrightarrow>
              (\<exists>w''. f_export_uid me ob w' = Some (Number (if euid b = None then 1 else 0), w'')
                \<and> (euid b = None \<longrightarrow> f_getuid ob w'' = Some (Text s))
                \<and> (euid b \<noteq> None \<longrightarrow> w'' = w'))))
    else f_seteuid approved m a u tmp me (Str_arg s) w = Some (Number 0, w)"
proof (cases "approved me s")
  case True
  have ok: "uids_ok (table w)" using assms(1) by (simp add: ids_ok_def)
  from add_uid_spec [OF ok assms(3-7)] obtain v t where
    v: "add_uid m a u tmp s (table w) = Some (v, t)" "uids_ok t" "uid_of t = (uid_of (table w))(s \<mapsto> v)"
      "dom (userids t) = insert v (dom (userids (table w)))"
      "\<forall>x \<in> dom (userids (table w)). uid_text t x = uid_text (table w) x" by blast
  have vt: "uid_text t v = Some s" using v(3) uid_of_iff [OF v(2), of s v] by simp
  have same: "uid_text t x = uid_text (table w) x" if "owner_ids w ob = Some b" "euid b = Some x \<or> uid b = Some x" for ob b x
    using v(5) assms(1) that unfolding ids_ok_def by blast
  let ?w = "w\<lparr>table := t, owner_ids := (owner_ids w)(me \<mapsto> c\<lparr>euid := Some v\<rparr>)\<rparr>"
  have "f_seteuid approved m a u tmp me (Str_arg s) w = Some (Number 1, ?w)"
    using True assms(2) by (simp add: f_seteuid_def v)
  moreover have "f_geteuid (Obj_arg me) ?w = Some (Text s)" "f_geteuid (Fun_arg (Some me)) ?w = Some (Text s)"
    by (simp_all add: f_geteuid_def vt)
  moreover have "f_geteuid (Obj_arg ob) ?w = f_geteuid (Obj_arg ob) w" if "ob \<noteq> me" for ob
    using that same by (auto simp: f_geteuid_def split: option.split)
  moreover have "f_getuid ob ?w = f_getuid ob w" for ob
    using same assms(2) by (auto simp: f_getuid_def split: option.split)
  moreover have "\<exists>w''. f_export_uid me ob ?w = Some (Number (if euid b = None then 1 else 0), w'')
      \<and> (euid b = None \<longrightarrow> f_getuid ob w'' = Some (Text s)) \<and> (euid b \<noteq> None \<longrightarrow> w'' = ?w)"
    if "owner_ids ?w ob = Some b" for ob b
    using that vt by (auto simp: f_export_uid_def f_getuid_def)
  moreover have "ids_ok ?w" using assms(1,2) v(2,4) unfolding ids_ok_def by (simp split: if_splits) blast
  ultimately show ?thesis using True by (simp only: if_True) blast
next
  case False
  with assms(2) show ?thesis by (simp add: f_seteuid_def)
qed

section \<open>Witnesses\<close>

definition demo_uids :: uid_state where
  "demo_uids = \<lparr>uids = tree_init, userids = Map.empty, backbone_uid = None, root_uid = None, names = init_strings 10\<rparr>"

lemma demo_uids_ok:
  "uids_ok demo_uids" "text_of (names demo_uids) p = None" "uid_of demo_uids s = None" "userids demo_uids = Map.empty"
  by (simp_all add: uids_ok_def demo_uids_def init_strings_ok tree_ok_def tree_init_def held_def bearers_def uid_of_def
      init_blocks)

lemma add_uid_refines_map_witness:
  "\<exists>st1 st2. add_uid 100 1 50 60 ''Root'' demo_uids = Some (50, st1) \<and> uids_ok st1 \<and> uid_of st1 = [''Root'' \<mapsto> 50]"
proof -
  have e: "userids demo_uids 50 = None" "userids demo_uids 60 = None" "uid_of demo_uids = Map.empty"
    by (simp_all add: demo_uids_ok fun_eq_iff)
  from add_uid_refines_map [OF demo_uids_ok(1), of "''Root''" 100 1 50 60] demo_uids_ok(2) e show ?thesis by auto
qed

text \<open>The names in use after the first addition.\<close>

lemma demo_uids_names:
  assumes "add_uid 100 1 50 60 s demo_uids = Some (v, st)" "length s \<le> 100" "p \<noteq> 1"
  shows "text_of (names st) p = None"
proof -
  let ?T = "init_strings 10"
  obtain q strs where i: "make_shared_string 100 1 s ?T = (q, strs)" by fastforce
  have "\<forall>p. text_of ?T p \<noteq> Some s" "blocks ?T 1 = None" by (simp_all add: init_blocks)
  from make_shared_string_new(3) [OF init_strings_ok this(2) assms(2) this(1), unfolded i] have "blocks strs p = None"
    using assms(3) by (simp add: init_blocks)
  moreover have "names st = strs"
    using assms(1) i by (auto simp: add_uid_def demo_uids_def tree_init_def Let_def split: option.splits)
  ultimately show ?thesis by (simp add: text_of_def)
qed

lemma renaming_drops_namesake_witness:
  "\<exists>st st'. uid_of st = [''Root'' \<mapsto> 50] \<and> set_root_uid 100 2 51 60 ''ROOT'' st = Some (50, st') \<and> uid_of st' = [''ROOT'' \<mapsto> 50]"
proof -
  have e: "userids demo_uids 50 = None" "userids demo_uids 60 = None" "uid_of demo_uids = Map.empty"
    by (simp_all add: demo_uids_ok fun_eq_iff)
  from add_uid_spec [OF demo_uids_ok(1), of "''Root''" 100 1 50 60] demo_uids_ok(2) e obtain st1 where
    st1: "add_uid 100 1 50 60 ''Root'' demo_uids = Some (50, st1)" "uids_ok st1" "uid_of st1 = [''Root'' \<mapsto> 50]"
      "50 \<in> dom (userids st1)" by auto
  let ?st = "st1\<lparr>root_uid := Some 50\<rparr>"
  have ok: "uids_ok ?st" "uid_of ?st = [''Root'' \<mapsto> 50]" "text_of (names ?st) 2 = None"
    using st1 demo_uids_names [OF st1(1), of 2]
    by (auto simp: uids_ok_def bearers_def uid_of_def uid_text_def fun_eq_iff)
  have "uid_of ?st ''Root'' = Some 50" by (simp add: ok)
  from renaming_drops_namesake [OF ok(1) _ ok(3) this, of "''ROOT''" 100 51 60] obtain st' where
    "set_root_uid 100 2 51 60 ''ROOT'' ?st = Some (50, st')" "uid_of st' = ((uid_of ?st)(''Root'' := None))(''ROOT'' \<mapsto> 50)" by auto
  moreover have "((uid_of ?st)(''Root'' := None))(''ROOT'' \<mapsto> 50) = [''ROOT'' \<mapsto> 50]" by (auto simp: ok(2))
  ultimately show ?thesis using ok(2) by (intro exI [of _ ?st] exI [of _ st']) simp
qed

definition demo_world :: world where
  "demo_world = \<lparr>owner_ids = [7 \<mapsto> \<lparr>uid = None, euid = None\<rparr>], table = demo_uids\<rparr>"

lemma seteuid_geteuid_witness:
  "\<exists>w'. f_seteuid (\<lambda>ob s. ob = 7) 100 1 50 60 7 (Str_arg ''bob'') demo_world = Some (Number 1, w')
     \<and> f_geteuid (Obj_arg 7) w' = Some (Text ''bob'')"
proof -
  have w: "ids_ok demo_world" "owner_ids demo_world 7 = Some \<lparr>uid = None, euid = None\<rparr>"
    "text_of (names (table demo_world)) 1 = None" "userids (table demo_world) = Map.empty"
    by (auto simp: demo_world_def demo_uids_ok ids_ok_def)
  show ?thesis
    using seteuid_geteuid [where s = "''bob''" and m = 100 and u = 50 and tmp = 60 and approved = "\<lambda>ob s. ob = 7",
        OF w(1,2) _ w(3)] by (auto simp: w(4))
qed

end
