(* ===== verification/Comm_Output.thy ===== *)
theory Comm_Output
  imports Prelude
begin

text \<open>
  The output side of a user's connection (\<open>comm.c\<close>): \<open>add_message\<close> puts text into a ring
  buffer, \<open>flush_message\<close> sends it. The record is \<open>interactive_t\<close> of \<open>comm.h\<close> with, at the
  end, the outside world of the connection: the answers \<open>send\<close> is going to give (when they are used
  up the socket takes no more for now), what was sent so far, the calls made into LPC, and whether a
  shadow catches a text. A snooper gets text by such a call (\<open>RECEIVE_SNOOP\<close>).
\<close>

section \<open>State\<close>

abbreviation NUL :: char where "NUL \<equiv> CHR 0x00"
abbreviation LF :: char where "LF \<equiv> CHR 0x0A"
abbreviation CR :: char where "CR \<equiv> CHR 0x0D"

definition MAX_TEXT :: nat where "MAX_TEXT = 2048"
definition MESSAGE_BUF_SIZE :: nat where "MESSAGE_BUF_SIZE = 4096"
definition SB_SIZE :: nat where "SB_SIZE = 100"

lemma buffer_sizes [simp]: "0 < MESSAGE_BUF_SIZE" "Suc 0 < MESSAGE_BUF_SIZE" "0 < MAX_TEXT"
  by (simp_all add: MESSAGE_BUF_SIZE_def MAX_TEXT_def)

datatype iflag = NOECHO | NOESC | SINGLE_CHAR | WAS_SINGLE_CHAR | HAS_PROCESS_INPUT | HAS_WRITE_PROMPT
  | CLOSING | CMD_IN_BUF | NET_DEAD | NOTIFY_FAIL_FUNC | USING_TELNET

datatype port_kind = PORT_TELNET | PORT_BINARY | PORT_ASCII

datatype telnet_state = TS_DATA | TS_IAC | TS_WILL | TS_WONT | TS_DO | TS_DONT | TS_SB | TS_SB_IAC

datatype send_result = Sent nat | Would_block | Interrupted | Send_failed

datatype lpc_call = Receive_snoop string | Terminal_type string | Window_size nat nat | Telnet_suboption string
  | Process_line string | Process_buffer string

record interactive =
  connection_type :: port_kind
  text_buf :: string
  text_end :: nat
  text_start :: nat
  message_producer :: nat
  message_consumer :: nat
  message_length :: nat
  message_buf :: string
  iflags :: "iflag set"
  out_of_band :: bool
  state :: telnet_state
  sb_pos :: nat
  sb_buf :: string
  last_time :: int
  snooped :: bool
  destructed :: bool
  sends :: "send_result list"
  wire :: string
  calls :: "lpc_call list"
  caught :: "string \<Rightarrow> bool"
  inet_packets :: nat
  inet_volume :: nat
  add_message_calls :: nat

section \<open>Operations\<close>

text \<open>
  The loop of \<open>flush_message\<close>, one answer of \<open>send\<close> after the other; \<open>send\<close> takes at
  most the bytes it is offered. False is a broken connection.
\<close>

fun flush_loop :: "send_result list \<Rightarrow> interactive \<Rightarrow> bool \<times> interactive" where
  "flush_loop [] ip = (True, ip\<lparr>sends := []\<rparr>)"
| "flush_loop (r # rs) ip =
     (if message_length ip = 0 then (True, ip\<lparr>sends := r # rs\<rparr>)
      else
        (let len = (if message_consumer ip < message_producer ip then message_producer ip - message_consumer ip
                    else MESSAGE_BUF_SIZE - message_consumer ip)
         in case r of
              Sent n \<Rightarrow>
                (let num_bytes = min n len in
                 flush_loop rs (ip\<lparr>message_consumer := (message_consumer ip + num_bytes) mod MESSAGE_BUF_SIZE,
                   message_length := message_length ip - num_bytes, out_of_band := False,
                   wire := wire ip @ take num_bytes (drop (message_consumer ip) (message_buf ip)),
                   inet_packets := inet_packets ip + 1, inet_volume := inet_volume ip + num_bytes\<rparr>))
            | Send_failed \<Rightarrow> (False, ip\<lparr>sends := rs, iflags := insert NET_DEAD (iflags ip)\<rparr>)
            | _ \<Rightarrow> (True, ip\<lparr>sends := rs\<rparr>)))"

definition flush_message :: "interactive \<Rightarrow> bool \<times> interactive" where
  "flush_message ip = (if CLOSING \<in> iflags ip then (False, ip) else flush_loop (sends ip) ip)"

definition put_char :: "char \<Rightarrow> interactive \<Rightarrow> interactive" where
  "put_char c ip = ip\<lparr>message_buf := (message_buf ip)[message_producer ip := c],
     message_producer := (message_producer ip + 1) mod MESSAGE_BUF_SIZE, message_length := message_length ip + 1\<rparr>"

text \<open>Making room: flush when the length is \<open>n\<close>.\<close>

definition flush_at :: "nat \<Rightarrow> interactive \<Rightarrow> bool \<times> interactive" where
  "flush_at n ip = (if message_length ip = n then flush_message ip else (True, ip))"

text \<open>The loop over the text; False is the early return, True goes on to the snooper.\<close>

fun add_chars :: "string \<Rightarrow> interactive \<Rightarrow> bool \<times> interactive" where
  "add_chars [] ip = (True, ip)"
| "add_chars (c # data) ip =
     (case flush_at MESSAGE_BUF_SIZE ip of
        (False, ip) \<Rightarrow> (False, ip)
      | (True, ip) \<Rightarrow>
          if message_length ip = MESSAGE_BUF_SIZE then (True, ip)
          else if c = LF then
            (case flush_at (MESSAGE_BUF_SIZE - 1) ip of
               (False, ip) \<Rightarrow> (False, ip)
             | (True, ip) \<Rightarrow>
                 if message_length ip = MESSAGE_BUF_SIZE - 1 then (True, ip)
                 else add_chars data (put_char c (put_char CR ip)))
          else add_chars data (put_char c ip))"

definition call_lpc :: "lpc_call \<Rightarrow> interactive \<Rightarrow> interactive" where
  "call_lpc c ip = ip\<lparr>calls := calls ip @ [c]\<rparr>"

definition add_message :: "string \<Rightarrow> interactive \<Rightarrow> interactive" where
  "add_message data ip =
     (if destructed ip \<or> NET_DEAD \<in> iflags ip \<or> CLOSING \<in> iflags ip then ip
      else if caught ip data then ip
      else case add_chars data ip of
        (False, ip) \<Rightarrow> ip
      | (True, ip) \<Rightarrow>
          (let ip = (if snooped ip then call_lpc (Receive_snoop data) ip else ip)
           in ip\<lparr>add_message_calls := add_message_calls ip + 1\<rparr>))"

text \<open>
  \<open>add_vmessage\<close> for a formatted text of at most \<open>LARGEST_PRINTABLE_STRING\<close> characters: it also
  flushes before the snooper sees the text.
\<close>

definition add_vmessage :: "string \<Rightarrow> interactive \<Rightarrow> interactive" where
  "add_vmessage data ip =
     (if destructed ip \<or> NET_DEAD \<in> iflags ip \<or> CLOSING \<in> iflags ip then ip
      else if caught ip data then ip
      else case add_chars data ip of
        (False, ip) \<Rightarrow> ip
      | (True, ip) \<Rightarrow>
          (case (if message_length ip \<noteq> 0 then flush_message ip else (True, ip)) of
             (False, ip) \<Rightarrow> ip
           | (True, ip) \<Rightarrow>
               (let ip = (if snooped ip then call_lpc (Receive_snoop data) ip else ip)
                in ip\<lparr>add_message_calls := add_message_calls ip + 1\<rparr>)))"

section \<open>The ring buffer is a queue\<close>

definition ring_ok :: "interactive \<Rightarrow> bool" where
  "ring_ok ip \<longleftrightarrow> length (message_buf ip) = MESSAGE_BUF_SIZE \<and> message_consumer ip < MESSAGE_BUF_SIZE
     \<and> message_length ip \<le> MESSAGE_BUF_SIZE
     \<and> message_producer ip = (message_consumer ip + message_length ip) mod MESSAGE_BUF_SIZE"

definition queue :: "interactive \<Rightarrow> string" where
  "queue ip = map (\<lambda>i. message_buf ip ! ((message_consumer ip + i) mod MESSAGE_BUF_SIZE)) [0..<message_length ip]"

lemma length_queue [simp]: "length (queue ip) = message_length ip"
  by (simp add: queue_def)

lemma queue_cong:
  "message_buf ip' = message_buf ip \<Longrightarrow> message_consumer ip' = message_consumer ip \<Longrightarrow> message_length ip' = message_length ip
     \<Longrightarrow> queue ip' = queue ip"
  by (simp add: queue_def)

lemma ring_frame [simp]:
  "ring_ok (ip\<lparr>sends := x\<rparr>) = ring_ok ip" "queue (ip\<lparr>sends := x\<rparr>) = queue ip"
  "ring_ok (ip\<lparr>iflags := f\<rparr>) = ring_ok ip" "queue (ip\<lparr>iflags := f\<rparr>) = queue ip"
  "ring_ok (ip\<lparr>calls := cs\<rparr>) = ring_ok ip" "queue (ip\<lparr>calls := cs\<rparr>) = queue ip"
  "ring_ok (ip\<lparr>add_message_calls := n\<rparr>) = ring_ok ip" "queue (ip\<lparr>add_message_calls := n\<rparr>) = queue ip"
  by (simp_all add: ring_ok_def queue_def)

text \<open>The piece \<open>flush_message\<close> offers to \<open>send\<close>.\<close>

definition offered :: "interactive \<Rightarrow> nat" where
  "offered ip = (if message_consumer ip < message_producer ip then message_producer ip - message_consumer ip
                 else MESSAGE_BUF_SIZE - message_consumer ip)"

lemma offered_bounds:
  assumes "ring_ok ip" "message_length ip \<noteq> 0"
  shows "0 < offered ip" "offered ip \<le> message_length ip" "message_consumer ip + offered ip \<le> MESSAGE_BUF_SIZE"
proof -
  let ?N = MESSAGE_BUF_SIZE and ?c = "message_consumer ip" and ?l = "message_length ip"
  have r: "?c < ?N" "?l \<le> ?N" "message_producer ip = (?c + ?l) mod ?N" using assms(1) by (auto simp: ring_ok_def)
  show "0 < offered ip" using r by (auto simp: offered_def)
  show "offered ip \<le> ?l"
  proof (cases "?c + ?l < ?N")
    case True
    with r assms(2) show ?thesis by (simp add: offered_def)
  next
    case False
    then have "(?c + ?l) mod ?N = ?c + ?l - ?N" using r by (subst mod_if) (simp add: mod_if)
    with r False show ?thesis by (auto simp: offered_def)
  qed
  show "?c + offered ip \<le> ?N" using r by (auto simp: offered_def less_imp_le)
qed

lemma queue_take:
  assumes "ring_ok ip" "n \<le> message_length ip" "message_consumer ip + n \<le> MESSAGE_BUF_SIZE"
  shows "take n (drop (message_consumer ip) (message_buf ip)) = take n (queue ip)"
proof (rule nth_equalityI)
  show "length (take n (drop (message_consumer ip) (message_buf ip))) = length (take n (queue ip))"
    using assms by (simp add: ring_ok_def)
  fix i assume "i < length (take n (drop (message_consumer ip) (message_buf ip)))"
  then have "i < n" "message_consumer ip + i < MESSAGE_BUF_SIZE" using assms by (auto simp: ring_ok_def)
  then show "take n (drop (message_consumer ip) (message_buf ip)) ! i = take n (queue ip) ! i"
    using assms by (simp add: queue_def ring_ok_def)
qed

text \<open>Sending \<open>n\<close> bytes takes them off the front of the queue.\<close>

lemma sent_step:
  assumes "ring_ok ip" "message_length ip \<noteq> 0" "n \<le> offered ip"
    and "ip' = ip\<lparr>message_consumer := (message_consumer ip + n) mod MESSAGE_BUF_SIZE, message_length := message_length ip - n,
      out_of_band := b, wire := wire ip @ take n (drop (message_consumer ip) (message_buf ip)), inet_packets := p, inet_volume := v\<rparr>"
  shows "ring_ok ip'" and "queue ip' = drop n (queue ip)" and "wire ip' @ queue ip' = wire ip @ queue ip"
proof -
  note ob = offered_bounds [OF assms(1,2)]
  have n: "n \<le> message_length ip" "message_consumer ip + n \<le> MESSAGE_BUF_SIZE" using ob assms(3) by linarith+
  have "((message_consumer ip + n) mod MESSAGE_BUF_SIZE + (message_length ip - n)) mod MESSAGE_BUF_SIZE
      = (message_consumer ip + message_length ip) mod MESSAGE_BUF_SIZE"
    unfolding mod_add_left_eq using n(1) by simp
  then show "ring_ok ip'" using assms(1,4) n by (auto simp: ring_ok_def)
  show q: "queue ip' = drop n (queue ip)"
    using n(1) by (auto simp: queue_def assms(4) drop_map mod_add_left_eq add.assoc intro!: nth_equalityI)
  show "wire ip' @ queue ip' = wire ip @ queue ip"
    unfolding q using queue_take [OF assms(1) n] by (simp add: assms(4))
qed

text \<open>What output leaves alone: everything of the input side, and all flags but \<open>NET_DEAD\<close>.\<close>

definition same_input :: "interactive \<Rightarrow> interactive \<Rightarrow> bool" where
  "same_input ip ip' \<longleftrightarrow> connection_type ip' = connection_type ip \<and> text_buf ip' = text_buf ip \<and> text_end ip' = text_end ip
     \<and> text_start ip' = text_start ip \<and> state ip' = state ip \<and> sb_pos ip' = sb_pos ip \<and> sb_buf ip' = sb_buf ip
     \<and> snooped ip' = snooped ip \<and> destructed ip' = destructed ip \<and> caught ip' = caught ip
     \<and> iflags ip \<subseteq> iflags ip' \<and> iflags ip' \<subseteq> insert NET_DEAD (iflags ip)"

lemma same_input_refl [simp]: "same_input ip ip"
  by (auto simp: same_input_def)

lemma same_input_trans: "same_input a b \<Longrightarrow> same_input b c \<Longrightarrow> same_input a c"
  by (auto simp: same_input_def)

lemma same_input_flags: "same_input ip ip' \<Longrightarrow> f \<noteq> NET_DEAD \<Longrightarrow> f \<in> iflags ip' \<longleftrightarrow> f \<in> iflags ip"
  by (auto simp: same_input_def)

lemma flush_loop_spec:
  assumes "ring_ok ip" "flush_loop rs ip = (b, ip')"
  shows "ring_ok ip' \<and> wire ip' @ queue ip' = wire ip @ queue ip \<and> message_length ip' \<le> message_length ip
    \<and> same_input ip ip' \<and> calls ip' = calls ip \<and> add_message_calls ip' = add_message_calls ip \<and> (\<not> b \<longrightarrow> NET_DEAD \<in> iflags ip')"
  using assms
proof (induction rs ip rule: flush_loop.induct)
  case (1 ip)
  then have "ip' = ip\<lparr>sends := []\<rparr>" "b" by auto
  with 1(1) show ?case by (auto simp: same_input_def)
next
  case (2 r rs ip)
  show ?case
  proof (cases "message_length ip = 0")
    case True
    then have "ip' = ip\<lparr>sends := r # rs\<rparr>" "b" using 2(3) by auto
    with 2(2) show ?thesis by (auto simp: same_input_def)
  next
    case ne: False
    have other: "ip' = ip\<lparr>sends := rs, iflags := (if r = Send_failed then insert NET_DEAD (iflags ip) else iflags ip)\<rparr>
        \<and> b = (r \<noteq> Send_failed)" if "\<forall>n. r \<noteq> Sent n"
      using that 2(3) ne by (cases r) (auto simp: Let_def)
    show ?thesis
    proof (cases r)
      case (Sent n)
      let ?n = "min n (offered ip)"
      let ?ip = "ip\<lparr>message_consumer := (message_consumer ip + ?n) mod MESSAGE_BUF_SIZE,
                   message_length := message_length ip - ?n, out_of_band := False,
                   wire := wire ip @ take ?n (drop (message_consumer ip) (message_buf ip)),
                   inet_packets := inet_packets ip + 1, inet_volume := inet_volume ip + ?n\<rparr>"
      have e: "flush_loop (r # rs) ip = flush_loop rs ?ip"
        unfolding flush_loop.simps using ne by (simp only: Sent if_False Let_def offered_def [symmetric] send_result.case)
      note s = sent_step [where n = ?n and ip' = ?ip, OF 2(2) ne min.cobounded2 refl]
      have "flush_loop rs ?ip = (b, ip')" using 2(3) e by simp
      from 2(1) [OF ne refl Sent, of ?n, folded offered_def, OF _ s(1) this] s(3)
      show ?thesis by (auto simp: same_input_def)
    qed (use other 2(2) in \<open>auto simp: same_input_def\<close>)
  qed
qed

lemma flush_message_spec:
  assumes "ring_ok ip" "flush_message ip = (b, ip')"
  shows "ring_ok ip'" "wire ip' @ queue ip' = wire ip @ queue ip" "message_length ip' \<le> message_length ip"
    "same_input ip ip'" "calls ip' = calls ip" "add_message_calls ip' = add_message_calls ip"
    "\<not> b \<Longrightarrow> NET_DEAD \<in> iflags ip' \<or> CLOSING \<in> iflags ip"
  using assms flush_loop_spec [of ip "sends ip" b ip'] by (auto simp: flush_message_def split: if_splits)

text \<open>What a text becomes on the wire.\<close>

fun crlf :: "string \<Rightarrow> string" where
  "crlf [] = []"
| "crlf (c # s) = (if c = LF then [CR, LF] else [c]) @ crlf s"

lemma put_char_spec:
  assumes "ring_ok ip" "message_length ip < MESSAGE_BUF_SIZE"
  shows "ring_ok (put_char c ip)" "queue (put_char c ip) = queue ip @ [c]" "wire (put_char c ip) = wire ip"
    "same_input ip (put_char c ip)" "calls (put_char c ip) = calls ip" "message_length (put_char c ip) = message_length ip + 1"
    "iflags (put_char c ip) = iflags ip"
proof -
  let ?N = MESSAGE_BUF_SIZE and ?c = "message_consumer ip" and ?l = "message_length ip"
  have r: "length (message_buf ip) = ?N" "?c < ?N" "message_producer ip = (?c + ?l) mod ?N" using assms(1) by (auto simp: ring_ok_def)
  show "ring_ok (put_char c ip)"
    using assms r by (auto simp: ring_ok_def put_char_def mod_Suc_eq)
  have ne: "(?c + i) mod ?N \<noteq> (?c + ?l) mod ?N" if "i < ?l" for i
  proof
    assume "(?c + i) mod ?N = (?c + ?l) mod ?N"
    then have "?N dvd (?c + ?l) - (?c + i)" using that mod_eq_dvd_iff_nat [of "?c + i" "?c + ?l" ?N] by simp
    then have "?N dvd ?l - i" by simp
    then have "?N \<le> ?l - i" by (rule dvd_imp_le) (use that in simp)
    with that assms(2) show False by linarith
  qed
  show "queue (put_char c ip) = queue ip @ [c]"
  proof -
    have "(message_buf ip)[message_producer ip := c] ! ((?c + i) mod ?N) = message_buf ip ! ((?c + i) mod ?N)" if "i < ?l" for i
      using ne [OF that] r(3) by simp
    moreover have "(message_buf ip)[message_producer ip := c] ! ((?c + ?l) mod ?N) = c" using r by simp
    ultimately show ?thesis by (simp add: queue_def put_char_def)
  qed
qed (auto simp: put_char_def same_input_def)

lemma flush_at_spec:
  assumes "ring_ok ip" "flush_at n ip = (b, ip')"
  shows "ring_ok ip'" "wire ip' @ queue ip' = wire ip @ queue ip" "message_length ip' \<le> message_length ip"
    "same_input ip ip'" "calls ip' = calls ip" "\<not> b \<Longrightarrow> NET_DEAD \<in> iflags ip' \<or> CLOSING \<in> iflags ip"
  using assms flush_message_spec [of ip b ip'] by (auto simp: flush_at_def split: if_splits)

text \<open>After a flush at length \<open>n\<close>, either the length is still \<open>n\<close> or it is smaller than it can be.\<close>

definition adds :: "interactive \<Rightarrow> string \<Rightarrow> bool \<Rightarrow> interactive \<Rightarrow> bool" where
  "adds ip data b ip' \<longleftrightarrow> ring_ok ip' \<and> same_input ip ip' \<and> calls ip' = calls ip
     \<and> (\<exists>p q. data = p @ q \<and> wire ip' @ queue ip' = wire ip @ queue ip @ crlf p
          \<and> (b \<and> q \<noteq> [] \<longrightarrow> MESSAGE_BUF_SIZE - 1 \<le> message_length ip'))
     \<and> (\<not> b \<longrightarrow> NET_DEAD \<in> iflags ip' \<or> CLOSING \<in> iflags ip')"

lemma adds_cons:
  assumes "adds ip1 data b ip'" "same_input ip ip1" "calls ip1 = calls ip" "wire ip1 @ queue ip1 = wire ip @ queue ip @ crlf [c]"
  shows "adds ip (c # data) b ip'"
proof -
  from assms(1) obtain p q where p: "data = p @ q" "wire ip' @ queue ip' = wire ip1 @ queue ip1 @ crlf p"
    "b \<and> q \<noteq> [] \<longrightarrow> MESSAGE_BUF_SIZE - 1 \<le> message_length ip'" by (auto simp: adds_def)
  have "wire ip' @ queue ip' = wire ip @ queue ip @ crlf (c # p)" using p(2) assms(4) by (simp flip: append_assoc)
  with p have "\<exists>p q. c # data = p @ q \<and> wire ip' @ queue ip' = wire ip @ queue ip @ crlf p
          \<and> (b \<and> q \<noteq> [] \<longrightarrow> MESSAGE_BUF_SIZE - 1 \<le> message_length ip')"
    by (intro exI [of _ "c # p"] exI [of _ q]) simp
  with assms same_input_trans show ?thesis unfolding adds_def by metis
qed

lemma adds_stop:
  assumes "ring_ok ip'" "same_input ip ip'" "calls ip' = calls ip" "wire ip' @ queue ip' = wire ip @ queue ip"
    and "b \<Longrightarrow> MESSAGE_BUF_SIZE - 1 \<le> message_length ip'" "\<not> b \<Longrightarrow> NET_DEAD \<in> iflags ip' \<or> CLOSING \<in> iflags ip'"
  shows "adds ip data b ip'"
proof -
  have "data = [] @ data \<and> wire ip' @ queue ip' = wire ip @ queue ip @ crlf [] \<and> (b \<and> data \<noteq> [] \<longrightarrow> MESSAGE_BUF_SIZE - 1 \<le> message_length ip')"
    using assms(4,5) by simp
  with assms(1-3,6) show ?thesis unfolding adds_def by blast
qed

lemma add_chars_spec:
  assumes "ring_ok ip" "add_chars data ip = (b, ip')"
  shows "adds ip data b ip'"
  using assms
proof (induction data arbitrary: ip)
  case Nil
  then show ?case by (auto simp: adds_def)
next
  case (Cons c data)
  obtain b1 ip1 where f1: "flush_at MESSAGE_BUF_SIZE ip = (b1, ip1)" by fastforce
  note s1 = flush_at_spec [OF Cons.prems(1) f1]
  have cl: "CLOSING \<in> iflags ip \<Longrightarrow> CLOSING \<in> iflags ip1" using s1(4) by (auto simp: same_input_def)
  consider "\<not> b1" | "b1" "message_length ip1 = MESSAGE_BUF_SIZE" | "b1" "message_length ip1 \<noteq> MESSAGE_BUF_SIZE" by blast
  then show ?case
  proof cases
    case 1
    with Cons.prems(2) f1 have "b = False" "ip' = ip1" by auto
    with 1 s1 cl show ?thesis by (intro adds_stop) auto
  next
    case 2
    with Cons.prems(2) f1 have "b = True" "ip' = ip1" by auto
    with 2 s1 show ?thesis by (intro adds_stop) auto
  next
    case 3
    then have lt: "message_length ip1 < MESSAGE_BUF_SIZE" using s1(1) by (auto simp: ring_ok_def)
    show ?thesis
    proof (cases "c = LF")
      case False
      with Cons.prems(2) f1 3 have "add_chars data (put_char c ip1) = (b, ip')" by simp
      note pc = put_char_spec [OF s1(1) lt, of c]
      from Cons.IH [OF pc(1) \<open>add_chars data (put_char c ip1) = (b, ip')\<close>] show ?thesis
      proof (rule adds_cons)
        show "same_input ip (put_char c ip1)" using s1(4) pc(4) by (rule same_input_trans)
        show "calls (put_char c ip1) = calls ip" using s1(5) pc(5) by simp
        show "wire (put_char c ip1) @ queue (put_char c ip1) = wire ip @ queue ip @ crlf [c]"
        proof -
          have "wire (put_char c ip1) @ queue (put_char c ip1) = (wire ip1 @ queue ip1) @ [c]" by (simp add: pc(2,3))
          with False show ?thesis unfolding s1(2) by simp
        qed
      qed
    next
      case True
      obtain b2 ip2 where f2: "flush_at (MESSAGE_BUF_SIZE - 1) ip1 = (b2, ip2)" by fastforce
      note s2 = flush_at_spec [OF s1(1) f2]
      have s12: "same_input ip ip2" "calls ip2 = calls ip" "wire ip2 @ queue ip2 = wire ip @ queue ip"
        using same_input_trans [OF s1(4) s2(4)] by (simp_all add: s1 s2)
      have cl2: "CLOSING \<in> iflags ip1 \<Longrightarrow> CLOSING \<in> iflags ip2" using s2(4) by (simp add: same_input_flags)
      consider "\<not> b2" | "b2" "message_length ip2 = MESSAGE_BUF_SIZE - 1" | "b2" "message_length ip2 \<noteq> MESSAGE_BUF_SIZE - 1" by blast
      then show ?thesis
      proof cases
        case 1
        with Cons.prems(2) f1 3 True f2 have "b = False" "ip' = ip2" by auto
        with 1 s2 s12 cl2 show ?thesis by (intro adds_stop) auto
      next
        case 2
        with Cons.prems(2) f1 3 True f2 have "b = True" "ip' = ip2" by auto
        with 2 s2 s12 show ?thesis by (intro adds_stop) auto
      next
        case room: 3
        have lt2: "message_length ip2 + 1 < MESSAGE_BUF_SIZE" using room s2(3) lt by linarith
        note p1 = put_char_spec [OF s2(1), of CR]
        have l2: "message_length ip2 < MESSAGE_BUF_SIZE" using lt2 by simp
        note p1 = put_char_spec [OF s2(1) l2, of CR]
        have l3: "message_length (put_char CR ip2) < MESSAGE_BUF_SIZE" using lt2 p1(6) by simp
        note p2 = put_char_spec [OF p1(1) l3, of c]
        from Cons.prems(2) f1 3 True f2 room have "add_chars data (put_char c (put_char CR ip2)) = (b, ip')" by simp
        from Cons.IH [OF p2(1) this] show ?thesis
        proof (rule adds_cons)
          show "same_input ip (put_char c (put_char CR ip2))" using s12(1) p1(4) p2(4) same_input_trans by blast
          show "calls (put_char c (put_char CR ip2)) = calls ip" using s12(2) p1(5) p2(5) by simp
          show "wire (put_char c (put_char CR ip2)) @ queue (put_char c (put_char CR ip2)) = wire ip @ queue ip @ crlf [c]"
          proof -
            have "wire (put_char c (put_char CR ip2)) @ queue (put_char c (put_char CR ip2)) = (wire ip2 @ queue ip2) @ [CR, c]"
              by (simp add: p1(2,3) p2(2,3))
            with True show ?thesis unfolding s12(3) by simp
          qed
        qed
      qed
    qed
  qed
qed

definition mute :: "interactive \<Rightarrow> string \<Rightarrow> bool" where
  "mute ip s \<longleftrightarrow> destructed ip \<or> NET_DEAD \<in> iflags ip \<or> CLOSING \<in> iflags ip \<or> caught ip s"

lemma add_message_spec:
  assumes "ring_ok ip"
  shows "ring_ok (add_message s ip)" "same_input ip (add_message s ip)"
    "mute ip s \<Longrightarrow> add_message s ip = ip"
    "\<not> mute ip s \<Longrightarrow> \<exists>p q. s = p @ q \<and> wire (add_message s ip) @ queue (add_message s ip) = wire ip @ queue ip @ crlf p
        \<and> (q \<noteq> [] \<longrightarrow> NET_DEAD \<in> iflags (add_message s ip) \<or> MESSAGE_BUF_SIZE - 1 \<le> message_length (add_message s ip))"
    "\<exists>cs. calls (add_message s ip) = calls ip @ cs \<and> set cs \<subseteq> {Receive_snoop s}"
proof -
  obtain b ip1 where ac: "add_chars s ip = (b, ip1)" by fastforce
  from add_chars_spec [OF assms ac] have a: "ring_ok ip1" "same_input ip ip1" "calls ip1 = calls ip"
    "\<exists>p q. s = p @ q \<and> wire ip1 @ queue ip1 = wire ip @ queue ip @ crlf p \<and> (b \<and> q \<noteq> [] \<longrightarrow> MESSAGE_BUF_SIZE - 1 \<le> message_length ip1)"
    "\<not> b \<longrightarrow> NET_DEAD \<in> iflags ip1 \<or> CLOSING \<in> iflags ip1"
    by (auto simp: adds_def)
  show "mute ip s \<Longrightarrow> add_message s ip = ip" by (auto simp: mute_def add_message_def)
  have res: "\<exists>n cs. add_message s ip = ip1\<lparr>calls := calls ip @ cs, add_message_calls := n\<rparr>
      \<and> (if b then cs = (if snooped ip then [Receive_snoop s] else []) else cs = [])" if "\<not> mute ip s"
  proof (cases b)
    case True
    have "snooped ip1 = snooped ip" using a(2) by (simp add: same_input_def)
    with True that ac a(3) show ?thesis
      by (intro exI [of _ "add_message_calls ip1 + 1"]) (auto simp: add_message_def mute_def call_lpc_def Let_def)
  next
    case False
    with that ac a(3) show ?thesis
      by (intro exI [of _ "add_message_calls ip1"] exI [of _ "[]"]) (auto simp: add_message_def mute_def)
  qed
  have upd: "ring_ok (ip1\<lparr>calls := cs, add_message_calls := n\<rparr>)" "queue (ip1\<lparr>calls := cs, add_message_calls := n\<rparr>) = queue ip1"
    "same_input ip (ip1\<lparr>calls := cs, add_message_calls := n\<rparr>)" for cs n
    using a(1,2) by (auto simp: ring_ok_def queue_def same_input_def)
  show "ring_ok (add_message s ip)" "same_input ip (add_message s ip)"
    using res upd assms \<open>mute ip s \<Longrightarrow> add_message s ip = ip\<close> by (cases "mute ip s"; force)+
  show "\<exists>cs. calls (add_message s ip) = calls ip @ cs \<and> set cs \<subseteq> {Receive_snoop s}"
  proof (cases "mute ip s")
    case True
    then show ?thesis by (intro exI [of _ "[]"]) (simp add: \<open>mute ip s \<Longrightarrow> add_message s ip = ip\<close>)
  next
    case False
    from res [OF this] obtain n cs where "add_message s ip = ip1\<lparr>calls := calls ip @ cs, add_message_calls := n\<rparr>"
      "if b then cs = (if snooped ip then [Receive_snoop s] else []) else cs = []" by blast
    then show ?thesis by (intro exI [of _ cs]) (auto split: if_splits)
  qed
  assume m: "\<not> mute ip s"
  from res [OF m] obtain n cs where r: "add_message s ip = ip1\<lparr>calls := calls ip @ cs, add_message_calls := n\<rparr>"
    "if b then cs = (if snooped ip then [Receive_snoop s] else []) else cs = []" by blast
  have ncl: "CLOSING \<notin> iflags ip1" using m a(2) by (simp add: mute_def same_input_flags)
  have W: "wire (add_message s ip) = wire ip1" "queue (add_message s ip) = queue ip1"
    "iflags (add_message s ip) = iflags ip1" "message_length (add_message s ip) = message_length ip1" by (simp_all add: r upd)
  from a(4) obtain p q where "s = p @ q" "wire ip1 @ queue ip1 = wire ip @ queue ip @ crlf p"
    "b \<and> q \<noteq> [] \<longrightarrow> MESSAGE_BUF_SIZE - 1 \<le> message_length ip1" by blast
  then show "\<exists>p q. s = p @ q \<and> wire (add_message s ip) @ queue (add_message s ip) = wire ip @ queue ip @ crlf p
        \<and> (q \<noteq> [] \<longrightarrow> NET_DEAD \<in> iflags (add_message s ip) \<or> MESSAGE_BUF_SIZE - 1 \<le> message_length (add_message s ip))"
    unfolding W using a(5) ncl by blast
qed

text \<open>A socket that takes at least one byte at a time.\<close>

lemma flush_loop_drains:
  assumes "ring_ok ip" "\<forall>n \<in> set ns. 0 < n" "message_length ip \<le> length ns"
  shows "\<exists>ip'. flush_loop (map Sent ns @ rs) ip = (True, ip') \<and> message_length ip' = 0"
  using assms
proof (induction ns arbitrary: ip)
  case Nil
  then show ?case by (cases rs) auto
next
  case (Cons n ns)
  show ?case
  proof (cases "message_length ip = 0")
    case False
    let ?n = "min n (offered ip)"
    let ?ip = "ip\<lparr>message_consumer := (message_consumer ip + ?n) mod MESSAGE_BUF_SIZE,
                   message_length := message_length ip - ?n, out_of_band := False,
                   wire := wire ip @ take ?n (drop (message_consumer ip) (message_buf ip)),
                   inet_packets := inet_packets ip + 1, inet_volume := inet_volume ip + ?n\<rparr>"
    have "flush_loop (map Sent (n # ns) @ rs) ip = flush_loop (map Sent ns @ rs) ?ip"
      using False by (simp only: list.map append_Cons flush_loop.simps if_False Let_def offered_def [symmetric] send_result.case)
    note step = this
    have ok: "ring_ok ?ip" by (rule sent_step(1) [OF Cons.prems(1) False min.cobounded2 refl])
    have "0 < ?n" using offered_bounds(1) [OF Cons.prems(1) False] Cons.prems(2) by simp
    moreover have "message_length ip \<le> Suc (length ns)" using Cons.prems(3) by simp
    ultimately have "message_length ip - ?n \<le> length ns" by linarith
    then have "message_length ?ip \<le> length ns" by simp
    with Cons.IH [OF ok] Cons.prems(2) show ?thesis unfolding step by simp
  qed (use Cons.prems in simp)
qed

section \<open>Properties\<close>

text \<open>C18. The message buffer refines a queue: what was sent and what is still in the ring, put together,
  grow by exactly the text with \<open>\r\<close> before each newline, in order and without a gap; a rest of the
  text is dropped only when the connection is broken or the ring is full and the socket blocked, and a
  \<open>\r\<close> is never parted from its newline. The input side is not touched.\<close>

theorem add_message_refines_queue:
  assumes "ring_ok ip" and "add_message s ip = ip'"
  shows "ring_ok ip' \<and> same_input ip ip'
    \<and> (if mute ip s then ip' = ip
       else \<exists>p q. s = p @ q \<and> wire ip' @ queue ip' = wire ip @ queue ip @ crlf p
          \<and> (q \<noteq> [] \<longrightarrow> NET_DEAD \<in> iflags ip' \<or> MESSAGE_BUF_SIZE - 1 \<le> message_length ip'))"
  using add_message_spec [OF assms(1), of s] assms(2) by auto

text \<open>\<open>flush_message\<close> loses and repeats nothing, whatever the socket answers; and if the socket
  takes at least one byte each time it sends everything and says so.\<close>

theorem flush_message_drains:
  assumes "ring_ok ip" and "CLOSING \<notin> iflags ip"
  shows "wire (snd (flush_message ip)) @ queue (snd (flush_message ip)) = wire ip @ queue ip
    \<and> (\<forall>ns rs. sends ip = map Sent ns @ rs \<and> (\<forall>n \<in> set ns. 0 < n) \<and> message_length ip \<le> length ns \<longrightarrow>
        fst (flush_message ip) \<and> wire (snd (flush_message ip)) = wire ip @ queue ip \<and> queue (snd (flush_message ip)) = [])"
proof -
  obtain b ip' where f: "flush_message ip = (b, ip')" by fastforce
  note spec = flush_message_spec [OF assms(1) f]
  have "b \<and> wire ip' = wire ip @ queue ip \<and> queue ip' = []"
    if "sends ip = map Sent ns @ rs" "\<forall>n \<in> set ns. 0 < n" "message_length ip \<le> length ns" for ns rs
  proof -
    from flush_loop_drains [OF assms(1) that(2,3), of rs] f assms(2) that(1) have "b" "message_length ip' = 0"
      by (auto simp: flush_message_def)
    then have "queue ip' = []" by (simp add: queue_def)
    with spec(2) \<open>b\<close> show ?thesis by simp
  qed
  with spec(2) f show ?thesis by auto
qed

section \<open>Witnesses\<close>

definition demo_ip :: interactive where
  "demo_ip = \<lparr>connection_type = PORT_TELNET, text_buf = replicate MAX_TEXT NUL, text_end = 0, text_start = 0,
     message_producer = 0, message_consumer = 0, message_length = 0, message_buf = replicate MESSAGE_BUF_SIZE NUL,
     iflags = {}, out_of_band = False, state = TS_DATA, sb_pos = 0, sb_buf = replicate SB_SIZE NUL, last_time = 0, snooped = False,
     destructed = False, sends = [Sent 3, Sent 5], wire = [], calls = [], caught = (\<lambda>_. False),
     inet_packets = 0, inet_volume = 0, add_message_calls = 0\<rparr>"

lemma demo_ip_ok: "ring_ok demo_ip" "queue demo_ip = []" "wire demo_ip = []" "\<not> mute demo_ip s"
  by (simp_all add: ring_ok_def demo_ip_def queue_def mute_def)

lemma add_message_refines_queue_witness:
  "ring_ok (add_message [CHR ''h'', CHR ''i'', LF] demo_ip)
   \<and> (\<exists>p q. [CHR ''h'', CHR ''i'', LF] = p @ q \<and> wire (add_message [CHR ''h'', CHR ''i'', LF] demo_ip) @ queue (add_message [CHR ''h'', CHR ''i'', LF] demo_ip) = crlf p)"
  using add_message_refines_queue [OF demo_ip_ok(1) refl, of "[CHR ''h'', CHR ''i'', LF]"] demo_ip_ok(2-4) by auto

lemma flush_message_drains_witness:
  "wire (snd (flush_message (put_char CR demo_ip))) = [CR]"
proof -
  have "message_length demo_ip < MESSAGE_BUF_SIZE" by (simp add: demo_ip_def)
  note p = put_char_spec [OF demo_ip_ok(1) this, of CR]
  have c: "CLOSING \<notin> iflags (put_char CR demo_ip)" and s: "sends (put_char CR demo_ip) = map Sent [3, 5] @ []"
    and l: "message_length (put_char CR demo_ip) \<le> length [3, 5 :: nat]"
    by (simp_all add: demo_ip_def put_char_def)
  have "\<forall>n \<in> set [3, 5 :: nat]. 0 < n" by simp
  with flush_message_drains [OF p(1) c] s l have "wire (snd (flush_message (put_char CR demo_ip))) = wire (put_char CR demo_ip) @ queue (put_char CR demo_ip)"
    by blast
  then show ?thesis by (simp add: p(2,3) demo_ip_ok)
qed

end
