(* ===== verification/Comm_Input.thy ===== *)
theory Comm_Input
  imports Comm_Output
begin

text \<open>
  The input side of a user's connection (\<open>comm.c\<close>): \<open>copy_chars\<close> takes telnet negotiation out
  of what is read and puts the rest into the text buffer, \<open>get_user_data\<close> makes room in it, and
  \<open>get_user_command\<close> takes the next command of the next user out. \<open>None\<close> is an access
  outside of a buffer. The functions called in LPC are recorded in \<open>calls\<close>; that they leave the
  connection alone is assumed.
\<close>

section \<open>The telnet protocol\<close>

abbreviation BS :: char where "BS \<equiv> CHR 0x08"
abbreviation DEL :: char where "DEL \<equiv> CHR 0x7F"
abbreviation IAC :: char where "IAC \<equiv> CHR 0xFF"
abbreviation DONT :: char where "DONT \<equiv> CHR 0xFE"
abbreviation DO :: char where "DO \<equiv> CHR 0xFD"
abbreviation WONT :: char where "WONT \<equiv> CHR 0xFC"
abbreviation WILL :: char where "WILL \<equiv> CHR 0xFB"
abbreviation SB :: char where "SB \<equiv> CHR 0xFA"
abbreviation AYT :: char where "AYT \<equiv> CHR 0xF6"
abbreviation AO :: char where "AO \<equiv> CHR 0xF5"
abbreviation IP :: char where "IP \<equiv> CHR 0xF4"
abbreviation BREAK :: char where "BREAK \<equiv> CHR 0xF3"
abbreviation DM :: char where "DM \<equiv> CHR 0xF2"
abbreviation SE :: char where "SE \<equiv> CHR 0xF0"
abbreviation TELOPT_ECHO :: char where "TELOPT_ECHO \<equiv> CHR 0x01"
abbreviation TELOPT_TM :: char where "TELOPT_TM \<equiv> CHR 0x06"
abbreviation TELOPT_TTYPE :: char where "TELOPT_TTYPE \<equiv> CHR 0x18"
abbreviation TELOPT_NAWS :: char where "TELOPT_NAWS \<equiv> CHR 0x1F"
abbreviation TELQUAL_SEND :: char where "TELQUAL_SEND \<equiv> CHR 0x01"

definition telnet_break_response :: string where "telnet_break_response = [CHR 0x1C, IAC, WILL, TELOPT_TM]"
definition telnet_interrupt_response :: string where "telnet_interrupt_response = [CHR 0x7F, IAC, WILL, TELOPT_TM]"
definition telnet_abort_response :: string where "telnet_abort_response = [IAC, DM]"
definition telnet_do_tm_response :: string where "telnet_do_tm_response = [IAC, WILL, TELOPT_TM]"
definition telnet_term_query :: string where "telnet_term_query = [IAC, SB, TELOPT_TTYPE, TELQUAL_SEND, IAC, SE]"
definition telnet_no_echo :: string where "telnet_no_echo = [IAC, WONT, TELOPT_ECHO]"
definition are_you_there :: string where "are_you_there = LF # ''[-Yes-] '' @ [LF]"

definition c_string :: "string \<Rightarrow> string" where
  "c_string s = takeWhile (\<lambda>c. c \<noteq> NUL) s"

definition flush :: "interactive \<Rightarrow> interactive" where
  "flush ip = snd (flush_message ip)"

text \<open>A character in data mode: what is written to the text buffer, and the new state.\<close>

definition data_char :: "char \<Rightarrow> interactive \<Rightarrow> string \<times> interactive" where
  "data_char c ip =
     (if c = IAC then ([], ip\<lparr>state := TS_IAC\<rparr>)
      else if c = CR then (if SINGLE_CHAR \<in> iflags ip then [c] else [], ip)
      else if c = LF then (if SINGLE_CHAR \<in> iflags ip then [c] else [CHR '' '', BS, NUL], ip)
      else ([c], ip))"

text \<open>A character after IAC. BREAK, IP, AYT and AO do not leave the state.\<close>

definition iac_char :: "char \<Rightarrow> interactive \<Rightarrow> string \<times> interactive" where
  "iac_char c ip =
     (if c = IAC then ([IAC], ip\<lparr>state := TS_DATA\<rparr>)
      else if c = DO then ([], ip\<lparr>state := TS_DO\<rparr>)
      else if c = DONT then ([], ip\<lparr>state := TS_DONT\<rparr>)
      else if c = WILL then ([], ip\<lparr>state := TS_WILL\<rparr>)
      else if c = WONT then ([], ip\<lparr>state := TS_WONT\<rparr>)
      else if c = BREAK then ([], flush (add_message telnet_break_response ip))
      else if c = IP then ([], add_message telnet_interrupt_response ip)
      else if c = AYT then ([], add_message are_you_there ip)
      else if c = AO then ([], flush (add_message telnet_abort_response (ip\<lparr>out_of_band := True\<rparr>)))
      else if c = SB then ([], ip\<lparr>state := TS_SB, sb_pos := 0\<rparr>)
      else ([], ip\<lparr>state := TS_DATA\<rparr>))"

text \<open>The end of a suboption: \<open>sb_buf[sb_pos] = 0\<close> and the call of a function of the user object.\<close>

definition naws_byte :: "char \<Rightarrow> nat" where
  "naws_byte c = (if c = CHR ''I'' then 0 else of_char c)"

definition suboption :: "interactive \<Rightarrow> interactive" where
  "suboption ip =
     (let b = (sb_buf ip)[sb_pos ip := NUL]; ip = ip\<lparr>sb_buf := b\<rparr> in
      if b ! 0 = TELOPT_TTYPE \<and> b ! 1 = CHR ''I'' then call_lpc (Terminal_type (c_string (drop 2 b))) ip
      else if b ! 0 = TELOPT_NAWS then
        call_lpc (Window_size (naws_byte (b ! 1) * 256 + naws_byte (b ! 2)) (naws_byte (b ! 3) * 256 + naws_byte (b ! 4))) ip
      else call_lpc (Telnet_suboption (c_string b)) ip)"

definition telnet_step :: "char \<Rightarrow> interactive \<Rightarrow> (string \<times> interactive) option" where
  "telnet_step c ip =
     (case state ip of
        TS_DATA \<Rightarrow> Some (data_char c ip)
      | TS_SB_IAC \<Rightarrow>
          if c = IAC then
            (if SB_SIZE \<le> sb_pos ip then Some ([], ip)
             else Some ([], ip\<lparr>sb_buf := (sb_buf ip)[sb_pos ip := IAC], sb_pos := sb_pos ip + 1, state := TS_SB\<rparr>))
          else if c = SE then
            (if SB_SIZE \<le> sb_pos ip then None else Some ([], (suboption ip)\<lparr>state := TS_DATA\<rparr>))
          else Some (iac_char c ip)
      | TS_IAC \<Rightarrow> Some (iac_char c ip)
      | TS_DO \<Rightarrow>
          Some ([], (if c = TELOPT_TM then flush (add_message telnet_do_tm_response ip) else ip)\<lparr>state := TS_DATA\<rparr>)
      | TS_WILL \<Rightarrow>
          (let ip = ip\<lparr>iflags := insert USING_TELNET (iflags ip)\<rparr>
           in Some ([], (if c = TELOPT_TTYPE then flush (add_message telnet_term_query ip) else ip)\<lparr>state := TS_DATA\<rparr>))
      | TS_DONT \<Rightarrow> Some ([], ip\<lparr>iflags := insert USING_TELNET (iflags ip), state := TS_DATA\<rparr>)
      | TS_WONT \<Rightarrow> Some ([], ip\<lparr>iflags := insert USING_TELNET (iflags ip), state := TS_DATA\<rparr>)
      | TS_SB \<Rightarrow>
          if c = IAC then Some ([], ip\<lparr>state := TS_SB_IAC\<rparr>)
          else if SB_SIZE \<le> sb_pos ip then Some ([], ip)
          else Some ([], ip\<lparr>sb_buf := (sb_buf ip)[sb_pos ip := (if c \<noteq> NUL then c else CHR ''I'')], sb_pos := sb_pos ip + 1\<rparr>))"

fun copy_chars :: "string \<Rightarrow> interactive \<Rightarrow> (string \<times> interactive) option" where
  "copy_chars [] ip = Some ([], ip)"
| "copy_chars (c # from) ip =
     (case telnet_step c ip of
        None \<Rightarrow> None
      | Some (out, ip) \<Rightarrow> map_option (apfst (append out)) (copy_chars from ip))"

section \<open>The text buffer\<close>

text \<open>What has been read and not been taken as a command.\<close>

definition region :: "interactive \<Rightarrow> string" where
  "region ip = take (text_end ip - text_start ip) (drop (text_start ip) (text_buf ip))"

definition cmd_in_buf :: "interactive \<Rightarrow> bool" where
  "cmd_in_buf ip =
     (let r = dropWhile (\<lambda>c. c = NUL) (region ip)
      in if r = [] then False else if SINGLE_CHAR \<in> iflags ip then True else NUL \<in> set r)"

definition clear_text :: "interactive \<Rightarrow> interactive" where
  "clear_text ip = ip\<lparr>text_start := 0, text_end := 0, text_buf := (text_buf ip)[0 := NUL]\<rparr>"

text \<open>The command is known by the place in the buffer at which it starts.\<close>

definition first_cmd_in_buf :: "interactive \<Rightarrow> nat option \<times> interactive" where
  "first_cmd_in_buf ip =
     (let s = text_start ip + length (takeWhile (\<lambda>c. c = NUL) (region ip));
          ip = ip\<lparr>text_start := s\<rparr>
      in if text_end ip \<le> s then (None, clear_text ip)
         else if SINGLE_CHAR \<in> iflags ip then (Some s, ip)
         else if NUL \<in> set (region ip) then (Some s, ip)
         else
           (let t = region ip @ drop (length (region ip)) (text_buf ip); e = text_end ip - s
            in if e > MAX_TEXT - 2
               then (Some 0, ip\<lparr>text_buf := t[e - 2 := NUL, e - 1 := NUL], text_start := 0, text_end := e - 1\<rparr>)
               else (None, ip\<lparr>text_buf := t, text_start := 0, text_end := e\<rparr>)))"

definition next_cmd_in_buf :: "interactive \<Rightarrow> interactive" where
  "next_cmd_in_buf ip =
     (let r = dropWhile (\<lambda>c. c = NUL) (dropWhile (\<lambda>c. c \<noteq> NUL) (region ip))
      in if r \<noteq> [] then ip\<lparr>text_start := text_end ip - length r\<rparr> else clear_text ip)"

text \<open>\<open>telnet_neg\<close>; \<open>to\<close> is what has been written, last character first.\<close>

fun telnet_neg :: "string \<Rightarrow> string \<Rightarrow> string" where
  "telnet_neg to [] = rev to"
| "telnet_neg to (ch # from) = (if ch = BS \<or> ch = DEL then telnet_neg (tl to) from else telnet_neg (ch # to) from)"

definition write_text :: "nat \<Rightarrow> string \<Rightarrow> interactive \<Rightarrow> interactive option" where
  "write_text pos s ip =
     (if pos + length s \<le> MAX_TEXT
      then Some (ip\<lparr>text_buf := take pos (text_buf ip) @ s @ drop (pos + length s) (text_buf ip)\<rparr>) else None)"

section \<open>Reading\<close>

datatype read_result = Read string | Read_eof | Read_blocked | Read_error

text \<open>How much to read; moves the text to the start of the buffer, or drops it, to make room.\<close>

definition make_room :: "interactive \<Rightarrow> nat \<times> interactive" where
  "make_room ip =
     (let text_space = (if connection_type ip = PORT_TELNET then (MAX_TEXT - text_end ip - 1) div 3 else MAX_TEXT - 1)
      in if text_space < MAX_TEXT div 16 then
           (let l = text_end ip - text_start ip;
                ip = ip\<lparr>text_buf := take (l + 1) (drop (text_start ip) (text_buf ip)) @ drop (l + 1) (text_buf ip),
                        text_start := 0, text_end := l\<rparr>;
                text_space = (MAX_TEXT - l - 1) div 3
            in if text_space < MAX_TEXT div 16 then (MAX_TEXT div 3, ip\<lparr>text_start := 0, text_end := 0\<rparr>)
               else (text_space, ip))
         else (text_space, ip))"

text \<open>The loop for a \<open>PORT_ASCII\<close> connection over the lines in the text buffer.\<close>

function ascii_lines :: "interactive \<Rightarrow> interactive" where
  "ascii_lines ip =
     (if LF \<in> set (region ip) then
        (let line = takeWhile (\<lambda>c. c \<noteq> LF) (region ip); nl = text_start ip + length line;
             ip1 = ip\<lparr>text_buf := (text_buf ip)[nl := NUL], text_start := nl + 1\<rparr>;
             ip2 = (if destructed ip then ip1 else call_lpc (Process_line (c_string line)) ip1)
         in if text_start ip2 = text_end ip2 then ip2\<lparr>text_start := 0, text_end := 0\<rparr> else ascii_lines ip2)
      else ip)"
  by pat_completeness auto
termination
proof (relation "measure (\<lambda>ip. text_end ip - text_start ip)", goal_cases)
  case (2 ip line nl ip1 ip2)
  then have "text_start ip < text_end ip" by (cases "text_start ip < text_end ip") (auto simp: region_def)
  with 2 show ?case by (auto simp: call_lpc_def)
qed simp

declare ascii_lines.simps [simp del]

text \<open>After \<open>n\<close> characters have been written behind the text, from the bytes \<open>buf\<close> read.\<close>

definition text_read :: "string \<Rightarrow> nat \<Rightarrow> interactive \<Rightarrow> interactive" where
  "text_read buf n ip =
     (let ip = ip\<lparr>text_end := text_end ip + n\<rparr>;
          ip = (if snooped ip \<and> NOECHO \<notin> iflags ip then call_lpc (Receive_snoop (c_string buf)) ip else ip)
      in if cmd_in_buf ip then ip\<lparr>iflags := insert CMD_IN_BUF (iflags ip)\<rparr> else ip)"

text \<open>True asks for the connection to be removed.\<close>

definition get_user_data :: "read_result \<Rightarrow> interactive \<Rightarrow> (bool \<times> interactive) option" where
  "get_user_data r ip =
     (let (text_space, ip) = make_room ip in
      case r of
        Read_eof \<Rightarrow> Some (True, ip)
      | Read_error \<Rightarrow> Some (True, ip)
      | Read_blocked \<Rightarrow> Some (False, ip)
      | Read data \<Rightarrow>
          (let buf = take text_space data in
           if buf = [] then Some (True, ip)
           else case connection_type ip of
             PORT_TELNET \<Rightarrow>
               (case copy_chars buf ip of
                  None \<Rightarrow> None
                | Some (out, ip) \<Rightarrow>
                    (case write_text (text_end ip) (out @ [NUL]) ip of
                       None \<Rightarrow> None
                     | Some ip \<Rightarrow> Some (False, text_read buf (length out) ip)))
           | PORT_ASCII \<Rightarrow> Some (False, ascii_lines ip)
           | PORT_BINARY \<Rightarrow> Some (False, call_lpc (Process_buffer buf) ip)))"

section \<open>Taking commands\<close>

text \<open>The search loop of \<open>get_user_command\<close>: \<open>k\<close> users are still to be looked at.\<close>

definition step_back :: "nat \<Rightarrow> nat \<Rightarrow> nat" where
  "step_back max_users n = (if n = 0 then max_users - 1 else n - 1)"

fun seek_command :: "nat \<Rightarrow> interactive option list \<Rightarrow> nat \<Rightarrow> (nat \<times> nat) option \<times> interactive option list \<times> nat" where
  "seek_command 0 us next = (None, us, next)"
| "seek_command (Suc k) us next =
     (case us ! next of
        None \<Rightarrow> seek_command k us (step_back (length us) next)
      | Some ip \<Rightarrow>
          (let ip = (if message_length ip \<noteq> 0 then flush ip else ip)
           in if CMD_IN_BUF \<in> iflags ip then
                (case first_cmd_in_buf ip of
                   (Some s, ip) \<Rightarrow> (Some (next, s), us[next := Some ip], next)
                 | (None, ip) \<Rightarrow>
                     seek_command k (us[next := Some (ip\<lparr>iflags := iflags ip - {CMD_IN_BUF}\<rparr>)]) (step_back (length us) next))
              else seek_command k (us[next := Some ip]) (step_back (length us) next)))"

text \<open>The command at \<open>s\<close> is copied out and the buffer is moved to the next one.\<close>

definition take_command :: "int \<Rightarrow> nat \<Rightarrow> interactive \<Rightarrow> (string \<times> interactive) option" where
  "take_command current_time s ip =
     (let str = drop s (text_buf ip) in
      if NUL \<notin> set str then None
      else
        (let buf = telnet_neg [] (c_string str);
             ip = next_cmd_in_buf ip;
             ip = (if cmd_in_buf ip then ip else ip\<lparr>iflags := iflags ip - {CMD_IN_BUF}\<rparr>);
             ip = (if NOECHO \<in> iflags ip then (let ip = add_message telnet_no_echo ip in ip\<lparr>iflags := iflags ip - {NOECHO}\<rparr>) else ip)
         in Some (buf, ip\<lparr>last_time := current_time\<rparr>)))"

text \<open>The user and the command, the users, and \<open>NextCmdGiver\<close>.\<close>

definition get_user_command :: "int \<Rightarrow> interactive option list \<Rightarrow> nat \<Rightarrow> ((nat \<times> string) option \<times> interactive option list \<times> nat) option" where
  "get_user_command current_time us next =
     (case seek_command (length us) us next of
        (None, us, next) \<Rightarrow> Some (None, us, next)
      | (Some (i, s), us, next) \<Rightarrow>
          (case us ! i of
             None \<Rightarrow> None
           | Some ip \<Rightarrow>
               map_option (\<lambda>(buf, ip). (Some (i, buf), us[i := Some ip], step_back (length us) next)) (take_command current_time s ip)))"

section \<open>The invariant\<close>

text \<open>
  The buffers have their sizes and the indices lie in them; a connection that is marked as having a
  command has a zero behind its text.
\<close>

definition input_ok :: "interactive \<Rightarrow> bool" where
  "input_ok ip \<longleftrightarrow> ring_ok ip \<and> length (text_buf ip) = MAX_TEXT \<and> text_start ip \<le> text_end ip \<and> text_end ip < MAX_TEXT
     \<and> length (sb_buf ip) = SB_SIZE \<and> sb_pos ip \<le> SB_SIZE
     \<and> (CMD_IN_BUF \<in> iflags ip \<longrightarrow> text_buf ip ! text_end ip = NUL)"

text \<open>What telnet negotiation leaves alone.\<close>

definition keeps_text :: "interactive \<Rightarrow> interactive \<Rightarrow> bool" where
  "keeps_text ip ip' \<longleftrightarrow> connection_type ip' = connection_type ip \<and> text_buf ip' = text_buf ip \<and> text_end ip' = text_end ip
     \<and> text_start ip' = text_start ip \<and> snooped ip' = snooped ip \<and> destructed ip' = destructed ip
     \<and> iflags ip' - {NET_DEAD, USING_TELNET} = iflags ip - {NET_DEAD, USING_TELNET}"

lemma keeps_text_refl [simp]: "keeps_text ip ip"
  by (simp add: keeps_text_def)

lemma keeps_text_trans: "keeps_text a b \<Longrightarrow> keeps_text b c \<Longrightarrow> keeps_text a c"
  by (simp add: keeps_text_def)

lemma keeps_text_flags: "keeps_text ip ip' \<Longrightarrow> f \<notin> {NET_DEAD, USING_TELNET} \<Longrightarrow> f \<in> iflags ip' \<longleftrightarrow> f \<in> iflags ip"
  unfolding keeps_text_def by blast

lemma keeps_text_region: "keeps_text ip ip' \<Longrightarrow> region ip' = region ip"
  by (simp add: keeps_text_def region_def)

lemma same_input_keeps: "same_input ip ip' \<Longrightarrow> keeps_text ip ip'"
  by (auto simp: same_input_def keeps_text_def)

lemma flush_same:
  assumes "ring_ok ip"
  shows "ring_ok (flush ip)" "same_input ip (flush ip)"
  using flush_message_spec [OF assms, of "fst (flush_message ip)" "snd (flush_message ip)"] by (simp_all add: flush_def)

lemma input_ok_keeps:
  assumes "input_ok ip" "keeps_text ip ip'" "ring_ok ip'" "length (sb_buf ip') = SB_SIZE" "sb_pos ip' \<le> SB_SIZE"
  shows "input_ok ip'"
  using assms keeps_text_flags [OF assms(2), of CMD_IN_BUF] by (auto simp: input_ok_def keeps_text_def)

lemma input_ok_same:
  assumes "input_ok ip" "same_input ip ip'" "ring_ok ip'"
  shows "input_ok ip'"
  using assms by (intro input_ok_keeps [OF assms(1) same_input_keeps]) (auto simp: input_ok_def same_input_def)

lemma input_ok_flush: "input_ok ip \<Longrightarrow> input_ok (flush ip)"
  using flush_same [of ip] input_ok_same [of ip "flush ip"] by (auto simp: input_ok_def)

lemma input_ok_message: "input_ok ip \<Longrightarrow> input_ok (add_message s ip)"
  using add_message_spec(1,2) [of ip s] input_ok_same [of ip "add_message s ip"] by (auto simp: input_ok_def)

text \<open>Fields the invariant and the text do not depend on.\<close>

lemma input_ok_upd [simp]:
  "input_ok (ip\<lparr>state := s\<rparr>) = input_ok ip" "input_ok (ip\<lparr>out_of_band := b\<rparr>) = input_ok ip"
  "input_ok (ip\<lparr>calls := cs\<rparr>) = input_ok ip" "input_ok (ip\<lparr>last_time := t\<rparr>) = input_ok ip"
  "keeps_text (ip\<lparr>state := s\<rparr>) ip' = keeps_text ip ip'" "keeps_text ip (ip'\<lparr>state := s\<rparr>) = keeps_text ip ip'"
  "keeps_text ip (ip'\<lparr>calls := cs\<rparr>) = keeps_text ip ip'" "keeps_text ip (ip'\<lparr>sb_buf := sb\<rparr>) = keeps_text ip ip'"
  "keeps_text ip (ip'\<lparr>sb_pos := n\<rparr>) = keeps_text ip ip'" "keeps_text ip (ip'\<lparr>out_of_band := b\<rparr>) = keeps_text ip ip'"
  "keeps_text (ip\<lparr>out_of_band := b\<rparr>) ip' = keeps_text ip ip'"
  by (simp_all add: input_ok_def ring_ok_def keeps_text_def)

lemma message_keeps: "input_ok ip \<Longrightarrow> keeps_text ip (add_message s ip)"
  by (intro same_input_keeps add_message_spec(2)) (simp add: input_ok_def)

lemma flush_message_keeps: "input_ok ip \<Longrightarrow> keeps_text ip (flush (add_message s ip))"
  by (rule keeps_text_trans [OF message_keeps])
    (auto intro!: same_input_keeps flush_same(2) add_message_spec(1) simp: input_ok_def)

lemma data_char_spec:
  assumes "input_ok ip" "data_char c ip = (out, ip')"
  shows "input_ok ip' \<and> keeps_text ip ip' \<and> length out \<le> 3"
  using assms by (auto simp: data_char_def split: if_splits)

lemma iac_char_spec:
  assumes "input_ok ip" "iac_char c ip = (out, ip')"
  shows "input_ok ip' \<and> keeps_text ip ip' \<and> length out \<le> 3"
proof -
  have oob: "keeps_text ip (flush (add_message s (ip\<lparr>out_of_band := True\<rparr>)))" for s
    using flush_message_keeps [of "ip\<lparr>out_of_band := True\<rparr>" s] assms(1) by simp
  have pos: "input_ok (ip\<lparr>state := s, sb_pos := 0\<rparr>)" for s using assms(1) by (simp add: input_ok_def ring_ok_def)
  show ?thesis
    using assms(2) unfolding iac_char_def
    by (simp split: if_splits)
      (auto simp: assms(1) oob pos intro!: input_ok_flush input_ok_message message_keeps flush_message_keeps)
qed

lemma suboption_spec: "input_ok ip \<Longrightarrow> input_ok (suboption ip) \<and> keeps_text ip (suboption ip)"
  by (simp add: suboption_def Let_def call_lpc_def) (simp add: input_ok_def ring_ok_def)

lemma telnet_step_spec:
  assumes "input_ok ip" "telnet_step c ip = Some (out, ip')"
  shows "input_ok ip' \<and> keeps_text ip ip' \<and> length out \<le> 3"
proof -
  have put: "input_ok (ip\<lparr>sb_buf := (sb_buf ip)[i := d], sb_pos := Suc (sb_pos ip)\<rparr>)"
    "input_ok (ip\<lparr>sb_buf := (sb_buf ip)[i := d], sb_pos := Suc (sb_pos ip), state := s\<rparr>)" if "\<not> SB_SIZE \<le> sb_pos ip" for i d s
    using assms(1) that by (auto simp: input_ok_def ring_ok_def)
  have tel: "input_ok (ip\<lparr>iflags := insert USING_TELNET (iflags ip)\<rparr>)" using assms(1) by (auto simp: input_ok_def)
  have kt: "keeps_text ip (ip\<lparr>iflags := insert USING_TELNET (iflags ip)\<rparr>)" by (auto simp: keeps_text_def)
  show ?thesis
  proof (cases "state ip")
    case TS_DATA
    with assms data_char_spec [OF assms(1), of c out ip'] show ?thesis by (simp add: telnet_step_def)
  next
    case TS_IAC
    with assms iac_char_spec [OF assms(1), of c out ip'] show ?thesis by (simp add: telnet_step_def)
  next
    case TS_SB_IAC
    with assms iac_char_spec [OF assms(1), of c out ip'] suboption_spec [OF assms(1)] put show ?thesis
      by (auto simp: telnet_step_def split: if_splits)
  next
    case TS_DO
    with assms show ?thesis
      by (auto simp: telnet_step_def split: if_splits intro!: input_ok_flush input_ok_message flush_message_keeps)
  next
    case TS_WILL
    with assms tel kt show ?thesis
      by (auto simp: telnet_step_def Let_def split: if_splits
          intro!: input_ok_flush input_ok_message keeps_text_trans [OF kt flush_message_keeps])
  next
    case TS_SB
    with assms put show ?thesis by (auto simp: telnet_step_def split: if_splits)
  qed (use assms tel kt in \<open>auto simp: telnet_step_def\<close>)
qed

lemma copy_chars_spec:
  assumes "input_ok ip" "copy_chars buf ip = Some (out, ip')"
  shows "input_ok ip' \<and> keeps_text ip ip' \<and> length out \<le> 3 * length buf"
  using assms
proof (induction buf arbitrary: ip out)
  case (Cons c buf)
  from Cons.prems(2) obtain o1 ip1 o2 where s: "telnet_step c ip = Some (o1, ip1)" "copy_chars buf ip1 = Some (o2, ip')" "out = o1 @ o2"
    by (auto split: option.splits)
  note 1 = telnet_step_spec [OF Cons.prems(1) s(1)]
  with Cons.IH [OF _ s(2)] have "input_ok ip' \<and> keeps_text ip1 ip' \<and> length o2 \<le> 3 * length buf" by blast
  with 1 s(3) keeps_text_trans show ?case by fastforce
qed simp

section \<open>Reading into the buffer\<close>

lemma region_length: "input_ok ip \<Longrightarrow> length (region ip) = text_end ip - text_start ip"
  by (auto simp: region_def input_ok_def)

lemma make_room_spec:
  assumes ok: "input_ok ip" "CMD_IN_BUF \<notin> iflags ip" and m: "make_room ip = (n, ip')"
  shows "input_ok ip' \<and> iflags ip' = iflags ip \<and> connection_type ip' = connection_type ip \<and> state ip' = state ip \<and> snooped ip' = snooped ip
    \<and> 0 < n \<and> (connection_type ip = PORT_TELNET \<longrightarrow> text_end ip' + 3 * n + 1 \<le> MAX_TEXT)
    \<and> (region ip' = region ip \<or> region ip' = [] \<and> MAX_TEXT - 385 < length (region ip))"
proof -
  let ?l = "text_end ip - text_start ip" and ?M = MAX_TEXT
  have l: "length (text_buf ip) = ?M" "text_start ip \<le> text_end ip" "text_end ip < ?M" using ok by (auto simp: input_ok_def)
  let ?t = "take (?l + 1) (drop (text_start ip) (text_buf ip)) @ drop (?l + 1) (text_buf ip)"
  let ?mv = "ip\<lparr>text_buf := ?t, text_start := 0, text_end := ?l\<rparr>"
  have lt: "length ?t = ?M" using l by (simp add: MAX_TEXT_def)
  have mv: "input_ok ?mv" using ok l lt by (auto simp: input_ok_def ring_ok_def)
  have rmv: "region ?mv = region ip" using l by (simp add: region_def)
  have z: "input_ok (?mv\<lparr>text_start := 0, text_end := 0\<rparr>)" using mv ok(2) by (simp add: input_ok_def ring_ok_def)
  let ?s = "if connection_type ip = PORT_TELNET then (?M - text_end ip - 1) div 3 else ?M - 1"
  consider "\<not> ?s < ?M div 16" | "?s < ?M div 16" "\<not> (?M - ?l - 1) div 3 < ?M div 16" | "?s < ?M div 16" "(?M - ?l - 1) div 3 < ?M div 16"
    by blast
  then show ?thesis
  proof cases
    case 1
    have "make_room ip = (?s, ip)" unfolding make_room_def Let_def by (rule if_not_P [OF 1])
    then have e: "n = ?s" "ip' = ip" using m by simp_all
    show ?thesis using 1 ok l unfolding e by (auto simp: MAX_TEXT_def split: if_splits)
  next
    case 2
    have "make_room ip = ((?M - ?l - 1) div 3, ?mv)"
      unfolding make_room_def Let_def if_P [OF 2(1)] interactive.simps by (rule if_not_P [OF 2(2)])
    then have e: "n = (?M - ?l - 1) div 3" "ip' = ?mv" using m by simp_all
    show ?thesis using 2 mv rmv l unfolding e by (auto simp: MAX_TEXT_def)
  next
    case 3
    have "make_room ip = (?M div 3, ?mv\<lparr>text_start := 0, text_end := 0\<rparr>)"
      unfolding make_room_def Let_def if_P [OF 3(1)] by (rule if_P [OF 3(2)])
    then have e: "n = ?M div 3" "ip' = ?mv\<lparr>text_start := 0, text_end := 0\<rparr>" using m by simp_all
    have "length (region ip) = ?l" by (rule region_length [OF ok(1)])
    with 3 z show ?thesis unfolding e by (auto simp: MAX_TEXT_def region_def)
  qed
qed

lemma write_text_spec:
  assumes "length (text_buf ip) = MAX_TEXT" "text_start ip \<le> text_end ip" "text_end ip + length out + 1 \<le> MAX_TEXT"
  shows "\<exists>b. write_text (text_end ip) (out @ [NUL]) ip = Some (ip\<lparr>text_buf := b\<rparr>) \<and> length b = MAX_TEXT
    \<and> b ! (text_end ip + length out) = NUL
    \<and> take (text_end ip + length out - text_start ip) (drop (text_start ip) b) = region ip @ out"
proof -
  let ?b = "take (text_end ip) (text_buf ip) @ out @ [NUL] @ drop (Suc (text_end ip + length out)) (text_buf ip)"
  have te: "min (length (text_buf ip)) (text_end ip) = text_end ip" using assms by simp
  have "write_text (text_end ip) (out @ [NUL]) ip = Some (ip\<lparr>text_buf := ?b\<rparr>)"
    using assms(3) by (simp add: write_text_def)
  moreover have "length ?b = MAX_TEXT" using assms by simp
  moreover have "?b ! (text_end ip + length out) = NUL" using assms by (simp add: nth_append)
  moreover have "take (text_end ip + length out - text_start ip) (drop (text_start ip) ?b) = region ip @ out"
    using assms by (simp add: region_def take_drop min_def)
  ultimately show ?thesis by blast
qed

lemma cmd_in_buf_upd [simp]:
  "cmd_in_buf (ip\<lparr>calls := cs\<rparr>) = cmd_in_buf ip" "cmd_in_buf (ip\<lparr>iflags := insert CMD_IN_BUF f\<rparr>) = cmd_in_buf (ip\<lparr>iflags := f\<rparr>)"
  "region (ip\<lparr>calls := cs\<rparr>) = region ip" "region (ip\<lparr>iflags := f\<rparr>) = region ip"
  by (simp_all add: cmd_in_buf_def region_def)

lemma text_read_spec:
  assumes "input_ok ip" "CMD_IN_BUF \<notin> iflags ip" "text_buf ip ! (text_end ip + n) = NUL" "text_end ip + n < MAX_TEXT"
  shows "input_ok (text_read buf n ip) \<and> region (text_read buf n ip) = region (ip\<lparr>text_end := text_end ip + n\<rparr>)
    \<and> state (text_read buf n ip) = state ip \<and> connection_type (text_read buf n ip) = connection_type ip
    \<and> iflags (text_read buf n ip) =
        (if cmd_in_buf (text_read buf n ip) then insert CMD_IN_BUF (iflags ip) else iflags ip)"
proof -
  let ?w = "ip\<lparr>text_end := text_end ip + n\<rparr>"
  have w: "input_ok (?w\<lparr>calls := cs, iflags := f\<rparr>)" for cs f
    using assms by (simp add: input_ok_def ring_ok_def)
  have w': "input_ok (?w\<lparr>calls := cs\<rparr>)" for cs using w [where cs = cs and f = "iflags ip"] by simp
  obtain cs where "text_read buf n ip =
      (if cmd_in_buf (?w\<lparr>calls := cs\<rparr>) then ?w\<lparr>calls := cs, iflags := insert CMD_IN_BUF (iflags ip)\<rparr> else ?w\<lparr>calls := cs\<rparr>)"
    (is "_ = ?r")
  proof (cases "snooped ip \<and> NOECHO \<notin> iflags ip")
    case True
    then show ?thesis by (intro that [of "calls ip @ [Receive_snoop (c_string buf)]"]) (simp add: text_read_def call_lpc_def Let_def)
  next
    case False
    then show ?thesis by (intro that [of "calls ip"]) (auto simp add: text_read_def Let_def)
  qed
  then have r: "text_read buf n ip = (if cmd_in_buf ?w then ?w\<lparr>calls := cs, iflags := insert CMD_IN_BUF (iflags ip)\<rparr> else ?w\<lparr>calls := cs\<rparr>)"
    by simp
  have same: "cmd_in_buf (?w\<lparr>calls := cs, iflags := insert CMD_IN_BUF (iflags ip)\<rparr>) = cmd_in_buf ?w"
    "region (?w\<lparr>calls := cs, iflags := insert CMD_IN_BUF (iflags ip)\<rparr>) = region ?w"
    by (simp_all add: cmd_in_buf_def region_def)
  show ?thesis
  proof (cases "cmd_in_buf ?w")
    case True
    show ?thesis unfolding r if_P [OF True] using True w same by simp
  next
    case False
    show ?thesis unfolding r if_not_P [OF False] using False w' by simp
  qed
qed

text \<open>Reading from a telnet connection appends what \<open>copy_chars\<close> leaves of it.\<close>

lemma get_user_data_telnet:
  assumes ok: "input_ok ip" "CMD_IN_BUF \<notin> iflags ip" "connection_type ip = PORT_TELNET"
    and m: "make_room ip = (n, ip1)" and c: "copy_chars (take n data) ip1 = Some (out, ip2)" and ne: "data \<noteq> []"
  shows "\<exists>ip'. get_user_data (Read data) ip = Some (False, ip') \<and> input_ok ip' \<and> region ip' = region ip1 @ out
    \<and> state ip' = state ip2 \<and> iflags ip' = (if cmd_in_buf ip' then insert CMD_IN_BUF (iflags ip2) else iflags ip2)
    \<and> CMD_IN_BUF \<notin> iflags ip2"
proof -
  note r = make_room_spec [OF ok(1,2) m]
  have bne: "take n data \<noteq> []" using r ne by simp
  from copy_chars_spec [OF _ c] r have k: "input_ok ip2" "keeps_text ip1 ip2" "length out \<le> 3 * length (take n data)" by blast+
  have tel: "connection_type ip1 = PORT_TELNET" "connection_type ip2 = PORT_TELNET" using k(2) r ok(3) by (auto simp: keeps_text_def)
  have "length (take n data) \<le> n" by simp
  then have "length out \<le> 3 * n" using k(3) by linarith
  moreover have "text_end ip2 = text_end ip1" using k(2) by (simp add: keeps_text_def)
  ultimately have fits: "text_end ip2 + length out + 1 \<le> MAX_TEXT" using r ok(3) by simp
  have ncmd: "CMD_IN_BUF \<notin> iflags ip2" using keeps_text_flags [OF k(2), of CMD_IN_BUF] r ok(2) by simp
  from write_text_spec [of ip2 out] k(1) fits obtain b where
    b: "write_text (text_end ip2) (out @ [NUL]) ip2 = Some (ip2\<lparr>text_buf := b\<rparr>)" "length b = MAX_TEXT"
       "b ! (text_end ip2 + length out) = NUL"
       "take (text_end ip2 + length out - text_start ip2) (drop (text_start ip2) b) = region ip2 @ out"
    by (auto simp: input_ok_def)
  let ?w = "ip2\<lparr>text_buf := b\<rparr>"
  have g: "get_user_data (Read data) ip = Some (False, text_read (take n data) (length out) ?w)"
    using bne by (simp add: get_user_data_def m tel(1) c b(1))
  have "input_ok ?w" using k(1) b(2) ncmd by (simp add: input_ok_def ring_ok_def)
  then have s: "input_ok (text_read (take n data) (length out) ?w)"
      "region (text_read (take n data) (length out) ?w) = region (?w\<lparr>text_end := text_end ip2 + length out\<rparr>)"
      "state (text_read (take n data) (length out) ?w) = state ip2"
      "iflags (text_read (take n data) (length out) ?w) =
        (if cmd_in_buf (text_read (take n data) (length out) ?w) then insert CMD_IN_BUF (iflags ip2) else iflags ip2)"
    using text_read_spec [of ?w "length out" "take n data"] b(3) fits ncmd by auto
  have "region (text_read (take n data) (length out) ?w) = region ip1 @ out"
    using b(4) keeps_text_region [OF k(2)] unfolding s(2) by (simp add: region_def)
  with g s ncmd show ?thesis by blast
qed

lemma copy_chars_append:
  "copy_chars (a @ b) ip =
     (case copy_chars a ip of None \<Rightarrow> None | Some (out, ip) \<Rightarrow> map_option (apfst (append out)) (copy_chars b ip))"
proof (induction a arbitrary: ip)
  case Nil
  show ?case by (cases "copy_chars b ip") auto
next
  case (Cons c a)
  have "apfst (append x) \<circ> apfst (append y) = (apfst (append (x @ y)) :: string \<times> interactive \<Rightarrow> _)" for x y
    by (simp add: fun_eq_iff)
  with Cons show ?case by (auto simp: option.map_comp split: option.split)
qed

section \<open>Safety of reading\<close>

lemma telnet_step_None: "telnet_step c ip = None \<longleftrightarrow> state ip = TS_SB_IAC \<and> c = SE \<and> SB_SIZE \<le> sb_pos ip"
  by (cases "state ip") (auto simp: telnet_step_def Let_def)

lemma takeWhile_stops: "x \<in> set xs \<Longrightarrow> \<not> P x \<Longrightarrow> length (takeWhile P xs) < length xs"
  by (induction xs) auto

lemma ascii_lines_ok: "input_ok ip \<Longrightarrow> CMD_IN_BUF \<notin> iflags ip \<Longrightarrow> input_ok (ascii_lines ip)"
proof (induction ip rule: ascii_lines.induct)
  case (1 ip)
  show ?case
  proof (cases "LF \<in> set (region ip)")
    case False
    then show ?thesis using 1 by (simp add: ascii_lines.simps [of ip])
  next
    case True
    let ?line = "takeWhile (\<lambda>c. c \<noteq> LF) (region ip)"
    let ?nl = "text_start ip + length ?line"
    let ?ip1 = "ip\<lparr>text_buf := (text_buf ip)[?nl := NUL], text_start := ?nl + 1\<rparr>"
    let ?ip2 = "if destructed ip then ?ip1 else call_lpc (Process_line (c_string ?line)) ?ip1"
    have "length ?line < length (region ip)" using True by (rule takeWhile_stops) simp
    then have nl: "?nl < text_end ip" using region_length [OF "1.prems"(1)] by simp
    then have i1: "input_ok (?ip1\<lparr>calls := cs\<rparr>)" for cs using "1.prems" by (simp add: input_ok_def ring_ok_def)
    then have "input_ok ?ip1" using i1 [of "calls ip"] by simp
    then have i2: "input_ok ?ip2" using i1 by (simp add: call_lpc_def)
    have f2: "CMD_IN_BUF \<notin> iflags ?ip2" using "1.prems" by (simp add: call_lpc_def)
    have e: "input_ok (?ip2\<lparr>text_start := 0, text_end := 0\<rparr>)" using i2 f2 unfolding input_ok_def ring_ok_def by simp
    have s: "ascii_lines ip = (if text_start ?ip2 = text_end ?ip2 then ?ip2\<lparr>text_start := 0, text_end := 0\<rparr> else ascii_lines ?ip2)"
      unfolding ascii_lines.simps [of ip] Let_def by (rule if_P [OF True])
    show ?thesis
    proof (cases "text_start ?ip2 = text_end ?ip2")
      case t: True
      show ?thesis unfolding s if_P [OF t] by (rule e)
    next
      case f: False
      show ?thesis unfolding s if_not_P [OF f] by (rule "1.IH" [OF True refl refl refl refl f i2 f2])
    qed
  qed
qed
text \<open>C21. Reading never writes outside the text buffer: the only access outside of a buffer that
  \<open>get_user_data\<close> can make is the write to \<open>sb_buf\<close> at the end of a telnet suboption,
  and it keeps the invariant of the connection.\<close>

theorem get_user_data_safe:
  assumes "input_ok ip" "CMD_IN_BUF \<notin> iflags ip"
  shows "case get_user_data r ip of
      None \<Rightarrow> \<exists>data. r = Read data \<and> connection_type ip = PORT_TELNET \<and> copy_chars (take (fst (make_room ip)) data) (snd (make_room ip)) = None
    | Some (remove, ip') \<Rightarrow> input_ok ip'"
proof -
  obtain n ip1 where m: "make_room ip = (n, ip1)" by fastforce
  note r = make_room_spec [OF assms m]
  then have i1: "input_ok ip1" "CMD_IN_BUF \<notin> iflags ip1" "0 < n" "connection_type ip1 = connection_type ip" using assms(2) by simp_all
  show ?thesis
  proof (cases r)
    case (Read data)
    show ?thesis
    proof (cases "data = []")
      case True
      then show ?thesis using Read i1 by (simp add: get_user_data_def m)
    next
      case ne: False
      with i1(3) have bne: "take n data \<noteq> []" by simp
      show ?thesis
      proof (cases "connection_type ip")
        case PORT_TELNET
        show ?thesis
        proof (cases "copy_chars (take n data) ip1")
          case None
          then show ?thesis using Read bne i1(4) PORT_TELNET by (simp add: get_user_data_def m)
        next
          case (Some p)
          obtain out ip2 where p: "p = (out, ip2)" by (cases p)
          from get_user_data_telnet [OF assms PORT_TELNET m Some [unfolded p] ne] Read show ?thesis by auto
        qed
      next
        case PORT_ASCII
        then show ?thesis using Read bne i1 ascii_lines_ok [OF i1(1,2)] by (simp add: get_user_data_def m)
      next
        case PORT_BINARY
        then show ?thesis using Read bne i1 by (simp add: get_user_data_def m call_lpc_def)
      qed
    qed
  qed (use i1 in \<open>simp_all add: get_user_data_def m\<close>)
qed

section \<open>Telnet negotiation\<close>

lemma suboption_bytes:
  assumes "state ip = TS_SB" "\<forall>c \<in> set bytes. c \<noteq> IAC" "sb_pos ip \<le> SB_SIZE"
  shows "\<exists>ip'. copy_chars bytes ip = Some ([], ip') \<and> state ip' = TS_SB \<and> sb_pos ip' = min SB_SIZE (sb_pos ip + length bytes)"
  using assms
proof (induction bytes arbitrary: ip)
  case (Cons c bytes)
  show ?case
  proof (cases "SB_SIZE \<le> sb_pos ip")
    case True
    then have "telnet_step c ip = Some ([], ip)" using Cons.prems by (simp add: telnet_step_def)
    with Cons.IH [of ip] Cons.prems True show ?thesis by auto
  next
    case False
    let ?ip = "ip\<lparr>sb_buf := (sb_buf ip)[sb_pos ip := (if c \<noteq> NUL then c else CHR ''I'')], sb_pos := sb_pos ip + 1\<rparr>"
    have "telnet_step c ip = Some ([], ?ip)" using False Cons.prems by (simp add: telnet_step_def)
    with Cons.IH [of ?ip] Cons.prems False show ?thesis by auto
  qed
qed simp

text \<open>A suboption of a hundred bytes or more, ended by IAC SE, writes past the end of
  \<open>sb_buf\<close>.\<close>

theorem long_suboption_overflows:
  assumes "state ip = TS_DATA" "\<forall>c \<in> set bytes. c \<noteq> IAC" "100 \<le> length bytes"
  shows "copy_chars ([IAC, SB] @ bytes @ [IAC, SE]) ip = None"
proof -
  let ?ip = "ip\<lparr>state := TS_SB, sb_pos := 0\<rparr>"
  have 1: "copy_chars [IAC, SB] ip = Some ([], ?ip)" using assms(1) by (simp add: telnet_step_def data_char_def iac_char_def)
  from suboption_bytes [of ?ip bytes] assms(2,3) obtain ip2 where
    2: "copy_chars bytes ?ip = Some ([], ip2)" "state ip2 = TS_SB" "sb_pos ip2 = SB_SIZE" by (auto simp: SB_SIZE_def)
  have 3: "copy_chars [IAC, SE] ip2 = None" using 2(2,3) by (simp add: telnet_step_def)
  show ?thesis unfolding copy_chars_append [of "[IAC, SB]"] copy_chars_append [of bytes] 1 2(1) 3 option.case prod.case by simp
qed

lemma same_input_state: "same_input ip ip' \<Longrightarrow> state ip' = state ip"
  by (simp add: same_input_def)

text \<open>After BREAK, IP, AYT or AO the connection is not back in data mode: the next character
  the user types is taken as a further command and is lost.\<close>

theorem character_after_command_lost:
  assumes "input_ok ip" "state ip = TS_DATA" "cmd \<in> {BREAK, IP, AYT, AO}"
    "c \<notin> {IAC, DO, DONT, WILL, WONT, BREAK, IP, AYT, AO, SB}"
  shows "\<exists>ip'. copy_chars [IAC, cmd, c] ip = Some ([], ip') \<and> state ip' = TS_DATA \<and> keeps_text ip ip'"
proof -
  let ?i = "ip\<lparr>state := TS_IAC\<rparr>"
  have 0: "telnet_step IAC ip = Some ([], ?i)" using assms(2) by (simp add: telnet_step_def data_char_def)
  have ok: "input_ok ?i" using assms(1) by simp
  obtain ip1 where 1: "telnet_step cmd ?i = Some ([], ip1)" "state ip1 = TS_IAC" "keeps_text ip ip1"
  proof -
    have msg: "state (add_message s j) = TS_IAC" "state (flush (add_message s j)) = TS_IAC"
      if "input_ok j" "state j = TS_IAC" for s j
      using add_message_spec(1,2) [of j s] flush_same [of "add_message s j"] that same_input_state by (auto simp: input_ok_def)
    have k: "keeps_text ip (add_message s ?i)" "keeps_text ip (flush (add_message s ?i))"
      "keeps_text ip (flush (add_message s (?i\<lparr>out_of_band := True\<rparr>)))" for s
      using message_keeps [OF ok] flush_message_keeps [OF ok] flush_message_keeps [of "?i\<lparr>out_of_band := True\<rparr>" s] ok by simp_all
    have oob: "input_ok (?i\<lparr>out_of_band := True\<rparr>)" "state (?i\<lparr>out_of_band := True\<rparr>) = TS_IAC" using ok by simp_all
    consider "cmd = BREAK" | "cmd = IP" | "cmd = AYT" | "cmd = AO" using assms(3) by blast
    then show ?thesis
    proof cases
      case 1
      show ?thesis by (rule that [of "flush (add_message telnet_break_response ?i)"]) (simp_all add: 1 telnet_step_def iac_char_def msg assms(1) k)
    next
      case 2
      show ?thesis by (rule that [of "add_message telnet_interrupt_response ?i"]) (simp_all add: 2 telnet_step_def iac_char_def msg assms(1) k)
    next
      case 3
      show ?thesis by (rule that [of "add_message are_you_there ?i"]) (simp_all add: 3 telnet_step_def iac_char_def msg assms(1) k)
    next
      case 4
      show ?thesis
        by (rule that [of "flush (add_message telnet_abort_response (?i\<lparr>out_of_band := True\<rparr>))"])
          (simp_all add: 4 telnet_step_def iac_char_def msg assms(1) k)
    qed
  qed
  have 2: "telnet_step c ip1 = Some ([], ip1\<lparr>state := TS_DATA\<rparr>)" using assms(4) 1(2) by (simp add: telnet_step_def iac_char_def)
  show ?thesis using 0 1 2 by (simp add: keeps_text_def)
qed

section \<open>Commands\<close>

lemma region_drop: "input_ok ip \<Longrightarrow> drop (text_start ip) (text_buf ip) = region ip @ drop (text_end ip) (text_buf ip)"
  by (simp add: region_def input_ok_def) (metis append_take_drop_id drop_drop le_add_diff_inverse2)

lemma zero_behind_text:
  assumes "input_ok ip" "CMD_IN_BUF \<in> iflags ip" "s \<le> text_end ip"
  shows "NUL \<in> set (drop s (text_buf ip))"
proof -
  have e: "text_buf ip ! text_end ip = NUL" "text_end ip < length (text_buf ip)" using assms by (auto simp: input_ok_def)
  then have "drop s (text_buf ip) ! (text_end ip - s) = NUL" "text_end ip - s < length (drop s (text_buf ip))" using assms(3) by auto
  then show ?thesis by (metis nth_mem)
qed

lemma input_ok_clear: "input_ok ip \<Longrightarrow> input_ok (clear_text ip)"
  by (auto simp: input_ok_def ring_ok_def clear_text_def)

lemma region_clear [simp]: "region (clear_text ip) = []"
  by (simp add: region_def clear_text_def)

lemma input_ok_start: "input_ok ip \<Longrightarrow> s \<le> text_end ip \<Longrightarrow> input_ok (ip\<lparr>text_start := s\<rparr>)"
  by (simp add: input_ok_def ring_ok_def)

lemma input_ok_unflag: "input_ok ip \<Longrightarrow> f \<noteq> CMD_IN_BUF \<Longrightarrow> input_ok (ip\<lparr>iflags := iflags ip - {f}\<rparr>)" "input_ok ip \<Longrightarrow> input_ok (ip\<lparr>iflags := iflags ip - {CMD_IN_BUF}\<rparr>)"
  by (simp_all add: input_ok_def ring_ok_def)

lemma leading_zeros: "input_ok ip \<Longrightarrow> text_start ip + length (takeWhile P (region ip)) \<le> text_end ip"
  using length_takeWhile_le [of P "region ip"] region_length [of ip] unfolding input_ok_def by linarith

lemma first_cmd_in_buf_spec:
  assumes ok: "input_ok ip" and f: "first_cmd_in_buf ip = (r, ip')"
  shows "iflags ip' = iflags ip \<and> input_ok (ip'\<lparr>iflags := iflags ip' - {CMD_IN_BUF}\<rparr>)
    \<and> (\<forall>s. r = Some s \<longrightarrow> input_ok ip' \<and> s = text_start ip' \<and> s \<le> text_end ip')"
proof -
  let ?s = "text_start ip + length (takeWhile (\<lambda>c. c = NUL) (region ip))"
  let ?ip = "ip\<lparr>text_start := ?s\<rparr>"
  have s: "?s \<le> text_end ip" by (rule leading_zeros [OF ok])
  have ok1: "input_ok ?ip" by (rule input_ok_start [OF ok s])
  let ?t = "region ?ip @ drop (length (region ?ip)) (text_buf ip)" and ?e = "text_end ip - ?s"
  have t: "length ?t = MAX_TEXT" using region_length [OF ok1] ok1 by (simp add: input_ok_def)
  have e: "?e < MAX_TEXT" using ok unfolding input_ok_def by linarith
  consider "text_end ip \<le> ?s" | "\<not> text_end ip \<le> ?s" "SINGLE_CHAR \<in> iflags ip \<or> NUL \<in> set (region ?ip)"
    | "\<not> text_end ip \<le> ?s" "SINGLE_CHAR \<notin> iflags ip" "NUL \<notin> set (region ?ip)" "?e > MAX_TEXT - 2"
    | "\<not> text_end ip \<le> ?s" "SINGLE_CHAR \<notin> iflags ip" "NUL \<notin> set (region ?ip)" "\<not> ?e > MAX_TEXT - 2" by blast
  then show ?thesis
  proof cases
    case 1
    then have "r = None" "ip' = clear_text ?ip" using f by (simp_all add: first_cmd_in_buf_def Let_def)
    with input_ok_unflag(2) [OF input_ok_clear [OF ok1]] show ?thesis by (simp add: clear_text_def)
  next
    case 2
    then have "first_cmd_in_buf ip = (Some ?s, ?ip)"
      by (cases "SINGLE_CHAR \<in> iflags ip") (simp_all add: first_cmd_in_buf_def Let_def)
    then have "r = Some ?s" "ip' = ?ip" using f by simp_all
    with ok1 s input_ok_unflag(2) [OF ok1] show ?thesis by simp
  next
    case 3
    let ?ip2 = "?ip\<lparr>text_buf := ?t[?e - 2 := NUL, ?e - 1 := NUL], text_start := 0, text_end := ?e - 1\<rparr>"
    have n: "?t[?e - 2 := NUL, ?e - 1 := NUL] ! (?e - 1) = NUL" using t e by (simp add: nth_list_update)
    have i: "input_ok ?ip2" using ok t e n unfolding input_ok_def ring_ok_def by simp
    have "r = Some 0" "ip' = ?ip2" using f 3 by (simp_all add: first_cmd_in_buf_def Let_def)
    with i input_ok_unflag(2) [OF i] show ?thesis by simp
  next
    case 4
    let ?ip2 = "?ip\<lparr>text_buf := ?t, text_start := 0, text_end := ?e\<rparr>"
    have i: "input_ok (?ip2\<lparr>iflags := iflags ip - {CMD_IN_BUF}\<rparr>)" using ok t e unfolding input_ok_def ring_ok_def by simp
    have "r = None" "ip' = ?ip2" using f 4 by (simp_all add: first_cmd_in_buf_def Let_def)
    with i show ?thesis by simp
  qed
qed

lemma next_cmd_in_buf_spec:
  assumes "input_ok ip"
  shows "input_ok (next_cmd_in_buf ip) \<and> iflags (next_cmd_in_buf ip) = iflags ip
    \<and> region (next_cmd_in_buf ip) = dropWhile (\<lambda>c. c = NUL) (dropWhile (\<lambda>c. c \<noteq> NUL) (region ip))"
proof -
  let ?r = "dropWhile (\<lambda>c. c = NUL) (dropWhile (\<lambda>c. c \<noteq> NUL) (region ip))"
  show ?thesis
  proof (cases "?r = []")
    case True
    have n: "next_cmd_in_buf ip = clear_text ip" unfolding next_cmd_in_buf_def Let_def True by simp
    have "iflags (clear_text ip) = iflags ip" by (simp add: clear_text_def)
    with input_ok_clear [OF assms] show ?thesis unfolding n True region_clear by blast
  next
    case False
    have n: "next_cmd_in_buf ip = ip\<lparr>text_start := text_end ip - length ?r\<rparr>"
      unfolding next_cmd_in_buf_def Let_def by (rule if_P [OF False])
    define p where "p = takeWhile (\<lambda>c. c \<noteq> NUL) (region ip) @ takeWhile (\<lambda>c. c = NUL) (dropWhile (\<lambda>c. c \<noteq> NUL) (region ip))"
    have p: "region ip = p @ ?r" by (simp add: p_def)
    have l: "length (region ip) = text_end ip - text_start ip" "text_start ip \<le> text_end ip" "text_end ip \<le> length (text_buf ip)"
      using region_length [OF assms] assms by (auto simp: input_ok_def)
    from p have "length (region ip) = length p + length ?r" by (rule trans [OF arg_cong [where f = length] length_append])
    with l have len: "length p + length ?r = text_end ip - text_start ip" by simp
    then have st: "text_end ip - length ?r = text_start ip + length p" using l by linarith
    have "drop (length p) (region ip) = ?r" by (subst p) simp
    then have "region (ip\<lparr>text_start := text_start ip + length p\<rparr>) = ?r"
      using len l by (simp add: region_def drop_take add.commute) 
    with n st input_ok_start [OF assms, of "text_end ip - length ?r"] show ?thesis by simp
  qed
qed

lemma take_command_spec:
  assumes ok: "input_ok ip" and cmd: "CMD_IN_BUF \<in> iflags ip" and s: "s \<le> text_end ip"
  shows "\<exists>ip'. take_command t s ip = Some (telnet_neg [] (c_string (drop s (text_buf ip))), ip') \<and> input_ok ip'
    \<and> region ip' = region (next_cmd_in_buf ip) \<and> (CMD_IN_BUF \<in> iflags ip' \<longleftrightarrow> cmd_in_buf (next_cmd_in_buf ip))
    \<and> (SINGLE_CHAR \<in> iflags ip' \<longleftrightarrow> SINGLE_CHAR \<in> iflags ip)"
proof -
  note nx = next_cmd_in_buf_spec [OF ok]
  let ?n = "next_cmd_in_buf ip"
  define a where "a = (if cmd_in_buf ?n then ?n else ?n\<lparr>iflags := iflags ?n - {CMD_IN_BUF}\<rparr>)"
  have a: "input_ok a" "region a = region ?n" "CMD_IN_BUF \<in> iflags a \<longleftrightarrow> cmd_in_buf ?n" "SINGLE_CHAR \<in> iflags a \<longleftrightarrow> SINGLE_CHAR \<in> iflags ip"
    using nx cmd input_ok_unflag(2) [of ?n] unfolding a_def by (cases "cmd_in_buf ?n"; simp)+
  define b where "b = (if NOECHO \<in> iflags a then (let ip = add_message telnet_no_echo a in ip\<lparr>iflags := iflags ip - {NOECHO}\<rparr>) else a)"
  have k: "keeps_text a (add_message telnet_no_echo a)" "input_ok (add_message telnet_no_echo a)"
    using message_keeps [OF a(1)] input_ok_message [OF a(1)] by simp_all
  have b: "input_ok b" "region b = region a" "CMD_IN_BUF \<in> iflags b \<longleftrightarrow> CMD_IN_BUF \<in> iflags a" "SINGLE_CHAR \<in> iflags b \<longleftrightarrow> SINGLE_CHAR \<in> iflags a"
    using a(1) k input_ok_unflag(1) [OF k(2), of NOECHO] keeps_text_region [OF k(1)] keeps_text_flags [OF k(1)]
    unfolding b_def Let_def by (cases "NOECHO \<in> iflags a"; simp)+
  have "take_command t s ip = Some (telnet_neg [] (c_string (drop s (text_buf ip))), b\<lparr>last_time := t\<rparr>)"
    using zero_behind_text [OF ok cmd s] by (simp add: take_command_def Let_def b_def a_def)
  then show ?thesis using a b by (intro exI [of _ "b\<lparr>last_time := t\<rparr>"]) (simp add: region_def)
qed

section \<open>The search for a command\<close>

text \<open>The user has a command waiting.\<close>

definition ready :: "interactive option \<Rightarrow> bool" where
  "ready u = (case u of None \<Rightarrow> False | Some ip \<Rightarrow> CMD_IN_BUF \<in> iflags ip \<and> fst (first_cmd_in_buf ip) \<noteq> None)"

definition users_ok :: "interactive option list \<Rightarrow> bool" where
  "users_ok us \<longleftrightarrow> (\<forall>ip. Some ip \<in> set us \<longrightarrow> input_ok ip)"

lemma users_okD: "users_ok us \<Longrightarrow> us ! i = Some ip \<Longrightarrow> i < length us \<Longrightarrow> input_ok ip"
  unfolding users_ok_def by (metis nth_mem)

lemma users_ok_update: "users_ok us \<Longrightarrow> input_ok ip \<Longrightarrow> users_ok (us[i := Some ip])"
  unfolding users_ok_def using set_update_subset_insert [of us i "Some ip"] by fastforce

text \<open>The \<open>d\<close>th user the search looks at.\<close>

abbreviation nth_user :: "interactive option list \<Rightarrow> nat \<Rightarrow> nat \<Rightarrow> nat" where
  "nth_user us d next \<equiv> (step_back (length us) ^^ d) next"

lemma nth_user_Suc: "nth_user us (Suc d) next = nth_user us d (step_back (length us) next)"
  by (simp add: funpow_swap1)

lemma step_back_less: "next < n \<Longrightarrow> step_back n next < n"
  by (auto simp: step_back_def)

lemma nth_user_less: "next < length us \<Longrightarrow> nth_user us d next < length us"
  by (induction d) (simp_all add: step_back_less)

lemma first_cmd_keeps: "keeps_text ip ip' \<Longrightarrow> fst (first_cmd_in_buf ip') = fst (first_cmd_in_buf ip)"
  using keeps_text_flags [of ip ip' SINGLE_CHAR] keeps_text_region [of ip ip']
  unfolding keeps_text_def by (simp add: first_cmd_in_buf_def Let_def region_def)

lemma ready_keeps: "keeps_text ip ip' \<Longrightarrow> ready (Some ip') = ready (Some ip)"
  using keeps_text_flags [of ip ip' CMD_IN_BUF] by (simp add: ready_def first_cmd_keeps)

text \<open>A pass leaves everyone it does not stop at as ready as he was, and does not touch who is.\<close>

definition seen :: "interactive option list \<Rightarrow> interactive option list \<Rightarrow> bool" where
  "seen us us' \<longleftrightarrow> length us' = length us \<and> users_ok us' \<and> (\<forall>j < length us. if ready (us ! j) then us' ! j = us ! j else \<not> ready (us' ! j))"

lemma seen_trans: "seen a b \<Longrightarrow> seen b c \<Longrightarrow> seen a c"
  by (auto simp: seen_def)

lemma seen_ready: "seen us us' \<Longrightarrow> j < length us \<Longrightarrow> ready (us' ! j) = ready (us ! j)"
  by (auto simp: seen_def split: if_splits)

lemma seen_update:
  assumes "users_ok us" "\<not> ready (us ! i)" "\<not> ready (Some ip)" "input_ok ip"
  shows "seen us (us[i := Some ip])"
proof -
  have "if ready (us ! j) then us[i := Some ip] ! j = us ! j else \<not> ready (us[i := Some ip] ! j)" if "j < length us" for j
    using assms(2,3) that by (cases "j = i") simp_all
  with users_ok_update [OF assms(1,4), of i] show ?thesis by (simp add: seen_def)
qed

lemma seek_command_spec:
  assumes "users_ok us" "next < length us"
  shows "(\<exists>us'. seek_command k us next = (None, us', nth_user us k next) \<and> seen us us' \<and> (\<forall>d < k. \<not> ready (us ! nth_user us d next)))
    \<or> (\<exists>d s us' ip ip1 ip'. d < k \<and> seek_command k us next = (Some (nth_user us d next, s), us'[nth_user us d next := Some ip'], nth_user us d next)
        \<and> seen us us' \<and> (\<forall>d' < d. \<not> ready (us ! nth_user us d' next)) \<and> us ! nth_user us d next = Some ip \<and> ready (Some ip)
        \<and> input_ok ip1 \<and> keeps_text ip ip1 \<and> first_cmd_in_buf ip1 = (Some s, ip'))"
  using assms
proof (induction k arbitrary: us "next")
  case 0
  then show ?case by (auto simp: seen_def)
next
  case (Suc k)
  let ?n = "step_back (length us) next"
  have skip: "?case" if us1: "seen us us1" and sk: "seek_command (Suc k) us next = seek_command k us1 ?n" and nr: "\<not> ready (us ! next)" for us1
  proof -
    have len: "length us1 = length us" and ok1: "users_ok us1" using us1 by (simp_all add: seen_def)
    have rd: "ready (us1 ! nth_user us d m) = ready (us ! nth_user us d m)" if "m < length us" for d m
      by (rule seen_ready [OF us1 nth_user_less [OF that]])
    have n: "?n < length us" by (rule step_back_less [OF Suc.prems(2)])
    have nr': "\<forall>d < Suc m. \<not> ready (us ! nth_user us d next)" if "\<forall>d < m. \<not> ready (us ! nth_user us d ?n)" for m
    proof (intro allI impI)
      fix d assume "d < Suc m"
      then show "\<not> ready (us ! nth_user us d next)" using nr that by (cases d) (simp_all add: funpow_swap1)
    qed
    from Suc.IH [OF ok1, of ?n, unfolded len, OF n] show ?case
    proof (elim disjE exE conjE)
      fix us' assume "seek_command k us1 ?n = (None, us', nth_user us k ?n)" "seen us1 us'" "\<forall>d < k. \<not> ready (us1 ! nth_user us d ?n)"
      then show ?case using sk seen_trans [OF us1] nr' [of k] rd [OF n] by (simp add: funpow_swap1)
    next
      fix d s us' ip ip1 ip'
      assume a: "d < k" "seek_command k us1 ?n = (Some (nth_user us d ?n, s), us'[nth_user us d ?n := Some ip'], nth_user us d ?n)" "seen us1 us'"
        "\<forall>d' < d. \<not> ready (us1 ! nth_user us d' ?n)" "us1 ! nth_user us d ?n = Some ip" "ready (Some ip)" "input_ok ip1" "keeps_text ip ip1"
        "first_cmd_in_buf ip1 = (Some s, ip')"
      have "ready (us ! nth_user us d ?n)" using rd [OF n, of d] a(5,6) by simp
      then have "us ! nth_user us d ?n = Some ip" using us1 nth_user_less [OF n, of d] a(5) by (simp add: seen_def split: if_splits)
      then show ?case
        using a sk seen_trans [OF us1] nr' [of d] rd [OF n]
        by (intro disjI2 exI [of _ "Suc d"] exI [of _ s] exI [of _ us'] exI [of _ ip] exI [of _ ip1] exI [of _ ip']) (simp add: funpow_swap1)
    qed
  qed
  show ?case
  proof (cases "us ! next")
    case None
    have "seen us us" using Suc.prems by (simp add: seen_def)
    then show ?thesis by (rule skip) (simp_all add: None ready_def)
  next
    case (Some ip)
    have ok: "input_ok ip" by (rule users_okD [OF Suc.prems(1) Some Suc.prems(2)])
    define ip1 where "ip1 = (if message_length ip \<noteq> 0 then flush ip else ip)"
    have k: "keeps_text ip ip1" "input_ok ip1"
      using ok flush_same(2) [of ip] input_ok_flush [OF ok] same_input_keeps by (auto simp: ip1_def input_ok_def)
    obtain r ip' where f: "first_cmd_in_buf ip1 = (r, ip')" by fastforce
    note fs = first_cmd_in_buf_spec [OF k(2) f]
    have sk: "seek_command (Suc k) us next =
        (if CMD_IN_BUF \<in> iflags ip1 then
           (case r of Some s \<Rightarrow> (Some (next, s), us[next := Some ip'], next)
            | None \<Rightarrow> seek_command k (us[next := Some (ip'\<lparr>iflags := iflags ip' - {CMD_IN_BUF}\<rparr>)]) ?n)
         else seek_command k (us[next := Some ip1]) ?n)"
      unfolding seek_command.simps Some option.case Let_def ip1_def [symmetric] f prod.case by (cases r) simp_all
    show ?thesis
    proof (cases "CMD_IN_BUF \<in> iflags ip1")
      case False
      then have nr: "\<not> ready (Some ip1)" by (simp add: ready_def)
      then have n: "\<not> ready (us ! next)" using Some ready_keeps [OF k(1)] by simp
      show ?thesis by (rule skip [OF seen_update [OF Suc.prems(1) n nr k(2)] _ n]) (simp add: sk False del: seek_command.simps)
    next
      case cmd: True
      show ?thesis
      proof (cases r)
        case None
        let ?u = "ip'\<lparr>iflags := iflags ip' - {CMD_IN_BUF}\<rparr>"
        have "\<not> ready (Some ip1)" using f None by (simp add: ready_def)
        then have nr: "\<not> ready (us ! next)" using Some ready_keeps [OF k(1)] by simp
        have nu: "\<not> ready (Some ?u)" by (simp add: ready_def)
        have u: "input_ok ?u" using fs by blast
        show ?thesis by (rule skip [OF seen_update [OF Suc.prems(1) nr nu u] _ nr]) (simp add: sk cmd None del: seek_command.simps)
      next
        case s: (Some s)
        have "ready (Some ip1)" using f s cmd by (simp add: ready_def)
        then have r: "ready (Some ip)" using ready_keeps [OF k(1)] by simp
        have "seek_command (Suc k) us next = (Some (next, s), us[next := Some ip'], next)"
          by (simp add: sk cmd s del: seek_command.simps)
        moreover have "seen us us" using Suc.prems by (simp add: seen_def)
        ultimately show ?thesis using r f s Some k
          by (intro disjI2 exI [of _ 0] exI [of _ s] exI [of _ us] exI [of _ ip] exI [of _ ip1] exI [of _ ip']) simp
      qed
    qed
  qed
qed

section \<open>Fairness\<close>

lemma get_user_command_spec:
  assumes ok: "users_ok us" "next < length us"
  shows "(\<exists>us'. get_user_command t us next = Some (None, us', nth_user us (length us) next) \<and> seen us us' \<and> (\<forall>d < length us. \<not> ready (us ! nth_user us d next)))
    \<or> (\<exists>d us' ip ip1 s ip2 ip'. d < length us \<and> seen us us' \<and> (\<forall>d' < d. \<not> ready (us ! nth_user us d' next))
        \<and> us ! nth_user us d next = Some ip \<and> ready (Some ip) \<and> input_ok ip1 \<and> keeps_text ip ip1 \<and> first_cmd_in_buf ip1 = (Some s, ip2) \<and> input_ok ip2
        \<and> take_command t s ip2 = Some (telnet_neg [] (c_string (drop s (text_buf ip2))), ip') \<and> input_ok ip'
        \<and> get_user_command t us next =
            Some (Some (nth_user us d next, telnet_neg [] (c_string (drop s (text_buf ip2)))), us'[nth_user us d next := Some ip'], nth_user us (Suc d) next))"
  using seek_command_spec [OF ok, of "length us"]
proof (elim disjE exE conjE)
  fix us' assume "seek_command (length us) us next = (None, us', nth_user us (length us) next)" "seen us us'"
    "\<forall>d < length us. \<not> ready (us ! nth_user us d next)"
  then show ?thesis by (intro disjI1 exI [of _ us']) (simp add: get_user_command_def)
next
  fix d s us' ip ip1 ip2
  let ?i = "nth_user us d next"
  assume a: "d < length us" "seek_command (length us) us next = (Some (?i, s), us'[?i := Some ip2], ?i)" "seen us us'"
    "\<forall>d' < d. \<not> ready (us ! nth_user us d' next)" "us ! ?i = Some ip" "ready (Some ip)" "input_ok ip1" "keeps_text ip ip1"
    "first_cmd_in_buf ip1 = (Some s, ip2)"
  have i: "?i < length us'" using nth_user_less [OF ok(2)] a(3) by (simp add: seen_def)
  note f = first_cmd_in_buf_spec [OF a(7,9)]
  then have f2: "input_ok ip2" "s \<le> text_end ip2" by simp_all
  have "CMD_IN_BUF \<in> iflags ip2" using a(6) f keeps_text_flags [OF a(8), of CMD_IN_BUF] by (simp add: ready_def)
  from take_command_spec [OF f2(1) this f2(2), of t] obtain ip' where
    t: "take_command t s ip2 = Some (telnet_neg [] (c_string (drop s (text_buf ip2))), ip')" "input_ok ip'" by blast
  have "length us' = length us" using a(3) by (simp add: seen_def)
  then have "get_user_command t us next =
      Some (Some (?i, telnet_neg [] (c_string (drop s (text_buf ip2)))), us'[?i := Some ip'], nth_user us (Suc d) next)"
    using a(2) i t(1) by (simp add: get_user_command_def)
  with a f2 t show ?thesis by blast
qed

lemma step_back_reaches:
  assumes "next < length us" "i < length us"
  shows "\<exists>d < length us. nth_user us d next = i"
proof -
  have down: "d \<le> m \<Longrightarrow> nth_user us d m = m - d" for d m by (induction d) (simp_all add: step_back_def)
  show ?thesis
  proof (cases "i \<le> next")
    case True
    then show ?thesis using down [of "next - i" "next"] assms by (intro exI [of _ "next - i"]) simp
  next
    case False
    let ?d = "next + Suc (length us - 1 - i)"
    have "nth_user us ?d next = (step_back (length us) ^^ (Suc (length us - 1 - i))) (nth_user us next next)"
      by (metis add.commute comp_apply funpow_add)
    also have "\<dots> = nth_user us (length us - 1 - i) (step_back (length us) 0)" using down [of "next" "next"] by (simp add: funpow_swap1)
    also have "\<dots> = i" using down [of "length us - 1 - i" "length us - 1"] assms(2) by (simp add: step_back_def)
    finally show ?thesis using assms False by (intro exI [of _ ?d]) simp
  qed
qed

text \<open>The commands of \<open>k\<close> successive calls.\<close>

fun commands :: "int \<Rightarrow> nat \<Rightarrow> interactive option list \<Rightarrow> nat \<Rightarrow> (nat \<times> string) list" where
  "commands t 0 us next = []"
| "commands t (Suc k) us next =
     (case get_user_command t us next of Some (Some c, us, next) \<Rightarrow> c # commands t k us next | _ \<Rightarrow> [])"

lemma commands_fair:
  "\<lbrakk> users_ok us; next < length us; ready (us ! nth_user us d next); d < k; d < length us \<rbrakk>
    \<Longrightarrow> nth_user us d next \<in> fst ` set (commands t k us next)"
proof (induction k arbitrary: us "next" d)
  case (Suc k)
  let ?i = "nth_user us d next"
  from get_user_command_spec [OF Suc.prems(1,2), of t] show ?case
  proof (elim disjE exE conjE)
    assume "\<forall>d < length us. \<not> ready (us ! nth_user us d next)"
    with Suc.prems(3,5) show ?thesis by blast
  next
    fix w us' ip ip1 s ip2 and ip' :: interactive
    let ?w = "nth_user us w next" and ?n = "nth_user us (Suc w) next"
    let ?us = "us'[?w := Some ip']"
    assume w: "w < length us" "seen us us'" "\<forall>d' < w. \<not> ready (us ! nth_user us d' next)" "input_ok ip'"
      and g: "get_user_command t us next = Some (Some (?w, telnet_neg [] (c_string (drop s (text_buf ip2)))), ?us, ?n)"
    show ?thesis
    proof (cases "?i = ?w")
      case True
      then show ?thesis by (simp add: g)
    next
      case False
      have len: "length ?us = length us" using w(2) by (simp add: seen_def)
      have "w < d" using w(3) Suc.prems(3) False by (metis linorder_neqE_nat)
      then obtain e where e: "d = Suc w + e" using less_imp_Suc_add by auto
      have shift: "nth_user ?us e ?n = ?i" unfolding len e by (metis add.commute comp_apply funpow_add)
      have "?us ! ?i = us ! ?i"
        using False w(2) Suc.prems(3) nth_user_less [OF Suc.prems(2)] by (simp add: seen_def split: if_splits)
      then have "ready (?us ! nth_user ?us e ?n)" using Suc.prems(3) shift by simp
      moreover have "users_ok ?us" using w(2,4) users_ok_update by (simp add: seen_def)
      moreover have "?n < length ?us" unfolding len by (rule nth_user_less [OF Suc.prems(2)])
      moreover have "e < k" "e < length ?us" using e Suc.prems(4,5) len by simp_all
      ultimately have "nth_user ?us e ?n \<in> fst ` set (commands t k ?us ?n)" by (intro Suc.IH)
      then show ?thesis unfolding shift by (simp add: g)
    qed
  qed
qed simp

text \<open>C20. No user starves: whoever has a command waiting is served within as many calls of
  \<open>get_user_command\<close> as there are places for users, whatever the others have queued.\<close>

theorem get_user_command_fair:
  assumes "users_ok us" "next < length us" "i < length us" "ready (us ! i)"
  shows "i \<in> fst ` set (commands t (length us) us next)"
proof -
  obtain d where "d < length us" "nth_user us d next = i" using step_back_reaches [OF assms(2,3)] by blast
  with commands_fair [OF assms(1,2), of d "length us" t] assms(4) show ?thesis by simp
qed

section \<open>Typed lines\<close>

definition plain :: "string \<Rightarrow> bool" where
  "plain l \<longleftrightarrow> (\<forall>c \<in> set l. c \<notin> {IAC, CR, LF, NUL, BS, DEL})"

text \<open>A line as it is sent, and as it is in the text buffer.\<close>

definition sent_line :: "string \<Rightarrow> string" where
  "sent_line l = l @ [CR, LF]"

definition kept_line :: "string \<Rightarrow> string" where
  "kept_line l = l @ [CHR '' '', BS, NUL]"

lemma copy_plain:
  assumes "state ip = TS_DATA" "plain l"
  shows "copy_chars l ip = Some (l, ip)"
  using assms(2) by (induction l) (simp_all add: assms(1) telnet_step_def data_char_def plain_def)

lemma copy_lines:
  assumes "state ip = TS_DATA" "SINGLE_CHAR \<notin> iflags ip" "\<forall>l \<in> set ls. plain l"
  shows "copy_chars (concat (map sent_line ls)) ip = Some (concat (map kept_line ls), ip)"
  using assms(3)
proof (induction ls)
  case (Cons l ls)
  have "copy_chars [CR, LF] ip = Some ([CHR '' '', BS, NUL], ip)" using assms(1,2) by (simp add: telnet_step_def data_char_def)
  then have "copy_chars (sent_line l) ip = Some (kept_line l, ip)"
    using copy_plain [OF assms(1), of l] Cons.prems by (simp add: sent_line_def kept_line_def copy_chars_append)
  with Cons show ?case by (simp add: copy_chars_append)
qed simp

lemma telnet_neg_append: "\<forall>c \<in> set l. c \<notin> {BS, DEL} \<Longrightarrow> telnet_neg to (l @ r) = telnet_neg (rev l @ to) r"
  by (induction l arbitrary: to) simp_all

lemma telnet_neg_line: "plain l \<Longrightarrow> telnet_neg [] (l @ [CHR '' '', BS]) = l"
  by (subst telnet_neg_append) (auto simp: plain_def)

lemma kept_line_head: "plain l \<Longrightarrow> \<exists>c r. kept_line l = c # r \<and> c \<noteq> NUL"
  by (cases l) (auto simp: kept_line_def plain_def)

lemma c_string_line: "plain l \<Longrightarrow> c_string (kept_line l @ r) = l @ [CHR '' '', BS]"
  by (induction l) (auto simp: c_string_def kept_line_def plain_def)

lemma skip_line:
  assumes "plain l" "\<forall>l \<in> set ls. plain l"
  shows "dropWhile (\<lambda>c. c = NUL) (dropWhile (\<lambda>c. c \<noteq> NUL) (kept_line l @ concat (map kept_line ls))) = concat (map kept_line ls)"
proof -
  have 1: "dropWhile (\<lambda>c. c \<noteq> NUL) (kept_line l @ r) = NUL # r" for r
    using assms(1) by (induction l) (auto simp: kept_line_def plain_def)
  show ?thesis
  proof (cases ls)
    case Nil
    then show ?thesis unfolding 1 by simp
  next
    case (Cons k ks)
    then obtain c r where "kept_line k = c # r" "c \<noteq> NUL" using kept_line_head [of k] assms(2) by auto
    then show ?thesis unfolding 1 Cons by simp
  qed
qed

text \<open>A single user whose text buffer holds exactly the lines \<open>ls\<close>.\<close>

definition holds_lines :: "string list \<Rightarrow> interactive \<Rightarrow> bool" where
  "holds_lines ls ip \<longleftrightarrow> input_ok ip \<and> SINGLE_CHAR \<notin> iflags ip \<and> region ip = concat (map kept_line ls) \<and> (\<forall>l \<in> set ls. plain l)
     \<and> (ls \<noteq> [] \<longrightarrow> CMD_IN_BUF \<in> iflags ip)"

lemma cmd_in_lines:
  assumes "region ip = concat (map kept_line ls)" "\<forall>l \<in> set ls. plain l" "ls \<noteq> []"
  shows "cmd_in_buf ip"
proof -
  obtain l ks where ls: "ls = l # ks" using assms(3) by (cases ls) auto
  then obtain c r where c: "kept_line l = c # r" "c \<noteq> NUL" using kept_line_head [of l] assms(2) by auto
  have "NUL \<in> set (kept_line l)" by (simp add: kept_line_def)
  then show ?thesis using c by (auto simp: cmd_in_buf_def Let_def assms(1) ls)
qed

lemma first_line:
  assumes "holds_lines (l # ls) ip"
  shows "first_cmd_in_buf ip = (Some (text_start ip), ip)" "c_string (drop (text_start ip) (text_buf ip)) = l @ [CHR '' '', BS]"
proof -
  have r: "region ip = kept_line l @ concat (map kept_line ls)" and ok: "input_ok ip" and pl: "plain l" using assms by (simp_all add: holds_lines_def)
  obtain c t where c: "kept_line l = c # t" "c \<noteq> NUL" using kept_line_head [OF pl] by blast
  have z: "NUL \<in> set (region ip)" by (simp add: r kept_line_def)
  have s: "takeWhile (\<lambda>c. c = NUL) (region ip) = []" using c by (simp add: r)
  have e: "\<not> text_end ip \<le> text_start ip" using region_length [OF ok] c by (simp add: r)
  have id: "ip\<lparr>text_start := text_start ip\<rparr> = ip" by simp
  have sc: "SINGLE_CHAR \<notin> iflags ip" using assms by (simp add: holds_lines_def)
  show "first_cmd_in_buf ip = (Some (text_start ip), ip)"
    unfolding first_cmd_in_buf_def Let_def s list.size(3) add_0_right id if_not_P [OF e] if_not_P [OF sc] if_P [OF z] by (rule refl)
  show "c_string (drop (text_start ip) (text_buf ip)) = l @ [CHR '' '', BS]"
    unfolding region_drop [OF ok] r append_assoc by (rule c_string_line [OF pl])
qed

lemma one_line:
  assumes "holds_lines (l # ls) ip"
  shows "\<exists>ip'. get_user_command t [Some ip] 0 = Some (Some (0, l), [Some ip'], 0) \<and> holds_lines ls ip'"
proof -
  have ok: "input_ok ip" and cmd: "CMD_IN_BUF \<in> iflags ip" and pl: "plain l" "\<forall>l \<in> set ls. plain l" and sc: "SINGLE_CHAR \<notin> iflags ip"
    and r: "region ip = kept_line l @ concat (map kept_line ls)" using assms by (simp_all add: holds_lines_def)
  define ip1 where "ip1 = (if message_length ip \<noteq> 0 then flush ip else ip)"
  have k: "keeps_text ip ip1" "input_ok ip1"
    using ok flush_same(2) [of ip] input_ok_flush [OF ok] same_input_keeps by (auto simp: ip1_def input_ok_def)
  have h1: "holds_lines (l # ls) ip1"
    using assms k keeps_text_region [OF k(1)] keeps_text_flags [OF k(1)] by (simp add: holds_lines_def)
  then have cmd1: "CMD_IN_BUF \<in> iflags ip1" by (simp add: holds_lines_def)
  have sk: "seek_command (Suc 0) [Some ip] 0 = (Some (0, text_start ip1), [Some ip1], 0)"
    unfolding seek_command.simps nth_Cons_0 option.case Let_def ip1_def [symmetric] first_line(1) [OF h1] prod.case if_P [OF cmd1] by simp
  have ts: "text_start ip1 \<le> text_end ip1" using k(2) by (simp add: input_ok_def)
  from take_command_spec [OF k(2) cmd1 ts, of t] first_line(2) [OF h1] telnet_neg_line [OF pl(1)] obtain ip' where
    t: "take_command t (text_start ip1) ip1 = Some (l, ip')" "input_ok ip'" "region ip' = region (next_cmd_in_buf ip1)"
       "CMD_IN_BUF \<in> iflags ip' \<longleftrightarrow> cmd_in_buf (next_cmd_in_buf ip1)" "SINGLE_CHAR \<in> iflags ip' \<longleftrightarrow> SINGLE_CHAR \<in> iflags ip1" by auto
  have r': "region (next_cmd_in_buf ip1) = concat (map kept_line ls)"
    using next_cmd_in_buf_spec [OF k(2)] keeps_text_region [OF k(1)] r skip_line [OF pl] by simp
  have "holds_lines ls ip'"
    using t r' pl(2) cmd_in_lines [OF r' pl(2)] keeps_text_flags [OF k(1), of SINGLE_CHAR] sc by (simp add: holds_lines_def)
  moreover have "get_user_command t [Some ip] 0 = Some (Some (0, l), [Some ip'], 0)"
    using sk t(1) by (simp add: get_user_command_def step_back_def del: seek_command.simps)
  ultimately show ?thesis by blast
qed

lemma no_line: "holds_lines [] ip \<Longrightarrow> \<exists>us. get_user_command t [Some ip] 0 = Some (None, us, 0)"
proof -
  assume h: "holds_lines [] ip"
  then have ok: "input_ok ip" by (simp add: holds_lines_def)
  have "text_end ip \<le> text_start ip" using h region_length [OF ok] by (simp add: holds_lines_def)
  then have "\<not> ready (Some ip)" by (simp add: ready_def first_cmd_in_buf_def Let_def)
  moreover have "users_ok [Some ip]" using ok by (simp add: users_ok_def)
  ultimately show ?thesis using get_user_command_spec [of "[Some ip]" 0 t] by (auto simp: step_back_def)
qed

lemma all_lines: "holds_lines ls ip \<Longrightarrow> commands t (Suc (length ls)) [Some ip] 0 = map (Pair 0) ls"
proof (induction ls arbitrary: ip)
  case Nil
  with no_line [of ip t] show ?case by auto
next
  case (Cons l ls)
  from one_line [OF Cons.prems, of t] obtain ip' where
    "get_user_command t [Some ip] 0 = Some (Some (0, l), [Some ip'], 0)" "holds_lines ls ip'" by blast
  with Cons.IH show ?case by simp
qed

text \<open>C19. What a user types comes out as it was typed: lines that are read by one call of
  \<open>get_user_data\<close> into an empty buffer are the commands \<open>get_user_command\<close> gives, in
  order and each once; an empty line is an empty command.\<close>

theorem typed_lines_delivered:
  assumes "input_ok ip" "CMD_IN_BUF \<notin> iflags ip" "SINGLE_CHAR \<notin> iflags ip" "connection_type ip = PORT_TELNET"
    "state ip = TS_DATA" "text_start ip = 0" "text_end ip = 0"
    "\<forall>l \<in> set ls. plain l" "ls \<noteq> []" "length (concat (map sent_line ls)) \<le> 682"
  shows "\<exists>ip'. get_user_data (Read (concat (map sent_line ls))) ip = Some (False, ip')
    \<and> commands t (Suc (length ls)) [Some ip'] 0 = map (Pair 0) ls"
proof -
  let ?d = "concat (map sent_line ls)"
  have m: "make_room ip = (682, ip)" using assms(4,6,7) by (simp add: make_room_def MAX_TEXT_def)
  have t: "take 682 ?d = ?d" using assms(10) by simp
  have ne: "?d \<noteq> []" using assms(9) by (auto simp: sent_line_def neq_Nil_conv)
  from get_user_data_telnet [OF assms(1,2,4) m _ ne, unfolded t, OF copy_lines [OF assms(5,3,8)]] obtain ip' where
    g: "get_user_data (Read ?d) ip = Some (False, ip')" "input_ok ip'" "region ip' = region ip @ concat (map kept_line ls)"
       "iflags ip' = (if cmd_in_buf ip' then insert CMD_IN_BUF (iflags ip) else iflags ip)" by blast
  have r: "region ip' = concat (map kept_line ls)" using g(3) assms(6,7) by (simp add: region_def)
  have "holds_lines ls ip'" using g(2,4) r cmd_in_lines [OF r assms(8,9)] assms(3,8) by (simp add: holds_lines_def)
  with g(1) all_lines show ?thesis by blast
qed

section \<open>Witnesses\<close>

lemma demo_input_ok: "input_ok demo_ip" "CMD_IN_BUF \<notin> iflags demo_ip" "SINGLE_CHAR \<notin> iflags demo_ip"
  "connection_type demo_ip = PORT_TELNET" "state demo_ip = TS_DATA" "text_start demo_ip = 0" "text_end demo_ip = 0"
  using demo_ip_ok(1) by (simp_all add: input_ok_def demo_ip_def)

lemma get_user_data_safe_witness:
  "case get_user_data Read_blocked demo_ip of
      None \<Rightarrow> \<exists>data. Read_blocked = Read data \<and> connection_type demo_ip = PORT_TELNET
        \<and> copy_chars (take (fst (make_room demo_ip)) data) (snd (make_room demo_ip)) = None
    | Some (remove, ip') \<Rightarrow> input_ok ip'"
  by (rule get_user_data_safe [OF demo_input_ok(1,2)])

lemma long_suboption_overflows_witness:
  "copy_chars ([IAC, SB] @ replicate 100 CHR ''x'' @ [IAC, SE]) demo_ip = None"
  by (rule long_suboption_overflows [OF demo_input_ok(5)]) simp_all

lemma character_after_command_lost_witness:
  "\<exists>ip'. copy_chars [IAC, AYT, CHR ''q''] demo_ip = Some ([], ip') \<and> state ip' = TS_DATA \<and> keeps_text demo_ip ip'"
  by (rule character_after_command_lost [OF demo_input_ok(1,5)]) simp_all

definition waiting_ip :: interactive where
  "waiting_ip = demo_ip\<lparr>text_buf := (text_buf demo_ip)[0 := CHR ''n''], text_end := 2, iflags := {CMD_IN_BUF}\<rparr>"

lemma waiting_ip_ready: "users_ok [None, Some waiting_ip, Some waiting_ip]" "ready (Some waiting_ip)"
proof -
  have r: "region waiting_ip = [CHR ''n'', NUL]"
    by (simp add: region_def waiting_ip_def demo_ip_def MAX_TEXT_def numeral_eq_Suc)
  then show "ready (Some waiting_ip)"
    by (simp add: ready_def first_cmd_in_buf_def Let_def) (simp add: waiting_ip_def demo_ip_def)
  have "text_buf waiting_ip ! 2 = NUL" by (simp add: waiting_ip_def demo_ip_def MAX_TEXT_def)
  moreover have "ring_ok waiting_ip" using demo_ip_ok(1) by (simp add: waiting_ip_def ring_ok_def)
  moreover have "length (text_buf waiting_ip) = MAX_TEXT" "length (sb_buf waiting_ip) = SB_SIZE" "text_start waiting_ip = 0"
    "text_end waiting_ip = 2" "sb_pos waiting_ip = 0" by (simp_all add: waiting_ip_def demo_ip_def)
  ultimately have "input_ok waiting_ip" by (simp add: input_ok_def MAX_TEXT_def)
  then show "users_ok [None, Some waiting_ip, Some waiting_ip]" by (simp add: users_ok_def)
qed

lemma get_user_command_fair_witness:
  "2 \<in> fst ` set (commands 7 (length [None, Some waiting_ip, Some waiting_ip]) [None, Some waiting_ip, Some waiting_ip] 1)"
  by (rule get_user_command_fair [OF waiting_ip_ready(1)]) (simp_all add: waiting_ip_ready(2))

lemma typed_lines_delivered_witness:
  "\<exists>ip'. get_user_data (Read (concat (map sent_line [''look'', [], ''north'']))) demo_ip = Some (False, ip')
    \<and> commands 5 (Suc (length [''look'', [], ''north''])) [Some ip'] 0 = map (Pair 0) [''look'', [], ''north'']"
  by (rule typed_lines_delivered [OF demo_input_ok]) (simp_all add: plain_def sent_line_def)

end
