(* ===== verification/Quick_Sort.thy ===== *)
theory Quick_Sort
  imports Prelude
begin

text \<open>
  The quicksort of the driver (\<open>qsort.c\<close>). Its comparison function may be LPC code: it has a state,
  it may raise an error, and it need not be consistent. The array is a list, indices are the
  integers of the code, and an access outside of the array is the outcome \<open>Out_of_bounds\<close>.
\<close>

datatype ('e, 'a) sort_result = Sorted 'a | Raised 'e | Out_of_bounds

fun and_sorted :: "('e, 'a) sort_result \<Rightarrow> ('a \<Rightarrow> ('e, 'b) sort_result) \<Rightarrow> ('e, 'b) sort_result" where
  "and_sorted (Sorted x) f = f x"
| "and_sorted (Raised e) f = Raised e"
| "and_sorted Out_of_bounds f = Out_of_bounds"

lemma and_sorted_cong [fundef_cong]:
  "x = x' \<Longrightarrow> (\<And>a. x' = Sorted a \<Longrightarrow> f a = g a) \<Longrightarrow> and_sorted x f = and_sorted x' g"
  by (cases x') auto

lemma and_sorted_eq [simp]: "and_sorted x f = Sorted y \<longleftrightarrow> (\<exists>a. x = Sorted a \<and> f a = Sorted y)"
  by (cases x) auto

type_synonym ('a, 's, 'e) compar = "'a \<Rightarrow> 'a \<Rightarrow> 's \<Rightarrow> 'e + int \<times> 's"

section \<open>The sort\<close>

definition doSwap :: "int \<Rightarrow> int \<Rightarrow> 'a list \<Rightarrow> ('e, 'a list) sort_result" where
  "doSwap i j v =
     (if 0 \<le> i \<and> i < int (length v) \<and> 0 \<le> j \<and> j < int (length v)
      then Sorted (v[nat i := v ! nat j, nat j := v ! nat i]) else Out_of_bounds)"

definition compare_at :: "('a, 's, 'e) compar \<Rightarrow> int \<Rightarrow> int \<Rightarrow> 'a list \<Rightarrow> 's \<Rightarrow> ('e, int \<times> 's) sort_result" where
  "compare_at compar i j v s =
     (if 0 \<le> i \<and> i < int (length v) \<and> 0 \<le> j \<and> j < int (length v)
      then (case compar (v ! nat i) (v ! nat j) s of Inl e \<Rightarrow> Raised e | Inr r \<Rightarrow> Sorted r) else Out_of_bounds)"

text \<open>The loop over \<open>i\<close>; the pivot is at \<open>left\<close>.\<close>

function partition_loop :: "('a, 's, 'e) compar \<Rightarrow> int \<Rightarrow> int \<Rightarrow> int \<Rightarrow> int \<Rightarrow> 'a list \<Rightarrow> 's
    \<Rightarrow> ('e, int \<times> 'a list \<times> 's) sort_result" where
  "partition_loop compar left right i lst v s =
     (if i \<le> right then
        and_sorted (compare_at compar i left v s) (\<lambda>(c, s).
          if c < 0 then
            and_sorted (doSwap (lst + 1) i v) (\<lambda>v. partition_loop compar left right (i + 1) (lst + 1) v s)
          else partition_loop compar left right (i + 1) lst v s)
      else Sorted (lst, v, s))"
  by pat_completeness auto
termination by (relation "measure (\<lambda>(_, _, right, i, _). nat (right + 1 - i))") auto

declare partition_loop.simps [simp del]

lemma partition_loop_lst:
  fixes compar :: "('a, 's, 'e) compar"
  shows "partition_loop compar left right i lst v s = Sorted (lst', v', s') \<Longrightarrow> i \<le> right + 1 \<Longrightarrow> lst < i
    \<Longrightarrow> lst \<le> lst' \<and> lst' \<le> right"
proof (induction compar left right i lst v s rule: partition_loop.induct)
  case (1 compar left right i lst v s)
  show ?case
  proof (cases "i \<le> right")
    case True
    with 1(3) obtain c s1 where c: "compare_at compar i left v s = Sorted (c, s1)"
      by (auto simp: partition_loop.simps [of compar left right i])
    show ?thesis
    proof (cases "c < 0")
      case neg: True
      with 1(3) True c obtain w where w: "(doSwap (lst + 1) i v :: ('e, _) sort_result) = Sorted w" "partition_loop compar left right (i + 1) (lst + 1) w s1 = Sorted (lst', v', s')"
        by (auto simp: partition_loop.simps [of compar left right i])
      show ?thesis
        using 1(1) [OF True c refl neg w] 1(4,5) True by simp
    next
      case False
      show ?thesis using 1(2) [OF True c refl False] 1(3-5) True c False by (simp add: partition_loop.simps [of compar left right i])
    qed
  next
    case False
    then show ?thesis using 1 by (simp add: partition_loop.simps [of compar left right i])
  qed
qed

function qSort :: "('a, 's, 'e) compar \<Rightarrow> int \<Rightarrow> int \<Rightarrow> int \<Rightarrow> 'a list \<Rightarrow> 's \<Rightarrow> ('e, 'a list \<times> 's) sort_result" where
  "qSort compar left right rightmost v s =
     (if left \<ge> right \<or> left < 0 \<or> right > rightmost \<or> right < 0 then Sorted (v, s)
      else
        and_sorted (doSwap left ((left + right) div 2) v) (\<lambda>v.
        and_sorted (partition_loop compar left right (left + 1) left v s) (\<lambda>(lst, v, s).
        and_sorted (doSwap left lst v) (\<lambda>v.
        and_sorted (qSort compar left (lst - 1) rightmost v s) (\<lambda>(v, s).
        qSort compar (lst + 1) right rightmost v s)))))"
  by pat_completeness auto
termination
proof (relation "measure (\<lambda>(_, left, right, _). nat (right + 1 - left))", goal_cases)
  case 2
  then show ?case by (auto dest!: partition_loop_lst)
next
  case 3
  then show ?case by (auto dest!: partition_loop_lst)
qed simp

declare qSort.simps [simp del]

definition quickSort :: "('a, 's, 'e) compar \<Rightarrow> 'a list \<Rightarrow> 's \<Rightarrow> ('e, 'a list \<times> 's) sort_result" where
  "quickSort compar a s =
     (let nmemb = int (length a) in
      if nmemb < 2 then Sorted (a, s) else qSort compar 0 (nmemb - 1) (nmemb - 1) a s)"

section \<open>Any comparison\<close>

text \<open>The result is not an access out of bounds, and what it gives has the property.\<close>

fun fine :: "('a \<Rightarrow> bool) \<Rightarrow> ('e, 'a) sort_result \<Rightarrow> bool" where
  "fine P (Sorted x) = P x"
| "fine P (Raised e) = True"
| "fine P Out_of_bounds = False"

lemma fine_and_sorted: "fine P x \<Longrightarrow> (\<And>a. P a \<Longrightarrow> fine Q (f a)) \<Longrightarrow> fine Q (and_sorted x f)"
  by (cases x) auto

lemma fine_weaken: "fine P x \<Longrightarrow> (\<And>a. P a \<Longrightarrow> Q a) \<Longrightarrow> fine Q x"
  by (cases x) auto

text \<open>The array has been rearranged between \<open>l\<close> and \<open>r\<close> only.\<close>

definition rearranged :: "int \<Rightarrow> int \<Rightarrow> 'a list \<Rightarrow> 'a list \<Rightarrow> bool" where
  "rearranged l r v w \<longleftrightarrow> mset w = mset v \<and> (\<forall>k < length v. int k < l \<or> r < int k \<longrightarrow> w ! k = v ! k)"

lemma rearranged_length: "rearranged l r v w \<Longrightarrow> length w = length v"
  unfolding rearranged_def by (metis mset_eq_length)

lemma rearranged_refl [simp]: "rearranged l r v v"
  by (simp add: rearranged_def)

lemma rearranged_trans: "rearranged l r u v \<Longrightarrow> rearranged l' r' v w \<Longrightarrow> l \<le> l' \<Longrightarrow> r' \<le> r \<Longrightarrow> rearranged l r u w"
  using rearranged_length [of l r u v] by (simp add: rearranged_def)

lemma rearranged_nth: "rearranged l r v w \<Longrightarrow> k < length v \<Longrightarrow> int k < l \<or> r < int k \<Longrightarrow> w ! k = v ! k"
  unfolding rearranged_def by blast

lemma rearranged_set: "rearranged l r v w \<Longrightarrow> set w = set v"
  unfolding rearranged_def by (metis set_mset_mset)

lemma rearranged_all:
  assumes "rearranged l r v w" "0 \<le> l" "r < int (length v)" "\<forall>k. l \<le> int k \<and> int k \<le> r \<longrightarrow> P (v ! k)" "l \<le> int j" "int j \<le> r"
  shows "P (w ! j)"
proof -
  let ?L = "nat l" and ?R = "nat (r + 1)"
  have len: "length w = length v" by (rule rearranged_length [OF assms(1)])
  have LR: "?L \<le> ?R" "?R \<le> length v" using assms by auto
  have cut: "u = take ?L u @ take (?R - ?L) (drop ?L u) @ drop ?R u" for u :: "'a list"
    using LR by (metis append_take_drop_id drop_drop le_add_diff_inverse2)
  have "take ?L w = take ?L v" using assms(1-3,5,6) len by (intro nth_equalityI) (auto simp: rearranged_def)
  moreover have "drop ?R w = drop ?R v" using assms(1,3) len LR by (intro nth_equalityI) (auto simp: rearranged_def)
  moreover have "mset w = mset v" using assms(1) by (simp add: rearranged_def)
  ultimately have "mset (take (?R - ?L) (drop ?L w)) = mset (take (?R - ?L) (drop ?L v))"
    using arg_cong [OF cut [of w], of mset] arg_cong [OF cut [of v], of mset] by simp
  then have s: "set (take (?R - ?L) (drop ?L w)) = set (take (?R - ?L) (drop ?L v))" by (metis set_mset_mset)
  have "j - ?L < length (take (?R - ?L) (drop ?L w))" using assms(3,5,6) len LR by auto
  then have "take (?R - ?L) (drop ?L w) ! (j - ?L) \<in> set (take (?R - ?L) (drop ?L w))" by (rule nth_mem)
  then have "w ! j \<in> set (take (?R - ?L) (drop ?L v))" unfolding s [symmetric] using assms(3,5,6) len by simp
  then obtain i where "i < ?R - ?L" "i < length v - ?L" "w ! j = v ! (?L + i)" by (auto simp: in_set_conv_nth)
  then show ?thesis using assms(2,4) by auto
qed

lemma doSwap_fine:
  assumes "0 \<le> l" "r < int (length v)" "l \<le> i" "i \<le> r" "l \<le> j" "j \<le> r"
  shows "doSwap i j v = Sorted (v[nat i := v ! nat j, nat j := v ! nat i]) \<and> rearranged l r v (v[nat i := v ! nat j, nat j := v ! nat i])"
proof -
  have ij: "nat i < length v" "nat j < length v" using assms by linarith+
  have "mset (v[nat i := v ! nat j, nat j := v ! nat i]) = mset v" by (rule mset_swap [OF ij(2,1)])
  moreover have "nat i \<noteq> k" "nat j \<noteq> k" if "int k < l \<or> r < int k" for k using that assms by linarith+
  ultimately show ?thesis using assms by (simp add: doSwap_def rearranged_def)
qed

lemma partition_loop_fine:
  fixes compar :: "('a, 's, 'e) compar"
  shows "0 \<le> left \<Longrightarrow> left \<le> lst \<Longrightarrow> lst < i \<Longrightarrow> i \<le> right + 1 \<Longrightarrow> right < int (length v) \<Longrightarrow>
    fine (\<lambda>(lst', v', s'). left \<le> lst' \<and> lst' \<le> right \<and> rearranged (left + 1) right v v') (partition_loop compar left right i lst v s)"
proof (induction compar left right i lst v s rule: partition_loop.induct)
  case (1 compar left right i lst v s)
  show ?case
  proof (cases "i \<le> right")
    case True
    have step: "partition_loop compar left right i lst v s =
        and_sorted (compare_at compar i left v s) (\<lambda>(c, s).
          if c < 0 then
            and_sorted (doSwap (lst + 1) i v) (\<lambda>v. partition_loop compar left right (i + 1) (lst + 1) v s)
          else partition_loop compar left right (i + 1) lst v s)"
      using True by (subst partition_loop.simps) simp
    have sw: "doSwap (lst + 1) i v = Sorted (v[nat (lst + 1) := v ! nat i, nat i := v ! nat (lst + 1)])"
      "rearranged (left + 1) right v (v[nat (lst + 1) := v ! nat i, nat i := v ! nat (lst + 1)])"
      using doSwap_fine [of "left + 1" right v "lst + 1" i] 1(3-7) True by auto
    show ?thesis
    proof (cases "compare_at compar i left v s")
      case (Sorted r)
      obtain c s1 where r: "r = (c, s1)" by (cases r)
      show ?thesis
      proof (cases "c < 0")
        case neg: True
        let ?w = "v[nat (lst + 1) := v ! nat i, nat i := v ! nat (lst + 1)]"
        have "fine (\<lambda>(lst', v', s'). left \<le> lst' \<and> lst' \<le> right \<and> rearranged (left + 1) right ?w v')
            (partition_loop compar left right (i + 1) (lst + 1) ?w s1)"
          using 1(1) [OF True Sorted r [symmetric] neg sw(1)] 1(3-7) True by simp
        then show ?thesis
          unfolding step Sorted r and_sorted.simps prod.case if_P [OF neg] sw(1)
          by (rule fine_weaken) (use rearranged_trans [OF sw(2)] in auto)
      next
        case False
        then show ?thesis unfolding step Sorted r and_sorted.simps prod.case if_not_P [OF False]
          using 1(2) [OF True Sorted r [symmetric] False] 1(3-7) True by simp
      qed
    next
      case Raised
      then show ?thesis by (simp add: step)
    next
      case Out_of_bounds
      then show ?thesis using 1(3-7) True by (simp add: compare_at_def split: if_splits sum.splits)
    qed
  next
    case False
    then show ?thesis using 1(3-7) by (simp add: partition_loop.simps [of compar left right i])
  qed
qed

lemma qSort_fine:
  fixes compar :: "('a, 's, 'e) compar"
  shows "right < int (length v) \<Longrightarrow> fine (\<lambda>(v', s'). rearranged left right v v') (qSort compar left right rightmost v s)"
proof (induction compar left right rightmost v s rule: qSort.induct)
  case (1 compar left right rightmost v s)
  show ?case
  proof (cases "left \<ge> right \<or> left < 0 \<or> right > rightmost \<or> right < 0")
    case True
    then show ?thesis by (simp add: qSort.simps)
  next
    case False
    then have lr: "0 \<le> left" "left < right" by auto
    let ?v1 = "v[nat left := v ! nat ((left + right) div 2), nat ((left + right) div 2) := v ! nat left]"
    have m: "left \<le> (left + right) div 2" "(left + right) div 2 \<le> right" using lr by auto
    have s1: "doSwap left ((left + right) div 2) v = Sorted ?v1" "rearranged left right v ?v1"
      using doSwap_fine [of left right v left "(left + right) div 2"] 1(3) lr m by auto
    have len1: "length ?v1 = length v" by simp
    have p: "fine (\<lambda>(lst, v2, s2). left \<le> lst \<and> lst \<le> right \<and> rearranged (left + 1) right ?v1 v2)
        (partition_loop compar left right (left + 1) left ?v1 s)"
      using partition_loop_fine [of left left "left + 1" right ?v1 compar s] lr 1(3) by simp
    have step: "qSort compar left right rightmost v s =
        and_sorted (partition_loop compar left right (left + 1) left ?v1 s) (\<lambda>(lst, v, s).
        and_sorted (doSwap left lst v) (\<lambda>v.
        and_sorted (qSort compar left (lst - 1) rightmost v s) (\<lambda>(v, s).
        qSort compar (lst + 1) right rightmost v s)))"
      by (subst qSort.simps) (simp only: if_not_P [OF False] s1(1) and_sorted.simps)
    show ?thesis
    proof (cases "partition_loop compar left right (left + 1) left ?v1 s")
      case (Sorted x)
      obtain lst v2 s2 where x: "x = (lst, v2, s2)" by (cases x)
      with p Sorted have a: "left \<le> lst" "lst \<le> right" "rearranged (left + 1) right ?v1 v2" by simp_all
      have len2: "length v2 = length v" using rearranged_length [OF a(3)] by simp
      let ?v3 = "v2[nat left := v2 ! nat lst, nat lst := v2 ! nat left]"
      have s3: "doSwap left lst v2 = Sorted ?v3" "rearranged left right v2 ?v3"
        using doSwap_fine [of left right v2 left lst] 1(3) lr a len2 by auto
      have r3: "rearranged left right v ?v3"
        using rearranged_trans [OF rearranged_trans [OF s1(2) a(3)] s3(2)] lr by simp
      have q1: "fine (\<lambda>(v', s'). rearranged left (lst - 1) ?v3 v') (qSort compar left (lst - 1) rightmost ?v3 s2)"
        using 1(1) [OF False s1(1) Sorted x [symmetric] refl s3(1)] 1(3) a(2) len2 by simp
      show ?thesis
      proof (cases "qSort compar left (lst - 1) rightmost ?v3 s2")
        case q: (Sorted y)
        obtain v4 s4 where y: "y = (v4, s4)" by (cases y)
        have r4: "rearranged left (lst - 1) ?v3 v4" using q1 q y by simp
        have r4': "rearranged left right v v4" using rearranged_trans [OF r3 r4] a by simp
        have len4: "length v4 = length v" by (rule rearranged_length [OF r4'])
        have "fine (\<lambda>(v', s'). rearranged (lst + 1) right v4 v') (qSort compar (lst + 1) right rightmost v4 s4)"
          using 1(2) [OF False s1(1) Sorted x [symmetric] refl s3(1) q y [symmetric]] 1(3) len4 by simp
        then show ?thesis
          unfolding step Sorted x y q and_sorted.simps prod.case s3(1)
          by (rule fine_weaken) (use rearranged_trans [OF r4'] a in auto)
      qed (use q1 in \<open>simp_all add: step Sorted x s3(1)\<close>)
    qed (use p in \<open>simp_all add: step\<close>)
  qed
qed

text \<open>A pass without an error has compared every element with the pivot.\<close>

lemma partition_loop_compares:
  fixes compar :: "('a, 's, 'e) compar"
  shows "partition_loop compar left right i lst v s = Sorted r \<Longrightarrow> 0 \<le> left \<Longrightarrow> left \<le> lst \<Longrightarrow> lst < i \<Longrightarrow> right < int (length v)
    \<Longrightarrow> i \<le> int k \<Longrightarrow> int k \<le> right \<Longrightarrow> \<exists>s' c. compar (v ! k) (v ! nat left) s' = Inr c"
proof (induction compar left right i lst v s rule: partition_loop.induct)
  case (1 compar left right i lst v s)
  have ir: "i \<le> right" using 1(8,9) by simp
  obtain c s1 where c: "compare_at compar i left v s = Sorted (c, s1)"
    using 1(3) ir by (auto simp: partition_loop.simps [of compar left right i])
  then have here: "compar (v ! nat i) (v ! nat left) s = Inr (c, s1)" by (auto simp: compare_at_def split: if_splits sum.splits)
  show ?case
  proof (cases "int k = i")
    case True
    then have "nat i = k" by simp
    with here show ?thesis by (intro exI [of _ s] exI [of _ "(c, s1)"]) simp
  next
    case k: False
    show ?thesis
    proof (cases "c < 0")
      case True
      let ?w = "v[nat (lst + 1) := v ! nat i, nat i := v ! nat (lst + 1)]"
      have sw: "(doSwap (lst + 1) i v :: ('e, 'a list) sort_result) = Sorted ?w"
        using doSwap_fine [of "left + 1" right v "lst + 1" i] 1(4-9) ir by auto
      have r: "partition_loop compar left right (i + 1) (lst + 1) ?w s1 = Sorted r"
        using 1(3) ir c True sw by (simp add: partition_loop.simps [of compar left right i])
      have same: "?w ! k = v ! k" "?w ! nat left = v ! nat left" using k 1(4-9) ir by (auto simp: nth_list_update)
      show ?thesis using 1(1) [OF ir c refl True sw r] 1(4-9) k unfolding same by simp
    next
      case False
      have r: "partition_loop compar left right (i + 1) lst v s1 = Sorted r"
        using 1(3) ir c False by (simp add: partition_loop.simps [of compar left right i])
      show ?thesis using 1(2) [OF ir c refl False r] 1(4-9) k by simp
    qed
  qed
qed

lemma quickSort_compares:
  fixes compar :: "('a, 's, 'e) compar"
  assumes "quickSort compar a s = Sorted r" "2 \<le> length a"
  shows "\<exists>v. set v = set a \<and> length v = length a \<and> (\<forall>k. 0 < k \<and> k < length a \<longrightarrow> (\<exists>s' c. compar (v ! k) (v ! 0) s' = Inr c))"
proof -
  have ne: "a \<noteq> []" using assms(2) by (cases a) simp_all
  have m: "0 \<le> (int (length a) - 1) div 2" "(int (length a) - 1) div 2 \<le> int (length a) - 1" using assms(2) by auto
  let ?m = "(int (length a) - 1) div 2" and ?R = "int (length a) - 1"
  let ?v = "a[nat 0 := a ! nat ?m, nat ?m := a ! nat 0]"
  have sw: "(doSwap 0 ?m a :: ('e, 'a list) sort_result) = Sorted ?v" "rearranged 0 ?R a ?v"
    using doSwap_fine [of 0 ?R a 0 ?m] assms(2) m by auto
  have "quickSort compar a s = qSort compar 0 ?R ?R a s" using assms(2) by (simp add: quickSort_def Let_def)
  also have "\<dots> = and_sorted (partition_loop compar 0 ?R 1 0 ?v s) (\<lambda>(lst, v, s).
      and_sorted (doSwap 0 lst v) (\<lambda>v. and_sorted (qSort compar 0 (lst - 1) ?R v s) (\<lambda>(v, s). qSort compar (lst + 1) ?R ?R v s)))"
    using assms(2) sw(1) ne by (subst qSort.simps) simp
  finally have eq: "quickSort compar a s = \<dots>" .
  obtain q where q: "partition_loop compar 0 ?R 1 0 ?v s = Sorted q" using assms(1) unfolding eq and_sorted_eq by blast
  have "\<exists>s' c. compar (?v ! k) (?v ! 0) s' = Inr c" if "0 < k" "k < length a" for k
    using partition_loop_compares [OF q, of k] that by simp
  then show ?thesis using rearranged_set [OF sw(2)] by (intro exI [of _ ?v]) simp
qed

lemma quickSort_safe: "fine (\<lambda>(v, s'). mset v = mset a) (quickSort compar a s)"
proof (cases "length a < 2")
  case True
  then show ?thesis by (simp add: quickSort_def)
next
  case False
  then have "quickSort compar a s = qSort compar 0 (int (length a) - 1) (int (length a) - 1) a s" by (simp add: quickSort_def Let_def)
  with qSort_fine [of "int (length a) - 1" a 0 compar "int (length a) - 1" s] show ?thesis
    by (auto simp: rearranged_def elim: fine_weaken)
qed

text \<open>C22. Whatever the comparison function answers, and even if its answers change from call to
  call, \<open>quickSort\<close> returns, never touches memory outside the array, and what it returns is a
  permutation of the array; the only other outcome is an error raised by the comparison.\<close>

theorem quickSort_permutes:
  "case quickSort compar a s of Sorted (v, s') \<Rightarrow> mset v = mset a | Raised e \<Rightarrow> True | Out_of_bounds \<Rightarrow> False"
  using quickSort_safe [of a compar s] by (auto split: sort_result.split)

section \<open>A consistent comparison\<close>

text \<open>
  What a comparison promises on the values of the set \<open>S\<close>: it answers without an error, by a
  strict weak order, and leaves the state alone.
\<close>

locale comparison =
  fixes compar :: "('a, 's, 'e) compar" and less :: "'a \<Rightarrow> 'a \<Rightarrow> bool" and S :: "'a set"
  assumes answers: "a \<in> S \<Longrightarrow> b \<in> S \<Longrightarrow> \<exists>c. compar a b s = Inr (c, s) \<and> (c < 0 \<longleftrightarrow> less a b)"
    and less_asym: "a \<in> S \<Longrightarrow> b \<in> S \<Longrightarrow> less a b \<Longrightarrow> \<not> less b a"
    and not_less_trans: "a \<in> S \<Longrightarrow> b \<in> S \<Longrightarrow> c \<in> S \<Longrightarrow> \<not> less b a \<Longrightarrow> \<not> less c b \<Longrightarrow> \<not> less c a"
begin

lemma compare_at_answers:
  assumes "set v \<subseteq> S" "0 \<le> i" "i < int (length v)" "0 \<le> j" "j < int (length v)"
  shows "\<exists>c. compare_at compar i j v s = Sorted (c, s) \<and> (c < 0 \<longleftrightarrow> less (v ! nat i) (v ! nat j))"
proof -
  have "v ! nat i \<in> S" "v ! nat j \<in> S" using assms by (auto simp: subset_iff)
  from answers [OF this, of s] show ?thesis using assms by (auto simp: compare_at_def)
qed

lemma partition_loop_splits:
  "set v \<subseteq> S \<Longrightarrow> 0 \<le> left \<Longrightarrow> left \<le> lst \<Longrightarrow> lst < i \<Longrightarrow> i \<le> right + 1 \<Longrightarrow> right < int (length v) \<Longrightarrow>
    (\<forall>k. left < int k \<and> int k \<le> lst \<longrightarrow> less (v ! k) (v ! nat left)) \<Longrightarrow>
    (\<forall>k. lst < int k \<and> int k < i \<longrightarrow> \<not> less (v ! k) (v ! nat left)) \<Longrightarrow>
    \<exists>lst' v'. partition_loop compar left right i lst v s = Sorted (lst', v', s) \<and> v' ! nat left = v ! nat left
      \<and> (\<forall>k. left < int k \<and> int k \<le> lst' \<longrightarrow> less (v' ! k) (v' ! nat left))
      \<and> (\<forall>k. lst' < int k \<and> int k \<le> right \<longrightarrow> \<not> less (v' ! k) (v' ! nat left))"
proof (induction "nat (right + 1 - i)" arbitrary: i lst v)
  case 0
  then have "\<not> i \<le> right" by simp
  with 0 show ?case by (simp add: partition_loop.simps [of compar left right i]) 
next
  case (Suc n)
  then have ir: "i \<le> right" by simp
  from compare_at_answers [of v i left s] Suc.prems ir obtain c where
    c: "compare_at compar i left v s = Sorted (c, s)" "c < 0 \<longleftrightarrow> less (v ! nat i) (v ! nat left)" by auto
  show ?case
  proof (cases "c < 0")
    case True
    let ?w = "v[nat (lst + 1) := v ! nat i, nat i := v ! nat (lst + 1)]"
    have sw: "(doSwap (lst + 1) i v :: ('e, 'a list) sort_result) = Sorted ?w" "rearranged (left + 1) right v ?w"
      using doSwap_fine [of "left + 1" right v "lst + 1" i] Suc.prems ir by auto
    have step: "partition_loop compar left right i lst v s = partition_loop compar left right (i + 1) (lst + 1) ?w s"
      using ir c True sw(1) by (subst partition_loop.simps) simp
    have wl: "?w ! nat left = v ! nat left" by (rule rearranged_nth [OF sw(2)]) (use Suc.prems in auto)
    have wk: "?w ! k = (if int k = i then v ! nat (lst + 1) else if int k = lst + 1 then v ! nat i else v ! k)" if "int k \<le> right" for k
      using Suc.prems that ir by (auto simp: nth_list_update)
    have "set ?w \<subseteq> S" using rearranged_set [OF sw(2)] Suc.prems(1) by simp
    moreover have "\<forall>k. left < int k \<and> int k \<le> lst + 1 \<longrightarrow> less (?w ! k) (?w ! nat left)"
      using Suc.prems ir c True wk wl by (auto)
    moreover have "\<forall>k. lst + 1 < int k \<and> int k < i + 1 \<longrightarrow> \<not> less (?w ! k) (?w ! nat left)"
    proof (intro allI impI)
      fix k assume k: "lst + 1 < int k \<and> int k < i + 1"
      show "\<not> less (?w ! k) (?w ! nat left)"
      proof (cases "int k = i")
        case True
        have "lst < int (nat (lst + 1)) \<and> int (nat (lst + 1)) < i" using k True Suc.prems by auto
        then show ?thesis using Suc.prems(8) wk [of k] wl True ir by auto
      next
        case False
        then show ?thesis using Suc.prems(8) wk [of k] wl k ir by auto
      qed
    qed
    ultimately show ?thesis
      unfolding step wl [symmetric] using Suc.hyps(1) [of "i + 1" ?w "lst + 1"] Suc.hyps(2) Suc.prems ir by simp
  next
    case False
    have step: "partition_loop compar left right i lst v s = partition_loop compar left right (i + 1) lst v s"
      using ir c False by (subst partition_loop.simps) simp
    have "\<forall>k. lst < int k \<and> int k < i + 1 \<longrightarrow> \<not> less (v ! k) (v ! nat left)"
    proof (intro allI impI)
      fix k assume k: "lst < int k \<and> int k < i + 1"
      show "\<not> less (v ! k) (v ! nat left)"
        using Suc.prems(8) k c(2) False by (cases "int k = i") auto
    qed
    then show ?thesis unfolding step using Suc.hyps(1) [of "i + 1" v lst] Suc.hyps(2) Suc.prems ir by simp
  qed
qed

lemma partition_splits:
  assumes "set v \<subseteq> S" "0 \<le> left" "left < right" "right < int (length v)"
  shows "\<exists>lst v'. partition_loop compar left right (left + 1) left v s = Sorted (lst, v', s) \<and> left \<le> lst \<and> lst \<le> right
      \<and> rearranged (left + 1) right v v' \<and> (\<forall>k. left < int k \<and> int k \<le> lst \<longrightarrow> less (v' ! k) (v' ! nat left))
      \<and> (\<forall>k. lst < int k \<and> int k \<le> right \<longrightarrow> \<not> less (v' ! k) (v' ! nat left))"
proof -
  have 1: "\<forall>k. left < int k \<and> int k \<le> left \<longrightarrow> less (v ! k) (v ! nat left)"
    "\<forall>k. left < int k \<and> int k < left + 1 \<longrightarrow> \<not> less (v ! k) (v ! nat left)" by auto
  have "left \<le> left" "left < left + 1" "left + 1 \<le> right + 1" using assms(3) by simp_all
  from partition_loop_splits [OF assms(1,2) this assms(4) 1, of s] partition_loop_fine [OF assms(2) this assms(4), of compar s]
  show ?thesis by auto
qed

definition in_order :: "int \<Rightarrow> int \<Rightarrow> 'a list \<Rightarrow> bool" where
  "in_order l r w \<longleftrightarrow> (\<forall>j k. l \<le> int j \<and> j \<le> k \<and> int k \<le> r \<longrightarrow> \<not> less (w ! k) (w ! j))"

lemma in_order_join:
  assumes "l \<le> m" "m \<le> r" and S: "\<And>k. int k \<le> r \<Longrightarrow> v ! k \<in> S"
    and low: "\<And>k. l \<le> int k \<Longrightarrow> int k \<le> m - 1 \<Longrightarrow> less (v ! k) p" "in_order l (m - 1) v"
    and piv: "0 \<le> m" "v ! nat m = p"
    and high: "\<And>k. m + 1 \<le> int k \<Longrightarrow> int k \<le> r \<Longrightarrow> \<not> less (v ! k) p" "in_order (m + 1) r v"
  shows "in_order l r v"
  unfolding in_order_def
proof (intro allI impI)
  fix j k assume jk: "l \<le> int j \<and> j \<le> k \<and> int k \<le> r"
  have pS: "p \<in> S" using S [of "nat m"] piv assms(2) by simp
  have ps: "\<not> less p p" using less_asym [OF pS pS] by blast
  have jp: "\<not> less p (v ! j)" if "int j \<le> m"
  proof (cases "int j = m")
    case True
    then show ?thesis using piv ps by auto
  next
    case False
    then show ?thesis using low(1) [of j] less_asym [OF S pS, of j] that jk by simp
  qed
  have kp: "\<not> less (v ! k) p" if "m \<le> int k"
    using high(1) [of k] piv ps that jk by (cases "int k = m") auto
  consider "int k \<le> m - 1" | "int j \<le> m" "m \<le> int k" | "m + 1 \<le> int j" by linarith
  then show "\<not> less (v ! k) (v ! j)"
  proof cases
    case 1
    then show ?thesis using low(2) jk by (simp add: in_order_def)
  next
    case 2
    from not_less_trans [OF S pS S jp [OF 2(1)] kp [OF 2(2)]] show ?thesis using jk by simp
  next
    case 3
    then show ?thesis using high(2) jk by (simp add: in_order_def)
  qed
qed

lemma qSort_sorts:
  fixes s :: 's
  shows "set v \<subseteq> S \<Longrightarrow> 0 \<le> left \<Longrightarrow> right < int (length v) \<Longrightarrow> right \<le> rightmost \<Longrightarrow>
    \<exists>w. qSort compar left right rightmost v s = Sorted (w, s) \<and> in_order left right w"
proof (induction "nat (right + 1 - left)" arbitrary: left right v rule: less_induct)
  case less
  show ?case
  proof (cases "left \<ge> right \<or> left < 0 \<or> right > rightmost \<or> right < 0")
    case True
    have "\<not> less (v ! k) (v ! j)" if "left \<le> int j" "j \<le> k" "int k \<le> right" for j k
    proof -
      have "j = k" "k < length v" using that True less.prems by auto
      then show ?thesis using less.prems(1) less_asym [of "v ! k" "v ! k"] by (auto simp: subset_iff)
    qed
    with True show ?thesis by (simp add: qSort.simps in_order_def)
  next
    case False
    then have lr: "0 \<le> left" "left < right" by auto
    let ?v1 = "v[nat left := v ! nat ((left + right) div 2), nat ((left + right) div 2) := v ! nat left]"
    have m: "left \<le> (left + right) div 2" "(left + right) div 2 \<le> right" using lr by auto
    have s1: "(doSwap left ((left + right) div 2) v :: ('e, 'a list) sort_result) = Sorted ?v1" "rearranged left right v ?v1"
      using doSwap_fine [of left right v left "(left + right) div 2"] less.prems(3) lr m by auto
    have "set ?v1 \<subseteq> S" using rearranged_set [OF s1(2)] less.prems(1) by simp
    from partition_splits [OF this, of left right s] lr less.prems(3) obtain lst v2 where
      p: "partition_loop compar left right (left + 1) left ?v1 s = Sorted (lst, v2, s)"
         "\<forall>k. left < int k \<and> int k \<le> lst \<longrightarrow> less (v2 ! k) (v2 ! nat left)"
         "\<forall>k. lst < int k \<and> int k \<le> right \<longrightarrow> \<not> less (v2 ! k) (v2 ! nat left)"
      and a: "left \<le> lst" "lst \<le> right" "rearranged (left + 1) right ?v1 v2" by auto
    have len2: "length v2 = length v" using rearranged_length [OF a(3)] by simp
    let ?v3 = "v2[nat left := v2 ! nat lst, nat lst := v2 ! nat left]"
    have s3: "(doSwap left lst v2 :: ('e, 'a list) sort_result) = Sorted ?v3" "rearranged left right v2 ?v3"
      using doSwap_fine [of left right v2 left lst] less.prems(3) lr a len2 by auto
    have step: "qSort compar left right rightmost v s =
        and_sorted (qSort compar left (lst - 1) rightmost ?v3 s) (\<lambda>(v, s). qSort compar (lst + 1) right rightmost v s)"
      by (subst qSort.simps) (simp only: if_not_P [OF False] s1(1) and_sorted.simps p(1) prod.case s3(1))
    have r3: "rearranged left right v ?v3"
      using rearranged_trans [OF rearranged_trans [OF s1(2) a(3)] s3(2)] lr by simp
    have S3: "set ?v3 \<subseteq> S" "length ?v3 = length v" using rearranged_set [OF r3] rearranged_length [OF r3] less.prems(1) by simp_all
    let ?p = "v2 ! nat left"
    have piv: "?v3 ! nat lst = ?p" using a lr less.prems(3) len2 by (simp add: nth_list_update)
    have low: "\<forall>k. left \<le> int k \<and> int k \<le> lst - 1 \<longrightarrow> less (?v3 ! k) ?p"
      using p(2) a lr less.prems(3) len2 by (auto simp: nth_list_update)
    have high: "\<forall>k. lst + 1 \<le> int k \<and> int k \<le> right \<longrightarrow> \<not> less (?v3 ! k) ?p"
      using p(3) a lr less.prems(3) len2 by (auto simp: nth_list_update)
    from less.hyps [of "lst - 1" left ?v3] S3 a lr less.prems obtain v4 where
      q4: "qSort compar left (lst - 1) rightmost ?v3 s = Sorted (v4, s)" "in_order left (lst - 1) v4" by auto
    from qSort_fine [of "lst - 1" ?v3 left compar rightmost s] q4(1) a less.prems(3) len2
    have r4: "rearranged left (lst - 1) ?v3 v4" by simp
    have S4: "set v4 \<subseteq> S" "length v4 = length v" using rearranged_set [OF r4] rearranged_length [OF r4] S3 by simp_all
    from less.hyps [of right "lst + 1" v4] S4 a lr less.prems obtain v5 where
      q5: "qSort compar (lst + 1) right rightmost v4 s = Sorted (v5, s)" "in_order (lst + 1) right v5" by auto
    from qSort_fine [of right v4 "lst + 1" compar rightmost s] q5(1) less.prems(3) S4(2)
    have r5: "rearranged (lst + 1) right v4 v5" by simp
    have S5: "set v5 \<subseteq> S" "length v5 = length v" using rearranged_set [OF r5] rearranged_length [OF r5] S4 by simp_all
    have inS: "v5 ! k \<in> S" if "int k \<le> right" for k using S5 that less.prems(3) by (auto simp: subset_iff)
    have v5_low: "v5 ! k = v4 ! k" if "int k \<le> lst" for k using rearranged_nth [OF r5, of k] that a less.prems(3) S4(2) by auto
    have low5: "less (v5 ! k) ?p" if "left \<le> int k" "int k \<le> lst - 1" for k
      using rearranged_all [OF r4, of "\<lambda>x. less x ?p" k] low that a lr less.prems(3) S3(2) v5_low [of k] by simp
    have piv5: "v5 ! nat lst = ?p"
      using v5_low [of "nat lst"] rearranged_nth [OF r4, of "nat lst"] piv a lr less.prems(3) len2 by simp
    have high4: "\<not> less (v4 ! k) ?p" if "lst + 1 \<le> int k" "int k \<le> right" for k
      using rearranged_nth [OF r4, of k] high that a less.prems(3) len2 by auto
    have high5: "\<not> less (v5 ! k) ?p" if "lst + 1 \<le> int k" "int k \<le> right" for k
      using rearranged_all [OF r5, of "\<lambda>x. \<not> less x ?p" k] high4 that a lr less.prems(3) S4(2) by simp
    have "in_order left right v5"
    proof (rule in_order_join)
      show "in_order left (lst - 1) v5" using q4(2) v5_low by (simp add: in_order_def)
    qed (use a lr inS low5 piv5 high5 q5(2) in auto)
    moreover have "qSort compar left right rightmost v s = Sorted (v5, s)" by (simp add: step q4(1) q5(1))
    ultimately show ?thesis by blast
  qed
qed

lemma quickSort_sorts:
  assumes "set a \<subseteq> S"
  shows "\<exists>w. quickSort compar a s = Sorted (w, s) \<and> mset w = mset a \<and> sorted_wrt (\<lambda>x y. \<not> less y x) w"
proof (cases "length a < 2")
  case True
  then have "sorted_wrt (\<lambda>x y. \<not> less y x) a" by (cases a) auto
  with True show ?thesis by (simp add: quickSort_def)
next
  case False
  then have q: "quickSort compar a s = qSort compar 0 (int (length a) - 1) (int (length a) - 1) a s" by (simp add: quickSort_def Let_def)
  from qSort_sorts [OF assms, of 0 "int (length a) - 1" "int (length a) - 1" s] obtain w where
    w: "qSort compar 0 (int (length a) - 1) (int (length a) - 1) a s = Sorted (w, s)" "in_order 0 (int (length a) - 1) w" by auto
  from qSort_fine [of "int (length a) - 1" a 0 compar "int (length a) - 1" s] w(1)
  have r: "rearranged 0 (int (length a) - 1) a w" by simp
  have "sorted_wrt (\<lambda>x y. \<not> less y x) w"
    using w(2) rearranged_length [OF r] by (auto simp: sorted_wrt_iff_nth_less in_order_def)
  moreover have "mset w = mset a" using r by (simp add: rearranged_def)
  ultimately show ?thesis using q w(1) by simp
qed

end

end
