(* ===== verification/Sort_Array.thy ===== *)
theory Sort_Array
  imports Quick_Sort Save_Restore "HOL-Library.List_Lexorder"
begin

text \<open>
  The efun \<open>sort_array\<close> (\<open>array.c\<close>): the built-in comparisons of numbers, strings, floats and
  arrays by their first element, and the comparison by an LPC callback, run by the quicksort of
  \<open>qsort.c\<close>. The order of floats is the argument \<open>lt\<close>.
\<close>

section \<open>Comparisons\<close>

datatype sort_error = Empty_inner_array | Bad_first_elements | Not_homogeneous

text \<open>\<open>strcmp\<close> of the C library; the end of the list is the terminating zero.\<close>

fun strcmp :: "string \<Rightarrow> string \<Rightarrow> int" where
  "strcmp [] [] = 0"
| "strcmp [] (d # t) = - of_char d"
| "strcmp (c # s) [] = of_char c"
| "strcmp (c # s) (d # t) = (if c \<noteq> d then of_char c - of_char d else if c = NUL then 0 else strcmp s t)"

definition COMPARE_NUMS :: "('a \<Rightarrow> 'a \<Rightarrow> bool) \<Rightarrow> 'a \<Rightarrow> 'a \<Rightarrow> int" where
  "COMPARE_NUMS lt x y = (if lt x y then -1 else if lt y x then 1 else 0)"

text \<open>The inner switch, on the first elements of two arrays, and the outer one.\<close>

fun compare_firsts :: "('r \<Rightarrow> 'r \<Rightarrow> bool) \<Rightarrow> 'r lpc \<Rightarrow> 'r lpc \<Rightarrow> sort_error + int" where
  "compare_firsts lt (Str a) (Str b) = Inr (strcmp a b)"
| "compare_firsts lt (Num a) (Num b) = Inr (COMPARE_NUMS word_sless a b)"
| "compare_firsts lt (Real a) (Real b) = Inr (COMPARE_NUMS lt a b)"
| "compare_firsts lt _ _ = Inl Bad_first_elements"

fun compare_values :: "('r \<Rightarrow> 'r \<Rightarrow> bool) \<Rightarrow> 'r lpc \<Rightarrow> 'r lpc \<Rightarrow> sort_error + int" where
  "compare_values lt (Str a) (Str b) = Inr (strcmp a b)"
| "compare_values lt (Num a) (Num b) = Inr (COMPARE_NUMS word_sless a b)"
| "compare_values lt (Real a) (Real b) = Inr (COMPARE_NUMS lt a b)"
| "compare_values lt (Arr v1) (Arr v2) =
     (if v1 = [] \<or> v2 = [] then Inl Empty_inner_array else compare_firsts lt (hd v1) (hd v2))"
| "compare_values lt _ _ = Inl Not_homogeneous"

definition with_state :: "('e + int) \<Rightarrow> 's \<Rightarrow> 'e + int \<times> 's" where
  "with_state r s = map_sum id (\<lambda>c. (c, s)) r"

definition builtin_sort_array_cmp_fwd :: "('r \<Rightarrow> 'r \<Rightarrow> bool) \<Rightarrow> ('r lpc, 's, sort_error) compar" where
  "builtin_sort_array_cmp_fwd lt p1 p2 s = with_state (compare_values lt p1 p2) s"

definition builtin_sort_array_cmp_rev :: "('r \<Rightarrow> 'r \<Rightarrow> bool) \<Rightarrow> ('r lpc, 's, sort_error) compar" where
  "builtin_sort_array_cmp_rev lt p1 p2 s = with_state (compare_values lt p2 p1) s"

definition builtin_sort_array ::
  "('r \<Rightarrow> 'r \<Rightarrow> bool) \<Rightarrow> 'r lpc list \<Rightarrow> int \<Rightarrow> 's \<Rightarrow> (sort_error, 'r lpc list \<times> 's) sort_result" where
  "builtin_sort_array lt inlist dir s =
     quickSort (if dir < 0 then builtin_sort_array_cmp_rev lt else builtin_sort_array_cmp_fwd lt) inlist s"

text \<open>The callback gives no value when the function called is not there.\<close>

definition sort_array_cmp ::
  "('r lpc \<Rightarrow> 'r lpc \<Rightarrow> 's \<Rightarrow> 'e + 'r lpc option \<times> 's) \<Rightarrow> ('r lpc, 's, 'e) compar" where
  "sort_array_cmp callback p1 p2 s =
     (case callback p1 p2 s of
        Inl e \<Rightarrow> Inl e
      | Inr (d, s) \<Rightarrow> Inr (case d of Some (Num n) \<Rightarrow> (sint n, s) | _ \<Rightarrow> (0, s)))"

text \<open>\<open>f_sort_array\<close> with a function: a copy of the array is sorted.\<close>

definition sort_with_callback ::
  "('r lpc \<Rightarrow> 'r lpc \<Rightarrow> 's \<Rightarrow> 'e + 'r lpc option \<times> 's) \<Rightarrow> 'r lpc list \<Rightarrow> 's \<Rightarrow> ('e, 'r lpc list \<times> 's) sort_result" where
  "sort_with_callback callback tmp s = quickSort (sort_array_cmp callback) tmp s"

section \<open>The order of the built-in comparison\<close>

definition text_key :: "string \<Rightarrow> nat list" where
  "text_key s = map of_char (takeWhile (\<lambda>c. c \<noteq> NUL) s)"

lemma int_of_char: "(of_char c :: int) = int (of_char c)"
  by (rule of_nat_of_char [symmetric])

lemma of_char_zero: "(of_char c :: nat) = 0 \<longleftrightarrow> c = NUL"
  using of_char_eq_iff [where ?'a = nat, of c NUL] by simp

lemma of_char_pos: "c \<noteq> NUL \<Longrightarrow> 0 < (of_char c :: nat)"
  using of_char_zero [of c] by simp

lemma strcmp_less: "strcmp a b < 0 \<longleftrightarrow> text_key a < text_key b"
proof (induction a b rule: strcmp.induct)
  case (4 c s d t)
  then show ?case by (auto simp: text_key_def int_of_char of_char_zero of_char_pos)
qed (auto simp: text_key_def int_of_char of_char_zero of_char_pos)

text \<open>What the elements are compared by: numbers by value, strings by their text, arrays by their first element.\<close>

datatype sort_kind = Numbers | Strings | Floats

fun basic_kind :: "'r lpc \<Rightarrow> sort_kind option" where
  "basic_kind (Num _) = Some Numbers"
| "basic_kind (Str _) = Some Strings"
| "basic_kind (Real _) = Some Floats"
| "basic_kind _ = None"

fun kind :: "'r lpc \<Rightarrow> (bool \<times> sort_kind) option" where
  "kind (Arr []) = None"
| "kind (Arr (x # xs)) = map_option (Pair True) (basic_kind x)"
| "kind x = map_option (Pair False) (basic_kind x)"

fun basic_less :: "('r \<Rightarrow> 'r \<Rightarrow> bool) \<Rightarrow> 'r lpc \<Rightarrow> 'r lpc \<Rightarrow> bool" where
  "basic_less lt (Num a) (Num b) \<longleftrightarrow> sint a < sint b"
| "basic_less lt (Str a) (Str b) \<longleftrightarrow> text_key a < text_key b"
| "basic_less lt (Real a) (Real b) \<longleftrightarrow> lt a b"
| "basic_less lt _ _ \<longleftrightarrow> False"

fun first_element :: "'r lpc \<Rightarrow> 'r lpc" where
  "first_element (Arr (x # xs)) = x"
| "first_element x = x"

definition value_less :: "('r \<Rightarrow> 'r \<Rightarrow> bool) \<Rightarrow> 'r lpc \<Rightarrow> 'r lpc \<Rightarrow> bool" where
  "value_less lt a b = basic_less lt (first_element a) (first_element b)"

definition float_order :: "('r \<Rightarrow> 'r \<Rightarrow> bool) \<Rightarrow> bool" where
  "float_order lt \<longleftrightarrow> (\<forall>a b. lt a b \<longrightarrow> \<not> lt b a) \<and> (\<forall>a b c. \<not> lt b a \<longrightarrow> \<not> lt c b \<longrightarrow> \<not> lt c a)"

lemma COMPARE_NUMS_less: "COMPARE_NUMS lt a b < 0 \<longleftrightarrow> lt a b"
  by (simp add: COMPARE_NUMS_def)

lemma compare_firsts_kind: "basic_kind a = Some k \<Longrightarrow> basic_kind b = Some k \<Longrightarrow>
    \<exists>c. compare_firsts lt a b = Inr c \<and> (c < 0 \<longleftrightarrow> basic_less lt a b)"
  by (cases a; cases b) (auto simp: strcmp_less COMPARE_NUMS_less word_sless_alt)

lemma kind_Arr: "kind (Arr v) = (if v = [] then None else map_option (Pair True) (basic_kind (hd v)))"
  by (cases v) auto

lemma first_element_Arr: "v \<noteq> [] \<Longrightarrow> first_element (Arr v) = hd v"
  by (cases v) auto

lemma compare_values_kind:
  assumes "kind a = Some k" "kind b = Some k"
  shows "\<exists>c. compare_values lt a b = Inr c \<and> (c < 0 \<longleftrightarrow> value_less lt a b)"
proof (cases "\<exists>v w. a = Arr v \<and> b = Arr w")
  case True
  then obtain v w where vw: "a = Arr v" "b = Arr w" by blast
  with assms have "v \<noteq> []" "w \<noteq> []" "basic_kind (hd v) = Some (snd k)" "basic_kind (hd w) = Some (snd k)"
    by (auto simp: kind_Arr split: if_splits)
  with compare_firsts_kind [of "hd v" "snd k" "hd w" lt] show ?thesis by (simp add: vw value_less_def first_element_Arr)
next
  case False
  with assms show ?thesis
    by (cases a; cases b) (simp_all add: strcmp_less COMPARE_NUMS_less word_sless_alt value_less_def kind_Arr split: if_splits, auto)
qed

lemma compare_firsts_answers: "compare_firsts lt a b = Inr c \<Longrightarrow> \<exists>k. basic_kind a = Some k \<and> basic_kind b = Some k"
  by (cases a; cases b) auto

lemma compare_values_answers:
  assumes "compare_values lt a b = Inr c"
  shows "\<exists>k. kind a = Some k \<and> kind b = Some k"
proof (cases "\<exists>v w. a = Arr v \<and> b = Arr w")
  case True
  then obtain v w where vw: "a = Arr v" "b = Arr w" by blast
  with assms have ne: "v \<noteq> []" "w \<noteq> []" "compare_firsts lt (hd v) (hd w) = Inr c" by (auto split: if_splits)
  from compare_firsts_answers [OF ne(3)] show ?thesis using vw ne(1,2) by (auto simp: kind_Arr)
next
  case False
  with assms show ?thesis by (cases a; cases b) auto
qed

lemma float_orderD: "float_order lt \<Longrightarrow> lt a b \<Longrightarrow> \<not> lt b a" "float_order lt \<Longrightarrow> \<not> lt b a \<Longrightarrow> \<not> lt c b \<Longrightarrow> \<not> lt c a"
  unfolding float_order_def by blast+

lemma basic_kind_cases:
  assumes "basic_kind a = Some k"
  obtains n where "k = Numbers" "a = Num n" | s where "k = Strings" "a = Str s" | r where "k = Floats" "a = Real r"
  using assms by (cases a) auto

text \<open>The values of one kind; floats only if they are in order.\<close>

definition sortable :: "('r \<Rightarrow> 'r \<Rightarrow> bool) \<Rightarrow> bool \<times> sort_kind \<Rightarrow> 'r lpc set" where
  "sortable lt k = {x. kind x = Some k \<and> (snd k = Floats \<longrightarrow> float_order lt)}"

lemma basic_less_asym:
  assumes "basic_kind a = Some k" "basic_kind b = Some k" "k = Floats \<longrightarrow> float_order lt" "basic_less lt a b"
  shows "\<not> basic_less lt b a"
  using assms(1)
proof (cases rule: basic_kind_cases)
  case (3 r)
  with assms(2) obtain r' where "b = Real r'" by (auto elim!: basic_kind_cases)
  with 3 assms(3,4) float_orderD(1) [of lt r r'] show ?thesis by simp
qed (use assms(2,4) in \<open>auto elim!: basic_kind_cases\<close>)

lemma basic_not_less_trans:
  assumes "k = Floats \<longrightarrow> float_order lt" "basic_kind a = Some k" "basic_kind b = Some k" "basic_kind c = Some k"
    "\<not> basic_less lt b a" "\<not> basic_less lt c b"
  shows "\<not> basic_less lt c a"
  using assms(2)
proof (cases rule: basic_kind_cases)
  case 1
  with assms(3-6) show ?thesis by (auto elim!: basic_kind_cases)
next
  case 2
  with assms(3-6) show ?thesis by (auto elim!: basic_kind_cases)
next
  case (3 r)
  with assms(3,4) obtain r' r'' where "b = Real r'" "c = Real r''" by (auto elim!: basic_kind_cases)
  with 3 assms(1,5,6) float_orderD(2) [of lt r' r r''] show ?thesis by simp
qed

lemma first_element_kind: "kind a = Some (d, k) \<Longrightarrow> basic_kind (first_element a) = Some k"
  by (cases a rule: kind.cases) auto

lemma sortable_first: "a \<in> sortable lt k \<Longrightarrow> basic_kind (first_element a) = Some (snd k) \<and> (snd k = Floats \<longrightarrow> float_order lt)"
  using first_element_kind [of a "fst k" "snd k"] by (simp add: sortable_def)

lemma sortable_answers:
  fixes s :: 's
  assumes "a \<in> sortable lt k" "b \<in> sortable lt k"
  shows "\<exists>c. with_state (compare_values lt a b) s = Inr (c, s) \<and> (c < 0 \<longleftrightarrow> value_less lt a b)"
  using compare_values_kind [of a k b lt] assms by (auto simp: with_state_def sortable_def)

lemma sortable_less_asym: "a \<in> sortable lt k \<Longrightarrow> b \<in> sortable lt k \<Longrightarrow> value_less lt a b \<Longrightarrow> \<not> value_less lt b a"
  using sortable_first [of a lt k] sortable_first [of b lt k] basic_less_asym by (auto simp: value_less_def)

lemma sortable_not_less_trans:
  assumes "a \<in> sortable lt k" "b \<in> sortable lt k" "c \<in> sortable lt k" "\<not> value_less lt b a" "\<not> value_less lt c b"
  shows "\<not> value_less lt c a"
  using assms sortable_first [OF assms(1)] sortable_first [OF assms(2)] sortable_first [OF assms(3)]
    basic_not_less_trans [of "snd k" lt "first_element a" "first_element b" "first_element c"]
  by (simp add: value_less_def)

interpretation fwd: comparison "builtin_sort_array_cmp_fwd lt" "value_less lt" "sortable lt k"
  by unfold_locales
    (auto simp: builtin_sort_array_cmp_fwd_def sortable_answers sortable_less_asym dest: sortable_not_less_trans)

interpretation rev: comparison "builtin_sort_array_cmp_rev lt" "\<lambda>a b. value_less lt b a" "sortable lt k"
  by unfold_locales
    (auto simp: builtin_sort_array_cmp_rev_def sortable_answers sortable_less_asym dest: sortable_not_less_trans)

section \<open>Properties\<close>

text \<open>C23. \<open>sort_array\<close> with a direction sorts an array of one kind of values: the result has the same
  elements, in ascending order for a direction that is not negative and in descending order otherwise.\<close>

theorem builtin_sort_array_sorts:
  assumes "set a \<subseteq> sortable lt k"
  shows "\<exists>w. builtin_sort_array lt a dir s = Sorted (w, s) \<and> mset w = mset a
    \<and> sorted_wrt (\<lambda>x y. \<not> (if dir < 0 then value_less lt x y else value_less lt y x)) w"
proof (cases "dir < 0")
  case True
  with rev.quickSort_sorts [OF assms, of s] show ?thesis by (simp add: builtin_sort_array_def)
next
  case False
  with fwd.quickSort_sorts [OF assms, of s] show ?thesis by (simp add: builtin_sort_array_def)
qed

lemma cmp_answers: "builtin_sort_array_cmp_fwd lt x p s = Inr c \<Longrightarrow> \<exists>k. kind x = Some k \<and> kind p = Some k"
  "builtin_sort_array_cmp_rev lt x p s = Inr c \<Longrightarrow> \<exists>k. kind x = Some k \<and> kind p = Some k"
  using compare_values_answers [of lt x p] compare_values_answers [of lt p x]
  by (cases "compare_values lt x p"; cases "compare_values lt p x";
      auto simp: builtin_sort_array_cmp_fwd_def builtin_sort_array_cmp_rev_def with_state_def)+

text \<open>\<open>sort_array\<close> with a direction raises an error exactly when the array has two or more
  elements that are not all numbers, all strings, all floats, or all arrays that begin with one
  of these kinds.\<close>

theorem builtin_sort_array_error_iff:
  fixes lt :: "'r \<Rightarrow> 'r \<Rightarrow> bool" and s :: 's
  assumes "float_order lt" "2 \<le> length a"
  shows "(\<exists>e. builtin_sort_array lt a dir s = Raised e) \<longleftrightarrow> \<not> (\<exists>k. \<forall>x \<in> set a. kind x = Some k)"
proof
  assume r: "\<exists>e. builtin_sort_array lt a dir s = Raised e"
  show "\<not> (\<exists>k. \<forall>x \<in> set a. kind x = Some k)"
  proof
    assume "\<exists>k. \<forall>x \<in> set a. kind x = Some k"
    then obtain k where "set a \<subseteq> sortable lt k" using assms(1) by (auto simp: sortable_def)
    then have "\<exists>w. builtin_sort_array lt a dir s = Sorted w"
      using rev.quickSort_sorts [of a lt k s] fwd.quickSort_sorts [of a lt k s] by (cases "dir < 0") (auto simp: builtin_sort_array_def)
    with r show False by auto
  qed
next
  assume n: "\<not> (\<exists>k. \<forall>x \<in> set a. kind x = Some k)"
  show "\<exists>e. builtin_sort_array lt a dir s = Raised e"
  proof (cases "builtin_sort_array lt a dir s")
    let ?cmp = "(if dir < 0 then builtin_sort_array_cmp_rev lt else builtin_sort_array_cmp_fwd lt) :: ('r lpc, 's, sort_error) compar"
    case (Sorted r)
    from Sorted have "quickSort ?cmp a s = Sorted r" by (simp add: builtin_sort_array_def)
    from quickSort_compares [OF this assms(2)] obtain v where
      v: "set v = set a" "length v = length a" "\<forall>k. 0 < k \<and> k < length a \<longrightarrow> (\<exists>s' c. ?cmp (v ! k) (v ! 0) s' = Inr c)"
      by (elim exE conjE) (rule that)
    have q: "\<exists>k. kind (v ! j) = Some k \<and> kind (v ! 0) = Some k" if "0 < j" "j < length a" for j
    proof -
      have "\<exists>s' c. ?cmp (v ! j) (v ! 0) s' = Inr c" using v(3) that by blast
      then obtain s' c where "?cmp (v ! j) (v ! 0) s' = Inr c" by blast
      then show ?thesis using cmp_answers [of lt "v ! j" "v ! 0" s' c] by (cases "dir < 0") simp_all
    qed
    from q [of 1] assms(2) obtain k where k: "kind (v ! 0) = Some k" by auto
    have "kind x = Some k" if "x \<in> set a" for x
    proof -
      have "x \<in> set v" using that by (simp only: v(1))
      then obtain j where "j < length v" "v ! j = x" unfolding in_set_conv_nth by blast
      then have j: "j < length a" "v ! j = x" by (simp_all only: v(2))
      show ?thesis using q [of j] j k by (cases j) auto
    qed
    with n show ?thesis by blast
  next
    case Out_of_bounds
    then show ?thesis using quickSort_safe [of a "if dir < 0 then builtin_sort_array_cmp_rev lt else builtin_sort_array_cmp_fwd lt" s]
      by (simp add: builtin_sort_array_def)
  qed simp
qed

section \<open>Witnesses\<close>

lemma builtin_sort_array_sorts_witness:
  "\<exists>w. builtin_sort_array (\<lambda>(a :: unit) b. False) [Num 3, Num 1, Num (- 2)] (-1) () = Sorted (w, ())
    \<and> mset w = mset [Num 3, Num 1, Num (- 2)] \<and> sorted_wrt (\<lambda>x y. \<not> value_less (\<lambda>(a :: unit) b. False) x y) w"
  using builtin_sort_array_sorts [of "[Num 3, Num 1, Num (- 2)]" "\<lambda>(a :: unit) b. False" "(False, Numbers)" "-1" "()"]
  by (simp add: sortable_def)

lemma builtin_sort_array_error_iff_witness:
  "\<exists>e. builtin_sort_array (\<lambda>(a :: unit) b. False) [Num 3, Str ''a''] 1 () = Raised e"
  using builtin_sort_array_error_iff [of "\<lambda>(a :: unit) b. False" "[Num 3, Str ''a'']" 1 "()"]
  by (simp add: float_order_def) 

end
