(* ===== verification/Array_Sets.thy ===== *)
theory Array_Sets
  imports Lpc_Mapping
begin

text \<open>
  Subtraction and intersection of LPC arrays (\<open>array.c\<close>). Both sort one array with a heap by the
  bits and the type of the values, strings being interned first so that equal strings are one
  address, and then search the other array in it. An array is its reference count and its values;
  an array whose count has dropped to zero has been freed. The two arguments are different arrays.
  Interning a string (\<open>make_shared_string\<close>) and looking for its shared copy
  (\<open>findstring\<close>) are the arguments \<open>mk\<close> and \<open>fs\<close>.
\<close>

section \<open>State\<close>

definition T_OBJECT :: "16 word" where "T_OBJECT = 0x10"

definition const0 :: svalue where
  "const0 = \<lparr>sv_type = T_NUMBER, sv_subtype = 0, sv_u = 0\<rparr>"

record array =
  null :: bool
  aref :: nat
  item :: "svalue list"

definition the_null_array :: array where "the_null_array = \<lparr>null = True, aref = 1, item = []\<rparr>"

definition sizeof_array_t :: int where "sizeof_array_t = 12"
definition sizeof_svalue_t :: int where "sizeof_svalue_t = 8"

record array_state =
  num_arrays :: int
  total_array_size :: int
  arefs :: "32 word \<Rightarrow> int"
  destructed :: "32 word set"

text \<open>The references a value holds to an address, and changing the count by them.\<close>

definition held :: "svalue \<Rightarrow> 32 word \<Rightarrow> int" where
  "held v a =
     (if ((sv_type v = T_STRING \<and> sv_subtype v AND STRING_COUNTED \<noteq> 0)
        \<or> (sv_type v \<noteq> T_STRING \<and> sv_type v AND T_REFED \<noteq> 0)) \<and> sv_u v = a then 1 else 0)"

definition held_by :: "svalue list \<Rightarrow> 32 word \<Rightarrow> int" where
  "held_by vs a = (\<Sum>v\<leftarrow>vs. held v a)"

definition add_refs :: "int \<Rightarrow> svalue \<Rightarrow> array_state \<Rightarrow> array_state" where
  "add_refs d v s = s\<lparr>arefs := (\<lambda>a. arefs s a + d * held v a)\<rparr>"

definition array_size :: "nat \<Rightarrow> int" where
  "array_size n = sizeof_array_t + sizeof_svalue_t * (int n - 1)"

definition is_destructed :: "array_state \<Rightarrow> svalue \<Rightarrow> bool" where
  "is_destructed s v \<longleftrightarrow> sv_type v = T_OBJECT \<and> sv_u v \<in> destructed s"

definition unshared :: "svalue \<Rightarrow> bool" where
  "unshared v \<longleftrightarrow> sv_type v = T_STRING \<and> sv_subtype v \<noteq> STRING_SHARED"

definition shared_copy :: "(32 word \<Rightarrow> 32 word) \<Rightarrow> svalue \<Rightarrow> svalue" where
  "shared_copy mk v = v\<lparr>sv_subtype := STRING_SHARED, sv_u := mk (sv_u v)\<rparr>"

definition free_array :: "array \<Rightarrow> array_state \<Rightarrow> array \<times> array_state" where
  "free_array p s =
     (let p = p\<lparr>aref := aref p - 1\<rparr> in
      if aref p > 0 \<or> null p then (p, s)
      else
        (p, (fold (add_refs (- 1)) (rev (item p)) s)
              \<lparr>num_arrays := num_arrays s - 1, total_array_size := total_array_size s - array_size (length (item p))\<rparr>))"

section \<open>The heap\<close>

definition alist_cmp :: "svalue \<Rightarrow> svalue \<Rightarrow> int" where
  "alist_cmp p1 p2 =
     (let d = sint (sv_u p1 - sv_u p2) in if d \<noteq> 0 then d else sint (sv_type p1) - sint (sv_type p2))"

text \<open>The loop that moves \<open>val\<close> up from \<open>curix\<close>.\<close>

function sift_up :: "nat \<Rightarrow> svalue \<Rightarrow> svalue list \<Rightarrow> svalue list" where
  "sift_up curix val tab =
     (if curix = 0 then tab
      else
        (let parix = (curix - 1) div 2;
             tab = (if alist_cmp (tab ! parix) (tab ! curix) > 0 then tab[curix := tab ! parix, parix := val] else tab)
         in sift_up parix val tab))"
  by pat_completeness auto
termination by (relation "measure (\<lambda>(curix, _). curix)") auto

declare sift_up.simps [simp del]

text \<open>One value: what goes into the heap, and what the source then holds. The source is kept if \<open>flag\<close>.\<close>

definition alist_item :: "(32 word \<Rightarrow> 32 word) \<Rightarrow> bool \<Rightarrow> svalue \<Rightarrow> array_state \<Rightarrow> svalue \<times> svalue \<times> array_state" where
  "alist_item mk flag v s =
     (if is_destructed s v then (const0, const0, add_refs (- 1) v s)
      else if unshared v then
        (let str = shared_copy mk v; s = add_refs 1 str s in
         if flag then (str, v, s) else (str, str, add_refs (- 1) v s))
      else (v, v, if flag then add_refs 1 v s else s))"

fun alist_heap :: "(32 word \<Rightarrow> 32 word) \<Rightarrow> bool \<Rightarrow> svalue list \<Rightarrow> svalue list \<Rightarrow> array_state
    \<Rightarrow> svalue list \<times> svalue list \<times> array_state" where
  "alist_heap mk flag [] tab s = (tab, [], s)"
| "alist_heap mk flag (v # vs) tab s =
     (let (x, v, s) = alist_item mk flag v s;
          (tab, vs, s) = alist_heap mk flag vs (sift_up (length tab) x (tab @ [x])) s
      in (tab, v # vs, s))"

text \<open>Taking the root out of the heap; None is a place of type \<open>T_INVALID\<close>.\<close>

definition smaller_child :: "svalue option list \<Rightarrow> nat \<Rightarrow> nat" where
  "smaller_child tab curix =
     (let child1 = 2 * curix + 1; child2 = child1 + 1 in
      if child2 < length tab \<and> tab ! child2 \<noteq> None \<and>
         (tab ! child1 = None \<or> alist_cmp (the (tab ! child1)) (the (tab ! child2)) > 0)
      then child2 else child1)"

function sift_out :: "nat \<Rightarrow> svalue option list \<Rightarrow> svalue option list" where
  "sift_out curix tab =
     (let child = smaller_child tab curix in
      if child < length tab \<and> tab ! child \<noteq> None then sift_out child (tab[curix := tab ! child])
      else tab[curix := None])"
  by pat_completeness auto
termination
  by (relation "measure (\<lambda>(curix, tab). length tab - curix)") (auto simp: smaller_child_def Let_def split: if_splits)

declare sift_out.simps [simp del]

fun drain :: "nat \<Rightarrow> svalue option list \<Rightarrow> svalue option list" where
  "drain 0 tab = []"
| "drain (Suc n) tab = tab ! 0 # drain n (sift_out 0 tab)"

definition alist_sort :: "(32 word \<Rightarrow> 32 word) \<Rightarrow> array \<Rightarrow> array_state \<Rightarrow> svalue option list \<times> array \<times> array_state" where
  "alist_sort mk inlist s =
     (let (tab, items, s) = alist_heap mk (aref inlist > 1) (item inlist) [] s
      in (drain (length (item inlist)) (map Some tab), inlist\<lparr>item := items\<rparr>, s))"

section \<open>Subtraction\<close>

text \<open>The binary search between \<open>l\<close> and \<open>h\<close>: is the value in the table?\<close>

function bsearch :: "svalue \<Rightarrow> svalue list \<Rightarrow> int \<Rightarrow> int \<Rightarrow> bool" where
  "bsearch v svt l h =
     (let pos = (l + h) div 2; d = alist_cmp v (svt ! nat pos) in
      if d = 0 then True
      else
        (let (l, h) = (if d < 0 then (l, pos - 1) else (pos + 1, h)) in
         if l > h then False else bsearch v svt l h))"
  by pat_completeness auto
termination by (relation "measure (\<lambda>(_, _, l, h). nat (h - l + 1))") (auto split: if_splits)

declare bsearch.simps [simp del]

definition in_table :: "svalue \<Rightarrow> svalue list \<Rightarrow> bool" where
  "in_table v svt = bsearch v svt 0 (int (length svt) - 1)"

text \<open>The loop over the minuend: the values kept, the minuend as it is left, the state.\<close>

fun subtract_loop :: "(32 word \<Rightarrow> 32 word option) \<Rightarrow> svalue list \<Rightarrow> svalue list \<Rightarrow> array_state
    \<Rightarrow> svalue list \<times> svalue list \<times> array_state" where
  "subtract_loop fs svt [] s = ([], [], s)"
| "subtract_loop fs svt (source # rest) s =
     (let (source, s) = (if is_destructed s source then (const0, add_refs (- 1) source s) else (source, s));
          found = (if unshared source then
                     (case fs (sv_u source) of
                        None \<Rightarrow> False
                      | Some str \<Rightarrow> in_table \<lparr>sv_type = T_STRING, sv_subtype = STRING_SHARED, sv_u = str\<rparr> svt)
                   else in_table source svt);
          s = (if found then s else add_refs 1 source s);
          (kept, rest, s) = subtract_loop fs svt rest s
      in (if found then kept else source # kept, source # rest, s))"

text \<open>The result, what becomes of the two arrays, and the state.\<close>

definition drop_array :: "array \<Rightarrow> array_state \<Rightarrow> array \<times> array_state" where
  "drop_array p s =
     (p\<lparr>aref := aref p - 1\<rparr>,
      if aref p > 1 then s
      else s\<lparr>num_arrays := num_arrays s - 1, total_array_size := total_array_size s - array_size (length (item p))\<rparr>)"

definition new_array :: "svalue list \<Rightarrow> array_state \<Rightarrow> array \<times> array_state" where
  "new_array vs s =
     (\<lparr>null = False, aref = 1, item = vs\<rparr>,
      s\<lparr>num_arrays := num_arrays s + 1, total_array_size := total_array_size s + array_size (length vs)\<rparr>)"

definition allocate_empty_array :: "svalue list \<Rightarrow> array_state \<Rightarrow> array \<times> array_state" where
  "allocate_empty_array vs s = (if vs = [] then (the_null_array, s) else new_array vs s)"

definition copy_array :: "array \<Rightarrow> array_state \<Rightarrow> array \<times> array_state" where
  "copy_array p s = allocate_empty_array (item p) (fold (add_refs 1) (rev (item p)) s)"

definition subtract_array :: "(32 word \<Rightarrow> 32 word) \<Rightarrow> (32 word \<Rightarrow> 32 word option) \<Rightarrow> array \<Rightarrow> array \<Rightarrow> array_state
    \<Rightarrow> array \<times> array \<times> array \<times> array_state" where
  "subtract_array mk fs minuend subtrahend s =
     (if item subtrahend = [] then
        (let subtrahend = subtrahend\<lparr>aref := aref subtrahend - 1\<rparr> in
         if aref minuend > 1 then
           (let (r, s) = copy_array minuend s in (r, minuend\<lparr>aref := aref minuend - 1\<rparr>, subtrahend, s))
         else (minuend, minuend\<lparr>aref := 0\<rparr>, subtrahend, s))
      else if item minuend = [] then
        (let (subtrahend, s) = free_array subtrahend s in (the_null_array, minuend, subtrahend, s))
      else
        (let (svt, subtrahend, s) = alist_sort mk subtrahend s;
             svt = map the svt;
             (kept, items, s) = subtract_loop fs svt (item minuend) s;
             s = fold (add_refs (- 1)) (rev svt) s;
             (subtrahend, s) = drop_array subtrahend s;
             (minuend, s) = free_array (minuend\<lparr>item := items\<rparr>) s;
             (r, s) = (if kept = [] then (the_null_array, s) else new_array kept s)
         in (r, minuend, subtrahend, s)))"

section \<open>Intersection\<close>

text \<open>The step over the smaller values of the sorted first array; None is its end.\<close>

fun skip_smaller :: "svalue \<Rightarrow> svalue list \<Rightarrow> svalue list option" where
  "skip_smaller val [] = None"
| "skip_smaller val (w # ws) =
     (if alist_cmp val w > 0 then (if ws = [] then None else skip_smaller val ws) else Some (w # ws))"

text \<open>
  The merge: \<open>svt\<close> is what is left of the sorted first array, \<open>tab\<close> the heap of the second one, of
  which \<open>j\<close> values are still to be taken. The heap that is left at the end is freed.
\<close>

fun merge :: "nat \<Rightarrow> svalue list \<Rightarrow> svalue option list \<Rightarrow> array_state \<Rightarrow> svalue list \<times> svalue option list \<times> array_state" where
  "merge 0 svt tab s = ([], tab, s)"
| "merge (Suc j) svt tab s =
     (let val = the (tab ! 0) in
      case skip_smaller val svt of
        None \<Rightarrow> ([], tab, s)
      | Some svt \<Rightarrow>
          (let common = (alist_cmp val (hd svt) = 0);
               s = (if common then s else add_refs (- 1) val s);
               (l, tab, s) = merge j svt (sift_out 0 tab) s
           in (if common then val # l else l, tab, s)))"

definition intersect_array :: "(32 word \<Rightarrow> 32 word) \<Rightarrow> array \<Rightarrow> array \<Rightarrow> array_state
    \<Rightarrow> array \<times> array \<times> array \<times> array_state" where
  "intersect_array mk a1 a2 s =
     (if item a1 = [] \<or> item a2 = [] then
        (let (a1, s) = free_array a1 s; (a2, s) = free_array a2 s in (the_null_array, a1, a2, s))
      else
        (let (svt_1, a1, s) = alist_sort mk a1 s;
             svt_1 = map the svt_1;
             (tab, items, s) = alist_heap mk (aref a2 > 1) (item a2) [] s;
             a2 = a2\<lparr>item := items\<rparr>;
             (l, tab, s) = merge (length (item a2)) svt_1 (map Some tab) s;
             s = fold (add_refs (- 1)) (rev (map the (filter (\<lambda>v. v \<noteq> None) tab))) s;
             s = fold (add_refs (- 1)) (rev svt_1) s;
             (a1, s) = drop_array a1 s;
             (a2, s) = drop_array a2 s;
             (r, s) = new_array l s
         in (r, a1, a2, s)))"

section \<open>The order of the values\<close>

text \<open>The comparison subtracts, so it is an order only for values whose bits are not too far apart.\<close>

definition key :: "svalue \<Rightarrow> int" where
  "key v = sint (sv_u v) * 2 ^ 16 + sint (sv_type v)"

definition close :: "svalue set \<Rightarrow> bool" where
  "close S \<longleftrightarrow> (\<forall>x \<in> S. \<forall>y \<in> S. \<bar>sint (sv_u x) - sint (sv_u y)\<bar> < 2 ^ 31)"

lemma close_subset: "close S \<Longrightarrow> T \<subseteq> S \<Longrightarrow> close T"
  unfolding close_def by blast

lemma sint_diff_close: "\<bar>sint a - sint b\<bar> < 2 ^ 31 \<Longrightarrow> sint (a - b :: 32 word) = sint a - sint b"
  by (simp add: sint_word_ariths signed_take_bit_int_eq_self)

lemma sint_type_range: "- 32768 \<le> sint (t :: 16 word)" "sint (t :: 16 word) < 32768"
  using sint_greater_eq [of t] sint_lt [of t] by simp_all

lemma alist_cmp_key:
  assumes "close S" "x \<in> S" "y \<in> S"
  shows "alist_cmp x y > 0 \<longleftrightarrow> key x > key y" "alist_cmp x y < 0 \<longleftrightarrow> key x < key y" "alist_cmp x y = 0 \<longleftrightarrow> key x = key y"
proof -
  have d: "sint (sv_u x - sv_u y) = sint (sv_u x) - sint (sv_u y)" using assms by (intro sint_diff_close) (auto simp: close_def)
  note r = sint_type_range [of "sv_type x"] sint_type_range [of "sv_type y"]
  show "alist_cmp x y > 0 \<longleftrightarrow> key x > key y" "alist_cmp x y < 0 \<longleftrightarrow> key x < key y" "alist_cmp x y = 0 \<longleftrightarrow> key x = key y"
    using r by (auto simp: alist_cmp_def key_def d)
qed

lemma digits_eq:
  "a * 65536 + s = b * 65536 + t \<Longrightarrow> - 32768 \<le> s \<Longrightarrow> s < 32768 \<Longrightarrow> - 32768 \<le> t \<Longrightarrow> t < 32768 \<Longrightarrow> a = b \<and> s = (t :: int)"
  by (cases a b rule: linorder_cases) linarith+

lemma key_eq: "key x = key y \<longleftrightarrow> sv_u x = sv_u y \<and> sv_type x = sv_type y"
proof
  assume e: "key x = key y"
  have "sint (sv_u x) = sint (sv_u y)" "sint (sv_type x) = sint (sv_type y)"
    using e digits_eq [OF _ sint_type_range [of "sv_type x"] sint_type_range [of "sv_type y"]] by (simp_all add: key_def)
  then show "sv_u x = sv_u y \<and> sv_type x = sv_type y" by (simp add: signed_word_eqI)
qed (simp add: key_def)

section \<open>Building the heap\<close>

definition up :: "nat \<Rightarrow> nat" where "up i = (i - 1) div 2"

definition heap :: "svalue list \<Rightarrow> bool" where
  "heap tab \<longleftrightarrow> (\<forall>i. 0 < i \<and> i < length tab \<longrightarrow> key (tab ! up i) \<le> key (tab ! i))"

lemma up_less: "0 < i \<Longrightarrow> up i < i"
  by (auto simp: up_def)

lemma up_bound: "i < n \<Longrightarrow> up i < n"
  by (auto simp: up_def)

lemma sift_up_up:
  "sift_up curix val tab =
     (if curix = 0 then tab
      else sift_up (up curix) val
        (if alist_cmp (tab ! up curix) (tab ! curix) > 0 then tab[curix := tab ! up curix, up curix := val] else tab))"
  unfolding up_def by (subst sift_up.simps) (simp add: Let_def)

lemma sift_up_id: "heap tab \<Longrightarrow> close (set tab) \<Longrightarrow> curix < length tab \<Longrightarrow> sift_up curix val tab = tab"
proof (induction curix rule: less_induct)
  case (less curix)
  show ?case
  proof (cases "curix = 0")
    case False
    then have p: "up curix < curix" "up curix < length tab" using less.prems up_less [of curix] up_bound [of curix] by auto
    have "key (tab ! up curix) \<le> key (tab ! curix)" using less.prems False by (simp add: heap_def)
    then have "\<not> alist_cmp (tab ! up curix) (tab ! curix) > 0"
      using alist_cmp_key(1) [OF less.prems(2), of "tab ! up curix" "tab ! curix"] p less.prems(3) by simp
    with less.IH [OF p(1) less.prems(1,2) p(2)] False show ?thesis by (simp add: sift_up_up [of curix])
  qed (simp add: sift_up_up [of 0])
qed

lemma sift_up_spec:
  "close (set tab) \<Longrightarrow> curix < length tab \<Longrightarrow> val = tab ! curix \<Longrightarrow>
    (\<forall>i. 0 < i \<and> i < length tab \<and> i \<noteq> curix \<longrightarrow> key (tab ! up i) \<le> key (tab ! i)) \<Longrightarrow>
    (\<forall>i. 0 < i \<and> i < length tab \<and> 0 < curix \<and> up i = curix \<longrightarrow> key (tab ! up curix) \<le> key (tab ! i)) \<Longrightarrow>
    heap (sift_up curix val tab) \<and> mset (sift_up curix val tab) = mset tab"
proof (induction curix arbitrary: tab rule: less_induct)
  case (less curix)
  show ?case
  proof (cases "curix = 0")
    case True
    then show ?thesis using less.prems(4) by (simp add: sift_up_up [of 0] heap_def)
  next
    case False
    then have p: "up curix < curix" "up curix < length tab" using less.prems(2) up_less [of curix] up_bound [of curix] by auto
    show ?thesis
    proof (cases "alist_cmp (tab ! up curix) (tab ! curix) > 0")
      case gt: True
      let ?tab = "tab[curix := tab ! up curix, up curix := val]"
      have k: "key val < key (tab ! up curix)"
        using gt alist_cmp_key(1) [OF less.prems(1), of "tab ! up curix" "tab ! curix"] p less.prems(2,3) by simp
      have step: "sift_up curix val tab = sift_up (up curix) val ?tab"
        using gt False by (simp add: sift_up_up [of curix])
      have m: "mset ?tab = mset tab" unfolding less.prems(3) by (rule mset_swap [OF p(2) less.prems(2)])
      have c: "close (set ?tab)" using less.prems(1) m by (metis set_mset_mset)
      have at: "?tab ! i = (if i = up curix then val else if i = curix then tab ! up curix else tab ! i)" if "i < length tab" for i
        using that by (auto simp: nth_list_update)
      have upl: "up i < length tab" if "i < length tab" for i by (rule up_bound [OF that])
      have h1: "key (?tab ! up i) \<le> key (?tab ! i)" if "0 < i" "i < length ?tab" "i \<noteq> up curix" for i
      proof -
        have i: "i < length tab" using that by simp
        consider "i = curix" | "i \<noteq> curix" "up i = curix" | "i \<noteq> curix" "up i = up curix" | "i \<noteq> curix" "up i \<noteq> curix" "up i \<noteq> up curix" by blast
        then show ?thesis
        proof cases
          case 1
          then show ?thesis using at [OF i] at [OF upl [OF i]] k p by simp
        next
          case 2
          then show ?thesis using at [OF i] at [OF upl [OF i]] less.prems(5) that i p False by simp
        next
          case 3
          then show ?thesis using at [OF i] at [OF upl [OF i]] less.prems(4) that(1,3) i k by fastforce
        next
          case 4
          then show ?thesis using at [OF i] at [OF upl [OF i]] less.prems(4) that(1,3) i by simp
        qed
      qed
      have h2: "key (?tab ! up (up curix)) \<le> key (?tab ! i)" if "0 < i" "i < length ?tab" "0 < up curix" "up i = up curix" for i
      proof -
        have i: "i < length tab" using that by simp
        have pp: "key (tab ! up (up curix)) \<le> key (tab ! up curix)" using less.prems(4) [rule_format, of "up curix"] that(3) p by simp
        have "up (up curix) < up curix" by (rule up_less [OF that(3)])
        then have a: "?tab ! up (up curix) = tab ! up (up curix)" using p at [of "up (up curix)"] by simp
        show ?thesis
        proof (cases "i = curix")
          case True
          then show ?thesis using a pp at [OF i] p by simp
        next
          case ne: False
          have "i \<noteq> up curix" using that(1,4) up_less [of i] by auto
          moreover have "key (tab ! up curix) \<le> key (tab ! i)" using less.prems(4) [rule_format, of i] that(1,4) i ne by simp
          ultimately show ?thesis using a pp at [OF i] ne by simp
        qed
      qed
      from less.IH [OF p(1), of ?tab] c p h1 h2 have "heap (sift_up (up curix) val ?tab) \<and> mset (sift_up (up curix) val ?tab) = mset ?tab"
        by simp
      then show ?thesis unfolding step m .
    next
      case le: False
      then have "key (tab ! up curix) \<le> key (tab ! curix)"
        using alist_cmp_key(1) [OF less.prems(1), of "tab ! up curix" "tab ! curix"] p less.prems(2) by simp
      then have h: "heap tab" unfolding heap_def using less.prems(4) by (metis (no_types))
      then show ?thesis using sift_up_id [OF h less.prems(1,2)] by simp
    qed
  qed
qed

lemma heap_empty [simp]: "heap []"
  by (simp add: heap_def)

lemma heap_push:
  assumes "heap tab" "close (insert x (set tab))"
  shows "heap (sift_up (length tab) x (tab @ [x])) \<and> mset (sift_up (length tab) x (tab @ [x])) = add_mset x (mset tab)"
proof -
  have "key ((tab @ [x]) ! up i) \<le> key ((tab @ [x]) ! i)" if "0 < i" "i < length (tab @ [x])" "i \<noteq> length tab" for i
  proof -
    have "i < length tab" using that by simp
    with up_bound [OF this] assms(1) that(1) show ?thesis by (simp add: heap_def nth_append)
  qed
  moreover have False if "0 < i" "i < length (tab @ [x])" "up i = length tab" for i using up_less [of i] that by simp
  ultimately show ?thesis
    using sift_up_spec [of "tab @ [x]" "length tab" x] assms(2) by fastforce
qed

section \<open>Taking from the heap\<close>

text \<open>The values still in the heap.\<close>

definition vals :: "svalue option list \<Rightarrow> svalue multiset" where
  "vals tab = mset (map the (filter (\<lambda>v. v \<noteq> None) tab))"

definition opt_heap :: "svalue option list \<Rightarrow> bool" where
  "opt_heap tab \<longleftrightarrow> (\<forall>i x. 0 < i \<and> i < length tab \<and> tab ! i = Some x \<longrightarrow> (\<exists>y. tab ! up i = Some y \<and> key y \<le> key x))"

lemma vals_split: "i < length tab \<Longrightarrow> \<exists>B. \<forall>v. vals (tab[i := v]) = (case v of None \<Rightarrow> B | Some x \<Rightarrow> add_mset x B)"
proof -
  assume i: "i < length tab"
  let ?B = "vals (take i tab) + vals (drop (Suc i) tab)"
  have "vals (tab[i := v]) = (case v of None \<Rightarrow> ?B | Some x \<Rightarrow> add_mset x ?B)" for v
    by (simp add: upd_conv_take_nth_drop [OF i] vals_def split: option.split)
  then show ?thesis by blast
qed

lemma vals_remove: "i < length tab \<Longrightarrow> tab ! i = Some x \<Longrightarrow> add_mset x (vals (tab[i := None])) = vals tab"
  using vals_split [of i tab] list_update_id [of tab i] by (metis option.simps(4,5))

lemma vals_replace: "i < length tab \<Longrightarrow> tab ! i = Some x \<Longrightarrow> add_mset x (vals (tab[i := Some y])) = add_mset y (vals tab)"
  using vals_split [of i tab] list_update_id [of tab i] by (metis option.simps(5) add_mset_commute)

lemma vals_member: "i < length tab \<Longrightarrow> tab ! i = Some x \<Longrightarrow> x \<in># vals tab"
  using vals_remove by (metis union_single_eq_member)

lemma vals_ex: "x \<in># vals tab \<Longrightarrow> \<exists>i < length tab. tab ! i = Some x"
  by (auto simp: vals_def in_set_conv_nth)

lemma vals_Some: "vals (map Some xs) = mset xs"
  by (simp add: vals_def comp_def filter_map)

lemma smaller_child_up: "up (smaller_child tab c) = c" "c < smaller_child tab c"
  by (auto simp: smaller_child_def up_def Let_def)

lemma up_cases: "0 < j \<Longrightarrow> up j = c \<Longrightarrow> j = 2 * c + 1 \<or> j = 2 * c + 2"
  by (auto simp: up_def)

lemma smaller_child_least:
  assumes c: "close (set_mset (vals tab))" and j: "0 < j" "up j = c" "j < length tab" "tab ! j = Some z"
  shows "\<exists>y. smaller_child tab c < length tab \<and> tab ! smaller_child tab c = Some y \<and> key y \<le> key z"
proof -
  let ?a = "2 * c + 1" and ?b = "2 * c + 2"
  have jab: "j = ?a \<or> j = ?b" by (rule up_cases [OF j(1,2)])
  show ?thesis
  proof (cases "?b < length tab \<and> tab ! ?b \<noteq> None")
    case False
    then have "smaller_child tab c = ?a" "j = ?a" using jab j(3,4) by (auto simp: smaller_child_def)
    with j show ?thesis by auto
  next
    case True
    then obtain b where b: "?b < length tab" "tab ! ?b = Some b" by auto
    show ?thesis
    proof (cases "tab ! ?a")
      case None
      then have "smaller_child tab c = ?b" "j = ?b" using jab j(4) b by (auto simp: smaller_child_def)
      with j show ?thesis by auto
    next
      case (Some a)
      have m: "a \<in> set_mset (vals tab)" "b \<in> set_mset (vals tab)" using vals_member [of ?a tab a] vals_member [of ?b tab b] Some b by auto
      have sc: "smaller_child tab c = (if key a > key b then ?b else ?a)"
        using alist_cmp_key(1) [OF c m] Some b by (simp add: smaller_child_def)
      show ?thesis
      proof (cases "key a > key b")
        case True
        with sc b jab j(4) Some show ?thesis by auto
      next
        case False
        with sc b jab j(4) Some show ?thesis by auto
      qed
    qed
  qed
qed

lemma sift_out_spec:
  "opt_heap tab \<Longrightarrow> close (set_mset (vals tab)) \<Longrightarrow> c < length tab \<Longrightarrow> tab ! c = Some x \<Longrightarrow>
    opt_heap (sift_out c tab) \<and> add_mset x (vals (sift_out c tab)) = vals tab \<and> length (sift_out c tab) = length tab"
proof (induction c tab arbitrary: x rule: sift_out.induct)
  case (1 c tab)
  let ?ch = "smaller_child tab c"
  show ?case
  proof (cases "?ch < length tab \<and> tab ! ?ch \<noteq> None")
    case False
    have no: "\<not> (0 < j \<and> up j = c \<and> j < length tab \<and> tab ! j = Some z)" for j z
      using smaller_child_least [OF "1.prems"(2), where j = j and c = c and z = z] False by auto
    have s: "sift_out c tab = tab[c := None]" using False by (auto simp: sift_out.simps [of c] Let_def)
    have "opt_heap (tab[c := None])"
      unfolding opt_heap_def
    proof (intro allI impI)
      fix i z assume i: "0 < i \<and> i < length (tab[c := None]) \<and> tab[c := None] ! i = Some z"
      have "i \<noteq> c" using i "1.prems"(3) by auto
      with i have "tab ! i = Some z" by simp
      with i no [where j = i and z = z] \<open>i \<noteq> c\<close> have ic: "i \<noteq> c" "tab ! i = Some z" "up i \<noteq> c" by auto
      with "1.prems"(1) i obtain y where "tab ! up i = Some y" "key y \<le> key z" unfolding opt_heap_def by auto
      with ic show "\<exists>y. tab[c := None] ! up i = Some y \<and> key y \<le> key z" by (simp add: nth_list_update)
    qed
    then show ?thesis using vals_remove [OF "1.prems"(3,4)] s by simp
  next
    case True
    then obtain y where y: "?ch < length tab" "tab ! ?ch = Some y" by auto
    let ?t = "tab[c := tab ! ?ch]"
    note up = smaller_child_up [where tab = tab and c = c]
    have ch0: "0 < ?ch" using up(2) by simp
    have xy: "key x \<le> key y" using "1.prems"(1,4) y ch0 up(1) unfolding opt_heap_def by fastforce
    have s: "sift_out c tab = sift_out ?ch ?t" using True by (simp add: sift_out.simps [of c] Let_def)
    have rep: "add_mset x (vals ?t) = add_mset y (vals tab)" using vals_replace [OF "1.prems"(3,4), of y] y by simp
    have sub: "set_mset (vals ?t) \<subseteq> set_mset (vals tab)"
    proof -
      have "y \<in># vals tab" using vals_member [OF y] .
      moreover have "set_mset (vals ?t) \<subseteq> insert y (set_mset (vals tab))" using arg_cong [OF rep, of set_mset] by auto
      ultimately show ?thesis by auto
    qed
    have "opt_heap ?t"
      unfolding opt_heap_def
    proof (intro allI impI)
      fix i z assume i: "0 < i \<and> i < length ?t \<and> ?t ! i = Some z"
      show "\<exists>w. ?t ! up i = Some w \<and> key w \<le> key z"
      proof (cases "i = c")
        case ic: True
        with i y "1.prems"(3) have z: "z = y" by auto
        have "up c < c" using up_less [of c] i ic by simp
        moreover from "1.prems"(1,3,4) i ic obtain w where "tab ! up c = Some w" "key w \<le> key x" unfolding opt_heap_def by auto
        ultimately show ?thesis using ic xy z by auto
      next
        case ne: False
        then have zi: "tab ! i = Some z" using i by simp
        show ?thesis
        proof (cases "up i = c")
          case uc: True
          from smaller_child_least [OF "1.prems"(2), where j = i and c = c and z = z] i zi uc y have "key y \<le> key z" by auto
          then show ?thesis using uc y "1.prems"(3) by simp
        next
          case False
          with "1.prems"(1) i zi show ?thesis unfolding opt_heap_def by auto
        qed
      qed
    qed
    moreover have "close (set_mset (vals ?t))" by (rule close_subset [OF "1.prems"(2) sub])
    moreover have "?t ! ?ch = Some y" using up(2) y by simp
    ultimately have ih: "opt_heap (sift_out ?ch ?t)" "add_mset y (vals (sift_out ?ch ?t)) = vals ?t" "length (sift_out ?ch ?t) = length ?t"
      using "1.IH" [OF refl True] y by simp_all
    have "add_mset y (add_mset x (vals (sift_out ?ch ?t))) = add_mset x (vals ?t)"
      unfolding ih(2) [symmetric] by (rule add_mset_commute)
    also note rep
    finally have "add_mset x (vals (sift_out ?ch ?t)) = vals tab" by simp
    then show ?thesis using ih(1,3) unfolding s by simp
  qed
qed

lemma root_least:
  assumes "opt_heap tab" "i < length tab" "tab ! i = Some x"
  shows "\<exists>r. tab ! 0 = Some r \<and> key r \<le> key x"
  using assms(2,3)
proof (induction i arbitrary: x rule: less_induct)
  case (less i)
  show ?case
  proof (cases "i = 0")
    case False
    with assms(1) less.prems obtain y where y: "tab ! up i = Some y" "key y \<le> key x" unfolding opt_heap_def by blast
    from less.IH [of "up i" y] up_less [of i] up_bound [OF less.prems(1)] False y show ?thesis by fastforce
  qed (use less.prems in simp)
qed

lemma root_vals:
  assumes "opt_heap tab" "vals tab \<noteq> {#}"
  shows "\<exists>r. 0 < length tab \<and> tab ! 0 = Some r \<and> r \<in># vals tab \<and> (\<forall>x \<in># vals tab. key r \<le> key x)"
proof -
  obtain x where "x \<in># vals tab" using assms(2) by auto
  then obtain i where "i < length tab" "tab ! i = Some x" using vals_ex by blast
  with root_least [OF assms(1)] obtain r where r: "0 < length tab" "tab ! 0 = Some r" by fastforce
  moreover have "key r \<le> key z" if "z \<in># vals tab" for z
    using root_least [OF assms(1)] vals_ex [OF that] r by fastforce
  ultimately show ?thesis using vals_member by blast
qed

text \<open>The values come out in order.\<close>

lemma drain_sorts:
  "opt_heap tab \<Longrightarrow> close (set_mset (vals tab)) \<Longrightarrow> size (vals tab) = n \<Longrightarrow>
    \<exists>xs. drain n tab = map Some xs \<and> mset xs = vals tab \<and> sorted (map key xs)"
proof (induction n arbitrary: tab)
  case 0
  then show ?case by simp
next
  case (Suc n)
  then have "vals tab \<noteq> {#}" by auto
  from root_vals [OF Suc.prems(1) this] obtain r where
    r: "0 < length tab" "tab ! 0 = Some r" "\<forall>x \<in># vals tab. key r \<le> key x" by blast
  from sift_out_spec [OF Suc.prems(1,2) r(1,2)] have
    s: "opt_heap (sift_out 0 tab)" "add_mset r (vals (sift_out 0 tab)) = vals tab" by auto
  have sub: "set_mset (vals (sift_out 0 tab)) \<subseteq> set_mset (vals tab)" using arg_cong [OF s(2), of set_mset] by auto
  have "size (vals (sift_out 0 tab)) = n" using arg_cong [OF s(2), of size] Suc.prems(3) by simp
  from Suc.IH [OF s(1) close_subset [OF Suc.prems(2) sub] this] obtain xs where
    xs: "drain n (sift_out 0 tab) = map Some xs" "mset xs = vals (sift_out 0 tab)" "sorted (map key xs)" by blast
  have "\<forall>x \<in> set xs. key r \<le> key x" using r(3) sub xs(2) by (metis set_mset_mset subsetD)
  then show ?case using xs s(2) r(2) by (intro exI [of _ "r # xs"]) auto
qed

lemma heap_opt_heap: "heap tab \<Longrightarrow> opt_heap (map Some tab)"
  by (auto simp: heap_def opt_heap_def up_bound)

section \<open>Sorting\<close>

text \<open>What a value is in the table, and what the source holds afterwards.\<close>

definition clean :: "array_state \<Rightarrow> svalue \<Rightarrow> svalue" where
  "clean s v = (if is_destructed s v then const0 else v)"

definition normal :: "(32 word \<Rightarrow> 32 word) \<Rightarrow> svalue \<Rightarrow> svalue" where
  "normal mk v = (if unshared v then shared_copy mk v else v)"

lemma add_refs_simps [simp]:
  "num_arrays (add_refs d v s) = num_arrays s" "total_array_size (add_refs d v s) = total_array_size s"
  "destructed (add_refs d v s) = destructed s" "arefs (add_refs d v s) a = arefs s a + d * held v a"
  "is_destructed (add_refs d v s) = is_destructed s" "clean (add_refs d v s) = clean s"
  by (simp_all add: add_refs_def is_destructed_def clean_def fun_eq_iff)

lemma add_refs_list [simp]:
  "num_arrays (fold (add_refs d) vs s) = num_arrays s" "total_array_size (fold (add_refs d) vs s) = total_array_size s"
  "destructed (fold (add_refs d) vs s) = destructed s" "arefs (fold (add_refs d) vs s) a = arefs s a + d * held_by vs a"
  by (induction vs arbitrary: s) (simp_all add: held_by_def algebra_simps)

lemma held_by_simps [simp]:
  "held_by [] a = 0" "held_by (v # vs) a = held v a + held_by vs a" "held_by (vs @ ws) a = held_by vs a + held_by ws a"
  "held_by (rev vs) a = held_by vs a"
  by (simp_all add: held_by_def sum_list_rev flip: rev_map)

lemma held_const0 [simp]: "held const0 a = 0"
  by (simp add: held_def const0_def T_NUMBER_def T_STRING_def T_REFED_def)

lemma unshared_const0 [simp]: "\<not> unshared const0"
  by (simp add: unshared_def const0_def T_NUMBER_def T_STRING_def)

lemma held_by_perm: "mset vs = mset ws \<Longrightarrow> held_by vs a = held_by ws a"
  unfolding held_by_def by (metis mset_map sum_mset_sum_list)

lemma clean_const0 [simp]: "clean s const0 = const0"
  by (simp add: clean_def)

definition nc :: "(32 word \<Rightarrow> 32 word) \<Rightarrow> array_state \<Rightarrow> svalue list \<Rightarrow> svalue list" where
  "nc mk s vs = map (\<lambda>v. normal mk (clean s v)) vs"

lemma nc_simps [simp]: "nc mk s [] = []" "nc mk s (v # vs) = normal mk (clean s v) # nc mk s vs" "length (nc mk s vs) = length vs"
  by (simp_all add: nc_def)

text \<open>Same flags of objects and same statistics.\<close>

definition same_stats :: "array_state \<Rightarrow> array_state \<Rightarrow> bool" where
  "same_stats s s' \<longleftrightarrow> num_arrays s' = num_arrays s \<and> total_array_size s' = total_array_size s \<and> destructed s' = destructed s"

lemma same_stats_refl [simp]: "same_stats s s"
  by (simp add: same_stats_def)

lemma same_stats_add_refs [simp]: "same_stats s (add_refs d v s') = same_stats s s'" "same_stats (add_refs d v s) s' = same_stats s s'"
  by (simp_all add: same_stats_def)

lemma same_stats_trans: "same_stats a b \<Longrightarrow> same_stats b c \<Longrightarrow> same_stats a c"
  by (simp add: same_stats_def)

lemma same_stats_clean: "same_stats s s' \<Longrightarrow> is_destructed s' = is_destructed s" "same_stats s s' \<Longrightarrow> clean s' = clean s"
  "same_stats s s' \<Longrightarrow> nc mk s' = nc mk s"
  by (simp_all add: same_stats_def is_destructed_def clean_def nc_def fun_eq_iff)

lemma alist_item_spec:
  assumes "alist_item mk flag v s = (x, v', s')"
  shows "x = normal mk (clean s v) \<and> v' = (if flag then clean s v else x) \<and> same_stats s s'
    \<and> arefs s' a = arefs s a + held x a - held v a + (if flag then held v' a else 0)"
  using assms by (auto simp: alist_item_def normal_def clean_def Let_def split: if_splits)

lemma alist_heap_spec:
  "heap tab \<Longrightarrow> close (set tab \<union> set (nc mk s vs)) \<Longrightarrow> alist_heap mk flag vs tab s = (tab', vs', s') \<Longrightarrow>
    heap tab' \<and> mset tab' = mset tab + mset (nc mk s vs) \<and> vs' = (if flag then map (clean s) vs else nc mk s vs) \<and> same_stats s s'
    \<and> arefs s' a = arefs s a + held_by (nc mk s vs) a - held_by vs a + (if flag then held_by vs' a else 0)"
proof (induction vs arbitrary: tab s vs')
  case (Cons v vs)
  obtain x w s1 where i: "alist_item mk flag v s = (x, w, s1)" by (cases "alist_item mk flag v s")
  note it = alist_item_spec [OF i]
  let ?t = "sift_up (length tab) x (tab @ [x])"
  obtain t2 ws s2 where h: "alist_heap mk flag vs ?t s1 = (t2, ws, s2)" by (cases "alist_heap mk flag vs ?t s1")
  have r: "tab' = t2" "vs' = w # ws" "s' = s2" using Cons.prems(3) by (simp_all add: i h)
  have nc1: "nc mk s1 vs = nc mk s vs" using it same_stats_clean(3) by metis
  have x: "x = normal mk (clean s v)" using it [of a] by simp
  have hp: "heap ?t" "mset ?t = add_mset x (mset tab)"
    using heap_push [OF Cons.prems(1), of x] close_subset [OF Cons.prems(2), of "insert x (set tab)"] x by auto
  have "set ?t = insert x (set tab)" using arg_cong [OF hp(2), of set_mset] by simp
  then have "close (set ?t \<union> set (nc mk s1 vs))" using Cons.prems(2) nc1 x by simp
  from Cons.IH [OF hp(1) this h [folded r(1) r(3)]] it [of a] same_stats_clean(2) [of s s1] hp(2) x show ?case
    unfolding r(2) nc1 by (auto simp: same_stats_def)
qed simp

lemma alist_sort_spec:
  assumes "close (set (nc mk s (item p)))" "alist_sort mk p s = (svt, p', s')"
  shows "\<exists>xs. svt = map Some xs \<and> mset xs = mset (nc mk s (item p)) \<and> sorted (map key xs) \<and> same_stats s s'
    \<and> p' = p\<lparr>item := (if aref p > 1 then map (clean s) (item p) else nc mk s (item p))\<rparr>
    \<and> (\<forall>a. arefs s' a = arefs s a + held_by xs a - held_by (item p) a + (if aref p > 1 then held_by (item p') a else 0))"
proof -
  obtain tab vs s1 where h: "alist_heap mk (aref p > 1) (item p) [] s = (tab, vs, s1)" by (cases "alist_heap mk (aref p > 1) (item p) [] s")
  have r: "svt = drain (length (item p)) (map Some tab)" "p' = p\<lparr>item := vs\<rparr>" "s' = s1"
    using assms(2) unfolding alist_sort_def h prod.case Let_def by simp_all
  have hs: "heap tab" "mset tab = mset (nc mk s (item p))" "same_stats s s1"
    "vs = (if aref p > 1 then map (clean s) (item p) else nc mk s (item p))"
    "arefs s1 a = arefs s a + held_by (nc mk s (item p)) a - held_by (item p) a + (if aref p > 1 then held_by vs a else 0)" for a
    using alist_heap_spec [OF heap_empty _ h, of a] assms(1) by simp_all
  have "set tab = set (nc mk s (item p))" using hs(2) by (metis set_mset_mset)
  then have c: "close (set_mset (vals (map Some tab)))" using assms(1) by (simp add: vals_Some)
  have "size (vals (map Some tab)) = length (item p)" using arg_cong [OF hs(2), of size] by (simp add: vals_Some)
  from drain_sorts [OF heap_opt_heap [OF hs(1)] c this] obtain xs where
    xs: "drain (length (item p)) (map Some tab) = map Some xs" "mset xs = mset tab" "sorted (map key xs)" by (auto simp: vals_Some)
  have "held_by xs a = held_by (nc mk s (item p)) a" for a by (rule held_by_perm) (simp add: xs(2) hs(2))
  with r xs hs show ?thesis by (intro exI [of _ xs]) auto
qed

section \<open>Searching\<close>

lemma bsearch_spec:
  "sorted (map key svt) \<Longrightarrow> close (insert v (set svt)) \<Longrightarrow> 0 \<le> l \<Longrightarrow> l \<le> h \<Longrightarrow> h < int (length svt) \<Longrightarrow>
    bsearch v svt l h \<longleftrightarrow> (\<exists>i. l \<le> int i \<and> int i \<le> h \<and> key (svt ! i) = key v)"
proof (induction v svt l h rule: bsearch.induct)
  case (1 v svt l h)
  let ?pos = "(l + h) div 2"
  have pos: "l \<le> ?pos" "?pos \<le> h" "nat ?pos < length svt" "int (nat ?pos) = ?pos" using 1(4-6) by auto
  have m: "svt ! nat ?pos \<in> insert v (set svt)" using pos(3) by simp
  note cmp = alist_cmp_key [OF 1(3), of v "svt ! nat ?pos", OF insertI1 m]
  have mono: "i \<le> j \<Longrightarrow> j < length svt \<Longrightarrow> key (svt ! i) \<le> key (svt ! j)" for i j
    using sorted_nth_mono [OF 1(2), of i j] by simp
  consider "alist_cmp v (svt ! nat ?pos) = 0" | "alist_cmp v (svt ! nat ?pos) < 0" | "alist_cmp v (svt ! nat ?pos) > 0" by linarith
  then show ?case
  proof cases
    case 1
    then have "key (svt ! nat ?pos) = key v" using cmp(3) by simp
    with pos 1 show ?thesis by (subst bsearch.simps) (auto intro: exI [of _ "nat ?pos"])
  next
    case lt: 2
    then have k: "key v < key (svt ! nat ?pos)" using cmp(2) by simp
    have out: "int i \<le> ?pos - 1" if "int i \<le> h" "key (svt ! i) = key v" for i
    proof (rule ccontr)
      assume "\<not> int i \<le> ?pos - 1"
      then have "nat ?pos \<le> i" "i < length svt" using that 1(6) by auto
      from mono [OF this] k that(2) show False by simp
    qed
    have step: "bsearch v svt l h = (if l > ?pos - 1 then False else bsearch v svt l (?pos - 1))"
      using lt by (subst bsearch.simps) simp
    show ?thesis
    proof (cases "l > ?pos - 1")
      case True
      then show ?thesis unfolding step if_P [OF True] using out by force
    next
      case False
      have "bsearch v svt l (?pos - 1) \<longleftrightarrow> (\<exists>i. l \<le> int i \<and> int i \<le> ?pos - 1 \<and> key (svt ! i) = key v)"
        by (rule 1(1)) (use lt False 1(2-6) pos in auto)
      also have "\<dots> \<longleftrightarrow> (\<exists>i. l \<le> int i \<and> int i \<le> h \<and> key (svt ! i) = key v)" using out pos(2) by force
      finally show ?thesis unfolding step if_not_P [OF False] .
    qed
  next
    case gt: 3
    then have k: "key (svt ! nat ?pos) < key v" using cmp(1) by simp
    have out: "?pos + 1 \<le> int i" if "l \<le> int i" "key (svt ! i) = key v" for i
    proof (rule ccontr)
      assume "\<not> ?pos + 1 \<le> int i"
      then have "i \<le> nat ?pos" by auto
      from mono [OF this pos(3)] k that(2) show False by simp
    qed
    have step: "bsearch v svt l h = (if ?pos + 1 > h then False else bsearch v svt (?pos + 1) h)"
      using gt by (subst bsearch.simps) simp
    show ?thesis
    proof (cases "?pos + 1 > h")
      case True
      then show ?thesis unfolding step if_P [OF True] using out by force
    next
      case False
      have "bsearch v svt (?pos + 1) h \<longleftrightarrow> (\<exists>i. ?pos + 1 \<le> int i \<and> int i \<le> h \<and> key (svt ! i) = key v)"
        by (rule 1(1)) (use gt False 1(2-6) pos in auto)
      also have "\<dots> \<longleftrightarrow> (\<exists>i. l \<le> int i \<and> int i \<le> h \<and> key (svt ! i) = key v)" using out pos(1) by force
      finally show ?thesis unfolding step if_not_P [OF False] .
    qed
  qed
qed

lemma in_table_iff:
  assumes "sorted (map key svt)" "close (insert v (set svt))" "svt \<noteq> []"
  shows "in_table v svt \<longleftrightarrow> (\<exists>w \<in> set svt. key w = key v)"
proof -
  have "in_table v svt \<longleftrightarrow> (\<exists>i. 0 \<le> int i \<and> int i \<le> int (length svt) - 1 \<and> key (svt ! i) = key v)"
    unfolding in_table_def by (rule bsearch_spec [OF assms(1,2)]) (use assms(3) in \<open>auto simp: Suc_le_eq\<close>)
  also have "\<dots> \<longleftrightarrow> (\<exists>i < length svt. key (svt ! i) = key v)" by auto
  also have "\<dots> \<longleftrightarrow> (\<exists>w \<in> set svt. key w = key v)" unfolding set_conv_nth by blast
  finally show ?thesis .
qed

section \<open>The loops\<close>

text \<open>
  What is assumed of the string table: \<open>findstring\<close> gives the shared copy of a text, or nothing when
  no string of the table sorted has that text.
\<close>

definition finds :: "(32 word \<Rightarrow> 32 word) \<Rightarrow> (32 word \<Rightarrow> 32 word option) \<Rightarrow> svalue set \<Rightarrow> bool" where
  "finds mk fs S \<longleftrightarrow> (\<forall>u. fs u = Some (mk u) \<or> (fs u = None \<and> (\<forall>w \<in> S. \<not> (sv_type w = T_STRING \<and> sv_u w = mk u))))"

lemma key_shared_copy: "sv_type v = T_STRING \<Longrightarrow> key \<lparr>sv_type = T_STRING, sv_subtype = STRING_SHARED, sv_u = mk (sv_u v)\<rparr> = key (shared_copy mk v)"
  by (simp add: key_def shared_copy_def)

lemma subtract_loop_spec:
  "sorted (map key svt) \<Longrightarrow> svt \<noteq> [] \<Longrightarrow> finds mk fs (set svt) \<Longrightarrow> close (set svt \<union> set (nc mk s vs)) \<Longrightarrow>
    subtract_loop fs svt vs s = (kept, vs', s') \<Longrightarrow>
    kept = filter (\<lambda>v. \<not> (\<exists>w \<in> set svt. key w = key (normal mk v))) (map (clean s) vs) \<and> vs' = map (clean s) vs \<and> same_stats s s'
      \<and> arefs s' a = arefs s a + held_by kept a + held_by vs' a - held_by vs a"
proof (induction vs arbitrary: s kept vs')
  case (Cons v vs)
  let ?v = "clean s v"
  let ?s1 = "if is_destructed s v then add_refs (- 1) v s else s"
  have s1: "same_stats s ?s1" "arefs ?s1 a = arefs s a + held ?v a - held v a" by (auto simp: clean_def)
  define found where "found = (if unshared ?v then
      (case fs (sv_u ?v) of None \<Rightarrow> False
        | Some str \<Rightarrow> in_table \<lparr>sv_type = T_STRING, sv_subtype = STRING_SHARED, sv_u = str\<rparr> svt)
      else in_table ?v svt)"
  have cl: "close (insert (normal mk ?v) (set svt))" by (rule close_subset [OF Cons.prems(4)]) auto
  have tab: "in_table x svt \<longleftrightarrow> (\<exists>w \<in> set svt. key w = key (normal mk ?v))" if "key x = key (normal mk ?v)" for x
  proof -
    have "sv_u x = sv_u (normal mk ?v)" using that by (simp add: key_eq)
    then have "close (insert x (set svt))" using cl by (simp add: close_def)
    then show ?thesis using in_table_iff [OF Cons.prems(1) _ Cons.prems(2)] that by simp
  qed
  have found: "found \<longleftrightarrow> (\<exists>w \<in> set svt. key w = key (normal mk ?v))"
  proof (cases "unshared ?v")
    case True
    then have n: "normal mk ?v = shared_copy mk ?v" "sv_type ?v = T_STRING" by (simp_all add: normal_def unshared_def)
    show ?thesis
    proof (cases "fs (sv_u ?v)")
      case None
      then have "\<forall>w \<in> set svt. \<not> (sv_type w = T_STRING \<and> sv_u w = mk (sv_u ?v))"
        using Cons.prems(3) unfolding finds_def by (metis option.distinct(1))
      then have "\<not> (\<exists>w \<in> set svt. key w = key (normal mk ?v))" using n by (auto simp: key_eq shared_copy_def)
      then show ?thesis using True None by (simp add: found_def)
    next
      case (Some p)
      then have "p = mk (sv_u ?v)" using Cons.prems(3) unfolding finds_def by (metis option.distinct(1) option.inject)
      with Some True tab [OF key_shared_copy [OF n(2), of mk, folded n(1)]] show ?thesis by (simp add: found_def)
    qed
  next
    case False
    then show ?thesis using tab [of ?v] by (simp add: found_def normal_def)
  qed
  let ?s2 = "if found then ?s1 else add_refs 1 ?v ?s1"
  have s2: "same_stats s ?s2" "arefs ?s2 a = arefs s a + held ?v a - held v a + (if found then 0 else held ?v a)" using s1 by simp_all
  obtain k2 w2 s3 where l: "subtract_loop fs svt vs ?s2 = (k2, w2, s3)" by (cases "subtract_loop fs svt vs ?s2")
  have pair: "(if is_destructed s v then (const0, add_refs (- 1) v s) else (v, s)) = (?v, ?s1)" by (simp add: clean_def)
  have "subtract_loop fs svt (v # vs) s = (if found then k2 else ?v # k2, ?v # w2, s3)"
    unfolding subtract_loop.simps Let_def pair prod.case found_def [symmetric] l ..
  then have r: "kept = (if found then k2 else ?v # k2)" "vs' = ?v # w2" "s3 = s'" using Cons.prems(5) by simp_all
  have "nc mk ?s2 vs = nc mk s vs" by (rule fun_cong [OF same_stats_clean(3) [OF s2(1)]])
  then have "close (set svt \<union> set (nc mk ?s2 vs))" using Cons.prems(4) by (auto intro: close_subset)
  from Cons.IH [OF Cons.prems(1-3) this l [unfolded r(3)]] same_stats_clean(2) [OF s2(1)] s2 found show ?case
    unfolding r(1,2) by (auto simp: same_stats_def)
qed simp

text \<open>Two values are the same: equal type and bits, strings by their shared copies.\<close>

definition same_value :: "(32 word \<Rightarrow> 32 word) \<Rightarrow> svalue \<Rightarrow> svalue \<Rightarrow> bool" where
  "same_value mk v w \<longleftrightarrow> sv_type v = sv_type w \<and> sv_u (normal mk v) = sv_u (normal mk w)"

lemma same_value_key: "key (normal mk w) = key (normal mk v) \<longleftrightarrow> same_value mk v w"
  by (auto simp: key_eq same_value_def normal_def shared_copy_def)

text \<open>The values an array still holds, and whether it is still counted.\<close>

definition live :: "array \<Rightarrow> svalue list" where
  "live p = (if aref p = 0 then [] else item p)"

definition alive :: "array \<Rightarrow> int" where
  "alive p = (if aref p = 0 \<or> null p then 0 else 1)"

lemma free_array_spec:
  assumes "1 \<le> aref p" "\<not> null p" "free_array p s = (p', s')"
  shows "p' = p\<lparr>aref := aref p - 1\<rparr> \<and> arefs s' a = arefs s a - held_by (item p) a + held_by (live p') a
    \<and> num_arrays s' = num_arrays s - 1 + alive p' \<and> destructed s' = destructed s"
  using assms by (auto simp: free_array_def Let_def live_def alive_def split: if_splits)

lemma drop_array_spec:
  assumes "1 \<le> aref p" "\<not> null p" "drop_array p s = (p', s')"
  shows "p' = p\<lparr>aref := aref p - 1\<rparr> \<and> arefs s' = arefs s \<and> num_arrays s' = num_arrays s - 1 + alive p' \<and> destructed s' = destructed s"
  using assms by (auto simp: drop_array_def alive_def split: if_splits)

section \<open>Properties of subtraction\<close>

lemma subtract_array_spec:
  assumes "item m \<noteq> []" "item b \<noteq> []" "1 \<le> aref m" "1 \<le> aref b" "\<not> null m" "\<not> null b"
    and close: "close (set (nc mk s (item m)) \<union> set (nc mk s (item b)))" and fs: "finds mk fs (set (nc mk s (item b)))"
    and r: "subtract_array mk fs m b s = (r, m', b', s')"
  shows "item r = filter (\<lambda>v. \<not> (\<exists>w \<in> set (item b). same_value mk v (clean s w))) (map (clean s) (item m))"
    and "arefs s' a - held_by (live r) a - held_by (live m') a - held_by (live b') a = arefs s a - held_by (item m) a - held_by (item b) a"
    and "num_arrays s' - alive r - alive m' - alive b' = num_arrays s - 2"
proof -
  obtain svt b1 s1 where so: "alist_sort mk b s = (svt, b1, s1)" by (cases "alist_sort mk b s")
  have cb: "close (set (nc mk s (item b)))" by (rule close_subset [OF close]) simp
  from alist_sort_spec [OF cb so] obtain xs where
    xs: "svt = map Some xs" "mset xs = mset (nc mk s (item b))" "sorted (map key xs)" "same_stats s s1"
      "b1 = b\<lparr>item := (if aref b > 1 then map (clean s) (item b) else nc mk s (item b))\<rparr>"
    and ar1: "arefs s1 a = arefs s a + held_by xs a - held_by (item b) a + (if aref b > 1 then held_by (item b1) a else 0)" by blast
  have the: "map the svt = xs" by (simp add: xs(1) comp_def)
  have setxs: "set xs = set (nc mk s (item b))" using xs(2) by (metis set_mset_mset)
  have "length xs = length (item b)" using arg_cong [OF xs(2), of size] by simp
  then have ne: "xs \<noteq> []" using assms(2) by auto
  obtain kept ms s2 where lo: "subtract_loop fs xs (item m) s1 = (kept, ms, s2)" by (cases "subtract_loop fs xs (item m) s1")
  have c1: "close (set xs \<union> set (nc mk s1 (item m)))" using close unfolding setxs same_stats_clean(3) [OF xs(4)] by (simp add: Un_commute)
  have "finds mk fs (set xs)" using fs by (simp add: setxs)
  note l = subtract_loop_spec [OF xs(3) ne this c1 lo, of a]
  let ?s3 = "fold (add_refs (- 1)) (rev xs) s2"
  obtain b2 s4 where db: "drop_array b1 ?s3 = (b2, s4)" by (cases "drop_array b1 ?s3")
  obtain m2 s5 where fm: "free_array (m\<lparr>item := ms\<rparr>) s4 = (m2, s5)" by (cases "free_array (m\<lparr>item := ms\<rparr>) s4")
  obtain r0 s6 where na: "(if kept = [] then (the_null_array, s5) else new_array kept s5) = (r0, s6)" by fastforce
  have "subtract_array mk fs m b s = (r0, m2, b2, s6)"
    unfolding subtract_array_def if_not_P [OF assms(2)] if_not_P [OF assms(1)] so Let_def prod.case the lo db fm na ..
  then have res: "(if kept = [] then (the_null_array, s5) else new_array kept s5) = (r, s')" "m' = m2" "b' = b2"
    using r na by simp_all
  have rr: "item r = kept" "arefs s' = arefs s5" "num_arrays s' = num_arrays s5 + alive r" "aref r = 1"
    using res(1) by (auto simp: new_array_def the_null_array_def alive_def split: if_splits)
  have kept: "kept = filter (\<lambda>v. \<not> (\<exists>w \<in> set xs. key w = key (normal mk v))) (map (clean s) (item m))"
    using l same_stats_clean(2) [OF xs(4)] by simp
  have "(\<exists>w \<in> set xs. key w = key (normal mk v)) \<longleftrightarrow> (\<exists>w \<in> set (item b). same_value mk v (clean s w))" for v
    unfolding setxs nc_def by (simp add: same_value_key)
  then show "item r = filter (\<lambda>v. \<not> (\<exists>w \<in> set (item b). same_value mk v (clean s w))) (map (clean s) (item m))"
    using rr(1) kept by simp
  have b1: "1 \<le> aref b1" "\<not> null b1" "aref b1 = aref b" using assms(4,6) xs(5) by simp_all
  note bs = drop_array_spec [OF b1(1,2) db]
  note mspec = free_array_spec [of "m\<lparr>item := ms\<rparr>" s4 m2 s5 a]
  have mf: "m2 = m\<lparr>item := ms, aref := aref m - 1\<rparr>" "arefs s5 a = arefs s4 a - held_by ms a + held_by (live m2) a" "num_arrays s5 = num_arrays s4 - 1 + alive m2"
    using mspec assms(3,5) fm by simp_all
  have lb: "held_by (live b2) a = (if aref b > 1 then held_by (item b1) a else 0)"
    using bs b1(3) assms(4) by (auto simp: live_def)
  show "arefs s' a - held_by (live r) a - held_by (live m') a - held_by (live b') a = arefs s a - held_by (item m) a - held_by (item b) a"
    using rr mf(2) bs l ar1 lb res(2,3) by (simp add: live_def [of r])
  show "num_arrays s' - alive r - alive m' - alive b' = num_arrays s - 2"
    using rr(3) mf(3) bs l xs(4) res(2,3) by (simp add: same_stats_def)
qed


section \<open>Properties of intersection\<close>

lemma skip_smaller_spec:
  "close (insert v (set svt)) \<Longrightarrow> svt \<noteq> [] \<Longrightarrow>
    case skip_smaller v svt of
      None \<Rightarrow> \<forall>w \<in> set svt. key w < key v
    | Some svt' \<Rightarrow> svt' \<noteq> [] \<and> key v \<le> key (hd svt') \<and> (\<exists>pre. svt = pre @ svt' \<and> (\<forall>w \<in> set pre. key w < key v))"
proof (induction svt)
  case (Cons w ws)
  have c: "alist_cmp v w > 0 \<longleftrightarrow> key w < key v" using alist_cmp_key(1) [OF Cons.prems(1), of v w] by simp
  show ?case
  proof (cases "key w < key v")
    case False
    then show ?thesis using c by simp
  next
    case lt: True
    show ?thesis
    proof (cases "ws = []")
      case True
      then show ?thesis using c lt by simp
    next
      case False
      have "close (insert v (set ws))" by (rule close_subset [OF Cons.prems(1)]) auto
      from Cons.IH [OF this False] show ?thesis
        using c lt False by (cases "skip_smaller v ws") (auto intro: exI [of _ "w # _"])
    qed
  qed
qed simp

definition held_in :: "svalue multiset \<Rightarrow> 32 word \<Rightarrow> int" where
  "held_in M a = (\<Sum>v \<in># M. held v a)"

lemma held_in_simps [simp]: "held_in {#} a = 0" "held_in (add_mset v M) a = held v a + held_in M a" "held_in (mset vs) a = held_by vs a"
  by (simp_all add: held_in_def held_by_def sum_mset_sum_list flip: mset_map)

lemma merge_spec:
  "opt_heap tab \<Longrightarrow> close (set_mset (vals tab) \<union> set svt) \<Longrightarrow> sorted (map key svt) \<Longrightarrow> svt \<noteq> [] \<Longrightarrow> size (vals tab) = j \<Longrightarrow>
    merge j svt tab s = (l, tab', s') \<Longrightarrow>
    mset l = filter_mset (\<lambda>v. \<exists>w \<in> set svt. key w = key v) (vals tab) \<and> sorted (map key l) \<and> same_stats s s'
      \<and> arefs s' a = arefs s a - held_in (vals tab) a + held_by l a + held_in (vals tab') a"
proof (induction j arbitrary: svt tab s l)
  case 0
  then show ?case by auto
next
  case (Suc j)
  then have "vals tab \<noteq> {#}" by auto
  from root_vals [OF Suc.prems(1) this] obtain v where
    v: "0 < length tab" "tab ! 0 = Some v" "v \<in># vals tab" "\<forall>x \<in># vals tab. key v \<le> key x" by blast
  have cv: "close (insert v (set svt))" by (rule close_subset [OF Suc.prems(2)]) (use v(3) in auto)
  note sk = skip_smaller_spec [OF cv Suc.prems(4)]
  show ?case
  proof (cases "skip_smaller v svt")
    case None
    then have lt: "\<forall>w \<in> set svt. key w < key v" using sk by simp
    then have "filter_mset (\<lambda>v. \<exists>w \<in> set svt. key w = key v) (vals tab) = {#}" using v(4) by (force simp: filter_mset_eq_conv)
    then show ?thesis using Suc.prems(6) None v(2) by simp
  next
    case (Some svt')
    then obtain pre where p: "svt' \<noteq> []" "key v \<le> key (hd svt')" "svt = pre @ svt'" "\<forall>w \<in> set pre. key w < key v" using sk by auto
    have cl: "close (set_mset (vals tab))" by (rule close_subset [OF Suc.prems(2)]) simp
    from sift_out_spec [OF Suc.prems(1) cl v(1,2)] have
      s: "opt_heap (sift_out 0 tab)" "add_mset v (vals (sift_out 0 tab)) = vals tab" by auto
    let ?c = "alist_cmp v (hd svt') = 0"
    have hd_in: "hd svt' \<in> set svt" using p(1,3) by simp
    have ceq: "?c \<longleftrightarrow> key v = key (hd svt')" using alist_cmp_key(3) [OF cv, of v "hd svt'"] hd_in by simp
    have sorted': "sorted (map key svt')" using Suc.prems(3) p(3) by (simp add: sorted_append)
    have mem: "?c \<longleftrightarrow> (\<exists>w \<in> set svt. key w = key v)"
    proof
      assume "\<exists>w \<in> set svt. key w = key v"
      then obtain w where w: "w \<in> set svt'" "key w = key v" using p(3,4) by force
      then have "key (hd svt') \<le> key w" using sorted' p(1) by (cases svt') auto
      then show ?c using ceq p(2) w(2) by simp
    qed (use ceq hd_in in auto)
    let ?s1 = "if ?c then s else add_refs (- 1) v s"
    obtain l2 t2 s2 where m: "merge j svt' (sift_out 0 tab) ?s1 = (l2, t2, s2)" by (cases "merge j svt' (sift_out 0 tab) ?s1")
    have "merge (Suc j) svt tab s = (if ?c then v # l2 else l2, t2, s2)"
      by (simp add: v(2) Some Let_def m)
    then have r: "l = (if ?c then v # l2 else l2)" "t2 = tab'" "s2 = s'" using Suc.prems(6) by simp_all
    have sub: "set_mset (vals (sift_out 0 tab)) \<subseteq> set_mset (vals tab)" using arg_cong [OF s(2), of set_mset] by auto
    have c2: "close (set_mset (vals (sift_out 0 tab)) \<union> set svt')" by (rule close_subset [OF Suc.prems(2)]) (use sub p(3) in auto)
    have "size (vals (sift_out 0 tab)) = j" using arg_cong [OF s(2), of size] Suc.prems(5) by simp
    note ih = Suc.IH [OF s(1) c2 sorted' p(1) this m [unfolded r(2,3)]]
    have "(\<exists>w \<in> set svt'. key w = key x) \<longleftrightarrow> (\<exists>w \<in> set svt. key w = key x)" if "x \<in># vals (sift_out 0 tab)" for x
      using v(4) sub that p(3,4) by force
    then have f: "mset l2 = filter_mset (\<lambda>v. \<exists>w \<in> set svt. key w = key v) (vals (sift_out 0 tab))"
      using ih by (simp cong: filter_mset_cong)
    have least: "\<forall>x \<in> set l2. key v \<le> key x" using f v(4) sub by (metis (no_types, lifting) filter_mset_eq_conv mset_subset_eqD set_mset_mset multiset_filter_subset subsetD)
    have h: "held_in (vals tab) a = held v a + held_in (vals (sift_out 0 tab)) a" using arg_cong [OF s(2), of "\<lambda>M. held_in M a"] by simp
    have fv: "filter_mset (\<lambda>v. \<exists>w \<in> set svt. key w = key v) (vals tab) = (if ?c then add_mset v (mset l2) else mset l2)"
      unfolding s(2) [symmetric] f by (simp add: mem)
    show ?thesis unfolding fv r(1) using ih h least by (cases ?c) auto
  qed
qed

lemma vals_rest: "held_by (map the (filter (\<lambda>v. v \<noteq> None) tab)) a = held_in (vals tab) a"
  by (simp only: vals_def held_in_simps(3))

lemma intersect_array_spec:
  assumes "item a1 \<noteq> []" "item a2 \<noteq> []" "1 \<le> aref a1" "1 \<le> aref a2" "\<not> null a1" "\<not> null a2"
    and close: "close (set (nc mk s (item a1)) \<union> set (nc mk s (item a2)))"
    and r: "intersect_array mk a1 a2 s = (r, b1, b2, s')"
  shows "mset (item r) = filter_mset (\<lambda>v. \<exists>w \<in> set (nc mk s (item a1)). key w = key v) (mset (nc mk s (item a2)))"
    and "sorted (map key (item r))"
    and "arefs s' a - held_by (live r) a - held_by (live b1) a - held_by (live b2) a = arefs s a - held_by (item a1) a - held_by (item a2) a"
    and "num_arrays s' - alive r - alive b1 - alive b2 = num_arrays s - 2"
proof -
  obtain svt c1 s1 where so: "alist_sort mk a1 s = (svt, c1, s1)" by (cases "alist_sort mk a1 s")
  have ca: "close (set (nc mk s (item a1)))" by (rule close_subset [OF close]) simp
  from alist_sort_spec [OF ca so] obtain xs where
    xs: "svt = map Some xs" "mset xs = mset (nc mk s (item a1))" "sorted (map key xs)" "same_stats s s1"
      "c1 = a1\<lparr>item := (if aref a1 > 1 then map (clean s) (item a1) else nc mk s (item a1))\<rparr>"
    and ar1: "arefs s1 a = arefs s a + held_by xs a - held_by (item a1) a + (if aref a1 > 1 then held_by (item c1) a else 0)" by blast
  have the: "map the svt = xs" by (simp add: xs(1) comp_def)
  have setxs: "set xs = set (nc mk s (item a1))" using xs(2) by (metis set_mset_mset)
  have "length xs = length (item a1)" using arg_cong [OF xs(2), of size] by simp
  then have ne: "xs \<noteq> []" using assms(1) by auto
  obtain tab items s2 where h: "alist_heap mk (aref a2 > 1) (item a2) [] s1 = (tab, items, s2)"
    by (cases "alist_heap mk (aref a2 > 1) (item a2) [] s1")
  have nc1: "nc mk s1 = nc mk s" by (rule same_stats_clean(3) [OF xs(4)])
  have "close (set [] \<union> set (nc mk s1 (item a2)))" unfolding nc1 by (rule close_subset [OF close]) simp
  note hs = alist_heap_spec [OF heap_empty this h, of a, unfolded nc1]
  let ?a2 = "a2\<lparr>item := items\<rparr>"
  have len2: "length items = length (item a2)" using hs by (cases "1 < aref a2") simp_all
  obtain l tab2 s3 where me: "merge (length (item ?a2)) xs (map Some tab) s2 = (l, tab2, s3)"
    by (cases "merge (length (item ?a2)) xs (map Some tab) s2")
  have mt: "mset tab = mset (nc mk s (item a2))" using hs by simp
  have vt: "vals (map Some tab) = mset (nc mk s (item a2))" using mt by (simp add: vals_Some)
  have "close (set_mset (vals (map Some tab)) \<union> set xs)" using close unfolding vt setxs by (simp add: Un_commute)
  moreover have "size (vals (map Some tab)) = length (item ?a2)" unfolding vt by (simp add: len2)
  ultimately have ms: "mset l = filter_mset (\<lambda>v. \<exists>w \<in> set xs. key w = key v) (vals (map Some tab))" "sorted (map key l)" "same_stats s2 s3"
      "arefs s3 a = arefs s2 a - held_in (vals (map Some tab)) a + held_by l a + held_in (vals tab2) a"
    using merge_spec [OF heap_opt_heap _ xs(3) ne _ me, of a] hs by simp_all
  let ?s4 = "fold (add_refs (- 1)) (rev (map the (filter (\<lambda>v. v \<noteq> None) tab2))) s3"
  let ?s5 = "fold (add_refs (- 1)) (rev xs) ?s4"
  obtain d1 s6 where d1: "drop_array c1 ?s5 = (d1, s6)" by (cases "drop_array c1 ?s5")
  obtain d2 s7 where d2: "drop_array ?a2 s6 = (d2, s7)" by (cases "drop_array ?a2 s6")
  obtain r0 s8 where na: "new_array l s7 = (r0, s8)" by (cases "new_array l s7")
  have cond: "\<not> (item a1 = [] \<or> item a2 = [])" using assms(1,2) by simp
  have "intersect_array mk a1 a2 s = (r0, d1, d2, s8)"
    unfolding intersect_array_def if_not_P [OF cond] so Let_def prod.case the h me d1 d2 na ..
  then have res: "r = r0" "b1 = d1" "b2 = d2" "s' = s8" using r by simp_all
  have rr: "item r = l" "arefs s' = arefs s7" "num_arrays s' = num_arrays s7 + 1" "alive r = 1" "live r = l"
    using na res by (auto simp: new_array_def alive_def live_def)
  show "mset (item r) = filter_mset (\<lambda>v. \<exists>w \<in> set (nc mk s (item a1)). key w = key v) (mset (nc mk s (item a2)))"
    using ms(1) unfolding rr(1) setxs vt .
  show "sorted (map key (item r))" using ms(2) rr(1) by simp
  have c1: "1 \<le> aref c1" "\<not> null c1" "aref c1 = aref a1" using assms(3,5) xs(5) by simp_all
  note d1s = drop_array_spec [OF c1(1,2) d1]
  have d2s: "d2 = ?a2\<lparr>aref := aref a2 - 1\<rparr>" "arefs s7 = arefs s6" "num_arrays s7 = num_arrays s6 - 1 + alive d2"
    using drop_array_spec [OF _ _ d2] assms(4,6) by simp_all
  have l1: "held_by (live d1) a = (if aref a1 > 1 then held_by (item c1) a else 0)" using d1s c1(3) assms(3) by (auto simp: live_def)
  have l2: "held_by (live d2) a = (if aref a2 > 1 then held_by items a else 0)" using d2s(1) assms(4) by (auto simp: live_def)
  have s5: "arefs ?s5 a = arefs s3 a - held_in (vals tab2) a - held_by xs a"
    by (simp only: add_refs_list held_by_simps vals_rest)
  have s6: "arefs s6 a = arefs ?s5 a" "num_arrays s6 = num_arrays ?s5 - 1 + alive d1" using d1s by simp_all
  have hi: "held_in (vals (map Some tab)) a = held_by (nc mk s (item a2)) a" unfolding vt by simp
  show "arefs s' a - held_by (live r) a - held_by (live b1) a - held_by (live b2) a = arefs s a - held_by (item a1) a - held_by (item a2) a"
    unfolding rr(2,5) res(2,3) d2s(2) s6(1) s5 ms(4) hi l1 l2 using hs ar1 by (cases "1 < aref a2") simp_all
  show "num_arrays s' - alive r - alive b1 - alive b2 = num_arrays s - 2"
    using rr(3,4) s6(2) d2s(3) ms(3) hs xs(4) res(2,3) by (simp add: same_stats_def)
qed


section \<open>Values too far apart\<close>

definition number :: "32 word \<Rightarrow> svalue" where
  "number n = \<lparr>sv_type = T_NUMBER, sv_subtype = 0, sv_u = n\<rparr>"

definition numbers :: "32 word list \<Rightarrow> array" where
  "numbers ns = \<lparr>null = False, aref = 1, item = map number ns\<rparr>"

definition empty_state :: array_state where
  "empty_state = \<lparr>num_arrays = 2, total_array_size = 0, arefs = (\<lambda>_. 0), destructed = {}\<rparr>"

text \<open>The comparison of two numbers subtracts them and overflows: subtracting an array that holds
  the smallest integer and 0 from one that holds 0 does not remove the 0.\<close>

theorem overflow_keeps_common_value:
  "item (fst (subtract_array mk fs (numbers [0]) (numbers [0x80000000, 0]) empty_state)) = [number 0]"
proof -
  let ?M = "number 0x80000000" and ?Z = "number 0"
  have u: "\<not> unshared (number n)" "\<not> is_destructed s (number n)" for n s
    by (simp_all add: unshared_def is_destructed_def number_def T_NUMBER_def T_STRING_def T_OBJECT_def)
  have c: "alist_cmp ?M ?Z = - (2 ^ 31)" "alist_cmp ?Z ?M = - (2 ^ 31)"
    by (simp_all add: alist_cmp_def number_def)
  have b: "item (numbers [0x80000000, 0]) = [?M, ?Z]" "item (numbers [0]) = [?Z]" "aref (numbers ns) = 1" "\<not> null (numbers ns)" for ns
    by (simp_all add: numbers_def)
  have up: "sift_up 0 ?M [?M] = [?M]" "sift_up 1 ?Z [?M, ?Z] = [?M, ?Z]"
    using c(1) by (simp_all add: sift_up.simps)
  have heap: "alist_heap mk False [?M, ?Z] [] s = ([?M, ?Z], [?M, ?Z], s)" for s
    using up by (simp add: alist_item_def u)
  have out: "sift_out 0 [Some ?M, Some ?Z] = [Some ?Z, None]"
    by (simp add: sift_out.simps smaller_child_def)
  have dr: "drain (length [?M, ?Z]) (map Some [?M, ?Z]) = [Some ?M, Some ?Z]"
    using out by simp
  have flag: "(1 < aref (numbers ns)) = False" for ns by (simp add: b(3))
  have sort: "alist_sort mk (numbers [0x80000000, 0]) s = ([Some ?M, Some ?Z], numbers [0x80000000, 0], s)" for s
    unfolding alist_sort_def flag b(1) heap Let_def prod.case dr by (simp add: numbers_def)
  have search: "\<not> in_table ?Z [?M, ?Z]" using c(2) by (simp add: in_table_def bsearch.simps [of _ _ 0 1])
  have loop: "subtract_loop fs [?M, ?Z] [?Z] s = ([?Z], [?Z], add_refs 1 ?Z s)" for s
    using search by (simp add: u)
  have ne: "[?M, ?Z] \<noteq> []" "[?Z] \<noteq> []" and th: "map the [Some ?M, Some ?Z] = [?M, ?Z]" by simp_all
  show ?thesis
    unfolding subtract_array_def b(1,2) sort Let_def prod.case th if_not_P [OF ne(1)] if_not_P [OF ne(2)] loop
    by (simp add: new_array_def split: prod.split)
qed

section \<open>Witnesses\<close>

lemma nc_numbers: "nc mk empty_state (map number ns) = map number ns" "map (clean empty_state) (map number ns) = map number ns"
  by (simp_all add: nc_def clean_def normal_def is_destructed_def unshared_def empty_state_def number_def T_NUMBER_def T_STRING_def)

lemma close_numbers: "(\<forall>n \<in> set ns. 0 \<le> sint n \<and> sint n < 1000) \<Longrightarrow> close (set (map number ns))"
proof -
  assume n: "\<forall>n \<in> set ns. 0 \<le> sint n \<and> sint n < 1000"
  have "\<bar>sint a - sint b\<bar> < 2 ^ 31" if "a \<in> set ns" "b \<in> set ns" for a b
    using bspec [OF n that(1)] bspec [OF n that(2)] by (simp add: abs_less_iff)
  then show ?thesis by (auto simp: close_def number_def)
qed



end
