(* ===== verification/Explode.thy ===== *)
theory Explode
  imports Save_Restore "HOL-Library.Sublist"
begin

text \<open>
  Splitting a string into an array and joining an array into a string (\<open>explode_string\<close> and
  \<open>implode_string\<close> of \<open>array.c\<close>, with \<open>SANE_EXPLODE_STRING\<close>). Strings hold no zero character.
  An array is the list of its places, \<open>None\<close> being a place that was never written; a write outside
  of it is the outcome \<open>Overflow\<close>, and \<open>fatal\<close> the outcome \<open>Fatal\<close>.
\<close>

datatype 'r exploded = Exploded "'r lpc option list" | Overflow | Fatal

section \<open>Splitting\<close>

text \<open>The counting loop; \<open>lastdel\<close> is how much of the string is left from the last delimiter on.\<close>

function count_dels :: "string \<Rightarrow> nat \<Rightarrow> nat option \<Rightarrow> string \<Rightarrow> nat \<times> nat option" where
  "count_dels del num lastdel [] = (num, lastdel)"
| "count_dels del num lastdel (c # p) =
     (if del \<noteq> [] \<and> prefix del (c # p)
      then count_dels del (num + 1) (Some (length (c # p))) (drop (length del) (c # p))
      else count_dels del num lastdel p)"
  by pat_completeness auto
termination by (relation "measure (\<lambda>(del, _, _, p). length p)") auto

text \<open>
  The splitting loop: \<open>k\<close> is \<open>limit - num\<close>, \<open>cur\<close> the text from \<open>beg\<close> to \<open>p\<close>. The result is what
  is stored and the text from \<open>beg\<close> at the end.
\<close>

function split_dels :: "string \<Rightarrow> nat \<Rightarrow> string \<Rightarrow> string \<Rightarrow> string list \<times> string" where
  "split_dels del k cur [] = ([], cur)"
| "split_dels del 0 cur (c # p) = ([], cur @ c # p)"
| "split_dels del (Suc k) cur (c # p) =
     (if del \<noteq> [] \<and> prefix del (c # p)
      then (let (fs, r) = split_dels del k [] (drop (length del) (c # p)) in (cur # fs, r))
      else split_dels del (Suc k) (cur @ [c]) p)"
  by pat_completeness auto
termination by (relation "measure (\<lambda>(del, _, _, p). length p)") auto

definition store :: "nat \<Rightarrow> string list \<Rightarrow> 'r exploded" where
  "store n ws =
     (if length ws > n then Overflow else Exploded (map (\<lambda>w. Some (Str w)) ws @ replicate (n - length ws) None))"

text \<open>The leading delimiter is skipped once.\<close>

definition skip_leading :: "string \<Rightarrow> string \<Rightarrow> string" where
  "skip_leading del str = (if prefix del str then drop (length del) str else str)"

definition explode_char :: "nat \<Rightarrow> string \<Rightarrow> string \<Rightarrow> 'r exploded" where
  "explode_char M str del =
     (let s = skip_leading del str in
      if s = [] then Exploded []
      else
        (let (num, lastdel) = count_dels del 0 None s;
             trailing = (lastdel \<noteq> Some 1);
             limit = (if trailing then M - 1 else M);
             num = (if trailing then num + 1 else num);
             num = min num M;
             (fs, rest) = split_dels del limit [] s
         in store num (if rest \<noteq> [] then fs @ [rest] else fs)))"

definition explode_long :: "nat \<Rightarrow> string \<Rightarrow> string \<Rightarrow> 'r exploded" where
  "explode_long M str del =
     (let s = skip_leading del str in
      if s = [] then Exploded []
      else
        (let (num, lastdel) = count_dels del 0 None s;
             num = (if length s \<le> length del \<or> lastdel \<noteq> Some (length del) then num + 1 else num);
             num = min num M;
             (fs, rest) = split_dels del (M - 1) [] s
         in if length fs > num then Fatal else store num (if rest \<noteq> [] then fs @ [rest] else fs)))"

definition explode_string :: "nat \<Rightarrow> string \<Rightarrow> string \<Rightarrow> 'r exploded" where
  "explode_string M str del =
     (if str = [] then Exploded []
      else if del = [] then Exploded (map (\<lambda>c. Some (Str [c])) (take M str))
      else if length del = 1 then explode_char M str del
      else explode_long M str del)"

section \<open>Joining\<close>

text \<open>The two passes: the size of the block allocated, and copying; \<open>None\<close> is writing past the block.\<close>

fun implode_size :: "'r lpc list \<Rightarrow> nat \<times> nat" where
  "implode_size [] = (0, 0)"
| "implode_size (v # vs) =
     (let (n, num) = implode_size vs in
      case v of Str s \<Rightarrow> (n + length s, num + 1) | _ \<Rightarrow> (n, num))"

fun implode_copy :: "string \<Rightarrow> nat \<Rightarrow> string \<Rightarrow> 'r lpc list \<Rightarrow> string" where
  "implode_copy del num p [] = p"
| "implode_copy del num p (v # vs) =
     (case v of
        Str s \<Rightarrow> implode_copy del (num + 1) ((if num \<noteq> 0 then p @ del else p) @ s) vs
      | _ \<Rightarrow> implode_copy del num p vs)"

definition implode_string :: "'r lpc list \<Rightarrow> string \<Rightarrow> string option" where
  "implode_string arr del =
     (let (n, num) = implode_size arr in
      if num = 0 then Some []
      else
        (let p = implode_copy del 0 [] arr in
         if length p \<le> n + (num - 1) * length del then Some p else None))"

section \<open>The reference\<close>

text \<open>The text between the delimiters, taken from the left, without overlaps; never empty.\<close>

function fields :: "string \<Rightarrow> string \<Rightarrow> string list" where
  "fields del [] = [[]]"
| "fields del (c # p) =
     (if del \<noteq> [] \<and> prefix del (c # p) then [] # fields del (drop (length del) (c # p))
      else (case fields del p of [] \<Rightarrow> [[c]] | f # fs \<Rightarrow> (c # f) # fs))"
  by pat_completeness auto
termination by (relation "measure (\<lambda>(del, p). length p)") auto

definition drop_last_empty :: "string list \<Rightarrow> string list" where
  "drop_last_empty fs = (if last fs = [] then butlast fs else fs)"

definition explode_spec :: "string \<Rightarrow> string \<Rightarrow> string list" where
  "explode_spec del str = drop_last_empty (fields del (skip_leading del str))"

lemma fields_ne [simp]: "fields del p \<noteq> []"
  by (induction del p rule: fields.induct) (auto split: list.split)

text \<open>The first field with something in front of it.\<close>

definition push_front :: "string \<Rightarrow> string list \<Rightarrow> string list" where
  "push_front cur fs = (case fs of [] \<Rightarrow> [cur] | f # fs \<Rightarrow> (cur @ f) # fs)"

lemma push_front_simps [simp]: "push_front cur (f # fs) = (cur @ f) # fs" "push_front [] fs = (if fs = [] then [[]] else fs)"
  by (simp_all add: push_front_def split: list.split)

lemma push_front_ne [simp]: "push_front cur fs \<noteq> []"
  by (simp add: push_front_def split: list.split)

lemma fields_Cons: "del \<noteq> [] \<and> prefix del (c # p) \<Longrightarrow> fields del (c # p) = [] # fields del (drop (length del) (c # p))"
  "\<not> (del \<noteq> [] \<and> prefix del (c # p)) \<Longrightarrow> fields del (c # p) = push_front [c] (fields del p)"
  using fields_ne [of del p] by (auto simp: push_front_def split: list.split)

declare fields.simps(2) [simp del]

lemma push_front_append: "fs \<noteq> [] \<Longrightarrow> push_front cur (push_front x fs) = push_front (cur @ x) fs"
  by (cases fs) auto

lemma length_push_front: "fs \<noteq> [] \<Longrightarrow> length (push_front x fs) = length fs"
  by (cases fs) auto

lemma split_dels_0: "split_dels del 0 cur p = ([], cur @ p)"
  by (cases p) simp_all

lemma length_fields_delim:
  assumes "del \<noteq> [] \<and> prefix del (c # p)"
  shows "1 < length (fields del (c # p))"
  using assms by (simp add: fields_Cons(1))

lemma fields_single: "length (fields del p) = 1 \<Longrightarrow> fields del p = [p]"
proof (induction del p rule: fields.induct)
  case (2 del c p)
  then have no: "\<not> (del \<noteq> [] \<and> prefix del (c # p))" using length_fields_delim [of del c p] by auto
  then have "length (fields del p) = 1" using 2(3) by (simp add: fields_Cons(2) length_push_front)
  then have "fields del p = [p]" using 2(2) no by simp
  then show ?case using no by (simp add: fields_Cons(2))
qed simp

lemma split_dels_fields:
  "length (fields del p) \<le> Suc k \<Longrightarrow>
    split_dels del k cur p = (butlast (push_front cur (fields del p)), last (push_front cur (fields del p)))"
proof (induction del k cur p rule: split_dels.induct)
  case (2 del cur c p)
  then have "length (fields del (c # p)) = 1" by (metis One_nat_def Suc_leI fields_ne le_antisym length_greater_0_conv)
  from fields_single [OF this] show ?case by simp
next
  case (3 del k cur c p)
  show ?case
  proof (cases "del \<noteq> [] \<and> prefix del (c # p)")
    case True
    then show ?thesis using 3 fields_ne [of del "drop (length del) (c # p)"] by (simp add: fields_Cons(1) [OF True])
  next
    case False
    then have "split_dels del (Suc k) cur (c # p) = split_dels del (Suc k) (cur @ [c]) p"
      by (simp only: split_dels.simps if_False)
    then show ?thesis using 3(2) [OF False] 3(3)
      by (simp add: fields_Cons(2) [OF False] push_front_append length_push_front)
  qed
qed simp

lemma last_push_front: "fs \<noteq> [] \<Longrightarrow> last (push_front x fs) = (if length fs = 1 then x @ last fs else last fs)"
  by (cases fs) auto

lemma count_dels_fields:
  "count_dels del num ld p =
     (num + (length (fields del p) - 1),
      if length (fields del p) = 1 then ld else Some (length del + length (last (fields del p))))"
proof (induction del num ld p rule: count_dels.induct)
  case (2 del num ld c p)
  show ?case
  proof (cases "del \<noteq> [] \<and> prefix del (c # p)")
    case True
    let ?r = "drop (length del) (c # p)"
    have len: "length (c # p) = length del + length ?r" using True by (metis add_diff_inverse_nat length_drop not_less prefix_length_le)
    have one: "length (fields del ?r) = 1 \<Longrightarrow> last (fields del ?r) = ?r" using fields_single [of del ?r] by simp
    have pos: "0 < length (fields del ?r)" by simp
    show ?thesis using 2(1) [OF True] True len one pos by (auto simp: fields_Cons(1))
  next
    case False
    then have "count_dels del num ld (c # p) = count_dels del num ld p" by (simp only: count_dels.simps if_False)
    then show ?thesis using 2(2) [OF False]
      by (simp add: fields_Cons(2) [OF False] length_push_front last_push_front)
  qed
qed simp

lemma split_dels_more:
  "Suc k < length (fields del p) \<Longrightarrow> length (fst (split_dels del k cur p)) = k \<and> snd (split_dels del k cur p) \<noteq> []"
proof (induction del k cur p rule: split_dels.induct)
  case (3 del k cur c p)
  show ?case
  proof (cases "del \<noteq> [] \<and> prefix del (c # p)")
    case True
    then show ?thesis using 3 by (simp add: fields_Cons(1) [OF True] split_beta)
  next
    case False
    then have "split_dels del (Suc k) cur (c # p) = split_dels del (Suc k) (cur @ [c]) p"
      by (simp only: split_dels.simps if_False)
    then show ?thesis using 3(2) [OF False] 3(3) by (simp add: fields_Cons(2) [OF False] length_push_front)
  qed
qed simp_all

section \<open>Splitting meets the reference\<close>

definition written :: "string list \<Rightarrow> 'r exploded" where
  "written ws = Exploded (map (\<lambda>w. Some (Str w)) ws)"

lemma store_written: "store (length ws) ws = written ws"
  by (simp add: store_def written_def)

lemma drop_last_empty_append: "fs \<noteq> [] \<Longrightarrow>
    drop_last_empty fs = (if last fs \<noteq> [] then butlast fs @ [last fs] else butlast fs)"
  by (simp add: drop_last_empty_def)

lemma length_drop_last_empty: "fs \<noteq> [] \<Longrightarrow>
    length (drop_last_empty fs) = (if last fs = [] then length fs - 1 else length fs)"
  by (simp add: drop_last_empty_def)

lemma last_fields_single: "p \<noteq> [] \<Longrightarrow> last (fields del p) = [] \<Longrightarrow> 1 < length (fields del p)"
  using fields_single [of del p] by (cases "length (fields del p) = 1") (simp_all add: Suc_lessI)

lemma explode_char_written:
  assumes "length del = 1" "skip_leading del str \<noteq> []" "length (explode_spec del str) \<le> M"
  shows "explode_char M str del = written (explode_spec del str)"
proof -
  define s F where "s = skip_leading del str" and "F = fields del s"
  have ne: "s \<noteq> []" "F \<noteq> []" and pos: "0 < length F" using assms(2) by (simp_all add: s_def F_def)
  have spec: "explode_spec del str = drop_last_empty F" by (simp add: explode_spec_def s_def F_def)
  have "(if length F = 1 then None else Some (length del + length (last F))) \<noteq> Some 1 \<longleftrightarrow> last F \<noteq> []"
    using last_fields_single [OF ne(1), of del] assms(1) by (auto simp: F_def)
  then have count: "count_dels del 0 None s = (length F - 1, if length F = 1 then None else Some (length del + length (last F)))"
      "(if length F = 1 then None else Some (length del + length (last F))) \<noteq> Some 1 \<longleftrightarrow> last F \<noteq> []"
    by (simp_all add: count_dels_fields F_def)
  let ?k = "if last F \<noteq> [] then M - 1 else M"
  have len: "length (drop_last_empty F) = (if last F = [] then length F - 1 else length F)"
    by (rule length_drop_last_empty [OF ne(2)])
  have "length F \<le> Suc ?k" using len assms(3) by (auto simp: spec split: if_splits)
  then have split: "split_dels del ?k [] s = (butlast F, last F)"
    using split_dels_fields [of del s ?k "[]"] ne by (simp add: F_def)
  have "min (if last F \<noteq> [] then length F - 1 + 1 else length F - 1) M = length (drop_last_empty F)"
    using len assms(3) pos by (auto simp: spec split: if_splits)
  then show ?thesis using ne split
    unfolding explode_char_def s_def [symmetric] Let_def count prod.case spec
    by (simp add: drop_last_empty_append store_written del: append_butlast_last_id)
qed

lemma explode_long_written:
  assumes "1 < length del" "skip_leading del str \<noteq> []" "length (fields del (skip_leading del str)) \<le> M"
    "skip_leading del str \<noteq> del"
  shows "explode_long M str del = written (explode_spec del str)"
proof -
  define s F where "s = skip_leading del str" and "F = fields del s"
  have ne: "s \<noteq> []" "F \<noteq> []" and pos: "0 < length F" using assms(2) by (simp_all add: s_def F_def)
  have spec: "explode_spec del str = drop_last_empty F" by (simp add: explode_spec_def s_def F_def)
  have ld: "(if length F = 1 then None else Some (length del + length (last F))) \<noteq> Some (length del) \<longleftrightarrow> last F \<noteq> []"
    using last_fields_single [OF ne(1), of del] by (auto simp: F_def)
  have count: "count_dels del 0 None s = (length F - 1, if length F = 1 then None else Some (length del + length (last F)))"
    by (simp add: count_dels_fields F_def)
  have short: "last F \<noteq> []" if le: "length s \<le> length del"
  proof
    assume "last F = []"
    then have "1 < length F" using last_fields_single [OF ne(1), of del] by (simp add: F_def)
    moreover have "length (fields del q) = 1" if "length q \<le> length del" "q \<noteq> del" for q
      using that
    proof (induction q)
      case (Cons c q)
      then have "\<not> (del \<noteq> [] \<and> prefix del (c # q))"
        by (metis append_eq_conv_conj drop_all prefixE self_append_conv)
      then show ?case using Cons by (cases "q = del") (auto simp: fields_Cons(2) length_push_front)
    qed simp
    ultimately show False using le assms(4) by (simp add: F_def s_def)
  qed
  have len: "length (drop_last_empty F) = (if last F = [] then length F - 1 else length F)"
    by (rule length_drop_last_empty [OF ne(2)])
  have M: "length F \<le> M" using assms(3) by (simp add: F_def s_def)
  have split: "split_dels del (M - 1) [] s = (butlast F, last F)"
    using split_dels_fields [of del s "M - 1" "[]"] ne M pos by (simp add: F_def)
  have "min (if length s \<le> length del \<or> last F \<noteq> [] then length F - 1 + 1 else length F - 1) M = length (drop_last_empty F)"
    using len M pos short by auto
  moreover have "\<not> length (drop_last_empty F) < length (butlast F)" using len by auto
  ultimately show ?thesis using ne split
    unfolding explode_long_def s_def [symmetric] Let_def count prod.case ld spec
    by (simp add: drop_last_empty_append store_written del: append_butlast_last_id)
qed

lemma explode_spec_Nil: "skip_leading del str = [] \<Longrightarrow> explode_spec del str = []"
  by (simp add: explode_spec_def drop_last_empty_def)

lemma explode_empty_rest:
  assumes "skip_leading del str = []"
  shows "explode_char M str del = written []" "explode_long M str del = written []"
  using assms by (simp_all add: explode_char_def explode_long_def written_def)

lemma explode_string_branches:
  assumes "del \<noteq> []"
  shows "explode_string M str del =
     (if skip_leading del str = [] then written []
      else if length del = 1 then explode_char M str del else explode_long M str del)"
  using assms explode_empty_rest [of del str M]
  by (auto simp: explode_string_def written_def skip_leading_def)

text \<open>C26. Splitting a string: one leading delimiter is skipped, and the array holds the texts
  between the delimiters in order, empty ones included, the last one only when it is not empty. It
  is exact as long as the texts fit into an array, save for one input: for a delimiter of two or
  more characters the text must not be the delimiter twice.\<close>
theorem explode_string_correct:
  assumes "del \<noteq> []" and "length (fields del (skip_leading del str)) \<le> M"
    and "\<not> (1 < length del \<and> str = del @ del)"
  shows "explode_string M str del = Exploded (map (\<lambda>w. Some (Str w)) (explode_spec del str))"
proof (cases "skip_leading del str = []")
  case True
  then show ?thesis using assms(1) explode_spec_Nil [OF True] by (simp add: explode_string_branches written_def)
next
  case ne: False
  have le: "length (explode_spec del str) \<le> M"
    using assms(2) by (auto simp: explode_spec_def length_drop_last_empty)
  show ?thesis
  proof (cases "length del = 1")
    case True
    then show ?thesis using assms(1) ne explode_char_written [OF True ne le]
      by (simp add: explode_string_branches written_def)
  next
    case False
    then have len: "1 < length del" using assms(1) by (cases del) auto
    have "skip_leading del str \<noteq> del"
      using len assms(1,3) by (auto simp: skip_leading_def elim!: prefixE split: if_splits)
    from explode_long_written [OF len ne assms(2) this] show ?thesis
      using assms(1) ne len by (simp add: explode_string_branches written_def)
  qed
qed

lemma explode_string_correct_witness:
  "explode_string 10 ''/a//b/'' ''/'' = (Exploded [Some (Str ''a''), Some (Str ''''), Some (Str ''b'')] :: unit exploded)"
  using explode_string_correct [of "''/''" "''/a//b/''" 10]
  by (simp add: explode_spec_def skip_leading_def fields.simps drop_last_empty_def)

text \<open>How much is stored when there are more fields than fit.\<close>

lemma store_length: "store n ws = Overflow \<longleftrightarrow> n < length ws"
  by (simp add: store_def)

lemma explode_char_overflow:
  fixes M :: nat
  assumes "0 < M" "length del = 1" "skip_leading del str \<noteq> []"
  shows "(explode_char M str del :: 'r exploded) = Overflow \<longleftrightarrow>
    last (fields del (skip_leading del str)) = [] \<and> Suc M < length (fields del (skip_leading del str))"
proof (cases "length (explode_spec del str) \<le> M")
  case True
  then show ?thesis using explode_char_written [OF assms(2,3) True, where 'a = 'r]
    by (auto simp: written_def explode_spec_def length_drop_last_empty)
next
  case False
  define s F where "s = skip_leading del str" and "F = fields del s"
  have ne: "s \<noteq> []" "F \<noteq> []" using assms(3) by (simp_all add: s_def F_def)
  have large: "M < (if last F = [] then length F - 1 else length F)"
    using False ne by (auto simp: explode_spec_def length_drop_last_empty F_def s_def)
  have tr: "(if length F = 1 then None else Some (length del + length (last F))) \<noteq> Some 1 \<longleftrightarrow> last F \<noteq> []"
    using last_fields_single [OF ne(1), of del] assms(2) by (auto simp: F_def)
  have count: "count_dels del 0 None s = (length F - 1, if length F = 1 then None else Some (length del + length (last F)))"
    by (simp add: count_dels_fields F_def)
  let ?k = "if last F \<noteq> [] then M - 1 else M"
  have "Suc ?k < length F" using large assms(1) by (auto split: if_splits)
  then obtain fs r where split: "split_dels del ?k [] s = (fs, r)" "length fs = ?k" "r \<noteq> []"
    using split_dels_more [of ?k del s "[]"] by (cases "split_dels del ?k [] s") (auto simp: F_def)
  have "min (if last F \<noteq> [] then length F - 1 + 1 else length F - 1) M = M" using large by (auto split: if_splits)
  then have "(explode_char M str del :: 'r exploded) = Overflow \<longleftrightarrow> M < Suc ?k"
    unfolding explode_char_def s_def [symmetric] Let_def count prod.case tr split(1)
    using ne split(2,3) by (simp add: store_length)
  then show ?thesis using large assms(1) unfolding s_def [symmetric] F_def [symmetric] by (auto split: if_splits)
qed

lemma explode_long_safe:
  assumes "0 < M" "1 < length del" "skip_leading del str \<noteq> []"
  shows "(explode_long M str del :: 'r exploded) \<noteq> Overflow" "(explode_long M str del :: 'r exploded) \<noteq> Fatal"
proof -
  define s F where "s = skip_leading del str" and "F = fields del s"
  have ne: "s \<noteq> []" "F \<noteq> []" using assms(3) by (simp_all add: s_def F_def)
  have ld: "(if length F = 1 then None else Some (length del + length (last F))) \<noteq> Some (length del) \<longleftrightarrow> last F \<noteq> []"
    using last_fields_single [OF ne(1), of del] by (auto simp: F_def)
  have count: "count_dels del 0 None s = (length F - 1, if length F = 1 then None else Some (length del + length (last F)))"
    by (simp add: count_dels_fields F_def)
  define num where "num = min (if length s \<le> length del \<or> last F \<noteq> [] then length F - 1 + 1 else length F - 1) M"
  obtain fs r where split: "split_dels del (M - 1) [] s = (fs, r)" by force
  have "length fs \<le> num \<and> length (if r \<noteq> [] then fs @ [r] else fs) \<le> num"
  proof (cases "length F \<le> M")
    case True
    then have "fs = butlast F \<and> r = last F"
      using split_dels_fields [of del s "M - 1" "[]"] ne assms(1) split by (simp add: F_def)
    then show ?thesis using True ne by (auto simp: num_def min_def)
  next
    case False
    then have "length fs = M - 1" "num = M"
      using split_dels_more [of "M - 1" del s "[]"] assms(1) split by (auto simp: F_def num_def)
    then show ?thesis using assms(1) by simp
  qed
  moreover have "(explode_long M str del :: 'r exploded) =
      (if length fs > num then Fatal else store num (if r \<noteq> [] then fs @ [r] else fs))"
    using ne split
    unfolding explode_long_def s_def [symmetric] Let_def count prod.case ld num_def by simp
  ultimately show "(explode_long M str del :: 'r exploded) \<noteq> Overflow" "(explode_long M str del :: 'r exploded) \<noteq> Fatal"
    by (auto simp: store_def)
qed

text \<open>C27. Splitting writes outside of the array it allocated exactly when the delimiter is one
  character, the text ends in it and holds more than the maximal array size of pieces: the limit of
  the loop is then not lowered, and the rest of the text is stored behind the last place.\<close>
theorem explode_string_overflow_iff:
  fixes M :: nat
  assumes "0 < M" and "del \<noteq> []"
  shows "(explode_string M str del :: 'r exploded) = Overflow \<longleftrightarrow>
    length del = 1 \<and> last (fields del (skip_leading del str)) = [] \<and>
    Suc M < length (fields del (skip_leading del str))"
proof (cases "skip_leading del str = []")
  case True
  then show ?thesis using assms by (simp add: explode_string_branches written_def)
next
  case ne: False
  show ?thesis
  proof (cases "length del = 1")
    case True
    then show ?thesis using assms ne explode_char_overflow [OF assms(1) True ne]
      by (simp add: explode_string_branches)
  next
    case False
    then have "1 < length del" using assms(2) by (cases del) auto
    then show ?thesis using assms ne explode_long_safe(1) [OF assms(1) _ ne]
      by (simp add: explode_string_branches)
  qed
qed

lemma explode_string_overflow_iff_witness:
  "explode_string 2 ''a,b,c,'' '','' = (Overflow :: unit exploded)"
  using explode_string_overflow_iff [of 2 "'',''" "''a,b,c,''"]
  by (simp add: skip_leading_def fields.simps)

text \<open>A text that is the delimiter twice gives an array whose second place was never written.\<close>

lemma explode_twice_uninitialised:
  "explode_string 10 ''::::'' ''::'' = (Exploded [Some (Str ''''), None] :: unit exploded)"
  by (simp add: explode_string_def explode_long_def skip_leading_def store_def Let_def numeral_eq_Suc)

section \<open>Joining\<close>

fun join :: "string \<Rightarrow> string list \<Rightarrow> string" where
  "join del [] = []"
| "join del [w] = w"
| "join del (w # v # ws) = w @ del @ join del (v # ws)"

lemma join_Cons: "ws \<noteq> [] \<Longrightarrow> join del (w # ws) = w @ del @ join del ws"
  by (cases ws) simp_all

lemma length_join: "ws \<noteq> [] \<Longrightarrow> length (join del ws) = sum_list (map length ws) + (length ws - 1) * length del"
  by (induction del ws rule: join.induct) auto

lemma implode_size_strings: "implode_size (map Str ws) = (sum_list (map length ws), length ws)"
  by (induction ws) simp_all

lemma implode_copy_strings:
  "implode_copy del num p (map Str ws :: 'r lpc list) =
     p @ (if num \<noteq> 0 \<and> ws \<noteq> [] then del else []) @ join del ws"
proof (induction ws arbitrary: num p)
  case (Cons w ws)
  have "implode_copy del num p (map Str (w # ws) :: 'r lpc list) =
      implode_copy del (num + 1) ((if num \<noteq> 0 then p @ del else p) @ w) (map Str ws :: 'r lpc list)" by simp
  then show ?case unfolding Cons.IH by (cases ws) simp_all
qed simp

lemma implode_strings: "implode_string (map Str ws) del = Some (join del ws)"
  by (cases "ws = []") (simp_all add: implode_string_def implode_size_strings implode_copy_strings length_join)

lemma join_push_front: "fs \<noteq> [] \<Longrightarrow> join del (push_front x fs) = x @ join del fs"
  by (cases "(del, fs)" rule: join.cases) auto

lemma join_fields: "join del (fields del p) = p"
proof (induction del p rule: fields.induct)
  case (2 del c p)
  show ?case
  proof (cases "del \<noteq> [] \<and> prefix del (c # p)")
    case True
    then show ?thesis using 2 by (auto simp: fields_Cons(1) join_Cons elim!: prefixE)
  next
    case False
    then show ?thesis using 2 by (simp add: fields_Cons(2) join_push_front)
  qed
qed simp

lemma join_drop_last_empty: "fs \<noteq> [] \<Longrightarrow>
    join del fs = join del (drop_last_empty fs) \<or> join del fs = join del (drop_last_empty fs) @ del"
  by (induction del fs rule: join.induct) (auto simp: drop_last_empty_def join_Cons)

lemma fields_word: "c \<notin> set w \<Longrightarrow> fields [c] (w @ p) = push_front w (fields [c] p)"
proof (induction w)
  case (Cons d w)
  then have "fields [c] (d # w @ p) = push_front [d] (fields [c] (w @ p))" by (intro fields_Cons(2)) auto
  then show ?case using Cons by (simp add: push_front_append)
qed simp

lemma fields_join: "ws \<noteq> [] \<Longrightarrow> \<forall>w\<in>set ws. c \<notin> set w \<Longrightarrow> fields [c] (join [c] ws) = ws"
proof (induction "[c]" ws rule: join.induct)
  case (2 w)
  then show ?case using fields_word [of c w "[]"] by simp
next
  case (3 w v ws)
  have "fields [c] (c # join [c] (v # ws)) = [] # fields [c] (join [c] (v # ws))" using fields_Cons(1) [of "[c]" c] by simp
  then show ?case using 3 by (simp add: fields_word)
qed simp



end
