(* ===== verification/Environment.thy ===== *)
theory Environment
  imports Prelude
begin

text \<open>
  Objects inside objects (\<open>move_object\<close> and \<open>destruct_object\<close> of \<open>simulate.c\<close>).
  Objects are addresses into
  a store of records that hold the pointers of \<open>object_t\<close>; None is the null pointer. Every call that leaves
  these functions (LPC code, and the parts of the driver an object has to be taken out of) goes through the
  parameter \<open>drv\<close>, which may change the whole state and may raise an error.
\<close>

section \<open>The state\<close>

type_synonym ptr = "nat option"

datatype oflag = O_ENABLE_COMMANDS | O_DESTRUCTED | O_SWAPPED | O_HIDDEN | O_EFUN_SOCKET

text \<open>A function name or a function pointer (flag \<open>V_FUNCTION\<close>).\<close>

datatype callee = Fname string | Fptr nat

record sentence =
  sent_id :: nat
  verb :: string
  sent_ob :: nat
  sent_fn :: callee
  v_short :: bool
  v_nospace :: bool

record object =
  flags :: "oflag set"
  super :: ptr
  contains :: ptr
  next_inv :: ptr
  shadowing :: ptr
  shadowed :: ptr
  sent :: "sentence list"
  living_name :: "string option"
  interactive :: bool
  ed_buffer :: bool

abbreviation living :: "object \<Rightarrow> bool" where "living ob \<equiv> O_ENABLE_COMMANDS \<in> flags ob"
abbreviation destructed :: "object \<Rightarrow> bool" where "destructed ob \<equiv> O_DESTRUCTED \<in> flags ob"

record 's world =
  obs :: "nat \<Rightarrow> object"
  command_giver :: ptr
  illegal_sentence_action :: nat
  restrict_destruct :: ptr
  vital :: "nat set"
  obj_list :: "nat list"
  obj_list_destruct :: "nat list"
  rest :: 's

definition upd :: "nat \<Rightarrow> (object \<Rightarrow> object) \<Rightarrow> 's world \<Rightarrow> 's world" where
  "upd x f w = w\<lparr>obs := (obs w)(x := f (obs w x))\<rparr>"

text \<open>The calls that leave this part of the driver.\<close>

datatype call =
    Init nat | Move_out nat ptr
  | Close_sockets nat | Load_from_swap nat | Off_stack nat | Save_ed_buffer nat | Reload_vital nat
  | Off_object_hash nat | Off_living_names nat | No_heart_beat nat | Remove_interactive nat

type_synonym 's driver = "call \<Rightarrow> 's world \<Rightarrow> string option \<times> 's world"

text \<open>
  A step goes on, returns from the function early, or raises an error; a loop that does not end is None.
\<close>

datatype 's outcome = Goes "'s world" | Returns "'s world" | Raises string "'s world"

definition and_then :: "'s outcome option \<Rightarrow> ('s world \<Rightarrow> 's outcome option) \<Rightarrow> 's outcome option" where
  "and_then r f = Option.bind r (\<lambda>r. case r of Goes w \<Rightarrow> f w | _ \<Rightarrow> Some r)"

lemma and_then_simps [simp]:
  "and_then None f = None"
  "and_then (Some (Goes w)) f = f w"
  "and_then (Some (Returns w)) f = Some (Returns w)"
  "and_then (Some (Raises e w)) f = Some (Raises e w)"
  by (simp_all add: and_then_def)

lemma and_then_mono [partial_function_mono]:
  fixes c :: "'s world \<Rightarrow> _ \<Rightarrow> 's outcome option"
  assumes "mono_option b" and "\<And>w. mono_option (\<lambda>g. c w g)"
  shows "mono_option (\<lambda>g. and_then (b g) (\<lambda>w. c w g))"
proof -
  have "mono_option (\<lambda>g. case r of Goes w \<Rightarrow> c w g | _ \<Rightarrow> Some r)" for r
    by (cases r) (simp_all add: assms(2), simp_all add: monotone_def flat_ord_def)
  then show ?thesis unfolding and_then_def by (intro bind_mono assms(1))
qed

text \<open>The end of a function: an early return is its normal end.\<close>

fun ended :: "'s outcome \<Rightarrow> 's outcome" where
  "ended (Returns w) = Goes w"
| "ended r = r"

definition finished :: "'s outcome option \<Rightarrow> 's outcome option" where
  "finished r = Option.bind r (\<lambda>r. Some (ended r))"

lemma finished_mono [partial_function_mono]: "mono_option b \<Longrightarrow> mono_option (\<lambda>g. finished (b g))"
  unfolding finished_def by (intro bind_mono) (simp_all add: monotone_def flat_ord_def)

lemma finished_simps [simp]: "finished None = None" "finished (Some r) = Some (ended r)"
  by (simp_all add: finished_def)

definition call_drv :: "'s driver \<Rightarrow> call \<Rightarrow> 's world \<Rightarrow> 's outcome option" where
  "call_drv drv c w = (case drv c w of (None, w) \<Rightarrow> Some (Goes w) | (Some e, w) \<Rightarrow> Some (Raises e w))"

section \<open>Moving an object\<close>

text \<open>All sentences that \<open>ob\<close> defined for \<open>user\<close> go.\<close>

definition remove_sent :: "nat \<Rightarrow> nat \<Rightarrow> 's world \<Rightarrow> 's world" where
  "remove_sent ob user w =
     (if \<exists>s\<in>set (sent (obs w user)). sent_ob s = ob
      then (upd user (\<lambda>u. u\<lparr>sent := filter (\<lambda>s. sent_ob s \<noteq> ob) (sent u)\<rparr>) w)\<lparr>illegal_sentence_action := 2\<rparr>
      else w)"

definition remove_sent_if_living :: "nat \<Rightarrow> nat \<Rightarrow> 's world \<Rightarrow> 's world" where
  "remove_sent_if_living ob user w = (if living (obs w user) then remove_sent ob user w else w)"

text \<open>The walk up from the destination.\<close>

partial_function (option) meets :: "(nat \<Rightarrow> object) \<Rightarrow> nat \<Rightarrow> ptr \<Rightarrow> bool option" where
  "meets h item ob =
     (case ob of
        None \<Rightarrow> Some False
      | Some x \<Rightarrow> if x = item then Some True else meets h item (super (h x)))"

declare meets.simps [code]

text \<open>The pointer \<open>pp\<close> points to the field \<open>contains\<close> or \<open>next_inv\<close> of some object.\<close>

datatype slot = Contains nat | Next_inv nat

fun slot_get :: "(nat \<Rightarrow> object) \<Rightarrow> slot \<Rightarrow> ptr" where
  "slot_get h (Contains x) = contains (h x)"
| "slot_get h (Next_inv x) = next_inv (h x)"

fun slot_set :: "slot \<Rightarrow> ptr \<Rightarrow> 's world \<Rightarrow> 's world" where
  "slot_set (Contains x) p w = upd x (\<lambda>ob. ob\<lparr>contains := p\<rparr>) w"
| "slot_set (Next_inv x) p w = upd x (\<lambda>ob. ob\<lparr>next_inv := p\<rparr>) w"

text \<open>The loop over an inventory that takes \<open>item\<close> out and parts it from everyone it passes.\<close>

partial_function (option) unlink :: "(nat \<Rightarrow> 's world \<Rightarrow> 's world) \<Rightarrow> nat \<Rightarrow> slot \<Rightarrow> 's world \<Rightarrow> 's world option" where
  "unlink part item pp w =
     (case slot_get (obs w) pp of
        None \<Rightarrow> Some w
      | Some x \<Rightarrow>
          let w = part x w in
          if x \<noteq> item then unlink part item (Next_inv x) w
          else unlink part item pp (slot_set pp (next_inv (obs w item)) w))"

declare unlink.simps [code]

definition part_movers :: "nat \<Rightarrow> nat \<Rightarrow> 's world \<Rightarrow> 's world" where
  "part_movers item x w =
     (if x = item then w
      else
        (let w = remove_sent_if_living item x w in
         if living (obs w item) then remove_sent x item w else w))"

definition leave :: "nat \<Rightarrow> nat \<Rightarrow> 's world \<Rightarrow> 's world option" where
  "leave item room w =
     (let w = (if living (obs w item) then remove_sent room item w else w);
          w = remove_sent_if_living item room w
      in unlink (part_movers item) item (Contains room) w)"

definition enter :: "nat \<Rightarrow> nat \<Rightarrow> 's world \<Rightarrow> 's world" where
  "enter item dest w =
     (let w = upd item (\<lambda>ob. ob\<lparr>next_inv := contains (obs w dest)\<rparr>) w;
          w = upd dest (\<lambda>ob. ob\<lparr>contains := Some item\<rparr>) w
      in upd item (\<lambda>ob. ob\<lparr>super := Some dest\<rparr>) w)"

text \<open>
  The calls of \<open>init\<close>; \<open>save\<close> is the command giver to come back to. \<open>init_near\<close> is one call
  inside the loop, after which the function returns when the item is no longer where it was moved to.
\<close>

definition set_giver :: "ptr \<Rightarrow> 's world \<Rightarrow> 's world" where
  "set_giver p w = w\<lparr>command_giver := p\<rparr>"

definition init_near :: "'s driver \<Rightarrow> nat \<Rightarrow> nat \<Rightarrow> ptr \<Rightarrow> nat \<Rightarrow> nat \<Rightarrow> 's world \<Rightarrow> 's outcome option" where
  "init_near drv item dest save user callee w =
     (if living (obs w user) then
        and_then (call_drv drv (Init callee) (set_giver (Some user) w)) (\<lambda>w.
          if super (obs w item) \<noteq> Some dest then Some (Returns (set_giver save w)) else Some (Goes w))
      else Some (Goes w))"

partial_function (option) init_loop ::
  "'s driver \<Rightarrow> nat \<Rightarrow> nat \<Rightarrow> ptr \<Rightarrow> ptr \<Rightarrow> 's world \<Rightarrow> 's outcome option" where
  "init_loop drv item dest save ob w =
     (case ob of
        None \<Rightarrow> Some (Goes w)
      | Some x \<Rightarrow>
          let next_ob = next_inv (obs w x) in
          if x = item then init_loop drv item dest save next_ob w
          else if destructed (obs w x) then Some (Raises ''An object was destructed at call of init()'' w)
          else and_then (init_near drv item dest save x item w) (\<lambda>w.
            if destructed (obs w item)
            then Some (Raises ''The object to be moved was destructed at call of init()'' w)
            else and_then (init_near drv item dest save item x w) (\<lambda>w.
              init_loop drv item dest save next_ob w)))"

declare init_loop.simps [code]

definition run_inits :: "'s driver \<Rightarrow> nat \<Rightarrow> nat \<Rightarrow> 's world \<Rightarrow> 's outcome option" where
  "run_inits drv item dest w =
     (let save = command_giver w in
      and_then
        (if living (obs w item) then
           and_then (call_drv drv (Init dest) (set_giver (Some item) w)) (\<lambda>w.
             if destructed (obs w dest) \<or> super (obs w item) \<noteq> Some dest
             then Some (Returns (set_giver save w)) else Some (Goes w))
         else Some (Goes w)) (\<lambda>w.
      and_then (init_loop drv item dest save (contains (obs w dest)) w) (\<lambda>w.
        if destructed (obs w dest)
        then Some (Raises ''The destination to move to was destructed at call of init()'' w)
        else
          and_then
            (if living (obs w dest) then call_drv drv (Init item) (set_giver (Some dest) w) else Some (Goes w))
            (\<lambda>w. Some (Goes (set_giver save w))))))"

definition link_moved :: "nat \<Rightarrow> nat \<Rightarrow> 's world \<Rightarrow> 's world option" where
  "link_moved item dest w =
     Option.bind (case super (obs w item) of None \<Rightarrow> Some w | Some room \<Rightarrow> leave item room w)
       (\<lambda>w. Some (enter item dest w))"

definition move_object :: "'s driver \<Rightarrow> nat \<Rightarrow> nat \<Rightarrow> 's world \<Rightarrow> 's outcome option" where
  "move_object drv item dest w =
     Option.bind (meets (obs w) item (Some dest)) (\<lambda>inside.
       if inside then Some (Raises ''Can't move object inside itself.'' w)
       else if shadowing (obs w item) \<noteq> None then Some (Raises ''Can't move an object that is shadowing.'' w)
       else Option.bind (link_moved item dest w) (\<lambda>w. finished (run_inits drv item dest w)))"

section \<open>Consistent objects\<close>

text \<open>A linked list of objects, and the objects from which the walk up ends.\<close>

fun chain :: "(nat \<Rightarrow> object) \<Rightarrow> ptr \<Rightarrow> nat list \<Rightarrow> bool" where
  "chain h p [] \<longleftrightarrow> p = None"
| "chain h p (x # xs) \<longleftrightarrow> p = Some x \<and> chain h (next_inv (h x)) xs"

inductive rooted :: "(nat \<Rightarrow> object) \<Rightarrow> nat \<Rightarrow> bool" for h where
  "super (h x) = None \<Longrightarrow> rooted h x"
| "super (h x) = Some y \<Longrightarrow> rooted h y \<Longrightarrow> rooted h x"

text \<open>\<open>x\<close> is \<open>y\<close> or somewhere inside it.\<close>

inductive within :: "(nat \<Rightarrow> object) \<Rightarrow> nat \<Rightarrow> nat \<Rightarrow> bool" for h y where
  "within h y y"
| "super (h x) = Some z \<Longrightarrow> within h y z \<Longrightarrow> within h y x"

inductive_simps within_iff: "within h y x"

definition forest :: "(nat \<Rightarrow> object) \<Rightarrow> (nat \<Rightarrow> nat list) \<Rightarrow> bool" where
  "forest h iv \<longleftrightarrow>
     (\<forall>x. chain h (contains (h x)) (iv x)) \<and> (\<forall>x. distinct (iv x)) \<and>
     (\<forall>x y. y \<in> set (iv x) \<longleftrightarrow> super (h y) = Some x) \<and> (\<forall>x. rooted h x) \<and>
     (\<forall>x. destructed (h x) \<longrightarrow> super (h x) = None \<and> iv x = [])"

text \<open>The definer of a command is the user itself, inside it, around it or beside it.\<close>

definition near :: "(nat \<Rightarrow> object) \<Rightarrow> nat \<Rightarrow> nat \<Rightarrow> bool" where
  "near h d u \<longleftrightarrow>
     d = u \<or> super (h d) = Some u \<or> super (h u) = Some d \<or> (super (h d) \<noteq> None \<and> super (h d) = super (h u))"

definition commands_near :: "(nat \<Rightarrow> object) \<Rightarrow> bool" where
  "commands_near h \<longleftrightarrow>
     (\<forall>u. \<not> destructed (h u) \<longrightarrow> (sent (h u) \<noteq> [] \<longrightarrow> living (h u)) \<and> (\<forall>s\<in>set (sent (h u)). near h (sent_ob s) u))"

definition consistent :: "(nat \<Rightarrow> object) \<Rightarrow> bool" where
  "consistent h \<longleftrightarrow> (\<exists>iv. forest h iv) \<and> commands_near h"

lemma chain_cong: "\<forall>x\<in>set xs. next_inv (h x) = next_inv (h' x) \<Longrightarrow> chain h p xs \<longleftrightarrow> chain h' p xs"
  by (induction xs arbitrary: p) auto

lemma chain_unique: "chain h p xs \<Longrightarrow> chain h p ys \<Longrightarrow> xs = ys"
proof (induction xs arbitrary: p ys)
  case Nil
  then show ?case by (cases ys) auto
next
  case (Cons x xs)
  then show ?case by (cases ys) auto
qed

lemma forestD:
  assumes "forest h iv"
  shows "chain h (contains (h x)) (iv x)" "distinct (iv x)" "y \<in> set (iv x) \<longleftrightarrow> super (h y) = Some x" "rooted h x"
    "destructed (h x) \<Longrightarrow> super (h x) = None" "destructed (h x) \<Longrightarrow> iv x = []"
  using assms by (auto simp: forest_def)

lemma forest_unique: "forest h iv \<Longrightarrow> forest h iv' \<Longrightarrow> iv = iv'"
  by (meson ext chain_unique forestD(1))

lemma near_alive:
  assumes "forest h iv" "near h d u" "\<not> destructed (h u)"
  shows "\<not> destructed (h d)"
  using assms forestD(3,5,6) [OF assms(1)] unfolding near_def by (metis option.simps(3) set_empty emptyE)

lemma meets_within: "rooted h x \<Longrightarrow> meets h item (Some x) = Some (within h item x)"
proof (induction rule: rooted.induct)
  case (1 x)
  have "meets h item None = Some False" by (simp add: meets.simps)
  with 1 show ?case by (simp add: meets.simps [of h item "Some x"] within_iff [of h item x])
next
  case (2 x y)
  then show ?case by (simp add: meets.simps [of h item "Some x"] within_iff [of h item x])
qed

lemma within_trans: "within h y x \<Longrightarrow> within h z y \<Longrightarrow> within h z x"
  by (induction rule: within.induct) (auto intro: within.intros)

section \<open>Taking an object out of an inventory\<close>

definition sents :: "'s world \<Rightarrow> nat \<Rightarrow> sentence list" where
  "sents w u = sent (obs w u)"

text \<open>The same objects but for their sentences; the same world but for its objects.\<close>

definition same_links :: "(nat \<Rightarrow> object) \<Rightarrow> (nat \<Rightarrow> object) \<Rightarrow> bool" where
  "same_links h h' \<longleftrightarrow> (\<forall>x. h' x = (h x)\<lparr>sent := sent (h' x)\<rparr>)"

definition same_else :: "'s world \<Rightarrow> 's world \<Rightarrow> bool" where
  "same_else w w' \<longleftrightarrow>
     w' = w\<lparr>obs := obs w', illegal_sentence_action := illegal_sentence_action w'\<rparr> \<and>
     illegal_sentence_action w' \<in> {illegal_sentence_action w, 2}"

lemma same_links_refl [simp]: "same_links h h"
  by (simp add: same_links_def)

lemma same_links_trans: "same_links h h' \<Longrightarrow> same_links h' h'' \<Longrightarrow> same_links h h''"
  unfolding same_links_def by (metis object.surjective object.update_convs(7))

lemma same_linksD:
  assumes "same_links h h'"
  shows "flags (h' x) = flags (h x)" "super (h' x) = super (h x)" "contains (h' x) = contains (h x)"
    "next_inv (h' x) = next_inv (h x)" "shadowing (h' x) = shadowing (h x)" "shadowed (h' x) = shadowed (h x)"
  using assms unfolding same_links_def by (metis object.ext_inject object.surjective object.update_convs(7))+

lemma same_else_refl [simp]: "same_else w w"
  by (simp add: same_else_def)

lemma same_else_trans: "same_else w w' \<Longrightarrow> same_else w' w'' \<Longrightarrow> same_else w w''"
  by (cases w; cases w'; cases w'') (auto simp: same_else_def)

lemma upd_same_else [simp]: "same_else w (upd x f w)"
  by (simp add: same_else_def upd_def)

lemma obs_upd [simp]: "obs (upd x f w) = (obs w)(x := f (obs w x))"
  by (simp add: upd_def)

lemma remove_sent_effect:
  "same_links (obs w) (obs (remove_sent ob user w))"
  "sents (remove_sent ob user w) = (sents w)(user := filter (\<lambda>s. sent_ob s \<noteq> ob) (sents w user))"
  "same_else w (remove_sent ob user w)"
proof -
  show "sents (remove_sent ob user w) = (sents w)(user := filter (\<lambda>s. sent_ob s \<noteq> ob) (sents w user))"
    by (rule ext) (auto simp: remove_sent_def sents_def upd_def intro: filter_True [symmetric])
qed (auto simp: remove_sent_def same_links_def same_else_def upd_def)

text \<open>What parting from one neighbour does: it only changes sentences, by a function of them.\<close>

definition parts_by :: "(nat \<Rightarrow> bool) \<Rightarrow> (nat \<Rightarrow> 's world \<Rightarrow> 's world) \<Rightarrow>
    (nat \<Rightarrow> (nat \<Rightarrow> sentence list) \<Rightarrow> nat \<Rightarrow> sentence list) \<Rightarrow> bool" where
  "parts_by L part F \<longleftrightarrow>
     (\<forall>x w. (\<forall>y. living (obs w y) = L y) \<longrightarrow>
        same_links (obs w) (obs (part x w)) \<and> same_else w (part x w) \<and> sents (part x w) = F x (sents w))"

text \<open>The links that differ at most in one slot and in the list of the objects \<open>xs\<close>.\<close>

definition links_but :: "slot \<Rightarrow> nat list \<Rightarrow> (nat \<Rightarrow> object) \<Rightarrow> (nat \<Rightarrow> object) \<Rightarrow> bool" where
  "links_but pp xs h h' \<longleftrightarrow>
     (\<forall>x. flags (h' x) = flags (h x) \<and> super (h' x) = super (h x) \<and> shadowing (h' x) = shadowing (h x) \<and>
        shadowed (h' x) = shadowed (h x)) \<and>
     (\<forall>x. Contains x \<noteq> pp \<longrightarrow> contains (h' x) = contains (h x)) \<and>
     (\<forall>x. x \<notin> set xs \<longrightarrow> Next_inv x \<noteq> pp \<longrightarrow> next_inv (h' x) = next_inv (h x))"

lemma links_but_same: "same_links h h' \<Longrightarrow> links_but pp xs h h'"
  by (simp add: links_but_def same_linksD)

lemma slot_get_cong: "(\<And>x. contains (h' x) = contains (h x)) \<Longrightarrow> (\<And>x. next_inv (h' x) = next_inv (h x)) \<Longrightarrow>
    slot_get h' pp = slot_get h pp"
  by (cases pp) auto

lemma unlink_takes_out:
  assumes part: "parts_by L part F"
  shows "chain (obs w) (slot_get (obs w) pp) xs \<Longrightarrow> distinct xs \<Longrightarrow> \<forall>y\<in>set xs. pp \<noteq> Next_inv y \<Longrightarrow> pp \<noteq> Next_inv item
    \<Longrightarrow> \<forall>y. living (obs w y) = L y \<Longrightarrow>
    \<exists>w'. unlink part item pp w = Some w' \<and> chain (obs w') (slot_get (obs w') pp) (filter (\<lambda>x. x \<noteq> item) xs) \<and>
      links_but pp xs (obs w) (obs w') \<and> same_else w w' \<and> sents w' = fold F xs (sents w)"
proof (induction xs arbitrary: pp w)
  case Nil
  then show ?case by (simp add: unlink.simps [of part item pp w] links_but_def)
next
  case (Cons x xs)
  have get: "slot_get (obs w) pp = Some x" and rest: "chain (obs w) (next_inv (obs w x)) xs" using Cons.prems(1) by auto
  have p: "same_links (obs w) (obs (part x w))" "same_else w (part x w)" "sents (part x w) = F x (sents w)"
    using part Cons.prems(5) by (auto simp: parts_by_def)
  note same = same_linksD [OF p(1)]
  show ?case
  proof (cases "x = item")
    case False
    let ?w = "part x w"
    have "chain (obs ?w) (slot_get (obs ?w) (Next_inv x)) xs"
      using rest chain_cong [of xs "obs w" "obs ?w"] by (simp add: same)
    then obtain w' where w': "unlink part item (Next_inv x) ?w = Some w'"
      "chain (obs w') (slot_get (obs w') (Next_inv x)) (filter (\<lambda>x. x \<noteq> item) xs)"
      "links_but (Next_inv x) xs (obs ?w) (obs w')" "same_else ?w w'"
      "sents w' = fold F xs (sents ?w)"
      using Cons.IH [of ?w "Next_inv x"] Cons.prems False by (auto simp: same)
    have "slot_get (obs w') pp = Some x"
      using get w'(3) Cons.prems(3) same by (cases pp) (auto simp: links_but_def)
    moreover have "links_but pp (x # xs) (obs w) (obs w')"
      using w'(3) same by (auto simp: links_but_def)
    ultimately show ?thesis
      using w' False p get same_else_trans [OF p(2) w'(4)] by (simp add: unlink.simps [of part item pp w])
  next
    case True
    let ?w1 = "part x w"
    let ?w = "slot_set pp (next_inv (obs ?w1 item)) ?w1"
    have set1: "slot_get (obs ?w) pp = next_inv (obs ?w1 x)" "links_but pp [] (obs ?w1) (obs ?w)" "same_else ?w1 ?w" "sents ?w = sents ?w1"
      using True by (cases pp; force simp: links_but_def sents_def)+
    then have set: "slot_get (obs ?w) pp = next_inv (obs w x)" "links_but pp [] (obs w) (obs ?w)" "same_else w ?w" "sents ?w = F x (sents w)"
      using same p(3) same_else_trans [OF p(2)] by (simp_all add: links_but_def)
    have "\<forall>y\<in>set xs. next_inv (obs w y) = next_inv (obs ?w y)" using set(2) Cons.prems(3) by (auto simp: links_but_def)
    then have "chain (obs ?w) (slot_get (obs ?w) pp) xs" using rest set(1) chain_cong by metis
    moreover have "\<forall>y. living (obs ?w y) = L y" using Cons.prems(5) set(2) by (simp add: links_but_def)
    ultimately obtain w' where w': "unlink part item pp ?w = Some w'"
      "chain (obs w') (slot_get (obs w') pp) (filter (\<lambda>x. x \<noteq> item) xs)"
      "links_but pp xs (obs ?w) (obs w')" "same_else ?w w'" "sents w' = fold F xs (sents ?w)"
      using Cons.IH [of ?w pp] Cons.prems by auto
    have "links_but pp (x # xs) (obs w) (obs w')" using w'(3) set(2) by (auto simp: links_but_def)
    then show ?thesis
      using w' True set get same_else_trans [OF set(3) w'(4)] by (simp add: unlink.simps [of part item pp w])
  qed
qed

text \<open>The sentences after an object has parted from those it passed.\<close>

definition mover_sents :: "(nat \<Rightarrow> bool) \<Rightarrow> nat \<Rightarrow> nat \<Rightarrow> (nat \<Rightarrow> sentence list) \<Rightarrow> nat \<Rightarrow> sentence list" where
  "mover_sents L item x g =
     (if x = item then g
      else
        (let g = (if L x then g(x := filter (\<lambda>s. sent_ob s \<noteq> item) (g x)) else g) in
         if L item then g(item := filter (\<lambda>s. sent_ob s \<noteq> x) (g item)) else g))"

definition leaver_sents :: "(nat \<Rightarrow> bool) \<Rightarrow> nat \<Rightarrow> nat \<Rightarrow> (nat \<Rightarrow> sentence list) \<Rightarrow> nat \<Rightarrow> sentence list" where
  "leaver_sents L item x g = (if L x then g(x := filter (\<lambda>s. sent_ob s \<noteq> item) (g x)) else g)"

lemma remove_sent_if_living_effect:
  assumes "living (obs w user) = l"
  shows "same_links (obs w) (obs (remove_sent_if_living ob user w))" "same_else w (remove_sent_if_living ob user w)"
    "sents (remove_sent_if_living ob user w) =
       (if l then (sents w)(user := filter (\<lambda>s. sent_ob s \<noteq> ob) (sents w user)) else sents w)"
  using assms by (simp_all add: remove_sent_if_living_def remove_sent_effect)

lemma parts_by_mover: "parts_by L (part_movers item :: nat \<Rightarrow> 's world \<Rightarrow> 's world) (mover_sents L item)"
  unfolding parts_by_def
proof (intro allI impI)
  fix x and w :: "'s world"
  assume L: "\<forall>y. living (obs w y) = L y"
  let ?w = "remove_sent_if_living item x w"
  note e = remove_sent_if_living_effect [of w x "L x" item, OF L [rule_format]]
  note same = same_linksD(1) [OF e(1), of item]
  show "same_links (obs w) (obs (part_movers item x w)) \<and> same_else w (part_movers item x w) \<and>
      sents (part_movers item x w) = mover_sents L item x (sents w)"
    using e L same same_links_trans [OF e(1) remove_sent_effect(1) [of ?w x item]]
      same_else_trans [OF e(2) remove_sent_effect(3) [of ?w x item]]
    by (simp add: part_movers_def mover_sents_def Let_def remove_sent_effect(2))
qed

lemma parts_by_leaver:
  "parts_by L (remove_sent_if_living item :: nat \<Rightarrow> 's world \<Rightarrow> 's world) (leaver_sents L item)"
  unfolding parts_by_def
proof (intro allI impI)
  fix x and w :: "'s world"
  assume L: "\<forall>y. living (obs w y) = L y"
  note e = remove_sent_if_living_effect [of w x "L x" item, OF L [rule_format]]
  show "same_links (obs w) (obs (remove_sent_if_living item x w)) \<and> same_else w (remove_sent_if_living item x w) \<and>
      sents (remove_sent_if_living item x w) = leaver_sents L item x (sents w)"
    using e by (simp add: leaver_sents_def)
qed

lemma fold_mover_sents:
  assumes "item \<notin> set xs"
  shows "fold (mover_sents L item) xs g u =
    (if u = item then (if L item then filter (\<lambda>s. sent_ob s \<notin> set xs) (g item) else g item)
     else if u \<in> set xs \<and> L u then filter (\<lambda>s. sent_ob s \<noteq> item) (g u) else g u)"
  using assms
proof (induction xs arbitrary: g)
  case (Cons x xs)
  then show ?case by (auto simp: mover_sents_def Let_def filter_filter conj_commute intro!: filter_cong)
qed simp

lemma fold_mover_sents_others: "fold (mover_sents L item) xs g = fold (mover_sents L item) (filter (\<lambda>x. x \<noteq> item) xs) g"
  by (induction xs arbitrary: g) (simp_all add: mover_sents_def)

lemma fold_leaver_sents:
  "fold (leaver_sents L item) xs g u = (if u \<in> set xs \<and> L u then filter (\<lambda>s. sent_ob s \<noteq> item) (g u) else g u)"
  by (induction xs arbitrary: g) (auto simp: leaver_sents_def)

text \<open>The sentences of \<open>u\<close> when \<open>item\<close> has left \<open>room\<close> with the others \<open>xs\<close> in it.\<close>

definition parted :: "'s world \<Rightarrow> nat \<Rightarrow> nat \<Rightarrow> nat list \<Rightarrow> nat \<Rightarrow> sentence list" where
  "parted w item room xs u =
     (if u = item then
        (if living (obs w item) then filter (\<lambda>s. sent_ob s \<notin> insert room (set xs)) (sents w item) else sents w item)
      else if (u = room \<or> u \<in> set xs) \<and> living (obs w u) then filter (\<lambda>s. sent_ob s \<noteq> item) (sents w u)
      else sents w u)"

lemma leave_effect:
  assumes "chain (obs w) (contains (obs w room)) xs" "distinct xs" "room \<noteq> item"
  shows "\<exists>w'. leave item room w = Some w' \<and>
    chain (obs w') (contains (obs w' room)) (filter (\<lambda>x. x \<noteq> item) xs) \<and> links_but (Contains room) xs (obs w) (obs w') \<and>
    same_else w w' \<and> sents w' = parted w item room (filter (\<lambda>x. x \<noteq> item) xs)"
proof -
  let ?L = "\<lambda>y. living (obs w y)" and ?ys = "filter (\<lambda>x. x \<noteq> item) xs"
  define w1 where "w1 = (if living (obs w item) then remove_sent room item w else w)"
  define w2 where "w2 = remove_sent_if_living item room w1"
  have 1: "same_links (obs w) (obs w1)" "same_else w w1"
    "sents w1 = (if ?L item then (sents w)(item := filter (\<lambda>s. sent_ob s \<noteq> room) (sents w item)) else sents w)"
    by (simp_all add: w1_def remove_sent_effect)
  have 2: "same_links (obs w1) (obs w2)" "same_else w1 w2"
    "sents w2 = (if ?L room then (sents w1)(room := filter (\<lambda>s. sent_ob s \<noteq> item) (sents w1 room)) else sents w1)"
    unfolding w2_def using remove_sent_if_living_effect [of w1 room "?L room" item] same_linksD(1) [OF 1(1)] by simp_all
  note same = same_linksD [OF same_links_trans [OF 1(1) 2(1)]]
  have "chain (obs w2) (slot_get (obs w2) (Contains room)) xs"
    using assms(1) chain_cong [of xs "obs w" "obs w2"] by (simp add: same)
  from unlink_takes_out [OF parts_by_mover [of ?L item] this assms(2), where item = item]
  obtain w' where w': "unlink (part_movers item) item (Contains room) w2 = Some w'"
    "chain (obs w') (contains (obs w' room)) ?ys" "links_but (Contains room) xs (obs w2) (obs w')" "same_else w2 w'"
    "sents w' = fold (mover_sents ?L item) ?ys (sents w2)"
    using same(1) fold_mover_sents_others by auto
  have "leave item room w = Some w'" using w'(1) by (simp add: leave_def w1_def w2_def Let_def)
  moreover have "links_but (Contains room) xs (obs w) (obs w')" using w'(3) same by (simp add: links_but_def)
  moreover have "same_else w w'" using 1(2) 2(2) w'(4) same_else_trans by blast
  moreover have "sents w' = parted w item room ?ys"
    using assms(3)
    by (intro ext) (auto simp: w'(5) fold_mover_sents parted_def 1(3) 2(3) filter_filter conj_commute intro!: filter_cong)
  ultimately show ?thesis using w'(2) by blast
qed

lemma enter_effect:
  assumes "item \<noteq> dest"
  shows "same_else w (enter item dest w)" "sents (enter item dest w) = sents w"
    "flags (obs (enter item dest w) x) = flags (obs w x)"
    "super (obs (enter item dest w) x) = (if x = item then Some dest else super (obs w x))"
    "contains (obs (enter item dest w) x) = (if x = dest then Some item else contains (obs w x))"
    "next_inv (obs (enter item dest w) x) = (if x = item then contains (obs w dest) else next_inv (obs w x))"
    "shadowing (obs (enter item dest w) x) = shadowing (obs w x)"
    "shadowed (obs (enter item dest w) x) = shadowed (obs w x)"
  using assms by (auto simp: enter_def Let_def same_else_def upd_def sents_def)

text \<open>The inventories when \<open>item\<close> has moved, and the walk up then.\<close>

definition moved :: "nat \<Rightarrow> nat \<Rightarrow> (nat \<Rightarrow> nat list) \<Rightarrow> nat \<Rightarrow> nat list" where
  "moved item dest iv x = (let ys = filter (\<lambda>y. y \<noteq> item) (iv x) in if x = dest then item # ys else ys)"

lemma rooted_moved:
  assumes super: "\<And>x. super (h' x) = (if x = item then Some dest else super (h x))"
    and out: "\<not> within h item dest" and rooted: "\<And>x. rooted h x"
  shows "rooted h' x"
proof -
  have dest: "rooted h' y" if "rooted h y" "\<not> within h item y" for y
    using that
  proof (induction rule: rooted.induct)
    case (1 x)
    then show ?case by (metis super rooted.intros(1) within.intros(1))
  next
    case (2 x y)
    then have "x \<noteq> item" "\<not> within h item y" by (auto intro: within.intros)
    with 2 show ?case by (intro rooted.intros(2) [of h' x y]) (simp_all add: super)
  qed
  have item: "rooted h' item" using rooted.intros(2) [of h' item dest] super dest [OF rooted out] by simp
  show ?thesis using rooted [of x]
  proof (induction rule: rooted.induct)
    case (1 x)
    then show ?case using item super by (cases "x = item") (auto intro: rooted.intros)
  next
    case (2 x y)
    then show ?case using item super by (cases "x = item") (auto intro: rooted.intros)
  qed
qed

lemma rooted_irrefl: "rooted h x \<Longrightarrow> super (h x) \<noteq> Some x"
  by (induction rule: rooted.induct) auto

lemma moved_set: "y \<in> set (moved item dest iv x) \<longleftrightarrow> (if y = item then x = dest else y \<in> set (iv x))"
  by (simp add: moved_def Let_def)

lemma moved_distinct: "distinct (iv x) \<Longrightarrow> distinct (moved item dest iv x)"
  by (auto simp: moved_def Let_def)

lemma moved_chain:
  assumes "item \<noteq> dest" "chain (obs w) (contains (obs w x)) (filter (\<lambda>y. y \<noteq> item) (iv x))"
  shows "chain (obs (enter item dest w)) (contains (obs (enter item dest w) x)) (moved item dest iv x)"
proof -
  have "chain (obs (enter item dest w)) (contains (obs w x)) (filter (\<lambda>y. y \<noteq> item) (iv x))"
    using assms chain_cong [of "filter (\<lambda>y. y \<noteq> item) (iv x)" "obs w" "obs (enter item dest w)"]
    by (simp add: enter_effect)
  then show ?thesis using assms(1) by (cases "x = dest") (simp_all add: moved_def Let_def enter_effect)
qed

lemma chains_after_unlink:
  assumes f: "forest h iv" and room: "super (h item) = Some room"
    and chain: "chain h' (contains (h' room)) (filter (\<lambda>x. x \<noteq> item) (iv room))"
    and links: "links_but (Contains room) (iv room) h h'"
  shows "\<forall>x. chain h' (contains (h' x)) (filter (\<lambda>y. y \<noteq> item) (iv x))"
proof
  fix x
  show "chain h' (contains (h' x)) (filter (\<lambda>y. y \<noteq> item) (iv x))"
  proof (cases "x = room")
    case ne: False
    have x: "\<forall>y\<in>set (iv x). y \<notin> set (iv room) \<and> y \<noteq> item" using forestD(3) [OF f] room ne by auto
    then have "\<forall>y\<in>set (iv x). next_inv (h y) = next_inv (h' y)" using links by (auto simp: links_but_def)
    then have "chain h' (contains (h' x)) (iv x)"
      using forestD(1) [OF f, of x] chain_cong [of "iv x" h h'] links ne by (simp add: links_but_def)
    moreover have "filter (\<lambda>y. y \<noteq> item) (iv x) = iv x" using x by (intro filter_True) auto
    ultimately show ?thesis by simp
  qed (use chain in simp)
qed

text \<open>Only moving: nothing has called \<open>init\<close> yet.\<close>

lemma link_moved_forest:
  assumes f: "forest (obs w) iv" and out: "\<not> within (obs w) item dest"
    and alive: "\<not> destructed (obs w item)" "\<not> destructed (obs w dest)"
  shows "\<exists>w'. link_moved item dest w = Some w' \<and> forest (obs w') (moved item dest iv) \<and>
    (\<forall>x. flags (obs w' x) = flags (obs w x) \<and> shadowing (obs w' x) = shadowing (obs w x) \<and>
       shadowed (obs w' x) = shadowed (obs w x) \<and>
       super (obs w' x) = (if x = item then Some dest else super (obs w x))) \<and>
    same_else w w' \<and>
    sents w' = (case super (obs w item) of None \<Rightarrow> sents w
      | Some room \<Rightarrow> parted w item room (filter (\<lambda>x. x \<noteq> item) (iv room)))"
proof -
  note F = forestD [OF f]
  have ne: "item \<noteq> dest" using out within.intros(1) by blast
  obtain w1 where w1: "(case super (obs w item) of None \<Rightarrow> Some w | Some room \<Rightarrow> leave item room w) = Some w1"
    and chains: "\<forall>x. chain (obs w1) (contains (obs w1 x)) (filter (\<lambda>y. y \<noteq> item) (iv x))"
    and same: "\<forall>x. flags (obs w1 x) = flags (obs w x) \<and> super (obs w1 x) = super (obs w x) \<and>
      shadowing (obs w1 x) = shadowing (obs w x) \<and> shadowed (obs w1 x) = shadowed (obs w x)"
    and rest: "same_else w w1" "sents w1 = (case super (obs w item) of None \<Rightarrow> sents w
      | Some room \<Rightarrow> parted w item room (filter (\<lambda>x. x \<noteq> item) (iv room)))"
  proof (cases "super (obs w item)")
    case None
    have "item \<notin> set (iv x)" for x using F(3) [of item x] None by simp
    then have "filter (\<lambda>y. y \<noteq> item) (iv x) = iv x" for x by (metis (mono_tags, lifting) filter_True)
    then show ?thesis using that [of w] None F(1) by simp
  next
    case (Some room)
    have "room \<noteq> item" using F(4) [of item] Some rooted_irrefl by metis
    from leave_effect [OF F(1) F(2) this] obtain w' where w': "leave item room w = Some w'"
      "chain (obs w') (contains (obs w' room)) (filter (\<lambda>x. x \<noteq> item) (iv room))"
      "links_but (Contains room) (iv room) (obs w) (obs w')" "same_else w w'"
      "sents w' = parted w item room (filter (\<lambda>x. x \<noteq> item) (iv room))" by blast
    then show ?thesis using that [of w'] Some chains_after_unlink [OF f Some w'(2,3)] by (simp add: links_but_def)
  qed
  let ?w = "enter item dest w1"
  have sup: "super (obs ?w x) = (if x = item then Some dest else super (obs w x))" for x
    using same by (simp add: enter_effect [OF ne])
  have "forest (obs ?w) (moved item dest iv)"
    unfolding forest_def
  proof (intro conjI allI impI)
    fix x y
    show "chain (obs ?w) (contains (obs ?w x)) (moved item dest iv x)" using moved_chain [OF ne] chains by blast
    show "distinct (moved item dest iv x)" using moved_distinct F(2) by blast
    show "y \<in> set (moved item dest iv x) \<longleftrightarrow> super (obs ?w y) = Some x" using F(3) by (auto simp: moved_set sup)
    show "rooted (obs ?w) x" using rooted_moved [of "obs ?w" item dest "obs w"] sup out F(4) by blast
  next
    fix x
    assume "destructed (obs ?w x)"
    then have d: "destructed (obs w x)" using same by (simp add: enter_effect [OF ne])
    then show "super (obs ?w x) = None" using F(5) alive by (auto simp: sup)
    show "moved item dest iv x = []" using F(6) [OF d] d alive by (auto simp: moved_def)
  qed
  moreover have "link_moved item dest w = Some ?w" using w1 by (simp add: link_moved_def)
  moreover have "same_else w ?w" using rest(1) enter_effect(1) [OF ne] same_else_trans by blast
  ultimately show ?thesis using same sup rest(2) by (simp add: enter_effect [OF ne])
qed

lemma parted_subset: "set (parted w item room xs u) \<subseteq> set (sents w u)"
  by (auto simp: parted_def)

text \<open>The commands of the moved object and of those it leaves still come from near by.\<close>

lemma link_moved_near:
  assumes f: "forest (obs w) iv" and out: "\<not> within (obs w) item dest" and near: "commands_near (obs w)"
    and w': "\<forall>x. flags (obs w' x) = flags (obs w x)" 
      "\<forall>x. super (obs w' x) = (if x = item then Some dest else super (obs w x))"
      "sents w' = (case super (obs w item) of None \<Rightarrow> sents w
        | Some room \<Rightarrow> parted w item room (filter (\<lambda>x. x \<noteq> item) (iv room)))"
    and alive: "\<not> destructed (obs w item)"
  shows "commands_near (obs w')"
  unfolding commands_near_def
proof (intro allI impI conjI ballI)
  fix u
  assume u: "\<not> destructed (obs w' u)"
  then have alive: "\<not> destructed (obs w u)" using w'(1) by simp
  have sub: "set (sents w' u) \<subseteq> set (sents w u)"
    using parted_subset by (cases "super (obs w item)") (simp_all add: w'(3))
  show "living (obs w' u)" if "sent (obs w' u) \<noteq> []"
    using that sub near alive w'(1) by (auto simp: commands_near_def sents_def)
  fix s
  assume s: "s \<in> set (sent (obs w' u))"
  let ?d = "sent_ob s"
  have old: "s \<in> set (sents w u)" using s sub by (auto simp: sents_def)
  then have n: "near (obs w) ?d u" and l: "living (obs w u)" using near alive by (auto simp: commands_near_def sents_def)
  show "near (obs w') ?d u"
  proof (cases "super (obs w item)")
    case None
    have "item \<notin> {?d, u} \<Longrightarrow> near (obs w') ?d u" using n w'(2) by (auto simp: near_def)
    moreover have "?d = item \<Longrightarrow> near (obs w') ?d u" using n None w'(2) by (auto simp: near_def)
    moreover have "u = item \<Longrightarrow> near (obs w') ?d u" using n None w'(2) by (auto simp: near_def)
    ultimately show ?thesis by blast
  next
    case (Some room)
    let ?ys = "filter (\<lambda>x. x \<noteq> item) (iv room)"
    have p: "s \<in> set (parted w item room ?ys u)"
      using s fun_cong [OF w'(3), of u] Some by (simp add: sents_def [of w'])
    have ys: "y \<in> set ?ys \<longleftrightarrow> super (obs w y) = Some room \<and> y \<noteq> item" for y using forestD(3) [OF f] by auto
    have "near (obs w') ?d u" if u: "u = item"
    proof -
      have "?d \<noteq> room" "?d \<notin> set ?ys" using p l u by (auto simp: parted_def)
      then have "super (obs w ?d) \<noteq> Some room \<or> ?d = item" using ys [of ?d] by blast
      with n \<open>?d \<noteq> room\<close> Some u have "?d = u \<or> super (obs w ?d) = Some u \<and> ?d \<noteq> item" by (simp add: near_def) blast
      then show ?thesis using w'(2) by (auto simp: near_def)
    qed
    moreover have "near (obs w') ?d u" if d: "?d = item" and u: "u \<noteq> item"
    proof -
      have "u \<noteq> room" "u \<notin> set ?ys" using p l d u unfolding parted_def by (auto split: if_splits)
      then have "super (obs w u) \<noteq> Some room" using ys [of u] u by blast
      with n \<open>u \<noteq> room\<close> Some d u have "super (obs w u) = Some ?d" by (simp add: near_def)
      then show ?thesis using w'(2) u by (simp add: near_def)
    qed
    moreover have "item \<notin> {?d, u} \<Longrightarrow> near (obs w') ?d u" using n w'(2) by (auto simp: near_def)
    ultimately show ?thesis by blast
  qed
qed

section \<open>What moving does\<close>

text \<open>
  What is asked of the calls that leave: LPC code keeps the objects consistent (it can only change them
  by these functions) and revives nothing; the rest of the driver does not touch environments (nor do
  the master's functions for saving an editor buffer and for creating a new master).
\<close>

fun lpc_call :: "call \<Rightarrow> bool" where
  "lpc_call (Init _) = True"
| "lpc_call (Move_out _ _) = True"

| "lpc_call _ = False"

definition still_destructed :: "(nat \<Rightarrow> object) \<Rightarrow> (nat \<Rightarrow> object) \<Rightarrow> bool" where
  "still_destructed h h' \<longleftrightarrow> (\<forall>x. destructed (h x) \<longrightarrow> destructed (h' x))"

definition lawful :: "'s driver \<Rightarrow> bool" where
  "lawful drv \<longleftrightarrow>
     (\<forall>c w.
        (consistent (obs w) \<longrightarrow> consistent (obs (snd (drv c w)))) \<and>
        still_destructed (obs w) (obs (snd (drv c w))) \<and>
        (\<not> lpc_call c \<longrightarrow> snd (drv c w) = w\<lparr>rest := rest (snd (drv c w)), vital := vital (snd (drv c w))\<rparr>))"

lemma still_destructed_refl [simp]: "still_destructed h h"
  by (simp add: still_destructed_def)

lemma still_destructed_trans: "still_destructed h h' \<Longrightarrow> still_destructed h' h'' \<Longrightarrow> still_destructed h h''"
  by (simp add: still_destructed_def)

fun world_of :: "'s outcome \<Rightarrow> 's world" where
  "world_of (Goes w) = w"
| "world_of (Returns w) = w"
| "world_of (Raises e w) = w"

lemma world_of_ended [simp]: "world_of (ended r) = world_of r"
  by (cases r) simp_all

text \<open>A step that keeps the objects consistent and destructed ones destructed.\<close>

definition keeps :: "'s world \<Rightarrow> 's outcome option \<Rightarrow> bool" where
  "keeps w r \<longleftrightarrow> (\<forall>o'. r = Some o' \<longrightarrow> consistent (obs w) \<longrightarrow>
     consistent (obs (world_of o')) \<and> still_destructed (obs w) (obs (world_of o')))"

lemma keeps_simple [simp]:
  "keeps w (Some (Goes w))" "keeps w (Some (Returns w))" "keeps w (Some (Raises e w))" "keeps w None"
  by (simp_all add: keeps_def)

lemma keeps_and_then:
  assumes "keeps w r" and "\<And>w'. r = Some (Goes w') \<Longrightarrow> keeps w' (f w')"
  shows "keeps w (and_then r f)"
proof (cases r)
  case (Some o')
  then show ?thesis using assms still_destructed_trans by (cases o') (auto simp: keeps_def)
qed simp

lemma keeps_finished: "keeps w r \<Longrightarrow> keeps w (finished r)"
  by (cases r) (simp_all add: keeps_def)

lemma keeps_obs: "obs w' = obs w \<Longrightarrow> keeps w' r \<Longrightarrow> keeps w r"
  by (simp add: keeps_def)

lemma keeps_giver [simp]: "keeps (set_giver p w) r \<longleftrightarrow> keeps w r" "obs (set_giver p w) = obs w"
  by (simp_all add: keeps_def set_giver_def)

lemma keeps_set_giver [simp]: "keeps w (Some (Goes (set_giver p w)))" "keeps w (Some (Returns (set_giver p w)))"
  by (simp_all add: keeps_def)

lemma keeps_call_drv: "lawful drv \<Longrightarrow> keeps w (call_drv drv c w)"
  unfolding lawful_def keeps_def call_drv_def
  by (cases "drv c w") (auto split: option.splits dest: spec [of _ c] dest!: spec [of _ w])

lemma keeps_init_near: "lawful drv \<Longrightarrow> keeps w (init_near drv item dest save user callee w)"
  unfolding init_near_def
  by (auto intro!: keeps_and_then intro: keeps_call_drv [of drv "set_giver (Some user) w" for user, simplified])

lemma keeps_init_loop:
  assumes "lawful drv"
  shows "keeps w (init_loop drv item dest save ob w)"
proof -
  have "lawful drv \<longrightarrow> keeps w (Some r)" if r: "init_loop drv item dest save ob w = Some r" for r
  proof (rule init_loop.raw_induct [of "\<lambda>drv item dest save ob w r. lawful drv \<longrightarrow> keeps w (Some r)", OF _ r], intro impI)
    fix loop :: "'a driver \<Rightarrow> _" and drv item dest save ob w r
    assume IH: "\<And>drv item dest save ob w r. loop drv item dest save ob w = Some r \<Longrightarrow> lawful drv \<longrightarrow> keeps w (Some r)"
      and body: "(case ob of None \<Rightarrow> Some (Goes w)
        | Some x \<Rightarrow>
            let next_ob = next_inv (obs w x) in
            if x = item then loop drv item dest save next_ob w
            else if destructed (obs w x) then Some (Raises ''An object was destructed at call of init()'' w)
            else and_then (init_near drv item dest save x item w) (\<lambda>w.
              if destructed (obs w item)
              then Some (Raises ''The object to be moved was destructed at call of init()'' w)
              else and_then (init_near drv item dest save item x w) (\<lambda>w. loop drv item dest save next_ob w))) = Some r"
      and lawful: "lawful drv"
    have loop: "keeps w (loop drv item dest save ob w)" for ob w
      using IH [of drv item dest save ob w] lawful by (cases "loop drv item dest save ob w") simp_all
    show "keeps w (Some r)" unfolding body [symmetric] using lawful
      by (auto simp: Let_def split: option.split intro!: keeps_and_then keeps_init_near loop)
  qed
  then show ?thesis using assms by (cases "init_loop drv item dest save ob w") simp_all
qed

lemma keeps_run_inits: "lawful drv \<Longrightarrow> keeps w (run_inits drv item dest w)"
  unfolding run_inits_def Let_def
  by (auto intro!: keeps_and_then keeps_init_loop intro: keeps_call_drv [of drv "set_giver p w" for p w, simplified])

text \<open>The invariant under moving, up to the calls of \<open>init\<close>.\<close>

lemma link_moved_consistent:
  assumes c: "consistent (obs w)" and out: "\<not> within (obs w) item dest"
    and alive: "\<not> destructed (obs w item)" "\<not> destructed (obs w dest)"
  shows "\<exists>w1 iv. link_moved item dest w = Some w1 \<and> consistent (obs w1) \<and> same_else w w1 \<and>
    (\<forall>x. flags (obs w1 x) = flags (obs w x) \<and>
         super (obs w1 x) = (if x = item then Some dest else super (obs w x))) \<and>
    forest (obs w) iv \<and> forest (obs w1) (moved item dest iv)"
proof -
  obtain iv where iv: "forest (obs w) iv" using c by (auto simp: consistent_def)
  obtain w1 where w1: "link_moved item dest w = Some w1" "forest (obs w1) (moved item dest iv)"
    "\<forall>x. flags (obs w1 x) = flags (obs w x) \<and> shadowing (obs w1 x) = shadowing (obs w x) \<and>
       shadowed (obs w1 x) = shadowed (obs w x) \<and> super (obs w1 x) = (if x = item then Some dest else super (obs w x))"
    "same_else w w1" "sents w1 = (case super (obs w item) of None \<Rightarrow> sents w
      | Some room \<Rightarrow> parted w item room (filter (\<lambda>x. x \<noteq> item) (iv room)))"
    using link_moved_forest [OF iv out alive] by blast
  have "commands_near (obs w1)"
    using link_moved_near [OF iv out _ _ _ w1(5) alive(1)] c w1(3) by (simp add: consistent_def)
  then show ?thesis using w1 iv by (auto simp: consistent_def)
qed


section \<open>The order of the calls of \<open>init\<close>\<close>

text \<open>The calls as pairs of the object called and the command giver.\<close>

definition init_pair :: "(nat \<Rightarrow> object) \<Rightarrow> nat \<Rightarrow> nat \<Rightarrow> (nat \<times> nat) list" where
  "init_pair h callee user = (if living (h user) then [(callee, user)] else [])"

definition init_calls :: "(nat \<Rightarrow> object) \<Rightarrow> nat \<Rightarrow> nat \<Rightarrow> nat list \<Rightarrow> (nat \<times> nat) list" where
  "init_calls h item dest others =
     init_pair h dest item @ concat (map (\<lambda>x. init_pair h item x @ init_pair h x item) others) @ init_pair h item dest"

text \<open>A driver whose \<open>init\<close> functions do not touch the objects.\<close>

definition inits_by :: "(nat \<Rightarrow> ptr \<Rightarrow> 's \<Rightarrow> 's) \<Rightarrow> 's driver \<Rightarrow> bool" where
  "inits_by f drv \<longleftrightarrow> (\<forall>x w. drv (Init x) w = (None, w\<lparr>rest := f x (command_giver w) (rest w)\<rparr>))"

definition called :: "(nat \<Rightarrow> ptr \<Rightarrow> 's \<Rightarrow> 's) \<Rightarrow> (nat \<times> nat) list \<Rightarrow> 's world \<Rightarrow> 's world" where
  "called f cs w = w\<lparr>rest := fold (\<lambda>(x, u). f x (Some u)) cs (rest w)\<rparr>"

text \<open>Equal up to the command giver.\<close>

definition same_but_giver :: "'s world \<Rightarrow> 's world \<Rightarrow> bool" where
  "same_but_giver w w' \<longleftrightarrow> w' = w\<lparr>command_giver := command_giver w'\<rparr>"

lemma called_append: "called f (cs @ ds) w = called f ds (called f cs w)"
  by (simp add: called_def)

lemma called_simps [simp]: "called f [] w = w" "obs (called f cs w) = obs w"
    "restrict_destruct (called f cs w) = restrict_destruct w" "command_giver (called f cs w) = command_giver w"
  by (simp_all add: called_def)

lemma same_but_giver_called: "same_but_giver w w' \<Longrightarrow> same_but_giver (called f cs w) (called f cs w')"
  by (cases w; cases w') (simp add: same_but_giver_def called_def)

lemma same_but_giver_trans: "same_but_giver w w' \<Longrightarrow> same_but_giver w' w'' \<Longrightarrow> same_but_giver w w''"
  by (cases w; cases w'; cases w'') (simp add: same_but_giver_def)

lemma same_but_giverD: "same_but_giver w w' \<Longrightarrow> obs w' = obs w \<and> set_giver p w' = set_giver p w"
  by (cases w; cases w') (simp add: same_but_giver_def set_giver_def)

lemma init_call:
  assumes "inits_by f drv"
  shows "\<exists>w'. call_drv drv (Init x) (set_giver (Some u) w) = Some (Goes w') \<and> same_but_giver (called f [(x, u)] w) w'"
  using assms by (cases w) (simp add: call_drv_def inits_by_def set_giver_def called_def same_but_giver_def)

lemma init_near_calls:
  assumes f: "inits_by f drv" and there: "super (obs w item) = Some dest"
  shows "\<exists>w'. init_near drv item dest save user callee w = Some (Goes w') \<and>
    same_but_giver (called f (init_pair (obs w) callee user) w) w'"
proof (cases "living (obs w user)")
  case True
  from init_call [OF f, of callee user w] obtain w' where
    w': "call_drv drv (Init callee) (set_giver (Some user) w) = Some (Goes w')" "same_but_giver (called f [(callee, user)] w) w'"
    by blast
  then have "super (obs w' item) = Some dest" using same_but_giverD [OF w'(2)] there by simp
  then show ?thesis using w' True by (simp add: init_near_def init_pair_def)
next
  case False
  then show ?thesis by (simp add: init_near_def init_pair_def same_but_giver_def)
qed

lemma init_loop_calls:
  assumes f: "inits_by f drv"
  shows "chain (obs w) ob xs \<Longrightarrow> super (obs w item) = Some dest \<Longrightarrow> \<forall>x\<in>insert item (set xs). \<not> destructed (obs w x) \<Longrightarrow>
    \<exists>w'. init_loop drv item dest save ob w = Some (Goes w') \<and>
      same_but_giver (called f (concat (map (\<lambda>x. init_pair (obs w) item x @ init_pair (obs w) x item)
        (filter (\<lambda>x. x \<noteq> item) xs))) w) w'"
proof (induction xs arbitrary: ob w)
  case Nil
  then show ?case by (simp add: init_loop.simps [of drv item dest save None w] same_but_giver_def)
next
  case (Cons x xs)
  let ?calls = "\<lambda>xs. concat (map (\<lambda>x. init_pair (obs w) item x @ init_pair (obs w) x item) (filter (\<lambda>x. x \<noteq> item) xs))"
  have ob: "ob = Some x" "chain (obs w) (next_inv (obs w x)) xs" using Cons.prems(1) by simp_all
  show ?case
  proof (cases "x = item")
    case True
    have "init_loop drv item dest save ob w = init_loop drv item dest save (next_inv (obs w x)) w"
      using ob True by (subst init_loop.simps) simp
    then show ?thesis using True Cons.IH [of w "next_inv (obs w x)"] Cons.prems(2,3) ob(2) by simp
  next
    case False
    from init_near_calls [OF f Cons.prems(2)] obtain w1 where
      w1: "init_near drv item dest save x item w = Some (Goes w1)" "same_but_giver (called f (init_pair (obs w) item x) w) w1"
      by blast
    note o1 = same_but_giverD [OF w1(2)]
    from init_near_calls [OF f, of w1 item dest save item x] o1 Cons.prems(2) obtain w2 where
      w2: "init_near drv item dest save item x w1 = Some (Goes w2)" "same_but_giver (called f (init_pair (obs w) x item) w1) w2"
      by auto
    note o2 = same_but_giverD [OF w2(2)]
    have "obs w2 = obs w" using o1 o2 by simp
    with Cons.IH [of w2 "next_inv (obs w x)"] Cons.prems ob obtain w3 where
      w3: "init_loop drv item dest save (next_inv (obs w x)) w2 = Some (Goes w3)" "same_but_giver (called f (?calls xs) w2) w3"
      by auto
    have "same_but_giver (called f (?calls (x # xs)) w) w3"
      using same_but_giver_trans [OF same_but_giver_called [OF same_but_giver_trans [OF
          same_but_giver_called [OF w1(2), of f "init_pair (obs w) x item"] w2(2)], of f "?calls xs"] w3(2)] False
      by (simp add: called_append)
    moreover have "init_loop drv item dest save ob w = Some (Goes w3)"
      using ob False Cons.prems(3) w1 w2 w3 o1
      by (simp add: init_loop.simps [of drv item dest save "Some x" w] Let_def)
    ultimately show ?thesis by blast
  qed
qed


section \<open>Destructing an object\<close>

text \<open>
  The tasks of \<open>destruct_object\<close>, which calls itself from two loops: the object itself, what is left
  in it (with its environment and the value of \<open>restrict_destruct\<close> to come back to), and a
  chain of shadows from its outer end.
\<close>

datatype task = Object nat | Contents nat ptr ptr | Shadows ptr

definition call_if :: "bool \<Rightarrow> 's driver \<Rightarrow> call \<Rightarrow> 's world \<Rightarrow> 's outcome option" where
  "call_if b drv c w = (if b then call_drv drv c w else Some (Goes w))"

partial_function (option) outermost :: "(nat \<Rightarrow> object) \<Rightarrow> nat \<Rightarrow> nat option" where
  "outermost h x = (case shadowed (h x) of None \<Rightarrow> Some x | Some y \<Rightarrow> outermost h y)"

declare outermost.simps [code]

definition unshadow :: "nat \<Rightarrow> 's world \<Rightarrow> 's world" where
  "unshadow ob w =
     (let w = (case shadowing (obs w ob) of None \<Rightarrow> w
               | Some x \<Rightarrow> upd x (\<lambda>o'. o'\<lparr>shadowed := shadowed (obs w ob)\<rparr>) w);
          w = (case shadowed (obs w ob) of None \<Rightarrow> w
               | Some x \<Rightarrow> upd x (\<lambda>o'. o'\<lparr>shadowing := shadowing (obs w ob)\<rparr>) w)
      in upd ob (\<lambda>o'. o'\<lparr>shadowing := None, shadowed := None\<rparr>) w)"

text \<open>Out of the environment, with all commands the object defined there.\<close>

definition take_out :: "nat \<Rightarrow> 's world \<Rightarrow> 's world option" where
  "take_out ob w =
     (case super (obs w ob) of
        None \<Rightarrow> Some w
      | Some room \<Rightarrow>
          unlink (remove_sent_if_living ob) ob (Contains room) (remove_sent_if_living ob room w))"

definition delist :: "nat \<Rightarrow> 's world \<Rightarrow> 's world" where
  "delist ob w = w\<lparr>obj_list := remove1 ob (obj_list w)\<rparr>"

definition dead_links :: "nat \<Rightarrow> 's world \<Rightarrow> 's world" where
  "dead_links ob w =
     (upd ob (\<lambda>o'. o'\<lparr>flags := flags o' - {O_ENABLE_COMMANDS}, super := None, next_inv := None, contains := None,
        living_name := None\<rparr>) w)
       \<lparr>obj_list_destruct := ob # obj_list_destruct w\<rparr>"

definition mark_destructed :: "nat \<Rightarrow> 's world \<Rightarrow> 's world" where
  "mark_destructed ob w = upd ob (\<lambda>o'. o'\<lparr>flags := insert O_DESTRUCTED (flags o')\<rparr>) w"

definition destruct_rest :: "'s driver \<Rightarrow> nat \<Rightarrow> 's world \<Rightarrow> 's outcome option" where
  "destruct_rest drv ob w =
     and_then (call_if (interactive (obs w ob) \<and> ed_buffer (obs w ob)) drv (Save_ed_buffer ob) w) (\<lambda>w.
     Option.bind (take_out ob (upd ob (\<lambda>o'. o'\<lparr>ed_buffer := False\<rparr>) w)) (\<lambda>w.
     and_then (call_if (ob \<in> vital w) drv (Reload_vital ob) w) (\<lambda>w.
     and_then (call_drv drv (Off_object_hash ob) w) (\<lambda>w.
     and_then (call_if (living_name (obs w ob) \<noteq> None) drv (Off_living_names ob) (delist ob w)) (\<lambda>w.
     and_then (call_drv drv (No_heart_beat ob) (dead_links ob w)) (\<lambda>w.
     and_then (call_if (interactive (obs w ob)) drv (Remove_interactive ob) (mark_destructed ob w)) (\<lambda>w.
     Some (Goes (upd ob (\<lambda>o'. o'\<lparr>interactive := False\<rparr>) w)))))))))"

partial_function (option) destruct :: "'s driver \<Rightarrow> task \<Rightarrow> 's world \<Rightarrow> 's outcome option" where
  "destruct drv t w =
     (case t of
        Object ob \<Rightarrow>
          if restrict_destruct w \<noteq> None \<and> restrict_destruct w \<noteq> Some ob
          then Some (Raises ''Only this_object() can be destructed from move_or_destruct.'' w)
          else
            let save = restrict_destruct w in
            finished
              (and_then (call_if (O_EFUN_SOCKET \<in> flags (obs w ob)) drv (Close_sockets ob) w) (\<lambda>w.
               if destructed (obs w ob) then Some (Goes w)
               else
                 and_then (call_if (O_SWAPPED \<in> flags (obs w ob)) drv (Load_from_swap ob) w) (\<lambda>w.
                 and_then (call_drv drv (Off_stack ob) w) (\<lambda>w.
                 if shadowed (obs w ob) \<noteq> None \<and> shadowing (obs w ob) = None
                 then Option.bind (outermost (obs w) ob) (\<lambda>x. destruct drv (Shadows (Some x)) w)
                 else
                   let w = unshadow ob w in
                   and_then (destruct drv (Contents ob (super (obs w ob)) save) w) (\<lambda>w. destruct_rest drv ob w)))))
      | Contents ob room save \<Rightarrow>
          (case contains (obs w ob) of
             None \<Rightarrow> Some (Goes w)
           | Some otmp \<Rightarrow>
               let arg = (case room of None \<Rightarrow> None | Some s \<Rightarrow> if destructed (obs w s) then None else Some s) in
               and_then (call_drv drv (Move_out otmp arg) (w\<lparr>restrict_destruct := Some otmp\<rparr>)) (\<lambda>w.
                 let w = w\<lparr>restrict_destruct := save\<rparr> in
                 if destructed (obs w ob) then Some (Returns w)
                 else
                   and_then (if contains (obs w ob) = Some otmp then destruct drv (Object otmp) w else Some (Goes w)) (\<lambda>w.
                     destruct drv (Contents ob room save) w)))
      | Shadows p \<Rightarrow>
          (case p of
             None \<Rightarrow> Some (Goes w)
           | Some otmp \<Rightarrow>
               let nxt = shadowing (obs w otmp);
                   w = (case nxt of None \<Rightarrow> w | Some x \<Rightarrow> upd x (\<lambda>o'. o'\<lparr>shadowed := None\<rparr>) w);
                   w = upd otmp (\<lambda>o'. o'\<lparr>shadowing := None\<rparr>) w
               in and_then (destruct drv (Object otmp) w) (\<lambda>w. destruct drv (Shadows nxt) w)))"

declare destruct.simps [code]

definition destruct_object :: "'s driver \<Rightarrow> nat \<Rightarrow> 's world \<Rightarrow> 's outcome option" where
  "destruct_object drv ob w = destruct drv (Object ob) w"

text \<open>
  A driver whose calls succeed and do not touch the objects; in particular no \<open>move\<close> function
  moves anything out of an object that is destructed.
\<close>

definition indifferent :: "'s driver \<Rightarrow> bool" where
  "indifferent drv \<longleftrightarrow> (\<forall>c w. \<exists>r v. drv c w = (None, w\<lparr>rest := r, vital := v\<rparr>))"

text \<open>Equal up to what such calls change.\<close>

definition same_objects :: "'s world \<Rightarrow> 's world \<Rightarrow> bool" where
  "same_objects w w' \<longleftrightarrow> w' = w\<lparr>rest := rest w', vital := vital w'\<rparr>"

lemma same_objects_trans: "same_objects w w' \<Longrightarrow> same_objects w' w'' \<Longrightarrow> same_objects w w''"
  by (cases w; cases w'; cases w'') (simp add: same_objects_def)

lemma same_objectsD:
  "same_objects w w' \<Longrightarrow> obs w' = obs w \<and> restrict_destruct w' = restrict_destruct w \<and>
     obj_list w' = obj_list w \<and> obj_list_destruct w' = obj_list_destruct w"
  by (cases w; cases w') (simp add: same_objects_def)

lemma indifferent_call:
  assumes "indifferent drv"
  shows "\<exists>w'. call_drv drv c w = Some (Goes w') \<and> same_objects w w'"
proof -
  obtain r v where "drv c w = (None, w\<lparr>rest := r, vital := v\<rparr>)" using assms unfolding indifferent_def by blast
  then show ?thesis by (simp add: call_drv_def same_objects_def)
qed

lemma indifferent_call_if: "indifferent drv \<Longrightarrow> \<exists>w'. call_if b drv c w = Some (Goes w') \<and> same_objects w w'"
  using indifferent_call by (auto simp: call_if_def same_objects_def)

definition no_shadows :: "(nat \<Rightarrow> object) \<Rightarrow> bool" where
  "no_shadows h \<longleftrightarrow> (\<forall>x. shadowing (h x) = None \<and> shadowed (h x) = None)"

lemma take_out_effect:
  assumes f: "forest (obs w) iv"
  shows "\<exists>w'. take_out ob w = Some w' \<and> same_else w w' \<and>
    (\<forall>x. flags (obs w' x) = flags (obs w x) \<and> super (obs w' x) = super (obs w x) \<and>
       shadowing (obs w' x) = shadowing (obs w x) \<and> shadowed (obs w' x) = shadowed (obs w x)) \<and>
    (\<forall>x. chain (obs w') (contains (obs w' x)) (filter (\<lambda>y. y \<noteq> ob) (iv x))) \<and>
    (\<forall>u. sents w' u =
       (case super (obs w ob) of None \<Rightarrow> sents w u
        | Some room \<Rightarrow> if (u = room \<or> u \<in> set (iv room)) \<and> living (obs w u)
                       then filter (\<lambda>s. sent_ob s \<noteq> ob) (sents w u) else sents w u))"
proof (cases "super (obs w ob)")
  case None
  have "ob \<notin> set (iv x)" for x using forestD(3) [OF f, of ob x] None by simp
  then have "filter (\<lambda>y. y \<noteq> ob) (iv x) = iv x" for x by (metis (mono_tags, lifting) filter_True)
  then show ?thesis using None forestD(1) [OF f] by (simp add: take_out_def)
next
  case (Some room)
  note F = forestD [OF f]
  let ?L = "\<lambda>y. living (obs w y)"
  have "room \<noteq> ob" using F(4) [of ob] Some rooted_irrefl by metis
  let ?w = "remove_sent_if_living ob room w"
  note e = remove_sent_if_living_effect [of w room "living (obs w room)" ob, OF refl]
  note same = same_linksD [OF e(1)]
  have "chain (obs ?w) (slot_get (obs ?w) (Contains room)) (iv room)"
    using F(1) [of room] chain_cong [of "iv room" "obs w" "obs ?w"] by (simp add: same)
  from unlink_takes_out [OF parts_by_leaver [of ?L ob] this F(2), where item = ob]
  obtain w' where w': "unlink (remove_sent_if_living ob) ob (Contains room) ?w = Some w'"
    "chain (obs w') (contains (obs w' room)) (filter (\<lambda>x. x \<noteq> ob) (iv room))"
    "links_but (Contains room) (iv room) (obs ?w) (obs w')" "same_else ?w w'"
    "sents w' = fold (leaver_sents ?L ob) (iv room) (sents ?w)"
    using same(1) by auto
  have links: "links_but (Contains room) (iv room) (obs w) (obs w')" using w'(3) same by (simp add: links_but_def)
  have "sents w' u = (if (u = room \<or> u \<in> set (iv room)) \<and> ?L u
                       then filter (\<lambda>s. sent_ob s \<noteq> ob) (sents w u) else sents w u)" for u
    by (simp add: w'(5) fold_leaver_sents e(3))
  moreover have "take_out ob w = Some w'" using w'(1) Some by (simp add: take_out_def)
  moreover have "same_else w w'" using e(2) w'(4) same_else_trans by blast
  ultimately show ?thesis
    using Some chains_after_unlink [OF f Some w'(2) links] links by (simp add: links_but_def)
qed

text \<open>The object is gone: it is nowhere and holds nothing.\<close>

definition buried :: "nat \<Rightarrow> (nat \<Rightarrow> object) \<Rightarrow> (nat \<Rightarrow> object) \<Rightarrow> bool" where
  "buried ob h h' \<longleftrightarrow> (\<forall>x. x \<noteq> ob \<longrightarrow> h' x = h x) \<and>
     (\<exists>o'. h' ob = o' \<and> super o' = None \<and> contains o' = None \<and> destructed o' \<and>
        shadowing o' = shadowing (h ob) \<and> shadowed o' = shadowed (h ob))"

lemma rooted_fewer: "rooted h x \<Longrightarrow> (\<And>y. super (h' y) = None \<or> super (h' y) = super (h y)) \<Longrightarrow> rooted h' x"
  by (induction rule: rooted.induct) (metis rooted.intros)+

lemma forest_buried:
  assumes f: "forest h0 iv" and empty: "iv ob = []" and sup: "\<forall>x. super (h x) = super (h0 x)"
    and fl: "\<forall>x. flags (h x) = flags (h0 x)"
    and chain: "\<forall>x. chain h (contains (h x)) (filter (\<lambda>y. y \<noteq> ob) (iv x))" and b: "buried ob h h'"
  shows "forest h' (\<lambda>x. filter (\<lambda>y. y \<noteq> ob) (iv x))"
  unfolding forest_def
proof (intro conjI allI impI)
  note F = forestD [OF f]
  have sup': "super (h' x) = (if x = ob then None else super (h0 x))" for x using b sup by (auto simp: buried_def)
  fix x y
  have same: "\<forall>z\<in>set (filter (\<lambda>y. y \<noteq> ob) (iv x)). next_inv (h z) = next_inv (h' z)" using b by (simp add: buried_def)
  show "chain h' (contains (h' x)) (filter (\<lambda>y. y \<noteq> ob) (iv x))"
  proof (cases "x = ob")
    case True
    then show ?thesis using b empty by (auto simp: buried_def)
  next
    case False
    then have "contains (h' x) = contains (h x)" using b by (simp add: buried_def)
    then show ?thesis using chain chain_cong [OF same] by metis
  qed
  show "distinct (filter (\<lambda>y. y \<noteq> ob) (iv x))" using F(2) by simp
  show "y \<in> set (filter (\<lambda>y. y \<noteq> ob) (iv x)) \<longleftrightarrow> super (h' y) = Some x" using F(3) by (simp add: sup')
  show "rooted h' x" using rooted_fewer [OF F(4)] sup' by metis
next
  fix x
  assume "destructed (h' x)"
  then have "x = ob \<or> destructed (h0 x)" using b fl by (auto simp: buried_def)
  then show "super (h' x) = None" "filter (\<lambda>y. y \<noteq> ob) (iv x) = []"
    using forestD(5,6) [OF f] b empty sup by (cases "x = ob"; auto simp: buried_def)+
qed

lemma near_buried:
  assumes f: "forest (obs w) iv" and empty: "iv ob = []" and near: "commands_near (obs w)"
    and sup: "\<forall>x. super (obs w1 x) = super (obs w x)" and fl: "\<forall>x. flags (obs w1 x) = flags (obs w x)"
    and s: "\<forall>u. sents w1 u =
       (case super (obs w ob) of None \<Rightarrow> sents w u
        | Some room \<Rightarrow> if (u = room \<or> u \<in> set (iv room)) \<and> living (obs w u)
                       then filter (\<lambda>s. sent_ob s \<noteq> ob) (sents w u) else sents w u)"
    and b: "buried ob (obs w1) h'"
  shows "commands_near h'"
  unfolding commands_near_def
proof (intro allI impI)
  note F = forestD [OF f]
  fix u
  assume u: "\<not> destructed (h' u)"
  then have ne: "u \<noteq> ob" and same: "h' u = obs w1 u" using b by (auto simp: buried_def)
  then have alive: "\<not> destructed (obs w u)" using u fl by simp
  have sup': "super (h' x) = (if x = ob then None else super (obs w x))" for x using b sup by (auto simp: buried_def)
  have sub: "set (sent (obs w1 u)) \<subseteq> set (sent (obs w u))"
    using s [rule_format, of u] by (auto simp: sents_def split: option.splits if_splits)
  have "near h' (sent_ob c) u" if c: "c \<in> set (sent (obs w1 u))" for c
  proof -
    have old: "c \<in> set (sent (obs w u))" using c sub by blast
    then have l: "living (obs w u)" and n: "near (obs w) (sent_ob c) u" using near alive by (auto simp: commands_near_def)
    have "sent_ob c \<noteq> ob"
    proof
      assume eq: "sent_ob c = ob"
      have "super (obs w u) \<noteq> Some ob" using F(3) [of u ob] empty by simp
      then obtain room where "super (obs w ob) = Some room" "u = room \<or> super (obs w u) = Some room"
        using n eq ne unfolding near_def by (metis not_None_eq)
      moreover then have "u = room \<or> u \<in> set (iv room)" using F(3) by blast
      ultimately show False using c s [rule_format, of u] l eq by (auto simp: sents_def)
    qed
    then show ?thesis using n ne by (auto simp: near_def sup')
  qed
  moreover have "living (h' u)" if "sent (obs w1 u) \<noteq> []"
    using that sub near alive fl same by (fastforce simp: commands_near_def)
  ultimately show "(sent (h' u) \<noteq> [] \<longrightarrow> living (h' u)) \<and> (\<forall>s\<in>set (sent (h' u)). near h' (sent_ob s) u)"
    by (simp add: same)
qed

definition same_core :: "(nat \<Rightarrow> object) \<Rightarrow> (nat \<Rightarrow> object) \<Rightarrow> bool" where
  "same_core h h' \<longleftrightarrow> (\<forall>x. flags (h' x) = flags (h x) \<and> super (h' x) = super (h x) \<and> contains (h' x) = contains (h x) \<and>
     next_inv (h' x) = next_inv (h x) \<and> shadowing (h' x) = shadowing (h x) \<and> shadowed (h' x) = shadowed (h x) \<and>
     sent (h' x) = sent (h x))"

lemma same_core_forest:
  assumes "same_core h h'" "forest h iv"
  shows "forest h' iv"
proof -
  have "chain h' p xs = chain h p xs" for p xs
    using assms(1) by (intro chain_cong) (simp add: same_core_def)
  moreover have "All (rooted h')" using rooted_fewer [OF forestD(4) [OF assms(2)]] assms(1) unfolding same_core_def by metis
  ultimately show ?thesis using assms unfolding forest_def same_core_def by simp
qed

lemma same_core_near: "same_core h h' \<Longrightarrow> commands_near h \<Longrightarrow> commands_near h'"
  by (simp add: same_core_def commands_near_def near_def)

lemma destruct_rest_leaf:
  assumes f: "forest (obs w) iv" and near: "commands_near (obs w)" and empty: "iv ob = []" and drv: "indifferent drv"
  shows "\<exists>w'. destruct_rest drv ob w = Some (Goes w') \<and> forest (obs w') (\<lambda>x. filter (\<lambda>y. y \<noteq> ob) (iv x)) \<and>
    commands_near (obs w') \<and> restrict_destruct w' = restrict_destruct w \<and>
    (\<forall>x. x \<noteq> ob \<longrightarrow> flags (obs w' x) = flags (obs w x) \<and> super (obs w' x) = super (obs w x)) \<and>
    (\<forall>x. shadowing (obs w' x) = shadowing (obs w x) \<and> shadowed (obs w' x) = shadowed (obs w x)) \<and>
    destructed (obs w' ob) \<and> super (obs w' ob) = None \<and>
    obj_list w' = remove1 ob (obj_list w) \<and> obj_list_destruct w' = ob # obj_list_destruct w"
proof -
  note call = indifferent_call [OF drv] and call_if = indifferent_call_if [OF drv]
  obtain w1 where w1: "call_if (interactive (obs w ob) \<and> ed_buffer (obs w ob)) drv (Save_ed_buffer ob) w = Some (Goes w1)"
    "same_objects w w1" using call_if by blast
  let ?w1 = "upd ob (\<lambda>o'. o'\<lparr>ed_buffer := False\<rparr>) w1"
  note s1 = same_objectsD [OF w1(2)]
  have core: "same_core (obs w) (obs ?w1)" using s1 by (simp add: same_core_def)
  note f1 = same_core_forest [OF core f] and n1 = same_core_near [OF core near]
  obtain w2 where w2: "take_out ob ?w1 = Some w2" "same_else ?w1 w2"
    "\<forall>x. flags (obs w2 x) = flags (obs ?w1 x) \<and> super (obs w2 x) = super (obs ?w1 x) \<and>
       shadowing (obs w2 x) = shadowing (obs ?w1 x) \<and> shadowed (obs w2 x) = shadowed (obs ?w1 x)"
    "\<forall>x. chain (obs w2) (contains (obs w2 x)) (filter (\<lambda>y. y \<noteq> ob) (iv x))"
    "\<forall>u. sents w2 u =
       (case super (obs ?w1 ob) of None \<Rightarrow> sents ?w1 u
        | Some room \<Rightarrow> if (u = room \<or> u \<in> set (iv room)) \<and> living (obs ?w1 u)
                       then filter (\<lambda>s. sent_ob s \<noteq> ob) (sents ?w1 u) else sents ?w1 u)"
    using take_out_effect [OF f1, of ob] by blast
  have e2: "restrict_destruct w2 = restrict_destruct w" "obj_list w2 = obj_list w" "obj_list_destruct w2 = obj_list_destruct w"
    using w2(2) s1 by (cases w2; simp add: same_else_def upd_def)+
  obtain w3 where w3: "call_if (ob \<in> vital w2) drv (Reload_vital ob) w2 = Some (Goes w3)" "same_objects w2 w3"
    using call_if by blast
  obtain w4 where w4: "call_drv drv (Off_object_hash ob) w3 = Some (Goes w4)" "same_objects w3 w4" using call by blast
  obtain w5 where w5: "call_if (living_name (obs w4 ob) \<noteq> None) drv (Off_living_names ob) (delist ob w4) = Some (Goes w5)"
    "same_objects (delist ob w4) w5" using call_if by blast
  obtain w6 where w6: "call_drv drv (No_heart_beat ob) (dead_links ob w5) = Some (Goes w6)" "same_objects (dead_links ob w5) w6"
    using call by blast
  obtain w7 where w7: "call_if (interactive (obs w6 ob)) drv (Remove_interactive ob) (mark_destructed ob w6) = Some (Goes w7)"
    "same_objects (mark_destructed ob w6) w7" using call_if by blast
  define w8 where "w8 = upd ob (\<lambda>o'. o'\<lparr>interactive := False\<rparr>) w7"
  have run: "destruct_rest drv ob w = Some (Goes w8)"
    by (simp only: destruct_rest_def w1(1) w2(1) w3(1) w4(1) w5(1) w6(1) w7(1) w8_def and_then_simps Option.bind.simps)
  note s = same_objectsD [OF w3(2)] same_objectsD [OF w4(2)] same_objectsD [OF w5(2)] same_objectsD [OF w6(2)] same_objectsD [OF w7(2)]
  have b: "buried ob (obs w2) (obs w8)"
    using s by (simp add: buried_def w8_def mark_destructed_def dead_links_def delist_def)
  have "\<forall>x. super (obs w2 x) = super (obs ?w1 x)" "\<forall>x. flags (obs w2 x) = flags (obs ?w1 x)" using w2(3) by blast+
  note fb = forest_buried [OF f1 empty this w2(4) b] and nb = near_buried [OF f1 empty n1 this w2(5) b]
  have "restrict_destruct w8 = restrict_destruct w" "obj_list w8 = remove1 ob (obj_list w)"
    "obj_list_destruct w8 = ob # obj_list_destruct w"
    using s e2 by (simp_all add: w8_def mark_destructed_def dead_links_def delist_def upd_def)
  moreover have "\<forall>x. x \<noteq> ob \<longrightarrow> flags (obs w8 x) = flags (obs w x) \<and> super (obs w8 x) = super (obs w x)"
    "\<forall>x. shadowing (obs w8 x) = shadowing (obs w x) \<and> shadowed (obs w8 x) = shadowed (obs w x)"
  proof -
    have c2: "flags (obs w2 x) = flags (obs w x) \<and> super (obs w2 x) = super (obs w x) \<and>
        shadowing (obs w2 x) = shadowing (obs w x) \<and> shadowed (obs w2 x) = shadowed (obs w x)" for x
      using w2(3) core unfolding same_core_def by metis
    then show "\<forall>x. x \<noteq> ob \<longrightarrow> flags (obs w8 x) = flags (obs w x) \<and> super (obs w8 x) = super (obs w x)"
      using b by (simp add: buried_def)
    have "shadowing (obs w8 x) = shadowing (obs w2 x) \<and> shadowed (obs w8 x) = shadowed (obs w2 x)" for x
      using b by (cases "x = ob") (auto simp: buried_def)
    then show "\<forall>x. shadowing (obs w8 x) = shadowing (obs w x) \<and> shadowed (obs w8 x) = shadowed (obs w x)"
      using c2 by simp
  qed
  moreover have "destructed (obs w8 ob)" "super (obs w8 ob) = None" using b by (auto simp: buried_def)
  ultimately show ?thesis using run fb nb by blast
qed

lemma within_acyclic: "rooted h x \<Longrightarrow> super (h y) = Some x \<Longrightarrow> \<not> within h y x"
proof (induction arbitrary: y rule: rooted.induct)
  case (1 x)
  then show ?case by (auto simp: within_iff [of h y x])
next
  case (2 x z)
  show ?case
  proof
    assume "within h y x"
    then have "within h y z" using 2 rooted_irrefl [of h x] rooted.intros(2) [OF 2(1,2)] by (auto simp: within_iff [of h y x])
    moreover have "within h x y" using 2(4) within.intros by metis
    ultimately have "within h x z" by (rule within_trans)
    then show False using 2(1,3) by blast
  qed
qed

lemma within_without:
  assumes super: "\<And>x. super (h' x) = (if within h y x then None else super (h x))" and z: "\<not> within h y z"
  shows "within h' z x \<longleftrightarrow> within h z x \<and> \<not> within h y x"
proof
  assume "within h' z x"
  then show "within h z x \<and> \<not> within h y x"
    by (induction rule: within.induct) (use super z in \<open>auto intro: within.intros split: if_splits\<close>)
next
  assume "within h z x \<and> \<not> within h y x"
  then have "within h z x" "\<not> within h y x" by simp_all
  then show "within h' z x"
  proof (induction rule: within.induct)
    case (2 x p)
    then have "\<not> within h y p" by (metis within.intros(2))
    then show ?case using 2 super within.intros(2) [of h' x p z] by simp
  qed (rule within.intros)
qed

text \<open>The set \<open>S\<close> of objects has been destructed, and nothing else has changed.\<close>

definition destroyed :: "nat set \<Rightarrow> (nat \<Rightarrow> nat list) \<Rightarrow> 's world \<Rightarrow> 's world \<Rightarrow> bool" where
  "destroyed S iv w w' \<longleftrightarrow>
     forest (obs w') (\<lambda>x. if x \<in> S then [] else filter (\<lambda>y. y \<notin> S) (iv x)) \<and> commands_near (obs w') \<and>
     no_shadows (obs w') \<and> restrict_destruct w' = restrict_destruct w \<and>
     (\<forall>x. x \<notin> S \<longrightarrow> flags (obs w' x) = flags (obs w x) \<and> super (obs w' x) = super (obs w x)) \<and>
     (\<forall>x\<in>S. destructed (obs w' x) \<and> super (obs w' x) = None)"

lemma destroyed_trans:
  assumes "destroyed S iv w w1" "destroyed T (\<lambda>x. if x \<in> S then [] else filter (\<lambda>y. y \<notin> S) (iv x)) w1 w2"
  shows "destroyed (S \<union> T) iv w w2"
proof -
  have "(\<lambda>x. if x \<in> T then [] else filter (\<lambda>y. y \<notin> T) (if x \<in> S then [] else filter (\<lambda>y. y \<notin> S) (iv x))) =
      (\<lambda>x. if x \<in> S \<union> T then [] else filter (\<lambda>y. y \<notin> S \<union> T) (iv x))"
    by (rule ext) (auto simp: filter_filter intro!: filter_cong)
  with assms show ?thesis by (simp add: destroyed_def) (metis Un_iff)
qed

lemma destroyed_leaf:
  assumes "forest (obs w) iv" "commands_near (obs w)" "no_shadows (obs w)" "iv ob = []" "indifferent drv"
  shows "\<exists>w'. destruct_rest drv ob w = Some (Goes w') \<and> destroyed {ob} iv w w'"
proof -
  obtain w' where w': "destruct_rest drv ob w = Some (Goes w')" "forest (obs w') (\<lambda>x. filter (\<lambda>y. y \<noteq> ob) (iv x))"
    "commands_near (obs w')" "restrict_destruct w' = restrict_destruct w"
    "\<forall>x. x \<noteq> ob \<longrightarrow> flags (obs w' x) = flags (obs w x) \<and> super (obs w' x) = super (obs w x)"
    "\<forall>x. shadowing (obs w' x) = shadowing (obs w x) \<and> shadowed (obs w' x) = shadowed (obs w x)"
    "destructed (obs w' ob)" "super (obs w' ob) = None"
    using destruct_rest_leaf [OF assms(1,2,4,5)] by blast
  have "(\<lambda>x. if x \<in> {ob} then [] else filter (\<lambda>y. y \<notin> {ob}) (iv x)) = (\<lambda>x. filter (\<lambda>y. y \<noteq> ob) (iv x))"
    using assms(4) by auto
  then have "destroyed {ob} iv w w'" using w' assms(3) unfolding destroyed_def by (simp add: no_shadows_def)
  then show ?thesis using w'(1) by blast
qed

lemma destroyed_objects:
  assumes "destroyed S iv w1 w2" "obs w1 = obs w" "restrict_destruct w1 = restrict_destruct w"
  shows "destroyed S iv w w2"
  using assms by (simp add: destroyed_def)

definition inside :: "(nat \<Rightarrow> object) \<Rightarrow> nat \<Rightarrow> nat set" where
  "inside h ob = {x. within h ob x \<and> x \<noteq> ob}"

text \<open>The contents, when all objects with fewer in them are destructed as they should be.\<close>

lemma destroyed_contents:
  assumes drv: "indifferent drv"
    and IH: "\<And>y w iv. \<lbrakk>forest (obs w) iv; commands_near (obs w); no_shadows (obs w); \<not> destructed (obs w y);
      restrict_destruct w = None; finite (Collect (within (obs w) y)); card (Collect (within (obs w) y)) < n\<rbrakk> \<Longrightarrow>
      \<exists>w'. destruct drv (Object y) w = Some (Goes w') \<and> destroyed (Collect (within (obs w) y)) iv w w'"
  shows "\<lbrakk>forest (obs w) iv; commands_near (obs w); no_shadows (obs w); \<not> destructed (obs w ob); restrict_destruct w = None;
      iv ob = xs; \<forall>y\<in>set xs. finite (Collect (within (obs w) y)) \<and> card (Collect (within (obs w) y)) < n\<rbrakk> \<Longrightarrow>
      \<exists>w'. destruct drv (Contents ob room None) w = Some (Goes w') \<and> destroyed (inside (obs w) ob) iv w w'"
proof (induction xs arbitrary: w iv)
  case Nil
  note F = forestD [OF Nil.prems(1)]
  have "contains (obs w ob) = None" using F(1) [of ob] Nil.prems(6) by simp
  then have "destruct drv (Contents ob room None) w = Some (Goes w)" by (simp add: destruct.simps)
  moreover have "inside (obs w) ob = {}"
  proof -
    have "within (obs w) ob x \<Longrightarrow> x = ob" for x
      by (induction rule: within.induct) (use F(3) Nil.prems(6) in \<open>metis empty_iff empty_set\<close>)+
    then show ?thesis by (auto simp: inside_def)
  qed
  ultimately show ?case using Nil.prems by (simp add: destroyed_def)
next
  case (Cons y xs)
  note F = forestD [OF Cons.prems(1)]
  let ?h = "obs w" and ?Y = "Collect (within (obs w) y)"
  have y: "contains (?h ob) = Some y" "super (?h y) = Some ob" "y \<notin> set xs"
    using F(1) [of ob] F(2) [of ob] F(3) [of y ob] Cons.prems(6) by auto
  have ny: "\<not> within ?h y ob" using within_acyclic [OF F(4) y(2)] .
  have alive: "\<not> destructed (?h y)" using F(5) y(2) by auto
  let ?arg = "case room of None \<Rightarrow> None | Some s \<Rightarrow> if destructed (?h s) then None else Some s"
  obtain w0 where w0: "call_drv drv (Move_out y ?arg) (w\<lparr>restrict_destruct := Some y\<rparr>) = Some (Goes w0)"
    "same_objects (w\<lparr>restrict_destruct := Some y\<rparr>) w0" using indifferent_call [OF drv] by blast
  define w1 where "w1 = w0\<lparr>restrict_destruct := None\<rparr>"
  have o1: "obs w1 = ?h" "restrict_destruct w1 = None" using same_objectsD [OF w0(2)] by (simp_all add: w1_def)
  from IH [of w1 iv y] Cons.prems alive obtain w2 where
    w2: "destruct drv (Object y) w1 = Some (Goes w2)" "destroyed ?Y iv w1 w2"
    unfolding o1 by auto
  have d2: "destroyed ?Y iv w w2" using destroyed_objects [OF w2(2)] o1 Cons.prems(5) by simp
  let ?iv2 = "\<lambda>x. if x \<in> ?Y then [] else filter (\<lambda>y. y \<notin> ?Y) (iv x)"
  have sup2: "super (obs w2 x) = (if within ?h y x then None else super (?h x))" for x using d2 by (auto simp: destroyed_def)
  have sib: "\<not> within ?h y z" if "z \<in> set xs" for z
  proof -
    have "super (?h z) = Some ob" "z \<noteq> y" using that F(3) [of z ob] Cons.prems(6) y(3) by auto
    then show ?thesis using ny by (auto simp: within_iff [of ?h y z])
  qed
  have "?iv2 ob = xs"
  proof -
    have "filter (\<lambda>y. y \<notin> ?Y) xs = xs" using sib by (intro filter_True) simp
    then show ?thesis using ny Cons.prems(6) within.intros(1) by simp
  qed
  moreover have "\<forall>z\<in>set xs. finite (Collect (within (obs w2) z)) \<and> card (Collect (within (obs w2) z)) < n"
  proof
    fix z assume z: "z \<in> set xs"
    have "Collect (within (obs w2) z) \<subseteq> Collect (within ?h z)" using within_without [of "obs w2" ?h y, OF sup2 sib [OF z]] by auto
    moreover have "finite (Collect (within ?h z))" "card (Collect (within ?h z)) < n" using Cons.prems(7) z by auto
    ultimately show "finite (Collect (within (obs w2) z)) \<and> card (Collect (within (obs w2) z)) < n"
      by (meson card_mono finite_subset le_less_trans)
  qed
  ultimately obtain w3 where w3: "destruct drv (Contents ob room None) w2 = Some (Goes w3)"
    "destroyed (inside (obs w2) ob) ?iv2 w2 w3"
    using Cons.IH [of w2 ?iv2] d2 Cons.prems(4,5) ny by (auto simp: destroyed_def)
  have "?Y \<union> inside (obs w2) ob = inside ?h ob"
  proof -
    have "within ?h ob x" if "within ?h y x" for x using within_trans [OF that] y(2) within.intros by metis
    then show ?thesis using within_without [of "obs w2" ?h y, OF sup2 ny] ny by (auto simp: inside_def)
  qed
  then have "destroyed (inside ?h ob) iv w w3" using destroyed_trans [OF d2 w3(2)] by simp
  moreover have "destruct drv (Contents ob room None) w = Some (Goes w3)"
    using y(1) w0 w2(1) w3(1) o1 Cons.prems(4)
    by (subst destruct.simps) (simp add: w1_def Let_def)
  ultimately show ?case by blast
qed

lemma destroyed_tree:
  assumes drv: "indifferent drv"
  shows "\<lbrakk>forest (obs w) iv; commands_near (obs w); no_shadows (obs w); \<not> destructed (obs w ob);
      restrict_destruct w = None; finite (Collect (within (obs w) ob)); card (Collect (within (obs w) ob)) = n\<rbrakk> \<Longrightarrow>
      \<exists>w'. destruct drv (Object ob) w = Some (Goes w') \<and> destroyed (Collect (within (obs w) ob)) iv w w'"
proof (induction n arbitrary: w iv ob rule: less_induct)
  case (less n)
  note F = forestD [OF less.prems(1)] and call = indifferent_call [OF drv] and call_if = indifferent_call_if [OF drv]
  let ?h = "obs w"
  obtain w1 where w1: "call_if (O_EFUN_SOCKET \<in> flags (?h ob)) drv (Close_sockets ob) w = Some (Goes w1)" "same_objects w w1"
    using call_if by blast
  obtain w2 where w2: "call_if (O_SWAPPED \<in> flags (?h ob)) drv (Load_from_swap ob) w1 = Some (Goes w2)" "same_objects w1 w2"
    using call_if by blast
  obtain w3 where w3: "call_drv drv (Off_stack ob) w2 = Some (Goes w3)" "same_objects w2 w3" using call by blast
  have o1: "obs w1 = ?h" using same_objectsD [OF w1(2)] by simp
  have o3: "obs w3 = ?h" "restrict_destruct w3 = None"
    using same_objectsD [OF w1(2)] same_objectsD [OF w2(2)] same_objectsD [OF w3(2)] less.prems(5) by simp_all
  have un: "unshadow ob w3 = upd ob (\<lambda>o'. o'\<lparr>shadowing := None, shadowed := None\<rparr>) w3"
    using less.prems(3) o3 by (simp add: unshadow_def no_shadows_def)
  have core: "obs (unshadow ob w3) = ?h"
    using less.prems(3) o3 unfolding un by (auto simp: no_shadows_def fun_eq_iff)
  have restr: "restrict_destruct (unshadow ob w3) = None" unfolding un using o3 by (simp add: upd_def)
  have "\<forall>y\<in>set (iv ob). finite (Collect (within ?h y)) \<and> card (Collect (within ?h y)) < n"
  proof
    fix y assume "y \<in> set (iv ob)"
    then have y: "super (?h y) = Some ob" using F(3) by simp
    have "Collect (within ?h y) \<subseteq> Collect (within ?h ob) - {ob}"
      using within_trans [of ?h y _ ob] within.intros(1,2) [of ?h] y within_acyclic [OF F(4) y] by blast
    moreover have "card (Collect (within ?h ob) - {ob}) < n"
      using less.prems(6,7) within.intros(1) [of ?h ob] by (metis card_Diff1_less mem_Collect_eq)
    ultimately show "finite (Collect (within ?h y)) \<and> card (Collect (within ?h y)) < n"
      using less.prems(6) by (meson card_mono finite_Diff finite_subset le_less_trans)
  qed
  then obtain w4 where w4: "destruct drv (Contents ob (super (?h ob)) None) (unshadow ob w3) = Some (Goes w4)"
    "destroyed (inside ?h ob) iv (unshadow ob w3) w4"
    using destroyed_contents [OF drv, of n "unshadow ob w3" iv ob _ "super (?h ob)"] less.IH less.prems restr unfolding core
    by blast
  have d4: "destroyed (inside ?h ob) iv w w4" using destroyed_objects [OF w4(2) core] restr less.prems(5) by simp
  let ?iv4 = "\<lambda>x. if x \<in> inside ?h ob then [] else filter (\<lambda>y. y \<notin> inside ?h ob) (iv x)"
  have "?iv4 ob = []"
  proof -
    have "y \<in> inside ?h ob" if "y \<in> set (iv ob)" for y
    proof -
      have y: "super (?h y) = Some ob" using F(3) that by simp
      then have "within ?h ob y" "y \<noteq> ob" using within.intros rooted_irrefl [OF F(4)] by metis+
      then show ?thesis by (simp add: inside_def)
    qed
    then show ?thesis by (simp add: filter_False)
  qed
  then obtain w5 where w5: "destruct_rest drv ob w4 = Some (Goes w5)" "destroyed {ob} ?iv4 w4 w5"
    using destroyed_leaf [of w4 ?iv4 ob drv] d4 drv by (auto simp: destroyed_def)
  have "inside ?h ob \<union> {ob} = Collect (within ?h ob)" using within.intros(1) by (auto simp: inside_def)
  then have "destroyed (Collect (within ?h ob)) iv w w5" using destroyed_trans [OF d4 w5(2)] by simp
  moreover have "destruct drv (Object ob) w = Some (Goes w5)"
    using less.prems(3-5) o1 o3 w1(1) w2(1) w3(1) w4(1) w5(1) core
    by (subst destruct.simps) (simp add: no_shadows_def Let_def)
  ultimately show ?case by blast
qed


section \<open>Examples\<close>

definition blank :: object where
  "blank = \<lparr>flags = {}, super = None, contains = None, next_inv = None, shadowing = None, shadowed = None,
     sent = [], living_name = None, interactive = False, ed_buffer = False\<rparr>"

definition world_with :: "(nat \<Rightarrow> object) \<Rightarrow> 's \<Rightarrow> 's world" where
  "world_with h r = \<lparr>obs = h, command_giver = None, illegal_sentence_action = 0, restrict_destruct = None,
     vital = {}, obj_list = [], obj_list_destruct = [], rest = r\<rparr>"

definition logging :: "(nat \<times> ptr) list driver" where
  "logging c w = (None, case c of Init x \<Rightarrow> w\<lparr>rest := rest w @ [(x, command_giver w)]\<rparr> | _ \<Rightarrow> w)"

text \<open>All objects are living and in no environment.\<close>

definition living_things :: "nat \<Rightarrow> object" where
  "living_things x = blank\<lparr>flags := {O_ENABLE_COMMANDS}\<rparr>"

lemma living_things_forest: "forest living_things (\<lambda>_. [])"
  by (simp add: forest_def living_things_def blank_def rooted.intros)

lemma living_things_consistent: "consistent living_things"
  using living_things_forest by (auto simp: consistent_def commands_near_def living_things_def blank_def)

lemma logging_lawful: "lawful logging"
  unfolding lawful_def by (auto simp: logging_def split: call.split)

lemma within_top: "super (h x) = None \<Longrightarrow> within h y x \<longleftrightarrow> y = x"
  by (auto simp: within_iff [of h y x])

definition small_world :: "(nat \<times> ptr) list world" where
  "small_world = world_with living_things []"



definition nested :: "nat \<Rightarrow> object" where
  "nested = (\<lambda>_. blank)(1 := blank\<lparr>contains := Some 2\<rparr>, 2 := blank\<lparr>super := Some 1\<rparr>)"

lemma nested_forest: "forest nested ((\<lambda>_. [])(1 := [2]))"
proof -
  have 1: "rooted nested x" if "x \<noteq> 2" for x using that by (intro rooted.intros(1)) (simp add: nested_def blank_def)
  then have "rooted nested x" for x using rooted.intros(2) [of nested 2 1] by (cases "x = 2") (auto simp: nested_def)
  then show ?thesis by (auto simp: forest_def nested_def blank_def split: if_splits)
qed


text \<open>Evaluating runs: the rest of a run is not touched before it is reached.\<close>

lemma and_then_cong_weak: "r = r' \<Longrightarrow> and_then r f = and_then r' f"
  by simp

lemma finished_cong_weak: "r = r' \<Longrightarrow> finished r = finished r'"
  by simp

lemma bind_cong_weak: "r = r' \<Longrightarrow> Option.bind r f = Option.bind r' f"
  by simp

lemmas evaluate = destruct_object_def destruct.simps destruct_rest_def call_if_def call_drv_def unshadow_def
  take_out_def unlink.simps remove_sent_if_living_def remove_sent_def delist_def dead_links_def mark_destructed_def upd_def
  move_object_def meets.simps link_moved_def leave_def part_movers_def enter_def run_inits_def init_loop.simps init_near_def
  set_giver_def Let_def

lemmas evaluate_cong = and_then_cong_weak finished_cong_weak bind_cong_weak

section \<open>What goes wrong\<close>

text \<open>
  Object 1 holds object 2, which holds object 3. The \<open>move\<close> function of object 3 moves object 2 into the
  room 0 and then object 1 into object 2.
\<close>

definition lpc_move :: "nat \<Rightarrow> nat \<Rightarrow> 's world \<Rightarrow> 's world" where
  "lpc_move item dest w =
     (if destructed (obs w item) then w
      else case move_object (\<lambda>c w. (None, w)) item dest w of Some r \<Rightarrow> world_of r | None \<Rightarrow> w)"

definition swapping :: "'s driver" where
  "swapping c w = (None, case c of Move_out x _ \<Rightarrow> if x = 3 then lpc_move 1 2 (lpc_move 2 0 w) else w | _ \<Rightarrow> w)"

definition three_nested :: "nat \<Rightarrow> object" where
  "three_nested = (\<lambda>_. blank)(1 := blank\<lparr>contains := Some 2\<rparr>, 2 := blank\<lparr>super := Some 1, contains := Some 3\<rparr>,
     3 := blank\<lparr>super := Some 2\<rparr>)"

text \<open>An object can be destructed twice: after destructing something left in the object the loop does not look
  whether this has destructed the object itself. Object 1 is put twice into the list of destructed objects,
  which are linked through the objects themselves.\<close>
theorem destructed_twice:
  "case destruct_object swapping 1 (world_with three_nested ()) of
     Some (Goes w') \<Rightarrow> obj_list_destruct w' = [1, 2, 3, 1] | _ \<Rightarrow> False"
  by (simp add: evaluate lpc_move_def swapping_def three_nested_def world_with_def blank_def cong: evaluate_cong)

text \<open>The new copy of the master object cannot be loaded.\<close>

definition no_reload :: "'s driver" where
  "no_reload c w = (case c of Reload_vital x \<Rightarrow> (Some ''Destruct on vital object failed'', w) | _ \<Rightarrow> (None, w))"

lemma no_reload_lawful: "lawful no_reload"
  unfolding lawful_def by (auto simp: no_reload_def split: call.split)

text \<open>When a vital object cannot be replaced the error comes after it was taken out of its environment: the
  object is alive and still has the environment, whose inventory it is no longer in.\<close>
theorem failed_reload_breaks_environment:
  "\<exists>e w'. consistent nested \<and> destruct_object no_reload 2 ((world_with nested ())\<lparr>vital := {2}\<rparr>) = Some (Raises e w') \<and>
     \<not> destructed (obs w' 2) \<and> super (obs w' 2) = Some 1 \<and> \<not> consistent (obs w')"
proof -
  have c: "consistent nested"
    using nested_forest by (auto simp: consistent_def commands_near_def nested_def blank_def)
  let ?w = "(world_with nested ())\<lparr>vital := {2}\<rparr>"
  obtain e w' where w': "destruct_object no_reload 2 ?w = Some (Raises e w')" "super (obs w' 2) = Some 1"
    "contains (obs w' 1) = None" "\<not> destructed (obs w' 2)"
    by (simp add: evaluate no_reload_def nested_def world_with_def blank_def cong: evaluate_cong)
  have "\<not> consistent (obs w')"
  proof
    assume "consistent (obs w')"
    then obtain iv where iv: "forest (obs w') iv" by (auto simp: consistent_def)
    have "2 \<in> set (iv 1)" using forestD(3) [OF iv] w'(2) by simp
    moreover have "iv 1 = []" using forestD(1) [OF iv, of 1] w'(3) by (cases "iv 1") auto
    ultimately show False by simp
  qed
  then show ?thesis using w' c by blast
qed

end
