(* ===== verification/Commands.thy ===== *)
theory Commands
  imports Environment "HOL-Library.Sublist"
begin

text \<open>
  Commands of objects (\<open>add_action\<close>, \<open>remove_action\<close>, \<open>enable_commands\<close> and \<open>user_parser\<close> of
  \<open>simulate.c\<close>). A command is a sentence in the list of the object that may use it. Its identity is
  \<open>sent_id\<close>, which stands for its address; verbs are shared strings, so they are the same address exactly
  if they are equal.
\<close>

section \<open>Adding and removing commands\<close>

partial_function (option) shadow_base :: "(nat \<Rightarrow> object) \<Rightarrow> nat \<Rightarrow> nat option" where
  "shadow_base h x = (case shadowing (h x) of None \<Rightarrow> Some x | Some y \<Rightarrow> shadow_base h y)"

declare shadow_base.simps [code]

definition may_add :: "(nat \<Rightarrow> object) \<Rightarrow> nat \<Rightarrow> nat \<Rightarrow> bool" where
  "may_add h ob giver \<longleftrightarrow>
     \<not> (ob \<noteq> giver \<and> super (h ob) \<noteq> Some giver \<and> super (h ob) \<noteq> super (h giver) \<and> Some ob \<noteq> super (h giver))"

definition add_action ::
  "(string \<Rightarrow> nat \<Rightarrow> bool) \<Rightarrow> nat \<Rightarrow> nat \<Rightarrow> callee \<Rightarrow> string \<Rightarrow> bool \<Rightarrow> bool \<Rightarrow> 's world \<Rightarrow> 's world option" where
  "add_action is_static fresh current_object str cmd short nospace w =
     (let h = obs w in
      if destructed (h current_object) then Some w
      else
        Option.bind (shadow_base h current_object) (\<lambda>ob.
          if ob \<noteq> current_object \<and> (case str of Fname s \<Rightarrow> is_static s ob | Fptr _ \<Rightarrow> False) then Some w
          else
            (case command_giver w of
               None \<Rightarrow> Some w
             | Some giver \<Rightarrow>
                 if destructed (h giver) \<or> \<not> may_add h ob giver then Some w
                 else
                   Some (upd giver (\<lambda>u. u\<lparr>sent := \<lparr>sent_id = fresh, verb = cmd, sent_ob = ob, sent_fn = str,
                     v_short = short, v_nospace = nospace\<rparr> # sent u\<rparr>) w))))"

text \<open>The first sentence of the object with this verb and function name goes.\<close>

fun drop_first :: "('a \<Rightarrow> bool) \<Rightarrow> 'a list \<Rightarrow> 'a list" where
  "drop_first P [] = []"
| "drop_first P (x # xs) = (if P x then xs else x # drop_first P xs)"

definition remove_action :: "nat \<Rightarrow> string \<Rightarrow> string \<Rightarrow> 's world \<Rightarrow> bool \<times> 's world" where
  "remove_action current_object act vb w =
     (let ob = (case command_giver w of None \<Rightarrow> current_object | Some g \<Rightarrow> g);
          P = (\<lambda>s. sent_ob s = current_object \<and> sent_fn s = Fname act \<and> verb s = vb) in
      if \<exists>s\<in>set (sent (obs w ob)). P s
      then (True, (upd ob (\<lambda>u. u\<lparr>sent := drop_first P (sent u)\<rparr>) w)\<lparr>illegal_sentence_action := 1\<rparr>)
      else (False, w))"

text \<open>The loop over the inventory that removes the commands of the object, which stays where it is.\<close>

partial_function (option) remove_from_all :: "nat \<Rightarrow> ptr \<Rightarrow> 's world \<Rightarrow> 's world option" where
  "remove_from_all ob pp w =
     (case pp of
        None \<Rightarrow> Some w
      | Some x \<Rightarrow>
          let w = remove_sent_if_living ob x w in remove_from_all ob (next_inv (obs w x)) w)"

declare remove_from_all.simps [code]

definition enable_commands :: "nat \<Rightarrow> bool \<Rightarrow> 's world \<Rightarrow> 's world option" where
  "enable_commands current_object num w =
     (if destructed (obs w current_object) then Some w
      else if num then
        Some ((upd current_object (\<lambda>ob. ob\<lparr>flags := insert O_ENABLE_COMMANDS (flags ob)\<rparr>) w)
                \<lparr>command_giver := Some current_object\<rparr>)
      else
        Option.bind
          (if living (obs w current_object) then
             (case super (obs w current_object) of
                None \<Rightarrow> Some w
              | Some room \<Rightarrow>
                  let w = remove_sent current_object room w in
                  remove_from_all current_object (contains (obs w room)) w)
           else Some w)
          (\<lambda>w. Some ((upd current_object (\<lambda>ob. ob\<lparr>flags := flags ob - {O_ENABLE_COMMANDS}\<rparr>) w)
                       \<lparr>command_giver := None\<rparr>)))"

section \<open>Finding the command\<close>

definition MAX_VERB_BUFF :: nat where "MAX_VERB_BUFF = 100"

definition strip_trailing :: "string \<Rightarrow> string" where
  "strip_trailing buff = rev (dropWhile (\<lambda>c. c = CHR '' '') (rev buff))"

definition first_word :: "string \<Rightarrow> string" where
  "first_word buff = takeWhile (\<lambda>c. c \<noteq> CHR '' '') buff"

text \<open>
  \<open>verb_buff\<close> after \<open>strncpy\<close> and the closing zero; None when no zero is written into its 100 bytes.
\<close>

definition verb_buff :: "string \<Rightarrow> string option" where
  "verb_buff buff =
     (let vb = first_word buff in
      if vb = buff then (if length vb < MAX_VERB_BUFF - 1 then Some vb else None)
      else if length vb < MAX_VERB_BUFF then Some vb else None)"

definition verb_matches :: "string \<Rightarrow> sentence \<Rightarrow> bool" where
  "verb_matches buff s \<longleftrightarrow>
     (if v_nospace s \<or> v_short s then prefix (verb s) buff else verb s = [] \<or> first_word buff = verb s)"

text \<open>\<open>last_verb\<close>; None when it is read from a buffer without end.\<close>

definition verb_given :: "string \<Rightarrow> sentence \<Rightarrow> string option" where
  "verb_given buff s =
     (if v_nospace s then map_option (\<lambda>v. if length (verb s) < length v then drop (length (verb s)) v else []) (verb_buff buff)
      else if verb s = [] \<or> v_short s then verb_buff buff
      else Some (verb s))"

definition verb_argument :: "string \<Rightarrow> sentence \<Rightarrow> string option" where
  "verb_argument buff s =
     (if v_nospace s then Some (drop (length (verb s)) buff)
      else if first_word buff \<noteq> buff then Some (drop (length (first_word buff) + 1) buff) else None)"

text \<open>What a verb function gives: an error, no value because it is not there, or whether its value counts as done.\<close>

datatype verb_result = Verb_error string | Not_callable | Verb_value bool

datatype parse_error =
    In_call string | Uncallable_pointer string | Function_not_found string | Illegal_function_name
  | Removed_in_failing_verb | Moved_in_failing_verb

definition APPLY_INIT_SPECIAL_CHAR :: char where "APPLY_INIT_SPECIAL_CHAR = CHR ''#''"

definition legal_function :: "sentence \<Rightarrow> bool" where
  "legal_function s \<longleftrightarrow>
     (case sent_fn s of Fname (c # _) \<Rightarrow> c \<noteq> APPLY_INIT_SPECIAL_CHAR | _ \<Rightarrow> True)"

type_synonym 's verbs = "sentence \<Rightarrow> string option \<Rightarrow> string option \<Rightarrow> 's world \<Rightarrow> verb_result \<times> 's world"

datatype 's parsed = Done 's | Failed 's | Error parse_error 's | Dangling

text \<open>\<open>s\<rightarrow>next\<close> where \<open>s\<close> is looked up in the list as it is now; None when \<open>s\<close> is no longer there.\<close>

fun after :: "nat \<Rightarrow> sentence list \<Rightarrow> sentence list option" where
  "after n [] = None"
| "after n (s # ss) = (if sent_id s = n then Some ss else after n ss)"

text \<open>What follows a verb function; the early ends are on the left.\<close>

definition no_illegal_action :: "'s world \<Rightarrow> 's world parsed + 's world" where
  "no_illegal_action w =
     (if illegal_sentence_action w = 1 then Inl (Error Removed_in_failing_verb w)
      else if illegal_sentence_action w = 2 then Inl (Error Moved_in_failing_verb w) else Inr w)"

definition verb_done :: "nat \<Rightarrow> nat \<Rightarrow> sentence \<Rightarrow> verb_result \<Rightarrow> 's world \<Rightarrow> 's world parsed + 's world" where
  "verb_done giver save_illegal s r w =
     (case r of
        Verb_error e \<Rightarrow> Inl (Error (In_call e) w)
      | Not_callable \<Rightarrow>
          if sent (obs w giver) \<noteq> [] \<and> sent_id (hd (sent (obs w giver))) = sent_id s
          then Inl (Error (case sent_fn s of Fptr _ \<Rightarrow> Uncallable_pointer (verb s) | Fname _ \<Rightarrow> Function_not_found (verb s)) w)
          else no_illegal_action w
      | Verb_value True \<Rightarrow>
          Inl (Done (w\<lparr>illegal_sentence_action :=
            (if illegal_sentence_action w = 0 then save_illegal else illegal_sentence_action w)\<rparr>))
      | Verb_value False \<Rightarrow> no_illegal_action w)"

partial_function (option) try_sentences ::
  "'s verbs \<Rightarrow> string \<Rightarrow> nat \<Rightarrow> nat \<Rightarrow> sentence list \<Rightarrow> 's world \<Rightarrow> ('s world parsed + 's world) option" where
  "try_sentences call buff giver save_illegal ss w =
     (case ss of
        [] \<Rightarrow> Some (Inr w)
      | s # ss' \<Rightarrow>
          if \<not> verb_matches buff s then try_sentences call buff giver save_illegal ss' w
          else if \<not> legal_function s then Some (Inl (Error Illegal_function_name w))
          else
            (case call s (verb_given buff s) (verb_argument buff s) w of
               (r, w') \<Rightarrow>
                 (case verb_done giver save_illegal s r (set_giver (Some giver) w') of
                    Inl result \<Rightarrow> Some (Inl result)
                  | Inr w'' \<Rightarrow>
                      (case after (sent_id s) (sent (obs w'' giver)) of
                         None \<Rightarrow> Some (Inl Dangling)
                       | Some ss'' \<Rightarrow> try_sentences call buff giver save_illegal ss'' w''))))"

declare try_sentences.simps [code]

definition user_parser ::
  "'s verbs \<Rightarrow> ('s world \<Rightarrow> string option \<times> 's world) \<Rightarrow> string \<Rightarrow> nat \<Rightarrow> 's world \<Rightarrow> 's world parsed option" where
  "user_parser call notify_no_command buff giver w =
     (let buff = strip_trailing buff in
      if buff = [] then Some (Failed w)
      else
        (let save_illegal = illegal_sentence_action w in
         Option.bind
           (try_sentences call buff giver save_illegal (sent (obs w giver)) (w\<lparr>illegal_sentence_action := 0\<rparr>))
           (\<lambda>r. Some (case r of
               Inl result \<Rightarrow> result
             | Inr w' \<Rightarrow>
                 (case notify_no_command w' of
                    (Some e, w'') \<Rightarrow> Error (In_call e) w''
                  | (None, w'') \<Rightarrow> Failed (w''\<lparr>illegal_sentence_action := save_illegal\<rparr>))))))"

section \<open>Commands come from near by\<close>

lemma shadow_base_plain: "shadowing (h x) = None \<Longrightarrow> shadow_base h x = Some x"
  by (simp add: shadow_base.simps)

lemma forest_same_links:
  assumes "same_links h h'" "forest h iv"
  shows "forest h' iv"
proof -
  note same = same_linksD [OF assms(1)]
  have "chain h' p xs = chain h p xs" for p xs by (intro chain_cong) (simp add: same)
  moreover have "All (rooted h')" using rooted_fewer [OF forestD(4) [OF assms(2)]] same by metis
  ultimately show ?thesis using assms(2) unfolding forest_def by (simp add: same)
qed



text \<open>Two objects without environment count as being in the same one: object 2, which has nothing to do with the
  command giver 1, adds a command to it. When object 2 is destructed the command stays with object 1, and its
  definer is an object that is destructed and will be freed.\<close>
theorem command_without_environment_dangles:
  "\<exists>w1 w2. add_action (\<lambda>_ _. False) 7 2 (Fname ''f'') ''verb'' False False
      ((world_with living_things ())\<lparr>command_giver := Some 1\<rparr>) = Some w1 \<and>
     destruct_object (\<lambda>c w. (None, w)) 2 w1 = Some (Goes w2) \<and>
     \<not> destructed (obs w2 1) \<and> map sent_ob (sent (obs w2 1)) = [2] \<and> destructed (obs w2 2)"
  by (simp add: add_action_def shadow_base.simps may_add_def world_with_def living_things_def blank_def evaluate
      cong: evaluate_cong)

definition room_with_two :: "unit world" where
  "room_with_two = world_with ((\<lambda>_. blank)(0 := blank\<lparr>contains := Some 1\<rparr>,
     1 := blank\<lparr>flags := {O_ENABLE_COMMANDS}, super := Some 0, next_inv := Some 2,
       sent := [\<lparr>sent_id = 7, verb = ''go'', sent_ob = 2, sent_fn = Fname ''f'', v_short = False, v_nospace = False\<rparr>]\<rparr>,
     2 := blank\<lparr>super := Some 0\<rparr>)) ()"

lemma room_with_two_consistent: "consistent (obs room_with_two)"
proof -
  let ?h = "obs room_with_two"
  have "rooted ?h x" if "x \<notin> {1, 2}" for x
    using that by (intro rooted.intros(1)) (simp add: room_with_two_def world_with_def blank_def)
  then have "rooted ?h x" for x
    using rooted.intros(2) [of ?h x 0] by (cases "x \<in> {1, 2}") (auto simp: room_with_two_def world_with_def)
  then have "forest ?h ((\<lambda>_. [])(0 := [1, 2]))"
    by (auto simp: forest_def room_with_two_def world_with_def blank_def split: if_splits)
  moreover have "commands_near ?h" by (auto simp: commands_near_def near_def room_with_two_def world_with_def blank_def)
  ultimately show ?thesis by (auto simp: consistent_def)
qed

text \<open>Giving up commands does not remove the object's own ones: object 1 and object 2 are in room 0, object 1 has a
  command from object 2 and then disables its commands. When object 2 is destructed, the command stays with
  object 1 and is there again, with a destructed definer, when object 1 enables commands.\<close>
theorem disabled_commands_dangle:
  "\<exists>w1 w2 w3. consistent (obs room_with_two) \<and> enable_commands 1 False room_with_two = Some w1 \<and>
     destruct_object (\<lambda>c w. (None, w)) 2 w1 = Some (Goes w2) \<and> enable_commands 1 True w2 = Some w3 \<and>
     living (obs w3 1) \<and> map sent_ob (sent (obs w3 1)) = [2] \<and> destructed (obs w3 2)"
  using room_with_two_consistent
  by (simp add: enable_commands_def remove_from_all.simps room_with_two_def world_with_def blank_def evaluate
      cong: evaluate_cong)

section \<open>What the parser does\<close>

text \<open>
  The reference: the verb functions of the matching commands are called in the order of the list until
  one gives a value other than zero; the result is its world, or the world in the end and that none did.
\<close>

fun run_verbs :: "'s verbs \<Rightarrow> string \<Rightarrow> nat \<Rightarrow> sentence list \<Rightarrow> 's world \<Rightarrow> bool \<times> 's world" where
  "run_verbs call buff giver [] w = (False, w)"
| "run_verbs call buff giver (s # ss) w =
     (case call s (verb_given buff s) (verb_argument buff s) w of
        (r, w) \<Rightarrow>
          (let w = set_giver (Some giver) w in
           if r = Verb_value True then (True, w) else run_verbs call buff giver ss w))"

text \<open>Verb functions that give a value and touch neither the commands of the giver nor the flag.\<close>

definition plain_verbs :: "'s verbs \<Rightarrow> nat \<Rightarrow> bool" where
  "plain_verbs call giver \<longleftrightarrow>
     (\<forall>s v a w. (\<exists>b. fst (call s v a w) = Verb_value b) \<and> sent (obs (snd (call s v a w)) giver) = sent (obs w giver) \<and>
        illegal_sentence_action (snd (call s v a w)) = illegal_sentence_action w)"

lemma after_append: "distinct (map sent_id (xs @ s # ys)) \<Longrightarrow> after (sent_id s) (xs @ s # ys) = Some ys"
  by (induction xs) auto

lemma set_giver_simps [simp]:
  "obs (set_giver p w) = obs w" "illegal_sentence_action (set_giver p w) = illegal_sentence_action w"
  by (simp_all add: set_giver_def)

lemma try_sentences_run:
  assumes plain: "plain_verbs call giver"
  shows "sent (obs w giver) = xs @ ss \<Longrightarrow> distinct (map sent_id (xs @ ss)) \<Longrightarrow> illegal_sentence_action w = 0 \<Longrightarrow>
    \<forall>s\<in>set ss. legal_function s \<Longrightarrow>
    try_sentences call buff giver save ss w =
      (case run_verbs call buff giver (filter (verb_matches buff) ss) w of
         (True, w') \<Rightarrow> Some (Inl (Done (w'\<lparr>illegal_sentence_action := save\<rparr>)))
       | (False, w') \<Rightarrow> Some (Inr w')) \<and>
    illegal_sentence_action (snd (run_verbs call buff giver (filter (verb_matches buff) ss) w)) = 0"
proof (induction ss arbitrary: xs w)
  case Nil
  then show ?case by (simp add: try_sentences.simps)
next
  case (Cons s ss)
  have split: "sent (obs w giver) = (xs @ [s]) @ ss" "distinct (map sent_id ((xs @ [s]) @ ss))" using Cons.prems by simp_all
  show ?case
  proof (cases "verb_matches buff s")
    case False
    then show ?thesis using Cons.IH [OF split Cons.prems(3)] Cons.prems(4)
      by (subst try_sentences.simps) simp
  next
    case True
    obtain r w1 where c: "call s (verb_given buff s) (verb_argument buff s) w = (r, w1)" by force
    obtain b where b: "r = Verb_value b" and keep: "sent (obs w1 giver) = sent (obs w giver)" "illegal_sentence_action w1 = 0"
      using plain c Cons.prems(3) unfolding plain_verbs_def by (metis fst_conv snd_conv)
    let ?w = "set_giver (Some giver) w1"
    show ?thesis
    proof (cases b)
      case True
      then show ?thesis using \<open>verb_matches buff s\<close> c b keep Cons.prems(4)
        by (subst try_sentences.simps) (simp add: verb_done_def Let_def)
    next
      case False
      have "after (sent_id s) (sent (obs ?w giver)) = Some ss"
        using after_append [OF Cons.prems(2)] Cons.prems(1) keep(1) by simp
      then show ?thesis using \<open>verb_matches buff s\<close> c b keep False Cons.prems(4) Cons.IH [of ?w "xs @ [s]"] split
        by (subst try_sentences.simps) (simp add: verb_done_def no_illegal_action_def Let_def)
    qed
  qed
qed


definition logged_verbs :: "(string \<times> string option) list verbs" where
  "logged_verbs s v a w = (Verb_value (verb s \<noteq> []), w\<lparr>rest := rest w @ [(verb s, a)]\<rparr>)"

definition two_verbs :: "nat \<Rightarrow> object" where
  "two_verbs = (\<lambda>_. blank)(1 := blank\<lparr>flags := {O_ENABLE_COMMANDS}, sent :=
     [\<lparr>sent_id = 5, verb = [], sent_ob = 1, sent_fn = Fname ''any'', v_short = False, v_nospace = False\<rparr>,
      \<lparr>sent_id = 6, verb = ''look'', sent_ob = 1, sent_fn = Fname ''look'', v_short = False, v_nospace = False\<rparr>]\<rparr>)"


text \<open>No sentence is used after it was freed, when its removal is always seen in \<open>illegal_sentence_action\<close>.\<close>

definition removals_seen :: "'s verbs \<Rightarrow> nat \<Rightarrow> bool" where
  "removals_seen call giver \<longleftrightarrow>
     (\<forall>s v a w. (\<exists>x\<in>set (sent (obs w giver)). sent_id x \<notin> sent_id ` set (sent (obs (snd (call s v a w)) giver))) \<longrightarrow>
        illegal_sentence_action (snd (call s v a w)) \<in> {1, 2})"

lemma after_Some: "n \<in> sent_id ` set ss \<Longrightarrow> \<exists>ss'. after n ss = Some ss' \<and> set ss' \<subseteq> set ss"
  by (induction ss) auto

lemma verb_done_not_dangling: "verb_done giver save s r w \<noteq> Inl Dangling"
  by (auto simp: verb_done_def no_illegal_action_def split: verb_result.split bool.split)

lemma verb_done_goes_on: "verb_done giver save s r w = Inr w' \<Longrightarrow> w' = w \<and> illegal_sentence_action w \<notin> {1, 2}"
  by (auto simp: verb_done_def no_illegal_action_def split: verb_result.splits bool.splits if_splits)

lemma try_sentences_safe:
  assumes t: "try_sentences call buff giver save ss w = Some r" and seen: "removals_seen call giver"
    and ss: "set ss \<subseteq> set (sent (obs w giver))"
  shows "r \<noteq> Inl Dangling"
proof -
  have "removals_seen call giver \<longrightarrow> set ss \<subseteq> set (sent (obs w giver)) \<longrightarrow> r \<noteq> Inl Dangling"
  proof (rule try_sentences.raw_induct [of "\<lambda>call buff giver save ss w r. removals_seen call giver \<longrightarrow>
        set ss \<subseteq> set (sent (obs w giver)) \<longrightarrow> r \<noteq> Inl Dangling", OF _ t], intro impI, goal_cases)
    case (1 tr call buff giver save ss w r)
    note IH = 1(1) and body = 1(2) and seen = 1(3) and sub = 1(4)
    show ?case
    proof (cases ss)
      case Nil
      then show ?thesis using body by auto
    next
      case (Cons s ss')
      obtain v w1 where c: "call s (verb_given buff s) (verb_argument buff s) w = (v, w1)" by force
      let ?w = "set_giver (Some giver) w1"
      show ?thesis
      proof (cases "verb_matches buff s \<and> legal_function s")
        case False
        then have "r = Inl (Error Illegal_function_name w) \<or> tr call buff giver save ss' w = Some r"
          using body Cons by (auto split: if_splits)
        then show ?thesis using IH [of call buff giver save ss' w r] seen sub Cons by auto
      next
        case m: True
        show ?thesis
        proof (cases "verb_done giver save s v ?w")
          case (Inl result)
          then have "r = Inl result" using body Cons m c by simp
          then show ?thesis using Inl verb_done_not_dangling [of giver save s v ?w] by auto
        next
          case (Inr w2)
          note w2 = verb_done_goes_on [OF Inr]
          have "sent_id s \<in> sent_id ` set (sent (obs w1 giver))"
            using seen c w2 sub Cons unfolding removals_seen_def
            by (metis (no_types, lifting) list.set_intros(1) set_giver_simps(2) snd_conv subset_iff)
          then obtain ss2 where ss2: "after (sent_id s) (sent (obs w2 giver)) = Some ss2" "set ss2 \<subseteq> set (sent (obs w2 giver))"
            using after_Some [of "sent_id s" "sent (obs w1 giver)"] w2 by auto
          then have "tr call buff giver save ss2 w2 = Some r" using body Cons m c Inr by simp
          then show ?thesis using IH [of call buff giver save ss2 w2 r] seen ss2(2) by blast
        qed
      qed
    qed
  qed
  then show ?thesis using seen ss by blast
qed

text \<open>C34. The parser never goes on from a command that was removed, whatever its verb functions do, when
  every removal of a command of the giver during a verb function is still seen at its end.\<close>
theorem user_parser_no_freed_command:
  assumes "removals_seen call giver"
  shows "user_parser call notify buff giver w \<noteq> Some Dangling"
  using try_sentences_safe [OF _ assms, of "strip_trailing buff" "illegal_sentence_action w" "sent (obs w giver)"
      "w\<lparr>illegal_sentence_action := 0\<rparr>"]
  by (auto simp: user_parser_def Let_def bind_eq_Some_conv split: sum.splits prod.splits option.splits if_splits)

lemma user_parser_no_freed_command_witness:
  "user_parser logged_verbs (\<lambda>w. (None, w)) ''look'' 1 (world_with two_verbs []) \<noteq> Some Dangling"
  by (rule user_parser_no_freed_command) (simp add: removals_seen_def logged_verbs_def)

text \<open>The verb \<open>go\<close> gives the command \<open>x\<close>, which nobody knows; the function set for that case moves the giver away.\<close>

definition nested_command :: "unit verbs" where
  "nested_command s v a w =
     (case user_parser (\<lambda>_ _ _ w. (Not_callable, w)) (\<lambda>w. (None, lpc_move 1 3 w)) ''x'' 1 w of
        Some (Failed w') \<Rightarrow> (Verb_value False, w')
      | _ \<Rightarrow> (Not_callable, w))"

text \<open>A nested command hides a removal: it puts back the old value of the flag after the function for unknown
  commands has moved the command giver away from the definer of the outer verb. When the outer verb then gives
  zero, the parser goes on from a command that was freed.\<close>
theorem nested_command_uses_freed_command:
  "consistent (obs room_with_two) \<and>
   user_parser nested_command (\<lambda>w. (None, w)) ''go'' 1 room_with_two = Some Dangling"
  using room_with_two_consistent
  by (simp add: user_parser_def try_sentences.simps nested_command_def room_with_two_def strip_trailing_def first_word_def
      verb_matches_def legal_function_def APPLY_INIT_SPECIAL_CHAR_def verb_done_def no_illegal_action_def
      lpc_move_def world_with_def blank_def evaluate cong: evaluate_cong)

end
