(* ===== verification/Inventory.thy ===== *)
theory Inventory
  imports Environment
begin

text \<open>
  Looking at what objects hold: \<open>environment\<close> and \<open>first_inventory\<close> of \<open>simulate.c\<close>,
  \<open>all_inventory\<close> and \<open>deep_inventory\<close> of \<open>array.c\<close>. Whether hidden objects are shown is asked of the
  master object (\<open>valid_hide\<close>), which is not modelled: the answer is the parameter \<open>show_all\<close>. A result of
  None is a walk that does not end or goes through a null pointer.
\<close>

section \<open>The walks\<close>

definition visible :: "(nat \<Rightarrow> object) \<Rightarrow> bool \<Rightarrow> nat \<Rightarrow> bool" where
  "visible h show_all x \<longleftrightarrow> O_HIDDEN \<notin> flags (h x) \<or> show_all"

definition environment :: "(nat \<Rightarrow> object) \<Rightarrow> ptr \<Rightarrow> ptr" where
  "environment h ob =
     (case ob of
        None \<Rightarrow> None
      | Some x \<Rightarrow> if super (h x) = None \<or> destructed (h x) then None else super (h x))"

partial_function (option) first_visible :: "(nat \<Rightarrow> object) \<Rightarrow> bool \<Rightarrow> ptr \<Rightarrow> ptr option" where
  "first_visible h show_all ob =
     (case ob of
        None \<Rightarrow> Some None
      | Some x \<Rightarrow> if visible h show_all x then Some (Some x) else first_visible h show_all (next_inv (h x)))"

definition first_inventory :: "(nat \<Rightarrow> object) \<Rightarrow> bool \<Rightarrow> nat \<Rightarrow> ptr option" where
  "first_inventory h show_all ob = first_visible h show_all (contains (h ob))"

text \<open>The first loop counts, the second fills that many places.\<close>

partial_function (option) count_visible :: "(nat \<Rightarrow> object) \<Rightarrow> bool \<Rightarrow> ptr \<Rightarrow> nat option" where
  "count_visible h show_all cur =
     (case cur of
        None \<Rightarrow> Some 0
      | Some x \<Rightarrow>
          Option.bind (count_visible h show_all (next_inv (h x))) (\<lambda>n.
            Some (if visible h show_all x then n + 1 else n)))"

partial_function (option) fill_visible :: "(nat \<Rightarrow> object) \<Rightarrow> bool \<Rightarrow> nat \<Rightarrow> ptr \<Rightarrow> nat list option" where
  "fill_visible h show_all n cur =
     (if n = 0 then Some []
      else
        (case cur of
           None \<Rightarrow> None
         | Some x \<Rightarrow>
             if visible h show_all x
             then Option.bind (fill_visible h show_all (n - 1) (next_inv (h x))) (\<lambda>xs. Some (x # xs))
             else fill_visible h show_all n (next_inv (h x))))"

definition all_inventory :: "(nat \<Rightarrow> object) \<Rightarrow> bool \<Rightarrow> nat \<Rightarrow> nat list option" where
  "all_inventory h show_all ob =
     Option.bind (count_visible h show_all (contains (h ob))) (\<lambda>cnt. fill_visible h show_all cnt (contains (h ob)))"

partial_function (option) deep_inventory_count :: "(nat \<Rightarrow> object) \<Rightarrow> bool \<Rightarrow> ptr \<Rightarrow> nat option" where
  "deep_inventory_count h show_all cur =
     (case cur of
        None \<Rightarrow> Some 0
      | Some x \<Rightarrow>
          if visible h show_all x then
            Option.bind (deep_inventory_count h show_all (contains (h x))) (\<lambda>m.
            Option.bind (deep_inventory_count h show_all (next_inv (h x))) (\<lambda>n. Some (1 + m + n)))
          else deep_inventory_count h show_all (next_inv (h x)))"

partial_function (option) deep_inventory_collect :: "(nat \<Rightarrow> object) \<Rightarrow> bool \<Rightarrow> ptr \<Rightarrow> nat list option" where
  "deep_inventory_collect h show_all cur =
     (case cur of
        None \<Rightarrow> Some []
      | Some x \<Rightarrow>
          if visible h show_all x then
            Option.bind (deep_inventory_collect h show_all (contains (h x))) (\<lambda>xs.
            Option.bind (deep_inventory_collect h show_all (next_inv (h x))) (\<lambda>ys. Some (x # xs @ ys)))
          else deep_inventory_collect h show_all (next_inv (h x)))"

text \<open>The size of the array that is allocated, and what is stored in it.\<close>

definition deep_inventory :: "(nat \<Rightarrow> object) \<Rightarrow> bool \<Rightarrow> bool \<Rightarrow> nat \<Rightarrow> (nat \<times> nat list) option" where
  "deep_inventory h show_all take_top ob =
     Option.bind (deep_inventory_count h show_all (contains (h ob))) (\<lambda>n.
       let i = (if take_top then n + 1 else n) in
       if i = 0 then Some (0, [])
       else
         Option.bind (deep_inventory_collect h show_all (contains (h ob))) (\<lambda>xs.
           Some (i, if take_top then ob # xs else xs)))"

lemmas walk_simps = first_visible.simps count_visible.simps fill_visible.simps deep_inventory_count.simps
  deep_inventory_collect.simps

declare walk_simps [code]

section \<open>What they give\<close>

lemma count_visible_chain: "chain h p xs \<Longrightarrow> count_visible h s p = Some (length (filter (visible h s) xs))"
  by (induction xs arbitrary: p) (simp_all add: count_visible.simps)

lemma fill_visible_chain:
  "chain h p xs \<Longrightarrow> fill_visible h s (length (filter (visible h s) xs)) p = Some (filter (visible h s) xs)"
proof (induction xs arbitrary: p)
  case (Cons x xs)
  then show ?case by (cases "length (filter (visible h s) xs)") (auto simp: fill_visible.simps)
qed (simp add: fill_visible.simps)

lemma first_visible_chain: "chain h p xs \<Longrightarrow> first_visible h s p = Some (find (visible h s) xs)"
  by (induction xs arbitrary: p) (simp_all add: first_visible.simps)



text \<open>What one sees from \<open>ob\<close>: through visible objects only.\<close>

inductive seen :: "(nat \<Rightarrow> object) \<Rightarrow> bool \<Rightarrow> nat \<Rightarrow> nat \<Rightarrow> bool" for h s ob where
  "super (h x) = Some ob \<Longrightarrow> visible h s x \<Longrightarrow> seen h s ob x"
| "seen h s ob y \<Longrightarrow> super (h x) = Some y \<Longrightarrow> visible h s x \<Longrightarrow> seen h s ob x"

lemma seen_within: "seen h s ob x \<Longrightarrow> within h ob x"
  by (induction rule: seen.induct) (auto intro: within.intros)

lemma seen_below: "seen h s y x \<Longrightarrow> super (h y) = Some ob \<Longrightarrow> visible h s y \<Longrightarrow> seen h s ob x"
  by (induction rule: seen.induct) (metis seen.intros)+

lemma seen_step: "seen h s ob x \<longleftrightarrow>
    (\<exists>y. super (h y) = Some ob \<and> visible h s y \<and> (x = y \<or> seen h s y x))"
proof
  assume "seen h s ob x"
  then show "\<exists>y. super (h y) = Some ob \<and> visible h s y \<and> (x = y \<or> seen h s y x)"
    by (induction rule: seen.induct) (metis seen.intros)+
qed (metis seen.intros(1) seen_below)

lemma siblings_apart:
  assumes r: "\<And>x. rooted h x" and y: "super (h y) = Some ob" and z: "super (h z) = Some ob" and ne: "y \<noteq> z"
  shows "within h y x \<Longrightarrow> \<not> within h z x"
proof (induction rule: within.induct)
  case 1
  show ?case using within_acyclic [OF r z] y ne by (auto simp: within_iff [of h z y])
next
  case (2 x p)
  have "x \<noteq> z" using 2 z within_acyclic [OF r y] by auto
  then show ?case using 2 by (auto simp: within_iff [of h z x])
qed

definition gathers :: "(nat \<Rightarrow> object) \<Rightarrow> bool \<Rightarrow> ptr \<Rightarrow> nat set \<Rightarrow> bool" where
  "gathers h s p X \<longleftrightarrow> (\<exists>xs. deep_inventory_collect h s p = Some xs \<and> deep_inventory_count h s p = Some (length xs) \<and>
     distinct xs \<and> set xs = X)"

lemma gathers_chain:
  assumes f: "forest h iv"
  shows "chain h p xs \<Longrightarrow> distinct xs \<Longrightarrow> \<forall>y\<in>set xs. super (h y) = Some ob \<and> gathers h s (contains (h y)) {x. seen h s y x} \<Longrightarrow>
    gathers h s p (\<Union>y\<in>{y \<in> set xs. visible h s y}. insert y {x. seen h s y x})"
proof (induction xs arbitrary: p)
  case Nil
  then show ?case by (simp add: gathers_def deep_inventory_collect.simps deep_inventory_count.simps)
next
  case (Cons y xs)
  note F = forestD [OF f]
  let ?U = "\<Union>z\<in>{z \<in> set xs. visible h s z}. insert z {x. seen h s z x}"
  obtain zs where zs: "deep_inventory_collect h s (next_inv (h y)) = Some zs"
    "deep_inventory_count h s (next_inv (h y)) = Some (length zs)" "distinct zs" "set zs = ?U"
  proof -
    have "gathers h s (next_inv (h y)) ?U" using Cons.IH [of "next_inv (h y)"] Cons.prems by simp
    then show ?thesis using that unfolding gathers_def by blast
  qed
  show ?case
  proof (cases "visible h s y")
    case False
    then have "{z \<in> set (y # xs). visible h s z} = {z \<in> set xs. visible h s z}" by auto
    moreover have "deep_inventory_collect h s p = Some zs" "deep_inventory_count h s p = Some (length zs)"
      using zs(1,2) False Cons.prems(1) by (subst deep_inventory_collect.simps deep_inventory_count.simps, simp)+
    ultimately show ?thesis using zs(3,4) unfolding gathers_def by metis
  next
    case True
    obtain ys where ys: "deep_inventory_collect h s (contains (h y)) = Some ys"
      "deep_inventory_count h s (contains (h y)) = Some (length ys)" "distinct ys" "set ys = {x. seen h s y x}"
      using Cons.prems(3) by (auto simp: gathers_def)
    have sup: "super (h y) = Some ob" using Cons.prems(3) by simp
    have below: "\<not> within h y x" if "x \<in> ?U" for x
    proof -
      obtain z where z: "z \<in> set xs" "x = z \<or> seen h s z x" using \<open>x \<in> ?U\<close> by auto
      then have "within h z x" using seen_within within.intros(1) by metis
      moreover have "z \<noteq> y" "super (h z) = Some ob" using z(1) Cons.prems(2,3) by auto
      ultimately show ?thesis using siblings_apart [OF F(4) _ sup] by metis
    qed
    have "set ys \<inter> set zs = {}" using below ys(4) zs(4) seen_within by fastforce
    moreover have "y \<notin> set ys"
    proof
      assume "y \<in> set ys"
      then have "seen h s y y" using ys(4) by simp
      then have "\<exists>z. super (h z) = Some y \<and> (y = z \<or> seen h s z y)" using seen_step [of h s y y] by blast
      then obtain z where "super (h z) = Some y" "within h z y" using seen_within within.intros(1) by metis
      then show False using within_acyclic [OF F(4)] by blast
    qed
    moreover have "y \<notin> set zs" using below within.intros(1) zs(4) by metis
    ultimately have "distinct (y # ys @ zs)" using ys(3) zs(3) by simp
    moreover have "set (y # ys @ zs) = (\<Union>z\<in>{z \<in> set (y # xs). visible h s z}. insert z {x. seen h s z x})"
      using True ys(4) zs(4) by auto
    moreover have "deep_inventory_collect h s p = Some (y # ys @ zs)" "deep_inventory_count h s p = Some (length (y # ys @ zs))"
      using ys(1,2) zs(1,2) True Cons.prems(1) by (subst deep_inventory_collect.simps deep_inventory_count.simps, simp)+
    ultimately show ?thesis unfolding gathers_def by blast
  qed
qed

lemma gathers_deep:
  assumes f: "forest h iv"
  shows "finite (Collect (within h ob)) \<Longrightarrow> card (Collect (within h ob)) = n \<Longrightarrow> gathers h s (contains (h ob)) {x. seen h s ob x}"
proof (induction n arbitrary: ob rule: less_induct)
  case (less n)
  note F = forestD [OF f]
  have "gathers h s (contains (h y)) {x. seen h s y x}" if "y \<in> set (iv ob)" for y
  proof -
    have y: "super (h y) = Some ob" using F(3) that by simp
    have "Collect (within h y) \<subseteq> Collect (within h ob)" "ob \<notin> Collect (within h y)"
      using within_trans [of h y _ ob] within.intros y within_acyclic [OF F(4) y] by blast+
    then have "Collect (within h y) \<subset> Collect (within h ob)" using within.intros(1) by blast
    then have "card (Collect (within h y)) < n" "finite (Collect (within h y))"
      using less.prems psubset_card_mono finite_subset by blast+
    then show ?thesis using less.IH by blast
  qed
  moreover have "{x. seen h s ob x} = (\<Union>y\<in>{y \<in> set (iv ob). visible h s y}. insert y {x. seen h s y x})"
    using F(3) seen_step [of h s ob] by auto
  ultimately show ?case using gathers_chain [OF f F(1) F(2), of ob ob s] F(3) by simp
qed



end
