(* ===== verification/Heart_Beat.thy ===== *)
theory Heart_Beat
  imports Commands "HOL-Library.Sublist"
begin

text \<open>
  Heart beats (\<open>backend.c\<close>): the array of objects that want one, and the round of \<open>call_heart_beat\<close> over it,
  during which the functions called may enable and disable the heart beats of any objects. The array is the list
  of its \<open>num_hb_objs\<close> entries. A heart beat function is the sequence of its calls of \<open>set_heart_beat\<close> and of the
  objects it destructs, what it does to the rest of the driver, and whether it raises an error.
\<close>

section \<open>The array of heart beats\<close>

record heart_beat =
  hb_ob :: nat
  heart_beat_ticks :: "16 word"
  time_to_heart_beat :: "16 word"

record 's beats =
  heart_beats :: "heart_beat list"
  heart_beat_index :: int
  num_hb_to_do :: int
  hb_flag :: "nat set"
  hb_destructed :: "nat set"
  hb_rest :: 's

text \<open>The search from the end of the array, also used by \<open>query_heart_beat\<close>.\<close>

fun find_back :: "nat \<Rightarrow> nat \<Rightarrow> heart_beat list \<Rightarrow> nat option" where
  "find_back ob 0 hbs = None"
| "find_back ob (Suc i) hbs = (if hb_ob (hbs ! i) = ob then Some i else find_back ob i hbs)"

definition hb_search :: "nat \<Rightarrow> heart_beat list \<Rightarrow> nat option" where
  "hb_search ob hbs = find_back ob (length hbs) hbs"

definition query_heart_beat :: "nat \<Rightarrow> 's beats \<Rightarrow> int" where
  "query_heart_beat ob b =
     (if ob \<notin> hb_flag b then 0
      else (case hb_search ob (heart_beats b) of None \<Rightarrow> 0 | Some i \<Rightarrow> sint (time_to_heart_beat (heart_beats b ! i))))"

definition adjust_round :: "int \<Rightarrow> 's beats \<Rightarrow> 's beats" where
  "adjust_round i b =
     (if num_hb_to_do b \<noteq> 0 then
        (let b = (if i \<le> heart_beat_index b then b\<lparr>heart_beat_index := heart_beat_index b - 1\<rparr> else b) in
         if i < num_hb_to_do b then b\<lparr>num_hb_to_do := num_hb_to_do b - 1\<rparr> else b)
      else b)"

definition set_heart_beat :: "nat \<Rightarrow> int \<Rightarrow> 's beats \<Rightarrow> int \<times> 's beats" where
  "set_heart_beat ob to b =
     (if ob \<in> hb_destructed b then (0, b)
      else if to = 0 then
        (case hb_search ob (heart_beats b) of
           None \<Rightarrow> (0, b)
         | Some i \<Rightarrow>
             (1, (adjust_round (int i) b)\<lparr>heart_beats := take i (heart_beats b) @ drop (Suc i) (heart_beats b),
                   hb_flag := hb_flag b - {ob}\<rparr>))
      else if ob \<in> hb_flag b then
        (if to < 0 then (0, b)
         else
           (case hb_search ob (heart_beats b) of
              None \<Rightarrow> (1, b)
            | Some i \<Rightarrow>
                (1, b\<lparr>heart_beats := (heart_beats b)[i := (heart_beats b ! i)
                        \<lparr>time_to_heart_beat := word_of_int to, heart_beat_ticks := word_of_int to\<rparr>]\<rparr>)))
      else
        (let to = (if to < 0 then 1 else to) in
         (1, b\<lparr>heart_beats := heart_beats b @ [\<lparr>hb_ob = ob, heart_beat_ticks = word_of_int to, time_to_heart_beat = word_of_int to\<rparr>],
               hb_flag := insert ob (hb_flag b)\<rparr>)))"

section \<open>A round\<close>

text \<open>
  What a heart beat function does, given its object, the command giver and the state: its calls of
  \<open>set_heart_beat\<close> and the objects it destructs (\<open>destruct_object\<close> first turns the heart beat off), the rest, and
  whether it ends in an error.
\<close>

datatype hb_op = Set_heart_beat nat int | Destruct nat

type_synonym 's beat = "nat \<Rightarrow> ptr \<Rightarrow> 's beats \<Rightarrow> hb_op list \<times> 's \<times> bool"

fun hb_step :: "hb_op \<Rightarrow> 's beats \<Rightarrow> 's beats" where
  "hb_step (Set_heart_beat ob to) b = snd (set_heart_beat ob to b)"
| "hb_step (Destruct ob) b =
     (let b = snd (set_heart_beat ob 0 b) in b\<lparr>hb_destructed := insert ob (hb_destructed b)\<rparr>)"

definition hb_steps :: "hb_op list \<Rightarrow> 's beats \<Rightarrow> 's beats" where
  "hb_steps ops b = fold hb_step ops b"

text \<open>The command giver: the object at the end of the chain it shadows, if living.\<close>

definition heart_beat_giver :: "(nat \<Rightarrow> object) \<Rightarrow> nat \<Rightarrow> ptr option" where
  "heart_beat_giver h ob =
     Option.bind (shadow_base h ob) (\<lambda>x. Some (if living (h x) then Some x else None))"

text \<open>
  One object of the round: its ticks, and its function if it has one and it is time. The error handler turns the
  heart beat of the object off and the round is left. The first result tells whether the function was called.
\<close>

definition hb_tick :: "nat \<Rightarrow> 's beats \<Rightarrow> 's beats" where
  "hb_tick i b = b\<lparr>heart_beats := (heart_beats b)[i := (heart_beats b ! i)
     \<lparr>heart_beat_ticks := heart_beat_ticks (heart_beats b ! i) - 1\<rparr>]\<rparr>"

definition rewind :: "nat \<Rightarrow> 's beats \<Rightarrow> 's beats" where
  "rewind i b = b\<lparr>heart_beats := (heart_beats b)[i := (heart_beats b ! i)
     \<lparr>heart_beat_ticks := time_to_heart_beat (heart_beats b ! i)\<rparr>]\<rparr>"

definition beat_once :: "(nat \<Rightarrow> bool) \<Rightarrow> ('s \<Rightarrow> nat \<Rightarrow> object) \<Rightarrow> 's beat \<Rightarrow> nat \<Rightarrow> 's beats \<Rightarrow> (bool \<times> bool \<times> 's beats) option" where
  "beat_once has_fun h beat i b =
     (let b = hb_tick i b; ob = hb_ob (heart_beats b ! i) in
      if has_fun ob \<and> sint (heart_beat_ticks (heart_beats b ! i)) < 1 then
        Option.bind (heart_beat_giver (h (hb_rest b)) ob) (\<lambda>giver.
          let b = rewind i b in
          case beat ob giver b of
            (ops, r, failed) \<Rightarrow>
              (let b = (hb_steps ops b)\<lparr>hb_rest := r\<rparr> in
               if failed then Some (True, True, snd (set_heart_beat ob 0 b)) else Some (True, False, b)))
      else Some (False, False, b))"

text \<open>
  The loop: \<open>alarm k\<close> tells whether \<open>heart_beat_flag\<close> is set when the \<open>k\<close>-th object would be next. The result
  is the objects visited and the objects called, and how it ended: \<open>Complete\<close>, \<open>Timeout\<close> or \<open>Aborted\<close> by an error.
\<close>

datatype round_end = Complete | Timeout | Aborted

partial_function (option) hb_loop ::
  "(nat \<Rightarrow> bool) \<Rightarrow> ('s \<Rightarrow> nat \<Rightarrow> object) \<Rightarrow> 's beat \<Rightarrow> (nat \<Rightarrow> bool) \<Rightarrow> nat \<Rightarrow> 's beats
    \<Rightarrow> (nat list \<times> nat list \<times> round_end \<times> 's beats) option" where
  "hb_loop has_fun h beat alarm k b =
     (if alarm k then Some ([], [], Timeout, b)
      else
        (let i = nat (heart_beat_index b); ob = hb_ob (heart_beats b ! i) in
         Option.bind (beat_once has_fun h beat i b) (\<lambda>(called, failed, b).
           if failed then Some ([ob], [ob], Aborted, b)
           else
             (let b = b\<lparr>heart_beat_index := heart_beat_index b + 1\<rparr> in
              if heart_beat_index b = num_hb_to_do b then Some ([ob], if called then [ob] else [], Complete, b)
              else
                Option.bind (hb_loop has_fun h beat alarm (k + 1) b) (\<lambda>(visits, calls, e, b).
                  Some (ob # visits, if called then ob # calls else calls, e, b))))))"

declare hb_loop.simps [code]

definition call_heart_beat ::
  "(nat \<Rightarrow> bool) \<Rightarrow> ('s \<Rightarrow> nat \<Rightarrow> object) \<Rightarrow> 's beat \<Rightarrow> (nat \<Rightarrow> bool) \<Rightarrow> 's beats
    \<Rightarrow> (nat list \<times> nat list \<times> round_end \<times> 's beats) option" where
  "call_heart_beat has_fun h beat alarm b =
     (let b = b\<lparr>num_hb_to_do := int (length (heart_beats b))\<rparr> in
      if num_hb_to_do b \<noteq> 0 then
        Option.bind (hb_loop has_fun h beat alarm 0 (b\<lparr>heart_beat_index := 0\<rparr>)) (\<lambda>(visits, calls, e, b).
          if e = Aborted then Some (visits, calls, e, b)
          else Some (visits, calls, e, b\<lparr>heart_beat_index := 0, num_hb_to_do := 0\<rparr>))
      else Some ([], [], Complete, b))"

section \<open>Who gets a heart beat\<close>

text \<open>
  During a heart beat the array is three parts: \<open>P\<close> with those whose turn has come, \<open>T\<close> still to come in this round,
  and \<open>N\<close> that are new.
\<close>

definition obs_of :: "heart_beat list \<Rightarrow> nat list" where
  "obs_of hbs = map hb_ob hbs"

definition in_round :: "heart_beat list \<Rightarrow> heart_beat list \<Rightarrow> heart_beat list \<Rightarrow> 's beats \<Rightarrow> bool" where
  "in_round P T N b \<longleftrightarrow>
     heart_beats b = P @ T @ N \<and> heart_beat_index b = int (length P) - 1 \<and>
     num_hb_to_do b = int (length P) + int (length T) \<and>
     distinct (obs_of (heart_beats b)) \<and> hb_flag b = set (obs_of (heart_beats b)) \<and>
     hb_flag b \<inter> hb_destructed b = {}"

lemma find_back_None: "n \<le> length hbs \<Longrightarrow> find_back ob n hbs = None \<longleftrightarrow> ob \<notin> set (obs_of (take n hbs))"
  by (induction n) (auto simp: obs_of_def take_Suc_conv_app_nth)

lemma find_back_Some: "find_back ob n hbs = Some i \<Longrightarrow> i < n \<and> hb_ob (hbs ! i) = ob"
  by (induction n) (auto split: if_splits)

lemma hb_search_None: "hb_search ob hbs = None \<longleftrightarrow> ob \<notin> set (obs_of hbs)"
  by (simp add: hb_search_def find_back_None)

lemma hb_search_Some: "hb_search ob hbs = Some i \<Longrightarrow> i < length hbs \<and> hb_ob (hbs ! i) = ob"
  by (simp add: hb_search_def find_back_Some)

lemma obs_of_update: "i < length hbs \<Longrightarrow> hb_ob x = hb_ob (hbs ! i) \<Longrightarrow> obs_of (hbs[i := x]) = obs_of hbs"
  by (simp add: obs_of_def map_update) (metis list_update_id map_update nth_map)

lemma obs_of_append [simp]: "obs_of (xs @ ys) = obs_of xs @ obs_of ys" "obs_of [] = []" "obs_of (x # xs) = hb_ob x # obs_of xs"
  by (simp_all add: obs_of_def)

lemma obs_of_drop_one:
  assumes "distinct (obs_of hbs)" "i < length hbs"
  shows "obs_of (take i hbs @ drop (Suc i) hbs) = filter (\<lambda>x. x \<noteq> hb_ob (hbs ! i)) (obs_of hbs)"
proof -
  have hbs: "hbs = take i hbs @ hbs ! i # drop (Suc i) hbs" using id_take_nth_drop [OF assms(2)] .
  let ?o = "hb_ob (hbs ! i)"
  have "obs_of hbs = obs_of (take i hbs) @ ?o # obs_of (drop (Suc i) hbs)"
    by (subst hbs) (simp only: obs_of_append)
  moreover from this assms(1)
  have "filter (\<lambda>x. x \<noteq> ?o) (obs_of (take i hbs)) = obs_of (take i hbs)"
    and "filter (\<lambda>x. x \<noteq> ?o) (obs_of (drop (Suc i) hbs)) = obs_of (drop (Suc i) hbs)"
    unfolding filter_id_conv by auto
  ultimately show ?thesis by simp
qed

lemma filter_absent: "x \<notin> set xs \<Longrightarrow> filter (\<lambda>y. y \<noteq> x) xs = xs"
  by (auto simp: filter_id_conv)


lemma drop_one_parts:
  "i < length P \<Longrightarrow> take i (P @ T @ N) @ drop (Suc i) (P @ T @ N) = (take i P @ drop (Suc i) P) @ T @ N"
  "length P \<le> i \<Longrightarrow> i < length P + length T \<Longrightarrow>
     take i (P @ T @ N) @ drop (Suc i) (P @ T @ N)
       = P @ (take (i - length P) T @ drop (Suc i - length P) T) @ N"
  "length P + length T \<le> i \<Longrightarrow>
     take i (P @ T @ N) @ drop (Suc i) (P @ T @ N)
       = P @ T @ (take (i - length P - length T) N @ drop (Suc i - length P - length T) N)"
  by (simp_all add: Suc_diff_le)

lemma disable_in_round:
  assumes "in_round P T N b" "hb_search ob (heart_beats b) = Some i"
  defines "b' \<equiv> (adjust_round (int i) b)\<lparr>heart_beats := take i (heart_beats b) @ drop (Suc i) (heart_beats b),
                   hb_flag := hb_flag b - {ob}\<rparr>"
  shows "\<exists>P' T' N'. in_round P' T' N' b' \<and> obs_of T' = filter (\<lambda>x. x \<noteq> ob) (obs_of T)"
proof -
  have i: "i < length (heart_beats b)" "hb_ob (heart_beats b ! i) = ob" using hb_search_Some [OF assms(2)] by simp_all
  have r: "heart_beats b = P @ T @ N" "heart_beat_index b = int (length P) - 1"
      "num_hb_to_do b = int (length P) + int (length T)" "distinct (obs_of (heart_beats b))"
      "hb_flag b = set (obs_of (heart_beats b))" "hb_flag b \<inter> hb_destructed b = {}"
    using assms(1) unfolding in_round_def by blast+
  have new: "obs_of (heart_beats b') = filter (\<lambda>x. x \<noteq> ob) (obs_of (heart_beats b))"
    using obs_of_drop_one [OF r(4) i(1)] i(2) by (simp add: b'_def)
  have good: "distinct (obs_of (heart_beats b')) \<and> hb_flag b' = set (obs_of (heart_beats b')) \<and>
      hb_flag b' \<inter> hb_destructed b' = {}"
    using r(4,5,6) unfolding new by (auto simp: b'_def adjust_round_def Let_def)
  have whole: "in_round A B C b'" if "heart_beats b' = A @ B @ C" "heart_beat_index b' = int (length A) - 1"
      "num_hb_to_do b' = int (length A) + int (length B)" for A B C
    using that good unfolding in_round_def by blast
  have d: "distinct (obs_of T)" "set (obs_of T) \<inter> set (obs_of P) = {}" "set (obs_of T) \<inter> set (obs_of N) = {}"
    using r(4) unfolding r(1) by auto
  consider "i < length P" | "length P \<le> i" "i < length P + length T" | "length P + length T \<le> i" by linarith
  then show ?thesis
  proof cases
    case 1
    have "ob \<in> set (obs_of P)" using 1 i(2) unfolding r(1) by (auto simp: obs_of_def nth_append)
    then have "ob \<notin> set (obs_of T)" using d(2) by blast
    moreover have "in_round (take i P @ drop (Suc i) P) T N b'"
    proof (rule whole)
      show "heart_beats b' = (take i P @ drop (Suc i) P) @ T @ N" using drop_one_parts(1) [OF 1] by (simp add: b'_def r(1))
    qed (use 1 r(2,3) in \<open>simp_all add: b'_def adjust_round_def Let_def of_nat_diff\<close>)
    ultimately show ?thesis using filter_absent by metis
  next
    case 2
    let ?j = "i - length P"
    have j: "?j < length T" using 2 by linarith
    then have "hb_ob (T ! ?j) = ob" using 2 i(2) unfolding r(1) by (simp add: nth_append)
    then have "obs_of (take ?j T @ drop (Suc ?j) T) = filter (\<lambda>x. x \<noteq> ob) (obs_of T)"
      using obs_of_drop_one [OF d(1) j] by simp
    moreover have "in_round P (take ?j T @ drop (Suc ?j) T) N b'"
    proof (rule whole)
      show "heart_beats b' = P @ (take ?j T @ drop (Suc ?j) T) @ N"
        using drop_one_parts(2) [OF 2] 2(1) by (simp add: b'_def r(1) Suc_diff_le)
    qed (use 2 j r(2,3) in \<open>simp_all add: b'_def adjust_round_def Let_def of_nat_diff\<close>)
    ultimately show ?thesis by metis
  next
    case 3
    have "ob \<in> set (obs_of N)" using 3 i(1,2) unfolding r(1) by (auto simp: obs_of_def nth_append)
    then have "ob \<notin> set (obs_of T)" using d(3) by blast
    moreover have "in_round P T (take (i - length P - length T) N @ drop (Suc i - length P - length T) N) b'"
    proof (rule whole)
      show "heart_beats b' = P @ T @ (take (i - length P - length T) N @ drop (Suc i - length P - length T) N)"
        using drop_one_parts(3) [OF 3] by (simp add: b'_def r(1))
    qed (use 3 r(2,3) in \<open>simp_all add: b'_def adjust_round_def Let_def of_nat_diff\<close>)
    ultimately show ?thesis using filter_absent by metis
  qed
qed

lemma list_update_parts:
  "i < length P \<Longrightarrow> (P @ T @ N)[i := x] = P[i := x] @ T @ N"
  "length P \<le> i \<Longrightarrow> i < length P + length T \<Longrightarrow> (P @ T @ N)[i := x] = P @ T[i - length P := x] @ N"
  "length P + length T \<le> i \<Longrightarrow> (P @ T @ N)[i := x] = P @ T @ N[i - length P - length T := x]"
  by (auto simp: list_update_append)

lemma update_in_round:
  assumes "in_round P T N b" "i < length (heart_beats b)" "hb_ob x = hb_ob (heart_beats b ! i)"
  shows "\<exists>P' T' N'. in_round P' T' N' (b\<lparr>heart_beats := (heart_beats b)[i := x]\<rparr>) \<and> length P' = length P \<and> obs_of T' = obs_of T"
proof -
  have r: "heart_beats b = P @ T @ N" using assms(1) by (simp add: in_round_def)
  have same: "obs_of ((heart_beats b)[i := x]) = obs_of (heart_beats b)" using obs_of_update [OF assms(2,3)] .
  consider "i < length P" | "length P \<le> i" "i < length P + length T" | "length P + length T \<le> i" by linarith
  then show ?thesis
  proof cases
    case 1
    then have "in_round (P[i := x]) T N (b\<lparr>heart_beats := (heart_beats b)[i := x]\<rparr>)"
      using assms(1) same unfolding in_round_def by (auto simp: list_update_parts(1))
    then show ?thesis by (metis length_list_update)
  next
    case 2
    then have "in_round P (T[i - length P := x]) N (b\<lparr>heart_beats := (heart_beats b)[i := x]\<rparr>)"
      using assms(1) same unfolding in_round_def by (auto simp: list_update_parts(2) [OF 2])
    moreover have "obs_of (T[i - length P := x]) = obs_of T"
      using 2 assms(3) unfolding r by (intro obs_of_update) (auto simp: nth_append)
    ultimately show ?thesis by metis
  next
    case 3
    then have "in_round P T (N[i - length P - length T := x]) (b\<lparr>heart_beats := (heart_beats b)[i := x]\<rparr>)"
      using assms(1) same unfolding in_round_def by (auto simp: list_update_parts(3) [OF 3])
    then show ?thesis by metis
  qed
qed

lemma set_heart_beat_in_round:
  assumes "in_round P T N b"
  shows "\<exists>P' T' N'. in_round P' T' N' (snd (set_heart_beat ob to b)) \<and>
    (obs_of T' = obs_of T \<or> to = 0 \<and> obs_of T' = filter (\<lambda>x. x \<noteq> ob) (obs_of T))"
proof -
  consider "snd (set_heart_beat ob to b) = b"
    | i where "to = 0" "hb_search ob (heart_beats b) = Some i"
        "snd (set_heart_beat ob to b) = (adjust_round (int i) b)\<lparr>heart_beats := take i (heart_beats b) @ drop (Suc i) (heart_beats b),
                   hb_flag := hb_flag b - {ob}\<rparr>"
    | i where "hb_search ob (heart_beats b) = Some i"
        "snd (set_heart_beat ob to b) = b\<lparr>heart_beats := (heart_beats b)[i := (heart_beats b ! i)
                        \<lparr>time_to_heart_beat := word_of_int to, heart_beat_ticks := word_of_int to\<rparr>]\<rparr>"
    | t where "ob \<notin> hb_flag b" "ob \<notin> hb_destructed b" "snd (set_heart_beat ob to b) = b\<lparr>heart_beats := heart_beats b
          @ [\<lparr>hb_ob = ob, heart_beat_ticks = t, time_to_heart_beat = t\<rparr>], hb_flag := insert ob (hb_flag b)\<rparr>"
    by (cases "ob \<in> hb_destructed b"; cases "to = 0"; cases "ob \<in> hb_flag b"; cases "to < 0";
        cases "hb_search ob (heart_beats b)") (auto simp: set_heart_beat_def)
  then show ?thesis
  proof cases
    case 1
    then show ?thesis using assms by metis
  next
    case 2
    then show ?thesis using disable_in_round [OF assms 2(2)] by metis
  next
    case 3
    have "i < length (heart_beats b)" using hb_search_Some [OF 3(1)] by simp
    then obtain P' T' N' where "in_round P' T' N' (snd (set_heart_beat ob to b))" "obs_of T' = obs_of T"
      using update_in_round [OF assms, of i "(heart_beats b ! i)\<lparr>time_to_heart_beat := word_of_int to,
          heart_beat_ticks := word_of_int to\<rparr>"] unfolding 3(2) by auto
    then show ?thesis by blast
  next
    case 4
    then have "in_round P T (N @ [\<lparr>hb_ob = ob, heart_beat_ticks = t, time_to_heart_beat = t\<rparr>]) (snd (set_heart_beat ob to b))"
      using assms unfolding in_round_def by auto
    then show ?thesis by metis
  qed
qed


lemma disabled: "in_round P T N b \<Longrightarrow> ob \<notin> hb_flag (snd (set_heart_beat ob 0 b))"
  by (auto simp: set_heart_beat_def in_round_def hb_search_None split: option.split)

lemma filter_for:
  assumes "ys = xs \<or> ys = filter (\<lambda>x. x \<noteq> z) xs \<and> \<not> A z"
  shows "\<exists>Q. ys = filter Q xs \<and> (\<forall>x. A x \<longrightarrow> Q x)"
  using assms
proof
  assume "ys = xs"
  then have "ys = filter (\<lambda>x. True) xs \<and> (\<forall>x. A x \<longrightarrow> True)" by simp
  then show ?thesis by (rule exI [of _ "\<lambda>x. True"])
next
  assume "ys = filter (\<lambda>x. x \<noteq> z) xs \<and> \<not> A z"
  then have "ys = filter (\<lambda>x. x \<noteq> z) xs \<and> (\<forall>x. A x \<longrightarrow> x \<noteq> z)" by auto
  then show ?thesis by (rule exI [of _ "\<lambda>x. x \<noteq> z"])
qed

lemma hb_step_in_round:
  assumes "in_round P T N b"
  shows "\<exists>P' T' N' Q. in_round P' T' N' (hb_step op b) \<and> obs_of T' = filter Q (obs_of T) \<and>
    (\<forall>x. op \<noteq> Set_heart_beat x 0 \<and> op \<noteq> Destruct x \<longrightarrow> Q x)"
proof (cases op)
  case (Set_heart_beat ob to)
  obtain P' T' N' where r: "in_round P' T' N' (snd (set_heart_beat ob to b))"
      and T: "obs_of T' = obs_of T \<or> to = 0 \<and> obs_of T' = filter (\<lambda>x. x \<noteq> ob) (obs_of T)"
    using set_heart_beat_in_round [OF assms, of ob to] by blast
  have "\<exists>Q. obs_of T' = filter Q (obs_of T) \<and> (\<forall>x. op \<noteq> Set_heart_beat x 0 \<and> op \<noteq> Destruct x \<longrightarrow> Q x)"
    by (rule filter_for [of _ _ ob]) (use T in \<open>auto simp: Set_heart_beat\<close>)
  then show ?thesis using r unfolding Set_heart_beat hb_step.simps by blast
next
  case (Destruct ob)
  obtain P' T' N' where r: "in_round P' T' N' (snd (set_heart_beat ob 0 b))"
      and T: "obs_of T' = obs_of T \<or> obs_of T' = filter (\<lambda>x. x \<noteq> ob) (obs_of T)"
    using set_heart_beat_in_round [OF assms, of ob 0] by blast
  have "in_round P' T' N' (hb_step op b)"
    using r disabled [OF assms, of ob] unfolding Destruct in_round_def by (auto simp: Let_def)
  moreover have "\<exists>Q. obs_of T' = filter Q (obs_of T) \<and> (\<forall>x. op \<noteq> Set_heart_beat x 0 \<and> op \<noteq> Destruct x \<longrightarrow> Q x)"
    by (rule filter_for [of _ _ ob]) (use T in \<open>auto simp: Destruct\<close>)
  ultimately show ?thesis by blast
qed

text \<open>The objects whose heart beat the operations do not turn off.\<close>

definition kept :: "hb_op list \<Rightarrow> nat \<Rightarrow> bool" where
  "kept ops ob \<longleftrightarrow> Set_heart_beat ob 0 \<notin> set ops \<and> Destruct ob \<notin> set ops"

lemma hb_steps_in_round:
  assumes "in_round P T N b"
  shows "\<exists>P' T' N' Q. in_round P' T' N' (hb_steps ops b) \<and> obs_of T' = filter Q (obs_of T) \<and> (\<forall>x. kept ops x \<longrightarrow> Q x)"
  using assms
proof (induction ops arbitrary: P T N b)
  case Nil
  then have "in_round P T N (hb_steps [] b) \<and> obs_of T = filter (\<lambda>x. True) (obs_of T)" by (simp add: hb_steps_def)
  then show ?case by blast
next
  case (Cons op ops)
  obtain P' T' N' Q where 1: "in_round P' T' N' (hb_step op b)" "obs_of T' = filter Q (obs_of T)"
      "\<forall>x. op \<noteq> Set_heart_beat x 0 \<and> op \<noteq> Destruct x \<longrightarrow> Q x"
    using hb_step_in_round [OF Cons.prems, of op] by blast
  obtain P2 T2 N2 Q2 where 2: "in_round P2 T2 N2 (hb_steps ops (hb_step op b))" "obs_of T2 = filter Q2 (obs_of T')"
      "\<forall>x. kept ops x \<longrightarrow> Q2 x"
    using Cons.IH [OF 1(1)] by blast
  have "obs_of T2 = filter (\<lambda>x. Q x \<and> Q2 x) (obs_of T)" using 1(2) 2(2) by (simp add: conj_commute)
  moreover have "\<forall>x. kept (op # ops) x \<longrightarrow> Q x \<and> Q2 x" using 1(3) 2(3) by (auto simp: kept_def)
  moreover have "in_round P2 T2 N2 (hb_steps (op # ops) b)" using 2(1) by (simp add: hb_steps_def)
  ultimately show ?case by blast
qed

lemma hb_tick_in_round:
  assumes "in_round P T N b" "i < length (heart_beats b)"
  shows "\<exists>P' T' N'. in_round P' T' N' (hb_tick i b) \<and> length P' = length P \<and> obs_of T' = obs_of T"
    "\<exists>P' T' N'. in_round P' T' N' (rewind i b) \<and> length P' = length P \<and> obs_of T' = obs_of T"
  using update_in_round [OF assms, of "(heart_beats b ! i)\<lparr>heart_beat_ticks := _\<rparr>"]
  by (simp_all add: hb_tick_def rewind_def)


lemma rest_in_round [simp]: "in_round P T N (b\<lparr>hb_rest := r\<rparr>) = in_round P T N b"
  by (simp add: in_round_def)

text \<open>Objects whose heart beat no heart beat function turns off.\<close>

definition never_off :: "'s beat \<Rightarrow> nat \<Rightarrow> bool" where
  "never_off beat x \<longleftrightarrow> (\<forall>ob g b. kept (fst (beat ob g b)) x)"

definition all_shadows_end :: "('s \<Rightarrow> nat \<Rightarrow> object) \<Rightarrow> bool" where
  "all_shadows_end h \<longleftrightarrow> (\<forall>s x. shadow_base (h s) x \<noteq> None)"

lemma in_round_current:
  "in_round (P @ [c]) T N b \<Longrightarrow> heart_beat_index b = int (length P)"
  "in_round (P @ [c]) T N b \<Longrightarrow> length P < length (heart_beats b)"
  "in_round (P @ [c]) T N b \<Longrightarrow> heart_beats b ! length P = c"
  by (simp_all add: in_round_def)

lemma hb_tick_ob [simp]: "i < length (heart_beats b) \<Longrightarrow> hb_ob (heart_beats (hb_tick i b) ! i) = hb_ob (heart_beats b ! i)"
  by (simp add: hb_tick_def)

lemma beat_once_in_round:
  fixes beat :: "'s beat"
  assumes r: "in_round (P @ [c]) T N b" and ends: "all_shadows_end h"
  shows "\<exists>called failed b' P' T' N' Q. beat_once has_fun h beat (length P) b = Some (called, failed, b') \<and>
    in_round P' T' N' b' \<and> obs_of T' = filter Q (obs_of T) \<and>
    (if failed then called \<and> hb_ob c \<notin> hb_flag b' else \<forall>x. never_off beat x \<longrightarrow> Q x)"
proof -
  let ?i = "length P" and ?ob = "hb_ob c"
  have i: "?i < length (heart_beats b)" and c: "heart_beats b ! ?i = c" using in_round_current [OF r] by simp_all
  have ob: "hb_ob (heart_beats (hb_tick ?i b) ! ?i) = ?ob" using i c by simp
  obtain P1 T1 N1 where 1: "in_round P1 T1 N1 (hb_tick ?i b)" "obs_of T1 = obs_of T" using hb_tick_in_round(1) [OF r i] by blast
  show ?thesis
  proof (cases "has_fun ?ob \<and> sint (heart_beat_ticks (heart_beats (hb_tick ?i b) ! ?i)) < 1")
    case False
    then have "beat_once has_fun h beat ?i b = Some (False, False, hb_tick ?i b)"
      unfolding beat_once_def Let_def ob by (rule if_not_P)
    moreover have "obs_of T1 = filter (\<lambda>x. True) (obs_of T)" using 1(2) by simp
    ultimately show ?thesis using 1(1)
      by (intro exI [of _ False] exI [of _ "hb_tick ?i b"] exI [of _ P1] exI [of _ T1] exI [of _ N1] exI [of _ "\<lambda>x. True"]) simp
  next
    case True
    obtain g where g: "heart_beat_giver (h (hb_rest (hb_tick ?i b))) ?ob = Some g"
    proof -
      have "shadow_base (h (hb_rest (hb_tick ?i b))) ?ob \<noteq> None" using ends unfolding all_shadows_end_def by blast
      then obtain y where "shadow_base (h (hb_rest (hb_tick ?i b))) ?ob = Some y" by blast
      then show thesis by (intro that) (simp add: heart_beat_giver_def)
    qed
    have "?i < length (heart_beats (hb_tick ?i b))" using i by (simp add: hb_tick_def)
    then obtain P2 T2 N2 where 2: "in_round P2 T2 N2 (rewind ?i (hb_tick ?i b))" "obs_of T2 = obs_of T1"
      using hb_tick_in_round(2) [OF 1(1)] by blast
    obtain ops rest failed where bt: "beat ?ob g (rewind ?i (hb_tick ?i b)) = (ops, rest, failed)" by (metis prod_cases3)
    obtain P3 T3 N3 Q where 3: "in_round P3 T3 N3 (hb_steps ops (rewind ?i (hb_tick ?i b)))" "obs_of T3 = filter Q (obs_of T2)"
        "\<forall>x. kept ops x \<longrightarrow> Q x"
      using hb_steps_in_round [OF 2(1)] by blast
    let ?b = "(hb_steps ops (rewind ?i (hb_tick ?i b)))\<lparr>hb_rest := rest\<rparr>"
    have b: "in_round P3 T3 N3 ?b" using 3(1) by simp
    have run: "beat_once has_fun h beat ?i b
        = (if failed then Some (True, True, snd (set_heart_beat ?ob 0 ?b)) else Some (True, False, ?b))"
      using True unfolding beat_once_def Let_def ob g by (simp add: bt)
    show ?thesis
    proof (cases failed)
      case False
      have "never_off beat x \<Longrightarrow> kept ops x" for x unfolding never_off_def using bt by (metis fst_conv)
      then show ?thesis using run False b 1(2) 2(2) 3(2,3)
        by (intro exI [of _ True] exI [of _ False] exI [of _ ?b] exI [of _ P3] exI [of _ T3] exI [of _ N3] exI [of _ Q]) simp
    next
      case failed: True
      obtain P4 T4 N4 Q4 where 4: "in_round P4 T4 N4 (hb_step (Set_heart_beat ?ob 0) ?b)" "obs_of T4 = filter Q4 (obs_of T3)"
        using hb_step_in_round [OF b] by blast
      have "obs_of T4 = filter (\<lambda>x. Q x \<and> Q4 x) (obs_of T)" using 4(2) 3(2) 2(2) 1(2) by (simp add: conj_commute)
      moreover have "?ob \<notin> hb_flag (snd (set_heart_beat ?ob 0 ?b))" using disabled [OF b] .
      moreover have "in_round P4 T4 N4 (snd (set_heart_beat ?ob 0 ?b))" using 4(1) by simp
      ultimately show ?thesis using run failed
        by (intro exI [of _ True] exI [of _ "snd (set_heart_beat ?ob 0 ?b)"] exI [of _ P4] exI [of _ T4] exI [of _ N4]
            exI [of _ "\<lambda>x. Q x \<and> Q4 x"]) simp
    qed
  qed
qed


lemma move_on:
  "in_round P (t # T) N b \<Longrightarrow> in_round (P @ [t]) T N (b\<lparr>heart_beat_index := heart_beat_index b + 1\<rparr>)"
  "in_round P [] N b \<Longrightarrow> heart_beat_index b + 1 = num_hb_to_do b"
  "in_round P (t # T) N b \<Longrightarrow> heart_beat_index b + 1 \<noteq> num_hb_to_do b"
  by (auto simp: in_round_def)

text \<open>The array holds every object at most once, and exactly those whose flag is set; none of them is destructed.\<close>

definition beats_ok :: "'s beats \<Rightarrow> bool" where
  "beats_ok b \<longleftrightarrow> distinct (obs_of (heart_beats b)) \<and> hb_flag b = set (obs_of (heart_beats b)) \<and> hb_flag b \<inter> hb_destructed b = {}"

lemma beats_ok_indices [simp]:
  "beats_ok (b\<lparr>heart_beat_index := j\<rparr>) = beats_ok b" "beats_ok (b\<lparr>num_hb_to_do := n\<rparr>) = beats_ok b"
  by (simp_all add: beats_ok_def)

text \<open>What a round guarantees, from the objects still to come.\<close>

definition hb_outcome ::
  "'s beat \<Rightarrow> (nat \<Rightarrow> bool) \<Rightarrow> nat \<Rightarrow> nat list \<Rightarrow> nat list \<times> nat list \<times> round_end \<times> 's beats \<Rightarrow> bool" where
  "hb_outcome beat alarm k todo r =
     (case r of (visits, calls, e, b) \<Rightarrow>
        subseq visits todo \<and> subseq calls visits \<and>
        beats_ok b \<and>
        (case e of
           Complete \<Rightarrow> \<forall>x\<in>set todo. never_off beat x \<longrightarrow> x \<in> set visits
         | Timeout \<Rightarrow> alarm (k + length visits)
         | Aborted \<Rightarrow> calls \<noteq> [] \<and> last calls = last visits \<and> last calls \<notin> hb_flag b))"

lemma in_round_good:
  "in_round P T N b \<Longrightarrow> beats_ok b"
  unfolding in_round_def beats_ok_def by blast

lemma hb_loop_outcome:
  fixes beat :: "'s beat"
  assumes "in_round (P @ [c]) T N b" and ends: "all_shadows_end h"
  shows "\<exists>r. hb_loop has_fun h beat alarm k b = Some r \<and> hb_outcome beat alarm k (hb_ob c # obs_of T) r"
  using assms(1)
proof (induction "length T" arbitrary: P c T N b k rule: less_induct)
  case less
  note i = in_round_current(1) [OF less.prems] and c = in_round_current(3) [OF less.prems]
  note [simp] = hb_loop.simps [of has_fun h beat alarm k b] i c Let_def
  show ?case
  proof (cases "alarm k")
    case True
    then show ?thesis using in_round_good [OF less.prems] by (simp add: hb_outcome_def)
  next
    case no_alarm: False
    obtain called failed b' P' T' N' Q where once: "beat_once has_fun h beat (length P) b = Some (called, failed, b')"
        and r: "in_round P' T' N' b'" and T: "obs_of T' = filter Q (obs_of T)"
        and done': "if failed then called \<and> hb_ob c \<notin> hb_flag b' else \<forall>x. never_off beat x \<longrightarrow> Q x"
      using beat_once_in_round [OF less.prems ends] by blast
    note good = in_round_good [OF r]
    let ?b = "b'\<lparr>heart_beat_index := heart_beat_index b' + 1\<rparr>"
    consider (failed) failed | (finished) "\<not> failed" "T' = []" | (more) t T2 where "\<not> failed" "T' = t # T2" by (cases T') auto
    then show ?thesis
    proof cases
      case failed
      then have "hb_outcome beat alarm k (hb_ob c # obs_of T) ([hb_ob c], [hb_ob c], Aborted, b')"
        using done' good by (simp add: hb_outcome_def)
      moreover have "hb_loop has_fun h beat alarm k b = Some ([hb_ob c], [hb_ob c], Aborted, b')"
        using no_alarm once failed by simp
      ultimately show ?thesis by blast
    next
      case finished
      then have "heart_beat_index b' + 1 = num_hb_to_do b'" using move_on(2) r by blast
      moreover have "\<forall>x\<in>set (obs_of T). \<not> never_off beat x"
        using T done' finished unfolding finished by (auto simp: filter_empty_conv dest!: sym [of "[]"])
      ultimately have "hb_loop has_fun h beat alarm k b
            = Some ([hb_ob c], if called then [hb_ob c] else [], Complete, ?b)"
          and "hb_outcome beat alarm k (hb_ob c # obs_of T) ([hb_ob c], if called then [hb_ob c] else [], Complete, ?b)"
        using no_alarm once good finished by (simp_all add: hb_outcome_def)
      then show ?thesis by blast
    next
      case more
      have len: "length (obs_of T2) < length (obs_of T)"
        using length_filter_le [of Q "obs_of T"] unfolding T [symmetric] more(2) by simp
      have "in_round (P' @ [t]) T2 N' ?b" using move_on(1) r unfolding more(2) by blast
      then obtain v cs e b2 where rest: "hb_loop has_fun h beat alarm (k + 1) ?b = Some (v, cs, e, b2)"
          and out: "hb_outcome beat alarm (k + 1) (obs_of T') (v, cs, e, b2)"
        using less.hyps [of T2 "P'" t N' ?b "k + 1"] len unfolding more(2) by (auto simp: obs_of_def)
      have run: "hb_loop has_fun h beat alarm k b = Some (hb_ob c # v, if called then hb_ob c # cs else cs, e, b2)"
        using no_alarm once more(1) rest move_on(3) [OF r [unfolded more(2)]] by simp
      have "subseq (obs_of T') (obs_of T)" unfolding T by (rule subseq_filter_left)
      then have "subseq v (obs_of T)" using out unfolding hb_outcome_def by (auto intro: subseq_order.order_trans)
      moreover have "\<forall>x\<in>set (obs_of T). never_off beat x \<longrightarrow> x \<in> set (obs_of T')" using done' more(1) unfolding T by auto
      ultimately have "hb_outcome beat alarm k (hb_ob c # obs_of T) (hb_ob c # v, if called then hb_ob c # cs else cs, e, b2)"
        using out unfolding hb_outcome_def by (cases e) auto
      then show ?thesis using run by blast
    qed
  qed
qed


section \<open>What set_heart_beat and the round promise\<close>

lemma set_heart_beat_ok: "beats_ok b \<Longrightarrow> beats_ok (snd (set_heart_beat ob to b))"
proof -
  assume b: "beats_ok b"
  let ?b = "b\<lparr>heart_beat_index := -1, num_hb_to_do := 0\<rparr>"
  have "in_round [] [] (heart_beats b) ?b" using b unfolding in_round_def beats_ok_def by auto
  then have "beats_ok (snd (set_heart_beat ob to ?b))" using set_heart_beat_in_round in_round_good by metis
  moreover have "heart_beats (snd (set_heart_beat ob to ?b)) = heart_beats (snd (set_heart_beat ob to b))"
      "hb_flag (snd (set_heart_beat ob to ?b)) = hb_flag (snd (set_heart_beat ob to b))"
      "hb_destructed (snd (set_heart_beat ob to ?b)) = hb_destructed (snd (set_heart_beat ob to b))"
    by (simp_all add: set_heart_beat_def adjust_round_def Let_def split: option.split)
  ultimately show ?thesis unfolding beats_ok_def by metis
qed

text \<open>C37. One round of heart beats always ends, whatever the functions called enable, disable and destruct: no
  object gets two turns, the turns are in the order of the array as it was at the start, only objects that had their turn
  are called, and the array holds every object at most once, exactly those with the flag set. A round that
  completes gives a turn to every object that no function turns off; one that runs out of time has given
  exactly the turns it counted; one ended by an error has turned off the heart beat of the object called last.\<close>

theorem heart_beat_round:
  fixes beat :: "'s beat"
  assumes "beats_ok b" "all_shadows_end h"
  shows "\<exists>visits calls e b'. call_heart_beat has_fun h beat alarm b = Some (visits, calls, e, b') \<and>
    subseq visits (obs_of (heart_beats b)) \<and> subseq calls visits \<and> beats_ok b' \<and>
    (case e of
       Complete \<Rightarrow> \<forall>x\<in>set (obs_of (heart_beats b)). never_off beat x \<longrightarrow> x \<in> set visits
     | Timeout \<Rightarrow> alarm (length visits)
     | Aborted \<Rightarrow> calls \<noteq> [] \<and> last calls = last visits \<and> last calls \<notin> hb_flag b')"
proof (cases "heart_beats b")
  case Nil
  then show ?thesis using assms(1) by (simp add: call_heart_beat_def Let_def)
next
  case (Cons c T)
  let ?b = "b\<lparr>num_hb_to_do := int (length (heart_beats b)), heart_beat_index := 0\<rparr>"
  have "in_round ([] @ [c]) T [] ?b" using assms(1) unfolding in_round_def beats_ok_def by (auto simp: Cons)
  from hb_loop_outcome [OF this assms(2), of has_fun beat alarm 0]
  obtain v cs e b' where run: "hb_loop has_fun h beat alarm 0 ?b = Some (v, cs, e, b')"
      and out: "hb_outcome beat alarm 0 (obs_of (heart_beats b)) (v, cs, e, b')"
    unfolding Cons by auto
  let ?b' = "if e = Aborted then b' else b'\<lparr>heart_beat_index := 0, num_hb_to_do := 0\<rparr>"
  have "call_heart_beat has_fun h beat alarm b = Some (v, cs, e, ?b')"
    using run by (simp add: call_heart_beat_def Let_def Cons)
  moreover have "beats_ok ?b'" using out by (simp add: hb_outcome_def)
  moreover have "e = Aborted \<Longrightarrow> ?b' = b'" by simp
  ultimately have "call_heart_beat has_fun h beat alarm b = Some (v, cs, e, ?b') \<and>
      subseq v (obs_of (heart_beats b)) \<and> subseq cs v \<and> beats_ok ?b' \<and>
      (case e of
         Complete \<Rightarrow> \<forall>x\<in>set (obs_of (heart_beats b)). never_off beat x \<longrightarrow> x \<in> set v
       | Timeout \<Rightarrow> alarm (length v)
       | Aborted \<Rightarrow> cs \<noteq> [] \<and> last cs = last v \<and> last cs \<notin> hb_flag ?b')"
    using out unfolding hb_outcome_def by (cases e) auto
  then show ?thesis by blast
qed

text \<open>Four objects: the first turns the second off and the fifth on, the third destructs the first and itself.\<close>

definition busy :: "unit beat" where
  "busy ob giver b =
     (if ob = 1 then ([Set_heart_beat 2 0, Set_heart_beat 5 1], (), False)
      else if ob = 3 then ([Destruct 1, Destruct 3], (), False) else ([], (), False))"

definition four_beats :: "unit beats" where
  "four_beats = \<lparr>heart_beats = map (\<lambda>i. \<lparr>hb_ob = i, heart_beat_ticks = 1, time_to_heart_beat = 1\<rparr>) [1, 2, 3, 4],
     heart_beat_index = 0, num_hb_to_do = 0, hb_flag = {1, 2, 3, 4}, hb_destructed = {}, hb_rest = ()\<rparr>"

lemma heart_beat_round_witness:
  "\<exists>visits calls e b'. call_heart_beat (\<lambda>_. True) (\<lambda>_ _. blank) busy (\<lambda>_. False) four_beats = Some (visits, calls, e, b') \<and>
     e \<noteq> Timeout \<and> subseq visits [1, 2, 3, 4] \<and> beats_ok b'"
proof -
  have ends: "all_shadows_end (\<lambda>_ _. blank)" by (simp add: all_shadows_end_def shadow_base.simps blank_def)
  have ok: "beats_ok four_beats" by (simp add: beats_ok_def four_beats_def obs_of_def)
  have four: "obs_of (heart_beats four_beats) = [1, 2, 3, 4]" by (simp add: four_beats_def obs_of_def)
  obtain visits calls e b'
    where "call_heart_beat (\<lambda>_. True) (\<lambda>_ _. blank) busy (\<lambda>_. False) four_beats = Some (visits, calls, e, b') \<and>
        subseq visits [1, 2, 3, 4] \<and> subseq calls visits \<and> beats_ok b' \<and>
        (case e of Complete \<Rightarrow> \<forall>x\<in>set [1, 2, 3, 4]. never_off busy x \<longrightarrow> x \<in> set visits
         | Timeout \<Rightarrow> False
         | Aborted \<Rightarrow> calls \<noteq> [] \<and> last calls = last visits \<and> last calls \<notin> hb_flag b')"
    using heart_beat_round [OF ok ends, of "\<lambda>_. True" busy "\<lambda>_. False"] unfolding four by (elim exE) (rule that)
  then show ?thesis by (cases e) auto
qed

lemma busy_round:
  "\<exists>b'. call_heart_beat (\<lambda>_. True) (\<lambda>_ _. blank) busy (\<lambda>_. False) four_beats = Some ([1, 3, 4], [1, 3, 4], Complete, b') \<and>
     obs_of (heart_beats b') = [4, 5] \<and> hb_flag b' = {4, 5}"
proof -
  have giver: "heart_beat_giver (\<lambda>_. blank) ob = Some None" for ob
    by (simp add: heart_beat_giver_def shadow_base.simps blank_def)
  show ?thesis
    by (simp add: call_heart_beat_def four_beats_def hb_loop.simps beat_once_def Let_def hb_tick_def rewind_def giver busy_def
        hb_steps_def set_heart_beat_def hb_search_def eval_nat_numeral adjust_round_def obs_of_def) auto
qed


lemma hb_search_unique:
  assumes "distinct (obs_of hbs)" "i < length hbs"
  shows "hb_search (hb_ob (hbs ! i)) hbs = Some i"
proof -
  obtain j where j: "hb_search (hb_ob (hbs ! i)) hbs = Some j"
    using hb_search_None assms(2) by (cases "hb_search (hb_ob (hbs ! i)) hbs") (force simp: obs_of_def)+
  moreover have "obs_of hbs ! j = obs_of hbs ! i" "j < length hbs"
    using hb_search_Some [OF j] assms(2) by (simp_all add: obs_of_def)
  ultimately show ?thesis
    using nth_eq_iff_index_eq [OF assms(1), of j i] assms(2) by (simp add: obs_of_def)
qed

lemma hb_search_updated:
  assumes "hb_search ob hbs = Some i" "hb_ob x = ob" "distinct (obs_of hbs)"
  shows "hb_search ob (hbs[i := x]) = Some i"
proof -
  have i: "i < length hbs" "hb_ob (hbs ! i) = ob" using hb_search_Some [OF assms(1)] by simp_all
  then have "distinct (obs_of (hbs[i := x]))" using obs_of_update assms(2,3) by simp
  from hb_search_unique [OF this, of i] show ?thesis using i assms(2) by simp
qed

lemma sint_16: "sint (word_of_int k :: 16 word) = (k + 2 ^ 15) mod 2 ^ 16 - 2 ^ 15"
  by transfer (simp add: signed_take_bit_eq_take_bit_shift take_bit_eq_mod)

text \<open>The signed 16 bits of a number: what is kept of it in a \<open>short\<close>.\<close>

abbreviation as_short :: "int \<Rightarrow> int" where "as_short k \<equiv> (k + 2 ^ 15) mod 2 ^ 16 - 2 ^ 15"

text \<open>C38. The period of a heart beat, as \<open>query_heart_beat\<close> tells it, is the number given to \<open>set_heart_beat\<close> cut to the
  signed 16 bits of a \<open>short\<close>: it is that number below 32768, and zero, which is the answer for no heart beat, for
  the multiples of 65536, though the heart beat is on.\<close>

theorem heart_beat_period:
  assumes "beats_ok b" "ob \<notin> hb_destructed b" "0 < to"
  shows "fst (set_heart_beat ob to b) = 1 \<and> ob \<in> hb_flag (snd (set_heart_beat ob to b)) \<and>
    query_heart_beat ob (snd (set_heart_beat ob to b)) = as_short to \<and>
    (to < 2 ^ 15 \<longrightarrow> query_heart_beat ob (snd (set_heart_beat ob to b)) = to) \<and>
    (2 ^ 16 dvd to \<longrightarrow> query_heart_beat ob (snd (set_heart_beat ob to b)) = 0)"
proof -
  have d: "distinct (obs_of (heart_beats b))" "hb_flag b = set (obs_of (heart_beats b))"
    using assms(1) by (simp_all add: beats_ok_def)
  have set: "fst (set_heart_beat ob to b) = 1 \<and> ob \<in> hb_flag (snd (set_heart_beat ob to b)) \<and>
      query_heart_beat ob (snd (set_heart_beat ob to b)) = sint (word_of_int to :: 16 word)"
  proof (cases "hb_search ob (heart_beats b)")
    case None
    then have off: "ob \<notin> hb_flag b" using hb_search_None d(2) by blast
    then show ?thesis using assms by (simp add: set_heart_beat_def query_heart_beat_def hb_search_def)
  next
    case (Some i)
    then have on: "ob \<in> hb_flag b" "i < length (heart_beats b)" "hb_ob (heart_beats b ! i) = ob"
      using hb_search_None hb_search_Some d(2) by (metis option.distinct(1), metis, metis)
    then show ?thesis using assms Some d(1)
      by (simp add: set_heart_beat_def query_heart_beat_def hb_search_updated)
  qed
  moreover have "as_short to = to" if "to < 2 ^ 15" using that assms(3) by simp
  moreover have "as_short to = 0" if "2 ^ 16 dvd to" using that by (auto elim!: dvdE)
  ultimately show ?thesis unfolding sint_16 by auto
qed

lemma heart_beat_period_witness: "query_heart_beat 7 (snd (set_heart_beat 7 65536 four_beats)) = 0"
proof -
  have "beats_ok four_beats" "7 \<notin> hb_destructed four_beats" by (simp_all add: beats_ok_def four_beats_def obs_of_def)
  from heart_beat_period [OF this, of 65536] show ?thesis by simp
qed

end
