(* ===== verification/Swap_File.thy ===== *)
theory Swap_File
  imports Prelude
begin

text \<open>
  The swap file (\<open>swap.c\<close>): programs of objects and line number tables are written to it, first fit into
  the list of free blocks, and read back. The file is a function from offsets to bytes; it is assumed to stay
  below 2 GB. How a program lies in memory (\<open>image\<close>) is up to the C compiler and a parameter, and so are the
  addresses that memory is allocated at and whether a write succeeds.
\<close>

type_synonym byte = "8 word"

section \<open>The file and its free blocks\<close>

record sw_block =
  start :: int
  blk_length :: int

record swap_state =
  swap_file_open :: bool
  swap_free :: "sw_block list"
  last_data :: int
  swap_file :: "int \<Rightarrow> byte"
  num_swapped :: int
  total_bytes_swapped :: int
  line_num_bytes_swapped :: int

definition sizeof_int :: int where "sizeof_int = 4"

definition assert_swap_file :: "bool \<Rightarrow> swap_state \<Rightarrow> bool \<times> swap_state" where
  "assert_swap_file can_open st =
     (if swap_file_open st then (True, st)
      else (can_open, st\<lparr>swap_file_open := can_open, swap_free := [], last_data := 0\<rparr>))"

text \<open>First fit: the place found and the list without it.\<close>

fun first_fit :: "int \<Rightarrow> sw_block list \<Rightarrow> (int \<times> sw_block list) option" where
  "first_fit len [] = None"
| "first_fit len (b # bs) =
     (if blk_length b < len then map_option (\<lambda>(r, fr). (r, b # fr)) (first_fit len bs)
      else if blk_length b - len = 0 then Some (start b, bs)
      else Some (start b, b\<lparr>start := start b + len, blk_length := blk_length b - len\<rparr> # bs))"

definition alloc_swap :: "int \<Rightarrow> swap_state \<Rightarrow> int \<times> swap_state" where
  "alloc_swap len st =
     (case first_fit len (swap_free st) of
        None \<Rightarrow> (last_data st, st)
      | Some (r, fr) \<Rightarrow> (r, st\<lparr>swap_free := fr\<rparr>))"

text \<open>
  Freeing: the new block goes before the first one that starts behind it, is joined with its
  neighbours, and the end of the file moves back if it is the last.
\<close>

definition join_next :: "sw_block \<Rightarrow> sw_block list \<Rightarrow> sw_block \<times> sw_block list" where
  "join_next m after =
     (case after of
        [] \<Rightarrow> (m, after)
      | p # ps \<Rightarrow> if start m + blk_length m = start p then (m\<lparr>blk_length := blk_length m + blk_length p\<rparr>, ps) else (m, after))"

definition join_prev :: "sw_block list \<Rightarrow> sw_block \<Rightarrow> sw_block list \<times> sw_block" where
  "join_prev before m =
     (if before \<noteq> [] \<and> start (last before) + blk_length (last before) = start m
      then (butlast before, (last before)\<lparr>blk_length := blk_length (last before) + blk_length m\<rparr>)
      else (before, m))"

definition free_swap :: "int \<Rightarrow> int \<Rightarrow> swap_state \<Rightarrow> swap_state" where
  "free_swap s len st =
     (let before = takeWhile (\<lambda>b. \<not> s < start b) (swap_free st);
          after = dropWhile (\<lambda>b. \<not> s < start b) (swap_free st);
          (m, after) = join_next \<lparr>start = s, blk_length = len + sizeof_int\<rparr> after;
          (before, m) = join_prev before m
      in if start m + blk_length m = last_data st
         then st\<lparr>swap_free := before, last_data := start m\<rparr>
         else st\<lparr>swap_free := before @ m # after\<rparr>)"

text \<open>Bytes of the file; an \<open>int\<close> is stored with its low byte first.\<close>

definition write_at :: "int \<Rightarrow> byte list \<Rightarrow> (int \<Rightarrow> byte) \<Rightarrow> int \<Rightarrow> byte" where
  "write_at loc bs f = (\<lambda>k. if loc \<le> k \<and> k < loc + int (length bs) then bs ! nat (k - loc) else f k)"

definition read_at :: "int \<Rightarrow> nat \<Rightarrow> (int \<Rightarrow> byte) \<Rightarrow> byte list" where
  "read_at loc n f = map (\<lambda>i. f (loc + int i)) [0..<n]"

definition int_bytes :: "int \<Rightarrow> byte list" where
  "int_bytes n = map (\<lambda>i. word_of_int (n div 256 ^ i)) [0..<4]"

definition bytes_int :: "byte list \<Rightarrow> int" where
  "bytes_int bs = c_int (horner_sum uint 256 bs)"

text \<open>
  Writing a block out, unless it has a place already, and reading one in. A write that fails has written
  the first \<open>k\<close> bytes of the size and the block.
\<close>

definition swap_out ::
  "bool \<Rightarrow> int \<Rightarrow> nat option \<Rightarrow> byte list \<Rightarrow> int \<Rightarrow> int \<Rightarrow> swap_state \<Rightarrow> bool \<times> int \<times> swap_state" where
  "swap_out can_open time_to_swap failing block len loc st =
     (if time_to_swap = 0 then (False, loc, st)
      else
        (case assert_swap_file can_open st of
           (False, st) \<Rightarrow> (False, loc, st)
         | (True, st) \<Rightarrow>
             if loc = -1 then
               (case alloc_swap (len + sizeof_int) st of
                  (loc, st) \<Rightarrow>
                    (case failing of
                       Some k \<Rightarrow> (False, -1, st\<lparr>swap_file := write_at loc (take k (int_bytes len @ block)) (swap_file st)\<rparr>)
                     | None \<Rightarrow>
                         (let st = st\<lparr>swap_file := write_at loc (int_bytes len @ block) (swap_file st)\<rparr>;
                              st = (if loc \<ge> last_data st then st\<lparr>last_data := loc + sizeof_int + len\<rparr> else st)
                          in (True, loc, st\<lparr>total_bytes_swapped := total_bytes_swapped st + len\<rparr>))))
             else (True, loc, st\<lparr>total_bytes_swapped := total_bytes_swapped st + len\<rparr>)))"

definition swap_in :: "int \<Rightarrow> swap_state \<Rightarrow> int \<times> byte list option \<times> swap_state" where
  "swap_in loc st =
     (if loc = -1 then (0, None, st)
      else
        (let len = bytes_int (read_at loc 4 (swap_file st))
         in (len, Some (read_at (loc + sizeof_int) (nat len) (swap_file st)),
             st\<lparr>total_bytes_swapped := total_bytes_swapped st - len\<rparr>)))"

section \<open>The space of the file\<close>

text \<open>The free list is in order, its blocks are joined, and none touches the end of the data.\<close>

abbreviation blk_end :: "sw_block \<Rightarrow> int" where "blk_end b \<equiv> start b + blk_length b"

fun gaps :: "int \<Rightarrow> sw_block list \<Rightarrow> int \<Rightarrow> bool" where
  "gaps lo [] hi = True"
| "gaps lo (b # bs) hi \<longleftrightarrow> lo < start b \<and> 0 < blk_length b \<and> blk_end b < hi \<and> gaps (blk_end b) bs hi"

definition covered :: "sw_block list \<Rightarrow> int set" where
  "covered bs = (\<Union>b\<in>set bs. {start b..<blk_end b})"

lemma covered_simps [simp]:
  "covered [] = {}" "covered (b # bs) = {start b..<blk_end b} \<union> covered bs"
  "covered (xs @ ys) = covered xs \<union> covered ys"
  by (simp_all add: covered_def)

lemma gaps_bounds: "gaps lo bs hi \<Longrightarrow> covered bs \<subseteq> {lo + 1..<hi}"
  by (induction bs arbitrary: lo) fastforce+

lemma gaps_mono: "gaps lo bs hi \<Longrightarrow> lo' \<le> lo \<Longrightarrow> hi \<le> hi' \<Longrightarrow> gaps lo' bs hi'"
  by (induction bs arbitrary: lo lo') auto

lemma first_fit_takes:
  assumes "gaps lo bs hi" "0 < len" "first_fit len bs = Some (r, fr)"
  shows "gaps lo fr hi \<and> {r..<r + len} \<subseteq> covered bs \<and> covered fr = covered bs - {r..<r + len} \<and> lo < r"
  using assms
proof (induction bs arbitrary: lo fr)
  case Nil
  then show ?case by simp
next
  case (Cons b bs)
  have rest: "gaps (blk_end b) bs hi" and b: "lo < start b" "0 < blk_length b" "blk_end b < hi" using Cons.prems(1) by simp_all
  have apart: "covered bs \<subseteq> {blk_end b + 1..<hi}" using gaps_bounds [OF rest] .
  show ?case
  proof (cases "blk_length b < len")
    case True
    then obtain fr' where fr: "first_fit len bs = Some (r, fr')" "fr = b # fr'" using Cons.prems(3) by auto
    note IH = Cons.IH [OF rest Cons.prems(2) fr(1)]
    have "{start b..<blk_end b} \<inter> {r..<r + len} = {}" using IH by auto
    then show ?thesis using IH b by (auto simp: fr(2))
  next
    case False
    then show ?thesis using Cons.prems(2,3) b rest apart gaps_mono [OF rest] by (auto split: if_splits)
  qed
qed


lemma gaps_append:
  "gaps lo (xs @ ys) hi \<longleftrightarrow> gaps lo xs hi \<and> gaps (if xs = [] then lo else blk_end (last xs)) ys hi"
  by (induction xs arbitrary: lo) auto

lemma gaps_last:
  "gaps lo xs hi \<Longrightarrow> xs \<noteq> [] \<Longrightarrow> lo < start (last xs) \<and> 0 < blk_length (last xs) \<and> blk_end (last xs) < hi"
proof (induction xs arbitrary: lo)
  case (Cons b xs)
  then show ?case by (cases xs) force+
qed simp

lemma gaps_tighten: "gaps lo xs hi \<Longrightarrow> (xs \<noteq> [] \<Longrightarrow> blk_end (last xs) < hi') \<Longrightarrow> gaps lo xs hi'"
proof (induction xs arbitrary: lo)
  case (Cons b xs)
  show ?case
  proof (cases "xs = []")
    case False
    have g: "gaps (blk_end b) xs hi" using Cons.prems(1) by simp
    then have "blk_end b < hi'" using gaps_last [OF g False] Cons.prems(2) False by simp
    moreover have "gaps (blk_end b) xs hi'" using Cons.IH [OF g] Cons.prems(2) False by simp
    ultimately show ?thesis using Cons.prems(1) by simp
  qed (use Cons.prems in simp)
qed simp

lemma join_next_space:
  assumes "gaps lo ys hi" "0 < blk_length m" "blk_end m \<le> hi" "\<forall>y\<in>set ys. blk_end m \<le> start y" "join_next m ys = (m1, ys1)"
  shows "start m1 = start m \<and> 0 < blk_length m1 \<and> blk_end m1 \<le> hi \<and> gaps (blk_end m1) ys1 hi \<and>
    {start m..<blk_end m1} \<union> covered ys1 = {start m..<blk_end m} \<union> covered ys"
proof (cases ys)
  case Nil
  then show ?thesis using assms by (auto simp: join_next_def)
next
  case (Cons p ps)
  show ?thesis
  proof (cases "blk_end m = start p")
    case True
    then have m1: "m1 = m\<lparr>blk_length := blk_length m + blk_length p\<rparr>" "ys1 = ps" using assms(5) Cons by (simp_all add: join_next_def)
    have e: "blk_end m1 = blk_end p" using True by (simp add: m1)
    have p: "gaps (blk_end p) ps hi" "0 < blk_length p" "blk_end p < hi" using assms(1) Cons by simp_all
    have "{start m..<blk_end p} \<union> covered ps = {start m..<blk_end m} \<union> covered ys"
      using True assms(2) p(2) unfolding Cons by auto
    then show ?thesis using p assms(2) e unfolding m1(2) e by (simp add: m1(1))
  next
    case False
    then show ?thesis using assms Cons by (auto simp: join_next_def)
  qed
qed

lemma join_prev_space:
  assumes "gaps (-1) xs (start m + 1)" "0 \<le> start m" "0 < blk_length m" "join_prev xs m = (xs1, m1)"
  shows "0 \<le> start m1 \<and> 0 < blk_length m1 \<and> blk_end m1 = blk_end m \<and> gaps (-1) xs1 (start m1) \<and>
    covered xs1 \<union> {start m1..<blk_end m} = covered xs \<union> {start m..<blk_end m}"
proof (cases "xs \<noteq> [] \<and> blk_end (last xs) = start m")
  case True
  then obtain ys y where xs: "xs = ys @ [y]" by (metis append_butlast_last_id)
  have g: "gaps (-1) ys (start m + 1)" "gaps (if ys = [] then -1 else blk_end (last ys)) [y] (start m + 1)"
    using assms(1) unfolding xs gaps_append by blast+
  have "gaps (-1) ys (start y)" using g by (intro gaps_tighten [OF g(1)]) simp
  moreover have "-1 < start y" using gaps_last [OF assms(1)] unfolding xs by simp
  ultimately show ?thesis using True assms(2-4) g unfolding xs by (auto simp: join_prev_def split: if_splits)
next
  case False
  moreover have "blk_end (last xs) < start m + 1" if "xs \<noteq> []"
    using assms(1) gaps_append [of "-1" "butlast xs" "[last xs]"] that by auto
  ultimately have "gaps (-1) xs (start m)" by (intro gaps_tighten [OF assms(1)]) force
  then show ?thesis using False assms(2-4) by (auto simp: join_prev_def)
qed


lemma gaps_member: "gaps lo bs hi \<Longrightarrow> b \<in> set bs \<Longrightarrow> lo < start b \<and> 0 < blk_length b \<and> blk_end b < hi"
  by (induction bs arbitrary: lo) force+

text \<open>Freeing gives exactly the bytes of the block back: into the list, or to the end of the file.\<close>

lemma free_swap_space:
  assumes g: "gaps (-1) (swap_free st) (last_data st)" and s: "0 \<le> s" "0 \<le> len" "s + len + sizeof_int \<le> last_data st"
    and apart: "{s..<s + len + sizeof_int} \<inter> covered (swap_free st) = {}"
  defines "st' \<equiv> free_swap s len st"
  shows "gaps (-1) (swap_free st') (last_data st') \<and> 0 \<le> last_data st' \<and> last_data st' \<le> last_data st \<and>
    covered (swap_free st') \<union> {last_data st'..<last_data st} = covered (swap_free st) \<union> {s..<s + len + sizeof_int} \<and>
    swap_file st' = swap_file st \<and> swap_file_open st' = swap_file_open st"
proof -
  define xs where "xs = takeWhile (\<lambda>b. \<not> s < start b) (swap_free st)"
  define ys where "ys = dropWhile (\<lambda>b. \<not> s < start b) (swap_free st)"
  define m where "m = \<lparr>start = s, blk_length = len + sizeof_int\<rparr>"
  obtain m1 ys1 where n: "join_next m ys = (m1, ys1)" by fastforce
  obtain xs1 m2 where p: "join_prev xs m1 = (xs1, m2)" by fastforce
  have free: "swap_free st = xs @ ys" by (simp add: xs_def ys_def)
  have gx: "gaps (-1) xs (last_data st)" and gy: "gaps (if xs = [] then -1 else blk_end (last xs)) ys (last_data st)"
    using g unfolding free gaps_append by blast+
  have m: "start m = s" "0 < blk_length m" "blk_end m \<le> last_data st" using s by (simp_all add: m_def sizeof_int_def)
  have outside: "\<not> (start b \<le> k \<and> k < blk_end b)" if "b \<in> set (xs @ ys)" "s \<le> k" "k < blk_end m" for b k
    using apart that unfolding free covered_def m_def by (auto simp: disjoint_iff)
  have pos: "0 < blk_length b" if "b \<in> set (xs @ ys)" for b
    using gaps_member [OF g] that unfolding free by blast
  have before: "blk_end (last xs) \<le> s" if "xs \<noteq> []"
  proof -
    have "\<not> s < start (last xs)" using set_takeWhileD [of "last xs"] that unfolding xs_def by (metis last_in_set)
    then show ?thesis using outside [of "last xs" s] that m by force
  qed
  have behind: "\<forall>y\<in>set ys. blk_end m \<le> start y"
  proof
    fix y assume y: "y \<in> set ys"
    have "ys \<noteq> []" using y by auto
    then have hd: "s < start (hd ys)" using hd_dropWhile [of "\<lambda>b. \<not> s < start b" "swap_free st"] unfolding ys_def by simp
    have "start (hd ys) \<le> start y"
      using gy y gaps_member [of "blk_end (hd ys)" "tl ys" "last_data st" y] \<open>ys \<noteq> []\<close> by (cases ys) force+
    then show "blk_end m \<le> start y" using hd outside [of y "start y"] pos [of y] y by force
  qed
  note nx = join_next_space [OF gy m(2,3) behind n]
  have "gaps (-1) xs (start m1 + 1)" using before nx m(1) by (intro gaps_tighten [OF gx]) force
  from join_prev_space [OF this _ _ p]
  have prev: "0 \<le> start m2 \<and> 0 < blk_length m2 \<and> blk_end m2 = blk_end m1 \<and> gaps (-1) xs1 (start m2) \<and>
      covered xs1 \<union> {start m2..<blk_end m1} = covered xs \<union> {start m1..<blk_end m1}"
    using nx m s by simp
  have st': "st' = (if blk_end m2 = last_data st then st\<lparr>swap_free := xs1, last_data := start m2\<rparr>
      else st\<lparr>swap_free := xs1 @ m2 # ys1\<rparr>)"
    unfolding st'_def free_swap_def Let_def xs_def [symmetric] ys_def [symmetric] m_def [symmetric] by (simp add: n p)
  have union: "covered xs1 \<union> {start m2..<blk_end m1} \<union> covered ys1 = covered (swap_free st) \<union> {s..<blk_end m}"
  proof -
    have s1: "start m1 = s" using nx m(1) by simp
    have "covered xs1 \<union> {start m2..<blk_end m1} = covered xs \<union> {s..<blk_end m1}"
      using prev unfolding s1 by blast
    moreover have "{s..<blk_end m1} \<union> covered ys1 = {s..<blk_end m} \<union> covered ys" using nx unfolding m(1) by blast
    ultimately show ?thesis unfolding free covered_simps by (metis Un_assoc Un_commute)
  qed
  show ?thesis
  proof (cases "blk_end m2 = last_data st")
    case True
    then have "ys1 = []" using nx prev by (cases ys1) auto
    then show ?thesis using True prev union m_def unfolding st' by (simp add: add.assoc)
  next
    case False
    have e: "blk_end m2 = blk_end m1" and le: "blk_end m1 \<le> last_data st" using nx prev by blast+
    have "blk_end m2 < last_data st" using False le unfolding e by linarith
    moreover have "gaps (blk_end m2) ys1 (last_data st)" using nx unfolding e by blast
    moreover have "gaps (-1) xs1 (last_data st)"
      using prev calculation(1) gaps_mono [of "-1" xs1 "start m2" "-1" "last_data st"] by simp
    moreover have "(if xs1 = [] then -1 else blk_end (last xs1)) < start m2" using prev gaps_last [of "-1" xs1 "start m2"] by auto
    ultimately have "gaps (-1) (xs1 @ m2 # ys1) (last_data st)"
      unfolding gaps_append gaps.simps(2) using prev by blast
    moreover have "covered (xs1 @ m2 # ys1) = covered (swap_free st) \<union> {s..<s + len + sizeof_int}"
      using union unfolding covered_simps e by (simp add: m_def Un_assoc add.assoc)
    moreover have "0 \<le> last_data st" using s by (simp add: sizeof_int_def)
    ultimately show ?thesis using False unfolding st' by simp
  qed
qed


section \<open>The contents of the file\<close>

lemma length_read_at [simp]: "length (read_at loc n f) = n"
  by (simp add: read_at_def)

lemma length_int_bytes [simp]: "length (int_bytes n) = 4"
  by (simp add: int_bytes_def)

lemma read_written: "read_at loc (length bs) (write_at loc bs f) = bs"
  by (rule nth_equalityI) (simp_all add: read_at_def write_at_def)

lemma read_written_append:
  "read_at loc (length xs) (write_at loc (xs @ ys) f) = xs"
  "read_at (loc + int (length xs)) (length ys) (write_at loc (xs @ ys) f) = ys"
  by (rule nth_equalityI; simp add: read_at_def write_at_def nth_append nat_add_distrib)+

lemma read_elsewhere:
  assumes "{p..<p + int n} \<inter> {loc..<loc + int (length bs)} = {}"
  shows "read_at p n (write_at loc bs f) = read_at p n f"
proof (rule nth_equalityI)
  fix i assume "i < length (read_at p n (write_at loc bs f))"
  then have "i < n" by simp
  then have "p + int i \<in> {p..<p + int n}" by simp
  then have "p + int i \<notin> {loc..<loc + int (length bs)}" using assms by blast
  then show "read_at p n (write_at loc bs f) ! i = read_at p n f ! i" using \<open>i < n\<close> by (auto simp: read_at_def write_at_def)
qed simp

lemma horner_int_bytes:
  assumes "0 \<le> n" "n < 2 ^ 32"
  shows "horner_sum uint 256 (int_bytes n) = n"
proof -
  have d: "n div 256 ^ 2 = n div 256 div 256" "n div 256 ^ 3 = n div 256 div 256 div 256"
    by (simp_all add: zdiv_zmult2_eq [symmetric])
  have m: "n div 256 div 256 div 256 mod 256 = n div 256 div 256 div 256"
    using assms zdiv_mono1 [of n "2 ^ 32 - 1" 16777216]
    by (intro mod_pos_pos_trivial) (simp_all add: zdiv_zmult2_eq [symmetric] pos_imp_zdiv_nonneg_iff)
  have "horner_sum uint 256 (int_bytes n)
      = n mod 256 + 256 * (n div 256 mod 256 + 256 * (n div 256 ^ 2 mod 256 + 256 * (n div 256 ^ 3 mod 256)))"
    by (simp add: int_bytes_def uint_word_of_int upt_rec take_bit_eq_mod unsigned_of_int numeral_eq_Suc)
  then show ?thesis unfolding d m by (simp only: mod_mult_div_eq)
qed

lemma bytes_int_bytes: "0 \<le> n \<Longrightarrow> n < 2 ^ 31 \<Longrightarrow> bytes_int (int_bytes n) = n"
  by (simp add: bytes_int_def horner_int_bytes c_int_def)

text \<open>What the file holds, by location: every block written is there, apart from the free blocks and the others.\<close>

definition region :: "int \<Rightarrow> byte list \<Rightarrow> int set" where
  "region loc bs = {loc..<loc + (int (length bs) + sizeof_int)}"

definition stored :: "swap_state \<Rightarrow> int \<Rightarrow> byte list \<Rightarrow> bool" where
  "stored st loc bs \<longleftrightarrow>
     0 \<le> loc \<and> int (length bs) < 2 ^ 31 \<and>
     region loc bs \<subseteq> {0..<last_data st} \<and> region loc bs \<inter> covered (swap_free st) = {} \<and>
     read_at loc 4 (swap_file st) = int_bytes (int (length bs)) \<and>
     read_at (loc + sizeof_int) (length bs) (swap_file st) = bs"

definition holds :: "swap_state \<Rightarrow> (int \<rightharpoonup> byte list) \<Rightarrow> bool" where
  "holds st M \<longleftrightarrow>
     gaps (-1) (swap_free st) (last_data st) \<and> 0 \<le> last_data st \<and>
     (swap_file_open st \<or> swap_free st = [] \<and> last_data st = 0) \<and>
     (\<forall>loc bs. M loc = Some bs \<longrightarrow> stored st loc bs) \<and>
     (\<forall>l bs l' bs'. M l = Some bs \<and> M l' = Some bs' \<and> l \<noteq> l' \<longrightarrow> region l bs \<inter> region l' bs' = {})"

text \<open>No byte of the file is lost: each belongs to a block written or to a free one.\<close>

definition used :: "(int \<rightharpoonup> byte list) \<Rightarrow> int set" where
  "used M = {k. \<exists>loc bs. M loc = Some bs \<and> k \<in> region loc bs}"

lemma used_upd:
  "M r = None \<Longrightarrow> used (M(r \<mapsto> bs)) = used M \<union> region r bs"
  "M r = Some bs \<Longrightarrow> used M \<subseteq> used (M(r := None)) \<union> region r bs"
  by (auto simp: used_def split: if_splits) (metis option.distinct(1), metis option.inject)

definition no_leak :: "swap_state \<Rightarrow> (int \<rightharpoonup> byte list) \<Rightarrow> bool" where
  "no_leak st M \<longleftrightarrow> {0..<last_data st} \<subseteq> covered (swap_free st) \<union> used M"

lemma holdsD:
  assumes "holds st M"
  shows "gaps (-1) (swap_free st) (last_data st)" "0 \<le> last_data st"
    "swap_file_open st \<or> swap_free st = [] \<and> last_data st = 0"
    "M l = Some bs \<Longrightarrow> stored st l bs"
    "M l = Some bs \<Longrightarrow> M l' = Some bs' \<Longrightarrow> l \<noteq> l' \<Longrightarrow> region l bs \<inter> region l' bs' = {}"
  using assms unfolding holds_def by blast+

lemma holds_counters [simp]:
  "holds (st\<lparr>total_bytes_swapped := n\<rparr>) M = holds st M" "no_leak (st\<lparr>total_bytes_swapped := n\<rparr>) M = no_leak st M"
  "holds (st\<lparr>line_num_bytes_swapped := n\<rparr>) M = holds st M" "no_leak (st\<lparr>line_num_bytes_swapped := n\<rparr>) M = no_leak st M"
  "holds (st\<lparr>num_swapped := n\<rparr>) M = holds st M" "no_leak (st\<lparr>num_swapped := n\<rparr>) M = no_leak st M"
  by (simp_all add: holds_def no_leak_def stored_def)


lemma stored_keeps:
  assumes "stored st loc bs" "last_data st \<le> last_data st' \<or> region loc bs \<subseteq> {0..<last_data st'}"
    and "region loc bs \<inter> covered (swap_free st') = {}"
    and "\<And>k. k \<in> region loc bs \<Longrightarrow> swap_file st' k = swap_file st k"
  shows "stored st' loc bs"
proof -
  have "read_at loc 4 (swap_file st') = read_at loc 4 (swap_file st)"
    using assms(4) by (auto simp: read_at_def region_def sizeof_int_def)
  moreover have "read_at (loc + sizeof_int) (length bs) (swap_file st') = read_at (loc + sizeof_int) (length bs) (swap_file st)"
    using assms(4) by (auto simp: read_at_def region_def sizeof_int_def)
  ultimately show ?thesis using assms(1-3) unfolding stored_def by auto
qed

text \<open>The place found is free, and no longer free afterwards.\<close>

lemma alloc_swap_place:
  assumes "holds st M" "0 < len" "alloc_swap len st = (r, st1)"
  shows "0 \<le> r \<and> gaps (-1) (swap_free st1) (last_data st) \<and> covered (swap_free st1) \<subseteq> covered (swap_free st) \<and>
    {r..<r + len} \<inter> covered (swap_free st1) = {} \<and>
    covered (swap_free st) \<subseteq> covered (swap_free st1) \<union> {r..<r + len} \<and>
    (r = last_data st \<or> r + len \<le> last_data st \<and> r < last_data st \<and> {r..<r + len} \<subseteq> covered (swap_free st)) \<and>
    st1 = st\<lparr>swap_free := swap_free st1\<rparr>"
proof (cases "first_fit len (swap_free st)")
  case None
  have "covered (swap_free st) \<subseteq> {0..<last_data st}" using gaps_bounds [OF holdsD(1) [OF assms(1)]] by simp
  then show ?thesis using assms holdsD(1,2) [OF assms(1)] None by (auto simp: alloc_swap_def)
next
  case (Some p)
  obtain r' fr where p: "p = (r', fr)" by fastforce
  note f = first_fit_takes [OF holdsD(1) [OF assms(1)] assms(2) Some [unfolded p]]
  have eq: "r = r'" "st1 = st\<lparr>swap_free := fr\<rparr>" using assms(3) Some p by (simp_all add: alloc_swap_def)
  have sub: "covered (swap_free st) \<subseteq> {0..<last_data st}" using gaps_bounds [OF holdsD(1) [OF assms(1)]] by simp
  have "r \<in> {r..<r + len}" "r + len - 1 \<in> {r..<r + len}" using assms(2) by auto
  then have "r \<in> {0..<last_data st}" "r + len - 1 \<in> {0..<last_data st}" using f sub unfolding eq(1) by blast+
  then show ?thesis using f unfolding eq by auto
qed

lemma outside_place:
  assumes "holds st M" "M l = Some b" "r = last_data st \<or> {r..<r + len} \<subseteq> covered (swap_free st)"
  shows "region l b \<inter> {r..<r + len} = {}"
proof -
  have "region l b \<subseteq> {0..<last_data st}" "region l b \<inter> covered (swap_free st) = {}"
    using holdsD(4) [OF assms(1,2)] unfolding stored_def by blast+
  then show ?thesis using assms(3) by auto
qed

lemma write_at_outside: "k \<notin> {loc..<loc + int (length bs)} \<Longrightarrow> write_at loc bs f k = f k"
  by (auto simp: write_at_def)

text \<open>A block written is stored at a new place, and whatever happens the others stay as they were.\<close>

lemma written_block:
  assumes h: "holds st M" and len: "int (length bs) < 2 ^ 31"
    and r: "alloc_swap (int (length bs) + sizeof_int) st = (r, st1)" and op: "swap_file_open st"
  defines "st2 \<equiv> st1\<lparr>swap_file := write_at r (int_bytes (int (length bs)) @ bs) (swap_file st1)\<rparr>"
  defines "st3 \<equiv> (if r \<ge> last_data st2 then st2\<lparr>last_data := r + sizeof_int + int (length bs)\<rparr> else st2)"
  shows "M r = None \<and> 0 \<le> r \<and> holds st3 (M(r \<mapsto> bs)) \<and> (no_leak st M \<longrightarrow> no_leak st3 (M(r \<mapsto> bs)))"
proof -
  let ?n = "int (length bs) + sizeof_int"
  have n: "0 < ?n" by (simp add: sizeof_int_def)
  note a = alloc_swap_place [OF h n r]
  have reg: "region r bs = {r..<r + ?n}" by (simp add: region_def)
  have where_r: "r = last_data st \<or> {r..<r + ?n} \<subseteq> covered (swap_free st)" using a by blast
  have fields: "last_data st1 = last_data st" "swap_file st1 = swap_file st" "swap_file_open st1 = swap_file_open st"
    using a by (metis swap_state.surjective swap_state.update_convs(2) swap_state.ext_inject)+
  have same3: "swap_free st3 = swap_free st1" "swap_file_open st3"
      "swap_file st3 = write_at r (int_bytes (int (length bs)) @ bs) (swap_file st)"
    using op fields unfolding st3_def st2_def by simp_all
  have last3: "last_data st3 = (if r = last_data st then r + ?n else last_data st)"
    using a fields unfolding st3_def st2_def by auto
  have le: "last_data st \<le> last_data st3" "region r bs \<subseteq> {0..<last_data st3}" using a n unfolding last3 reg by auto
  have none: "M r = None"
  proof (cases "M r")
    case (Some b)
    have "r \<in> region r b \<inter> {r..<r + ?n}" using n by (simp add: region_def sizeof_int_def)
    then show ?thesis using outside_place [OF h Some where_r] by blast
  qed
  have others: "stored st3 l b" if "M l = Some b" for l b
  proof (rule stored_keeps [OF holdsD(4) [OF h that]])
    have out: "region l b \<inter> {r..<r + ?n} = {}" using outside_place [OF h that where_r] .
    show "swap_file st3 k = swap_file st k" if "k \<in> region l b" for k
      unfolding same3 using out that by (intro write_at_outside) (auto simp: sizeof_int_def)
    have "region l b \<inter> covered (swap_free st) = {}" using holdsD(4) [OF h that] unfolding stored_def by blast
    then show "region l b \<inter> covered (swap_free st3) = {}" using a unfolding same3 by blast
  qed (use le in simp)
  have "stored st3 r bs"
    unfolding stored_def same3 reg
    using a len le read_written_append(1) [of r "int_bytes (int (length bs))" bs "swap_file st"]
      read_written_append(2) [of r "int_bytes (int (length bs))" bs "swap_file st"]
    by (simp add: sizeof_int_def reg)
  moreover have "region l b \<inter> region r bs = {}" if "M l = Some b" for l b
    unfolding reg using outside_place [OF h that where_r] .
  moreover have "gaps (-1) (swap_free st3) (last_data st3)" using a le(1) gaps_mono unfolding same3 by (metis order_refl)
  moreover have "0 \<le> last_data st3" using le(1) holdsD(2) [OF h] by simp
  ultimately have "holds st3 (M(r \<mapsto> bs))"
    unfolding holds_def using others holdsD(5) [OF h] same3(2) by (auto simp: Int_commute)
  moreover have "no_leak st3 (M(r \<mapsto> bs))" if tight: "no_leak st M"
  proof -
    have "{0..<last_data st3} \<subseteq> {0..<last_data st} \<union> {r..<r + ?n}" unfolding last3 by auto
    also have "\<dots> \<subseteq> covered (swap_free st3) \<union> (used M \<union> {r..<r + ?n})"
      using tight a unfolding no_leak_def same3 by blast
    also have "used M \<union> {r..<r + ?n} = used (M(r \<mapsto> bs))" using used_upd(1) [of M r bs, OF none] unfolding reg by simp
    finally show ?thesis unfolding no_leak_def .
  qed
  ultimately show ?thesis using none a by blast
qed


lemma freed_block:
  assumes h: "holds st M" and l: "M loc = Some bs"
  defines "st' \<equiv> free_swap loc (int (length bs)) st"
  shows "holds st' (M(loc := None)) \<and> (no_leak st M \<longrightarrow> no_leak st' (M(loc := None)))"
proof -
  note s = holdsD(4) [OF h l, unfolded stored_def]
  have reg: "region loc bs = {loc..<loc + int (length bs) + sizeof_int}" by (simp add: region_def add.assoc)
  have "loc + int (length bs) + sizeof_int \<le> last_data st"
  proof -
    have "loc + int (length bs) + sizeof_int - 1 \<in> region loc bs" using s by (simp add: reg sizeof_int_def)
    then show ?thesis using s by (auto simp: reg)
  qed
  then have f: "gaps (-1) (swap_free st') (last_data st') \<and> 0 \<le> last_data st' \<and> last_data st' \<le> last_data st \<and>
      covered (swap_free st') \<union> {last_data st'..<last_data st} = covered (swap_free st) \<union> region loc bs \<and>
      swap_file st' = swap_file st \<and> swap_file_open st' = swap_file_open st"
    unfolding st'_def reg using s holdsD(1) [OF h] by (intro free_swap_space) (auto simp: reg)
  have others: "stored st' x b" if x: "M x = Some b" "x \<noteq> loc" for x b
  proof (rule stored_keeps [OF holdsD(4) [OF h x(1)]])
    note sx = holdsD(4) [OF h x(1), unfolded stored_def]
    have "region x b \<inter> region loc bs = {}" using holdsD(5) [OF h x(1) l x(2)] .
    then have apart: "region x b \<inter> (covered (swap_free st') \<union> {last_data st'..<last_data st}) = {}"
      using sx f by blast
    then show "region x b \<inter> covered (swap_free st') = {}" by blast
    have "region x b \<subseteq> {0..<last_data st} - {last_data st'..<last_data st}" using sx apart by blast
    also have "\<dots> \<subseteq> {0..<last_data st'}" by auto
    finally show "last_data st \<le> last_data st' \<or> region x b \<subseteq> {0..<last_data st'}" ..
  qed (use f in simp)
  have closed: "swap_file_open st' \<or> swap_free st' = [] \<and> last_data st' = 0"
  proof (cases "swap_file_open st")
    case False
    then have "last_data st = 0" using holdsD(3) [OF h] by blast
    then show ?thesis using s \<open>loc + int (length bs) + sizeof_int \<le> last_data st\<close> by (simp add: sizeof_int_def)
  qed (use f in simp)
  have "holds st' (M(loc := None))"
    unfolding holds_def using f closed others holdsD(5) [OF h] by (auto split: if_splits)
  moreover have "no_leak st' (M(loc := None))" if tight: "no_leak st M"
  proof -
    have "{0..<last_data st'} \<subseteq> {0..<last_data st} - {last_data st'..<last_data st}" using f by auto
    also have "\<dots> \<subseteq> covered (swap_free st') \<union> used (M(loc := None))"
    proof
      fix k assume k: "k \<in> {0..<last_data st} - {last_data st'..<last_data st}"
      then have "k \<in> covered (swap_free st) \<union> used M" using tight unfolding no_leak_def by blast
      then show "k \<in> covered (swap_free st') \<union> used (M(loc := None))" using used_upd(2) [of M loc bs, OF l] f k by blast
    qed
    finally show ?thesis unfolding no_leak_def .
  qed
  ultimately show ?thesis by blast
qed

lemma failed_block:
  assumes h: "holds st M" and r: "alloc_swap len st = (r, st1)" and len: "0 < len" "int (length bs) \<le> len" and op: "swap_file_open st"
  shows "holds (st1\<lparr>swap_file := write_at r bs (swap_file st1)\<rparr>) M"
proof -
  note a = alloc_swap_place [OF h len(1) r]
  have where_r: "r = last_data st \<or> {r..<r + len} \<subseteq> covered (swap_free st)" using a by blast
  have fields: "last_data st1 = last_data st" "swap_file st1 = swap_file st" "swap_file_open st1 = swap_file_open st"
    using a by (metis swap_state.surjective swap_state.update_convs(2) swap_state.ext_inject)+
  have "stored (st1\<lparr>swap_file := write_at r bs (swap_file st1)\<rparr>) l b" if "M l = Some b" for l b
  proof (rule stored_keeps [OF holdsD(4) [OF h that]])
    have out: "region l b \<inter> {r..<r + len} = {}" using outside_place [OF h that where_r] .
    show "swap_file (st1\<lparr>swap_file := write_at r bs (swap_file st1)\<rparr>) k = swap_file st k" if "k \<in> region l b" for k
      unfolding fields using out that len by (auto intro!: write_at_outside)
    have "region l b \<inter> covered (swap_free st) = {}" using holdsD(4) [OF h that] unfolding stored_def by blast
    then show "region l b \<inter> covered (swap_free (st1\<lparr>swap_file := write_at r bs (swap_file st1)\<rparr>)) = {}" using a by auto
  qed (simp add: fields)
  then show ?thesis using a h op unfolding holds_def by (simp add: fields)
qed


lemma swap_out_map:
  assumes h: "holds st M" and len: "int (length bs) < 2 ^ 31"
  shows "case swap_out can_open t failing bs (int (length bs)) (-1) st of (ok, loc, st') \<Rightarrow>
      ok = (t \<noteq> 0 \<and> (swap_file_open st \<or> can_open) \<and> failing = None) \<and>
      (if ok then M loc = None \<and> loc \<noteq> -1 \<and> holds st' (M(loc \<mapsto> bs)) \<and> (no_leak st M \<longrightarrow> no_leak st' (M(loc \<mapsto> bs)))
       else loc = -1 \<and> holds st' M)"
proof -
  obtain opened st0 where a: "assert_swap_file can_open st = (opened, st0)" by fastforce
  have opened: "opened = (swap_file_open st \<or> can_open)" "swap_file_open st0 = opened"
    using a by (auto simp: assert_swap_file_def split: if_splits)
  have h0: "holds st0 M" and tight: "no_leak st M \<Longrightarrow> no_leak st0 M"
    using a h by (auto simp: assert_swap_file_def holds_def no_leak_def stored_def split: if_splits)
  obtain r st1 where r: "alloc_swap (int (length bs) + sizeof_int) st0 = (r, st1)" by fastforce
  show ?thesis
  proof (cases "t \<noteq> 0 \<and> opened")
    case False
    then show ?thesis using opened h h0 a by (auto simp: swap_out_def split: bool.splits)
  next
    case True
    show ?thesis
    proof (cases failing)
      case None
      note w = written_block [OF h0 len r]
      show ?thesis using True None opened tight w by (simp add: swap_out_def a r Let_def)
    next
      case (Some k)
      have "holds (st1\<lparr>swap_file := write_at r (take k (int_bytes (int (length bs)) @ bs)) (swap_file st1)\<rparr>) M"
        using True opened by (intro failed_block [OF h0 r]) (auto simp: sizeof_int_def)
      then show ?thesis using True Some opened by (simp add: swap_out_def a r)
    qed
  qed
qed


text \<open>C39. The swap file is a map from places to blocks: writing a block stores it at a new place and keeps every
  other block, even if the write fails; reading gives back what was stored; freeing a place removes exactly that
  block. As long as no write fails no byte of the file is lost.\<close>

theorem swap_file_refines_map:
  assumes h: "holds st M" and len: "int (length bs) < 2 ^ 31"
  shows "(case swap_out can_open t failing bs (int (length bs)) (-1) st of (ok, loc, st') \<Rightarrow>
      ok = (t \<noteq> 0 \<and> (swap_file_open st \<or> can_open) \<and> failing = None) \<and>
      (if ok then M loc = None \<and> loc \<noteq> -1 \<and> holds st' (M(loc \<mapsto> bs)) \<and> (no_leak st M \<longrightarrow> no_leak st' (M(loc \<mapsto> bs)))
       else loc = -1 \<and> holds st' M)) \<and>
    (\<forall>loc b. M loc = Some b \<longrightarrow>
      swap_in loc st = (int (length b), Some b, st\<lparr>total_bytes_swapped := total_bytes_swapped st - int (length b)\<rparr>) \<and>
      holds (free_swap loc (int (length b)) st) (M(loc := None)) \<and>
      (no_leak st M \<longrightarrow> no_leak (free_swap loc (int (length b)) st) (M(loc := None))))"
proof (intro conjI allI impI)
  fix loc b assume l: "M loc = Some b"
  note s = holdsD(4) [OF h l, unfolded stored_def]
  show "swap_in loc st = (int (length b), Some b, st\<lparr>total_bytes_swapped := total_bytes_swapped st - int (length b)\<rparr>)"
    using s by (simp add: swap_in_def Let_def bytes_int_bytes)
  show "holds (free_swap loc (int (length b)) st) (M(loc := None))"
    and "no_leak st M \<Longrightarrow> no_leak (free_swap loc (int (length b)) st) (M(loc := None))"
    using freed_block [OF h l] by blast+
qed (rule swap_out_map [OF h len])

text \<open>A file with a block of two bytes behind a hole of six.\<close>

definition one_hole :: swap_state where
  "one_hole = \<lparr>swap_file_open = True, swap_free = [\<lparr>start = 0, blk_length = 6\<rparr>], last_data = 12,
     swap_file = write_at 6 (int_bytes 2 @ [8, 9]) (\<lambda>_. 0), num_swapped = 0, total_bytes_swapped = 2, line_num_bytes_swapped = 0\<rparr>"

lemma one_hole_holds: "holds one_hole [6 \<mapsto> [8, 9]]"
proof -
  have "read_at 6 (length (int_bytes 2)) (swap_file one_hole) = int_bytes 2"
    "read_at (6 + int (length (int_bytes 2))) (length [8, 9 :: byte]) (swap_file one_hole) = [8, 9]"
    unfolding one_hole_def swap_state.simps by (rule read_written_append)+
  then have "read_at 6 4 (swap_file one_hole) = int_bytes (int (length [8, 9 :: byte]))"
    "read_at (6 + sizeof_int) (length [8, 9 :: byte]) (swap_file one_hole) = [8, 9]"
    by (simp_all add: sizeof_int_def)
  then have "stored one_hole 6 [8, 9]"
    unfolding stored_def by (auto simp: region_def sizeof_int_def one_hole_def)
  then show ?thesis by (auto simp: holds_def one_hole_def)
qed

lemma swap_file_refines_map_witness:
  "\<exists>st'. swap_out True 1 None [1, 2] 2 (-1) one_hole = (True, 0, st') \<and> holds st' [6 \<mapsto> [8, 9], 0 \<mapsto> [1, 2]]"
proof -
  obtain ok loc st' where r: "swap_out True 1 None [1, 2] 2 (-1) one_hole = (ok, loc, st')" by (metis prod_cases3)
  have "loc = 0" using r by (simp add: swap_out_def assert_swap_file_def alloc_swap_def one_hole_def Let_def sizeof_int_def)
  then show ?thesis
    using swap_file_refines_map [OF one_hole_holds, where bs = "[1, 2]" and can_open = True and t = 1 and failing = None] r by (simp add: one_hole_def)
qed


section \<open>Programs\<close>

text \<open>
  A program is one block of memory that starts with a \<open>program_t\<close>, as the 32 bit words it consists of. The numbers
  of the words follow the layout of \<open>program_t\<close> with \<open>COMPRESS_FUNCTION_TABLES\<close> and without \<open>DEBUG\<close>.
\<close>

type_synonym words = "32 word list"

abbreviation "PROGRAM \<equiv> 3 :: nat"
abbreviation "LINE_INFO \<equiv> 5 :: nat"
abbreviation "FILE_INFO \<equiv> 6 :: nat"
abbreviation "LINE_SWAP_INDEX \<equiv> 7 :: nat"
abbreviation "FUNCTION_TABLE \<equiv> 8 :: nat"
abbreviation "FUNCTION_FLAGS \<equiv> 9 :: nat"
abbreviation "FUNCTION_OFFSETS \<equiv> 10 :: nat"
abbreviation "FUNCTION_COMPRESSED \<equiv> 11 :: nat"
abbreviation "CLASSES \<equiv> 12 :: nat"
abbreviation "CLASS_MEMBERS \<equiv> 13 :: nat"
abbreviation "STRINGS \<equiv> 14 :: nat"
abbreviation "VARIABLE_TABLE \<equiv> 15 :: nat"
abbreviation "VARIABLE_TYPES \<equiv> 16 :: nat"
abbreviation "INHERIT \<equiv> 17 :: nat"
abbreviation "TOTAL_SIZE \<equiv> 18 :: nat"
abbreviation "ARGUMENT_TYPES \<equiv> 20 :: nat"
abbreviation "TYPE_START \<equiv> 21 :: nat"

definition located :: "nat list" where
  "located = [PROGRAM, FUNCTION_TABLE, FUNCTION_FLAGS, FUNCTION_OFFSETS, FUNCTION_COMPRESSED, STRINGS, VARIABLE_TABLE, VARIABLE_TYPES, INHERIT,
     CLASSES, CLASS_MEMBERS]"

definition shift_all :: "nat list \<Rightarrow> 32 word \<Rightarrow> words \<Rightarrow> words" where
  "shift_all is d p = fold (\<lambda>i p. p[i := p ! i + d]) is p"

definition locate_out :: "32 word \<Rightarrow> words \<Rightarrow> words" where
  "locate_out prog p =
     (let p = shift_all located (- prog) p in
      if p ! TYPE_START \<noteq> 0 then shift_all [ARGUMENT_TYPES, TYPE_START] (- prog) p else p)"

definition locate_in :: "32 word \<Rightarrow> words \<Rightarrow> words" where
  "locate_in prog p =
     (let p = shift_all located prog p in
      if p ! TYPE_START \<noteq> 0 then shift_all [ARGUMENT_TYPES, TYPE_START] prog p else p)"

text \<open>\<open>ref\<close> and \<open>func_ref\<close> are the two halves of the third word.\<close>

definition prog_ref :: "words \<Rightarrow> int" where "prog_ref p = uint (p ! 2) mod 2 ^ 16"
definition func_ref :: "words \<Rightarrow> int" where "func_ref p = uint (p ! 2) div 2 ^ 16"

definition block_bytes :: "words \<Rightarrow> byte list" where
  "block_bytes p = concat (map (\<lambda>w. int_bytes (uint w)) p)"

fun bytes_block :: "byte list \<Rightarrow> words" where
  "bytes_block (a # b # c # d # bs) = word_of_int (horner_sum uint 256 [a, b, c, d]) # bytes_block bs"
| "bytes_block _ = []"

record swap_object =
  o_heart_beat :: bool
  o_clone :: bool
  o_destructed :: bool
  o_swapped :: bool
  o_interactive :: bool
  swap_num :: int
  prog :: "(32 word \<times> words) option"

text \<open>The rest of the memory: the blocks of line numbers by address, and the counts of programs.\<close>

record memory =
  swapping :: swap_state
  line_blocks :: "32 word \<rightharpoonup> byte list"
  total_prog_block_size :: int
  total_num_prog_blocks :: int

text \<open>The first two shorts of a block of line numbers are its size and where the line numbers begin.\<close>

definition info_short :: "nat \<Rightarrow> byte list \<Rightarrow> int" where
  "info_short i bs = horner_sum uint 256 [bs ! (2 * i), bs ! (2 * i + 1)]"

record swap_setup =
  can_open :: bool
  time_to_swap :: int

text \<open>The results of None are reads through pointers to nothing.\<close>

definition swap_line_numbers :: "swap_setup \<Rightarrow> nat option \<Rightarrow> words \<Rightarrow> memory \<Rightarrow> (bool \<times> words \<times> memory) option" where
  "swap_line_numbers cf failing p mem =
     (if p ! LINE_INFO = 0 then Some (False, p, mem)
      else
        (case line_blocks mem (p ! FILE_INFO) of
           None \<Rightarrow> None
         | Some info \<Rightarrow>
             (let len = info_short 0 info in
              case swap_out (can_open cf) (time_to_swap cf) failing (take (nat len) info) len (sint (p ! LINE_SWAP_INDEX)) (swapping mem) of
                (ok, loc, st) \<Rightarrow>
                  (let p = p[LINE_SWAP_INDEX := word_of_int loc] in
                   if ok then
                     Some (True, p[FILE_INFO := 0, LINE_INFO := 0],
                       mem\<lparr>swapping := st\<lparr>line_num_bytes_swapped := line_num_bytes_swapped st + len\<rparr>,
                           line_blocks := (line_blocks mem)(p ! FILE_INFO := None)\<rparr>)
                   else Some (False, p, mem\<lparr>swapping := st\<rparr>)))))"

definition load_line_numbers :: "32 word \<Rightarrow> words \<Rightarrow> memory \<Rightarrow> (words \<times> memory) option" where
  "load_line_numbers addr p mem =
     (if p ! LINE_INFO \<noteq> 0 then Some (p, mem)
      else
        (case swap_in (sint (p ! LINE_SWAP_INDEX)) (swapping mem) of
           (len, Some info, st) \<Rightarrow>
             Some (p[FILE_INFO := addr, LINE_INFO := addr + 2 * word_of_int (info_short 1 info)],
               mem\<lparr>swapping := st\<lparr>line_num_bytes_swapped := line_num_bytes_swapped st - len\<rparr>,
                   line_blocks := (line_blocks mem)(addr \<mapsto> info)\<rparr>)
         | (len, None, st) \<Rightarrow> None))"

definition swap ::
  "swap_setup \<Rightarrow> bool \<Rightarrow> nat option \<Rightarrow> nat option \<Rightarrow> swap_object \<Rightarrow> memory \<Rightarrow> (bool \<times> swap_object \<times> memory) option" where
  "swap cf is_simul_efun_ob fail_lines fail_prog ob mem =
     (if is_simul_efun_ob then Some (False, ob, mem)
      else if o_destructed ob then Some (False, ob, mem)
      else
        (case prog ob of
           None \<Rightarrow> None
         | Some (a, p) \<Rightarrow>
             Option.bind (if p ! LINE_INFO \<noteq> 0 then swap_line_numbers cf fail_lines p mem else Some (False, p, mem)) (\<lambda>(_, p, mem).
               let ob = ob\<lparr>prog := Some (a, p)\<rparr> in
               if o_heart_beat ob \<or> o_clone ob then Some (False, ob, mem)
               else if prog_ref p > 1 \<or> o_interactive ob then Some (False, ob, mem)
               else if func_ref p > 0 then Some (False, ob, mem)
               else
                 (let p = locate_out a p in
                  case swap_out (can_open cf) (time_to_swap cf) fail_prog (block_bytes p) (sint (p ! TOTAL_SIZE)) (swap_num ob) (swapping mem) of
                    (ok, loc, st) \<Rightarrow>
                      (let ob = ob\<lparr>swap_num := loc\<rparr> in
                       if ok then
                         Some (True, ob\<lparr>prog := None, o_swapped := True\<rparr>,
                           mem\<lparr>swapping := st\<lparr>num_swapped := num_swapped st + 1\<rparr>,
                               total_prog_block_size := total_prog_block_size mem - sint (p ! TOTAL_SIZE),
                               total_num_prog_blocks := total_num_prog_blocks mem - 1\<rparr>)
                       else Some (False, ob\<lparr>prog := Some (a, locate_in a p)\<rparr>, mem\<lparr>swapping := st\<rparr>))))))"

definition load_ob_from_swap :: "32 word \<Rightarrow> swap_object \<Rightarrow> memory \<Rightarrow> (swap_object \<times> memory) option" where
  "load_ob_from_swap addr ob mem =
     (case swap_in (swap_num ob) (swapping mem) of
        (_, None, st) \<Rightarrow> None
      | (_, Some bs, st) \<Rightarrow>
          (let p = locate_in addr (bytes_block bs) in
           Some (ob\<lparr>prog := Some (addr, p), o_swapped := False\<rparr>,
             mem\<lparr>swapping := st\<lparr>num_swapped := num_swapped st - 1\<rparr>,
                 total_prog_block_size := total_prog_block_size mem + sint (p ! TOTAL_SIZE),
                 total_num_prog_blocks := total_num_prog_blocks mem + 1\<rparr>)))"

definition remove_swap_file :: "32 word \<Rightarrow> swap_object \<Rightarrow> memory \<Rightarrow> (swap_object \<times> memory) option" where
  "remove_swap_file addr ob mem =
     Option.bind (if o_swapped ob then load_ob_from_swap addr ob mem else Some (ob, mem)) (\<lambda>(ob, mem).
       let mem = (case prog ob of
                    None \<Rightarrow> mem
                  | Some (a, p) \<Rightarrow> mem\<lparr>swapping := free_swap (swap_num ob) (sint (p ! TOTAL_SIZE)) (swapping mem)\<rparr>)
       in Some (ob\<lparr>swap_num := -1\<rparr>, mem))"

definition remove_line_swap :: "32 word \<Rightarrow> words \<Rightarrow> memory \<Rightarrow> (words \<times> memory) option" where
  "remove_line_swap addr p mem =
     Option.bind (if p ! LINE_INFO = 0 then load_line_numbers addr p mem else Some (p, mem)) (\<lambda>(p, mem).
       if sint (p ! LINE_SWAP_INDEX) \<noteq> -1 \<and> p ! LINE_INFO \<noteq> 0 then
         (case line_blocks mem (p ! FILE_INFO) of
            None \<Rightarrow> None
          | Some info \<Rightarrow>
              Some (p[LINE_SWAP_INDEX := -1],
                mem\<lparr>swapping := free_swap (sint (p ! LINE_SWAP_INDEX)) (info_short 0 info) (swapping mem)\<rparr>))
       else Some (p[LINE_SWAP_INDEX := -1], mem))"


section \<open>Programs come back\<close>

lemma length_shift_all [simp]: "length (shift_all is d p) = length p"
  unfolding shift_all_def by (induction "is" arbitrary: p) simp_all

lemma nth_shift_all:
  "distinct is \<Longrightarrow> i < length p \<Longrightarrow> shift_all is d p ! i = (if i \<in> set is then p ! i + d else p ! i)"
proof (induction "is" arbitrary: p)
  case (Cons j js)
  have "shift_all (j # js) d p = shift_all js d (p[j := p ! j + d])" by (simp add: shift_all_def)
  then show ?case using Cons by (cases "i = j") auto
qed (simp add: shift_all_def)

lemma located_facts: "distinct located" "TYPE_START \<notin> set located" "ARGUMENT_TYPES \<notin> set located" "TOTAL_SIZE \<notin> set located"
    "LINE_INFO \<notin> set located" "FILE_INFO \<notin> set located" "LINE_SWAP_INDEX \<notin> set located"
  by (simp_all add: located_def)

text \<open>The pointers of a program, and a program moved from one address to another.\<close>

definition pointers :: "words \<Rightarrow> nat set" where
  "pointers p = set located \<union> (if p ! TYPE_START \<noteq> 0 then {ARGUMENT_TYPES, TYPE_START} else {})"

lemma length_locate [simp]: "length (locate_out a p) = length p" "length (locate_in a p) = length p"
  by (simp_all add: locate_out_def locate_in_def Let_def)

lemma nth_locate:
  assumes "TYPE_START < length p" "i < length p"
  shows "locate_out a p ! i = (if i \<in> pointers p then p ! i - a else p ! i)"
    "locate_in a p ! i = (if i \<in> pointers p then p ! i + a else p ! i)"
  using assms by (auto simp: locate_out_def locate_in_def Let_def nth_shift_all located_facts pointers_def)

lemma locate_in_out:
  assumes "TYPE_START < length p" "p ! TYPE_START \<noteq> a" "i < length p"
  shows "locate_in b (locate_out a p) ! i = (if i \<in> pointers p then p ! i - a + b else p ! i)"
proof -
  have "pointers (locate_out a p) = pointers p"
    using assms(1,2) by (auto simp: pointers_def nth_locate located_facts)
  then show ?thesis using assms by (simp add: nth_locate)
qed

lemma locate_out_in:
  assumes "TYPE_START < length p" "p ! TYPE_START \<noteq> 0 \<Longrightarrow> p ! TYPE_START + a \<noteq> 0"
  shows "locate_out a (locate_in a p) = p"
proof (rule nth_equalityI)
  have "pointers (locate_in a p) = pointers p" using assms by (auto simp: pointers_def nth_locate located_facts)
  then show "locate_out a (locate_in a p) ! i = p ! i" if "i < length (locate_out a (locate_in a p))" for i
    using assms that by (simp add: nth_locate)
qed simp

lemma bytes_block_bytes: "bytes_block (block_bytes p) = p"
proof (induction p)
  case (Cons w p)
  have four: "\<exists>a b c d. int_bytes n = [a, b, c, d]" for n by (simp add: int_bytes_def upt_rec)
  obtain a b c d where w: "int_bytes (uint w) = [a, b, c, d]" using four by blast
  have "horner_sum uint 256 [a, b, c, d] = uint w" using horner_int_bytes [of "uint w"] uint_lt2p [of w] unfolding w by simp
  then show ?case using Cons by (simp add: block_bytes_def w)
qed (simp add: block_bytes_def)

lemma length_block_bytes: "length (block_bytes p) = 4 * length p"
  by (induction p) (simp_all add: block_bytes_def)

definition well_sized :: "words \<Rightarrow> bool" where
  "well_sized p \<longleftrightarrow> TYPE_START < length p \<and> sint (p ! TOTAL_SIZE) = 4 * int (length p)"

text \<open>\<open>info\<close> are the line numbers of the program: in memory, or only in the swap file, or in both.\<close>

definition lines_are :: "(int \<rightharpoonup> byte list) \<Rightarrow> memory \<Rightarrow> words \<Rightarrow> byte list \<Rightarrow> bool" where
  "lines_are M mem p info \<longleftrightarrow>
     info_short 0 info = int (length info) \<and>
     (if p ! LINE_INFO = 0 then p ! FILE_INFO = 0 \<and> M (sint (p ! LINE_SWAP_INDEX)) = Some info
      else line_blocks mem (p ! FILE_INFO) = Some info \<and>
        (sint (p ! LINE_SWAP_INDEX) = -1 \<or> M (sint (p ! LINE_SWAP_INDEX)) = Some info))"

lemma info_short_bound: "info_short 0 info < 2 ^ 16"
proof -
  have "uint (x :: 8 word) < 256" for x using uint_lt2p [of x] by simp
  from this [of "info ! 0"] this [of "info ! 1"] show ?thesis by (simp add: info_short_def)
qed


lemma word_of_place: "0 \<le> loc \<Longrightarrow> loc < 2 ^ 31 \<Longrightarrow> sint (word_of_int loc :: 32 word) = loc"
  by transfer (simp add: signed_take_bit_int_eq_self)

text \<open>What writing a block out gives, whether it has a place already or not.\<close>

definition small_file :: "memory \<Rightarrow> bool" where
  "small_file mem \<longleftrightarrow> last_data (swapping mem) < 2 ^ 31"

lemma swap_out_stored:
  assumes h: "holds st M" and len: "int (length bs) < 2 ^ 31" and place: "loc = -1 \<or> M loc = Some bs"
    and out: "swap_out cd t None bs (int (length bs)) loc st = (True, loc', st')"
  shows "\<exists>M'. holds st' M' \<and> M \<subseteq>\<^sub>m M' \<and> M' loc' = Some bs \<and> (no_leak st M \<longrightarrow> no_leak st' M')"
proof (cases "loc = -1")
  case True
  have "case swap_out cd t None bs (int (length bs)) (-1) st of (ok, loc, st') \<Rightarrow>
      (if ok then M loc = None \<and> loc \<noteq> -1 \<and> holds st' (M(loc \<mapsto> bs)) \<and> (no_leak st M \<longrightarrow> no_leak st' (M(loc \<mapsto> bs)))
       else loc = -1 \<and> holds st' M)"
    using swap_out_map [OF h len, where can_open = cd and t = t and failing = None] by (simp split: prod.splits)
  then show ?thesis using out True by (intro exI [of _ "M(loc' \<mapsto> bs)"]) (auto simp: map_le_def)
next
  case False
  obtain opened st0 where a: "assert_swap_file cd st = (opened, st0)" by fastforce
  have "holds st0 M" "no_leak st M \<Longrightarrow> no_leak st0 M"
    using a h by (auto simp: assert_swap_file_def holds_def no_leak_def stored_def split: if_splits)
  then show ?thesis using out False place a by (auto simp: swap_out_def split: if_splits bool.splits)
qed


lemma swap_out_ok: "fst (swap_out cd t None bs n loc st) = (t \<noteq> 0 \<and> (swap_file_open st \<or> cd))"
  by (cases "swap_file_open st"; cases cd) (auto simp: swap_out_def assert_swap_file_def Let_def split: prod.splits)

text \<open>Before the file is opened nothing is in it.\<close>

definition closed_empty :: "swap_state \<Rightarrow> bool" where
  "closed_empty st \<longleftrightarrow> swap_file_open st \<or> swap_free st = [] \<and> last_data st = 0"

lemma swap_out_opens:
  assumes "swap_out cd t None bs n loc st = (ok, loc', st')"
  shows "swap_file_open st' = (swap_file_open st \<or> t \<noteq> 0 \<and> cd)" "closed_empty st \<Longrightarrow> closed_empty st'"
proof -
  obtain opened st0 where a: "assert_swap_file cd st = (opened, st0)" by fastforce
  obtain r st1 where r: "alloc_swap (n + sizeof_int) st0 = (r, st1)" by fastforce
  have "swap_file_open (snd (alloc_swap (n + sizeof_int) st0)) = swap_file_open st0"
    by (simp add: alloc_swap_def split: option.split prod.split)
  then have st1: "swap_file_open st1 = swap_file_open st0" using r by simp
  have st0: "opened = (swap_file_open st \<or> cd)" "swap_file_open st0 = opened" "\<not> opened \<Longrightarrow> closed_empty st0"
    using a by (auto simp: assert_swap_file_def closed_empty_def split: if_splits)
  consider "t = 0" "st' = st" | "t \<noteq> 0" "\<not> opened" "st' = st0" | "t \<noteq> 0" opened "swap_file_open st' = opened"
    using assms a r st1 st0(2) unfolding swap_out_def by (cases "t = 0"; cases opened; cases "loc = -1") (auto simp: Let_def)
  then have "swap_file_open st' = (swap_file_open st \<or> t \<noteq> 0 \<and> cd) \<and> (closed_empty st \<longrightarrow> closed_empty st')"
    using st0 by cases (simp_all add: closed_empty_def)
  then show "swap_file_open st' = (swap_file_open st \<or> t \<noteq> 0 \<and> cd)" "closed_empty st \<Longrightarrow> closed_empty st'"
    by blast+
qed

lemma swap_out_not_ok:
  assumes out: "swap_out cd t None bs n loc st = (False, loc', st')" and h: "closed_empty st"
  shows "loc' = loc \<and> st' = st"
proof -
  have "t = 0 \<or> \<not> swap_file_open st \<and> \<not> cd" using swap_out_ok [of cd t bs n loc st] out by simp
  moreover have "st\<lparr>swap_file_open := False, swap_free := [], last_data := 0\<rparr> = st" if "\<not> swap_file_open st"
    using h that by (cases st) (simp add: closed_empty_def)
  ultimately show ?thesis
  proof (elim disjE)
    assume "t = 0"
    then show ?thesis using out by (simp add: swap_out_def)
  next
    assume c: "\<not> swap_file_open st \<and> \<not> cd" and same: "\<not> swap_file_open st \<Longrightarrow> st\<lparr>swap_file_open := False, swap_free := [], last_data := 0\<rparr> = st"
    then have "assert_swap_file cd st = (False, st)" by (simp add: assert_swap_file_def)
    then show ?thesis using out by (simp add: swap_out_def split: if_splits)
  qed
qed

lemma closed_emptyI: "holds st M \<Longrightarrow> closed_empty st"
  using holdsD(3) by (simp add: closed_empty_def)

lemma place_fits:
  assumes "holds st M" "M loc = Some bs" "last_data st < 2 ^ 31"
  shows "sint (word_of_int loc :: 32 word) = loc"
proof (rule word_of_place)
  note s = holdsD(4) [OF assms(1,2), unfolded stored_def]
  then show "0 \<le> loc" by blast
  have "loc \<in> region loc bs" by (simp add: region_def sizeof_int_def)
  then show "loc < 2 ^ 31" using s assms(3) by auto
qed

lemma swap_line_numbers_keeps:
  assumes h: "holds (swapping mem) M" and lines: "lines_are M mem p info" and len: "TYPE_START < length p"
    and on: "p ! LINE_INFO \<noteq> 0" and run: "swap_line_numbers cf None p mem = Some (ok, p1, mem1)" and small: "small_file mem1"
  shows "\<exists>M1. holds (swapping mem1) M1 \<and> M \<subseteq>\<^sub>m M1 \<and> (no_leak (swapping mem) M \<longrightarrow> no_leak (swapping mem1) M1) \<and>
    lines_are M1 mem1 p1 info \<and> length p1 = length p \<and>
    (\<forall>i. i \<notin> {LINE_INFO, FILE_INFO, LINE_SWAP_INDEX} \<longrightarrow> p1 ! i = p ! i) \<and>
    ok = (time_to_swap cf \<noteq> 0 \<and> (swap_file_open (swapping mem) \<or> can_open cf)) \<and>
    (ok \<and> sint (p ! LINE_SWAP_INDEX) \<noteq> -1 \<longrightarrow> p1 = p[FILE_INFO := 0, LINE_INFO := 0]) \<and>
    (ok \<longrightarrow> sint (p1 ! LINE_SWAP_INDEX) \<noteq> -1)"
proof -
  have info: "line_blocks mem (p ! FILE_INFO) = Some info" "info_short 0 info = int (length info)"
      "sint (p ! LINE_SWAP_INDEX) = -1 \<or> M (sint (p ! LINE_SWAP_INDEX)) = Some info"
    using lines on by (simp_all add: lines_are_def)
  have fits: "int (length info) < 2 ^ 31" using info_short_bound [of info] info(2) by simp
  obtain loc st where out: "swap_out (can_open cf) (time_to_swap cf) None info (int (length info)) (sint (p ! LINE_SWAP_INDEX))
      (swapping mem) = (ok, loc, st)"
    and r: "p1 = (if ok then p[LINE_SWAP_INDEX := word_of_int loc, FILE_INFO := 0, LINE_INFO := 0] else p[LINE_SWAP_INDEX := word_of_int loc])"
      "swapping mem1 = (if ok then st\<lparr>line_num_bytes_swapped := line_num_bytes_swapped st + int (length info)\<rparr> else st)"
      "line_blocks mem1 = (if ok then (line_blocks mem)(p ! FILE_INFO := None) else line_blocks mem)"
    using run on info(1,2) len by (auto simp: swap_line_numbers_def Let_def split: prod.splits if_splits)
  have ok: "ok = (time_to_swap cf \<noteq> 0 \<and> (swap_file_open (swapping mem) \<or> can_open cf))"
    using swap_out_ok [of "can_open cf" "time_to_swap cf" info "int (length info)" "sint (p ! LINE_SWAP_INDEX)" "swapping mem"] out
    by simp
  show ?thesis
  proof (cases ok)
    case False
    then have f: "loc = sint (p ! LINE_SWAP_INDEX)" "st = swapping mem"
      using swap_out_not_ok [OF _ closed_emptyI [OF h], of "can_open cf" "time_to_swap cf" info "int (length info)"
          "sint (p ! LINE_SWAP_INDEX)" loc st] out by simp_all
    then have "p1 = p" using False r(1) by simp
    then show ?thesis using False f r lines ok on h by (intro exI [of _ M]) (auto simp: lines_are_def)
  next
    case True
    obtain M1 where M1: "holds st M1" "M \<subseteq>\<^sub>m M1" "M1 loc = Some info" "no_leak (swapping mem) M \<Longrightarrow> no_leak st M1"
      using swap_out_stored [OF h fits info(3), of "can_open cf" "time_to_swap cf" loc st] out True by auto
    have "last_data st < 2 ^ 31" using small True r(2) by (simp add: small_file_def)
    then have loc: "sint (word_of_int loc :: 32 word) = loc" using place_fits M1(1,3) by blast
    have nonneg: "loc \<noteq> -1" using holdsD(4) [OF M1(1,3)] by (auto simp: stored_def)
    have same: "loc = sint (p ! LINE_SWAP_INDEX)" if "sint (p ! LINE_SWAP_INDEX) \<noteq> -1"
      using out that True by (auto simp: swap_out_def split: prod.splits bool.splits if_splits)
    have "holds (swapping mem1) M1 \<and> (no_leak (swapping mem) M \<longrightarrow> no_leak (swapping mem1) M1)" using M1 True r(2) by simp
    moreover have "lines_are M1 mem1 p1 info"
      using True r(1) len M1(3) info(2) by (simp add: lines_are_def loc)
    moreover have "p1 = p[FILE_INFO := 0, LINE_INFO := 0]" if "sint (p ! LINE_SWAP_INDEX) \<noteq> -1"
      using same [OF that] True r(1) by simp
    moreover have "sint (p1 ! LINE_SWAP_INDEX) \<noteq> -1" using True r(1) len loc nonneg by simp
    ultimately show ?thesis using M1(2) True r(1) ok by (intro exI [of _ M1]) simp
  qed
qed


lemma swap_out_grows:
  assumes out: "swap_out cd t None bs n loc st = (ok, loc', st')" and h: "closed_empty st" and n: "0 \<le> n"
  shows "last_data st \<le> last_data st'"
proof (cases ok)
  case False
  then show ?thesis using swap_out_not_ok [of cd t bs n loc st loc' st'] out h by simp
next
  case True
  have alloc: "last_data (snd (alloc_swap k s)) = last_data s" for k s
    by (simp add: alloc_swap_def split: option.split prod.split)
  obtain opened st0 where a: "assert_swap_file cd st = (opened, st0)" by fastforce
  have "last_data st \<le> last_data st0"
    using a h by (auto simp: assert_swap_file_def closed_empty_def split: if_splits)
  moreover have "last_data st0 \<le> last_data st'"
  proof -
    obtain r st1 where r: "alloc_swap (n + sizeof_int) st0 = (r, st1)" by fastforce
    then have "last_data st1 = last_data st0" using alloc [of "n + sizeof_int" st0] by simp
    then show ?thesis
      using out a r n True by (auto simp: swap_out_def Let_def sizeof_int_def split: bool.splits if_splits)
  qed
  ultimately show ?thesis by simp
qed

lemma lines_written_first:
  assumes "holds (swapping mem) M" "lines_are M mem p info" "TYPE_START < length p"
    and run: "(if p ! LINE_INFO \<noteq> 0 then swap_line_numbers cf None p mem else Some (False, p, mem)) = Some (x, p1, mem1)"
    and on: "time_to_swap cf \<noteq> 0 \<and> (swap_file_open (swapping mem) \<or> can_open cf)" and "small_file mem1"
  shows "\<exists>M1. holds (swapping mem1) M1 \<and> M \<subseteq>\<^sub>m M1 \<and> (no_leak (swapping mem) M \<longrightarrow> no_leak (swapping mem1) M1) \<and>
    lines_are M1 mem1 p1 info \<and> p1 ! LINE_INFO = 0 \<and> length p1 = length p \<and>
    (\<forall>i. i \<notin> {LINE_INFO, FILE_INFO, LINE_SWAP_INDEX} \<longrightarrow> p1 ! i = p ! i) \<and>
    (sint (p ! LINE_SWAP_INDEX) \<noteq> -1 \<longrightarrow> p1 = p[FILE_INFO := 0, LINE_INFO := 0])"
proof (cases "p ! LINE_INFO = 0")
  case True
  then have "p ! FILE_INFO = 0" using assms(2) by (simp add: lines_are_def)
  then have "p[FILE_INFO := 0, LINE_INFO := 0] = p" using True by (metis list_update_id)
  then show ?thesis using True assms by (intro exI [of _ M]) simp
next
  case False
  note k = swap_line_numbers_keeps [OF assms(1-3) False, of cf x p1 mem1]
  have "p1 ! LINE_INFO = 0" using run False on k assms(3,6) by (auto simp: swap_line_numbers_def Let_def split: option.splits prod.splits if_splits)
  then show ?thesis using k run False on assms(6) by (elim impE exE conjE) auto
qed


lemma lines_in_file:
  "lines_are M mem p info \<Longrightarrow> p ! LINE_INFO = 0 \<Longrightarrow> M2 (sint (p ! LINE_SWAP_INDEX)) = M (sint (p ! LINE_SWAP_INDEX)) \<Longrightarrow>
     q ! LINE_INFO = p ! LINE_INFO \<Longrightarrow> q ! FILE_INFO = p ! FILE_INFO \<Longrightarrow> q ! LINE_SWAP_INDEX = p ! LINE_SWAP_INDEX \<Longrightarrow>
     lines_are M2 mem2 q info"
  by (simp add: lines_are_def)

lemma swap_success:
  assumes "swap cf simul None None ob mem = Some (True, ob', mem')" "prog ob = Some (a, p)"
  shows "\<exists>x p1 mem1 st. (if p ! LINE_INFO \<noteq> 0 then swap_line_numbers cf None p mem else Some (False, p, mem)) = Some (x, p1, mem1) \<and>
    swap_out (can_open cf) (time_to_swap cf) None (block_bytes (locate_out a p1)) (sint (locate_out a p1 ! TOTAL_SIZE)) (swap_num ob) (swapping mem1)
      = (True, swap_num ob', st) \<and>
    swapping mem' = st\<lparr>num_swapped := num_swapped st + 1\<rparr> \<and> prog ob' = None \<and> o_swapped ob' \<and>
    line_blocks mem' = line_blocks mem1"
  using assms by (auto simp: swap_def Let_def bind_eq_Some_conv split: if_splits prod.splits)

lemma lines_frame:
  assumes "(if p ! LINE_INFO \<noteq> 0 then swap_line_numbers cf None p mem else Some (False, p, mem)) = Some (x, p1, mem1)"
  shows "length p1 = length p" "i \<notin> {LINE_INFO, FILE_INFO, LINE_SWAP_INDEX} \<Longrightarrow> p1 ! i = p ! i"
  using assms by (auto simp: swap_line_numbers_def Let_def split: if_splits option.splits prod.splits)

lemma pointers_cong: "p1 ! TYPE_START = p ! TYPE_START \<Longrightarrow> pointers p1 = pointers p"
  by (simp add: pointers_def)

lemma pointers_facts: "LINE_INFO \<notin> pointers p" "FILE_INFO \<notin> pointers p" "LINE_SWAP_INDEX \<notin> pointers p" "TOTAL_SIZE \<notin> pointers p"
  by (simp_all add: pointers_def located_facts)

lemma swap_in_stored:
  assumes h: "holds st M" and l: "M loc = Some b"
  shows "swap_in loc st = (int (length b), Some b, st\<lparr>total_bytes_swapped := total_bytes_swapped st - int (length b)\<rparr>)"
  using holdsD(4) [OF h l] by (simp add: stored_def swap_in_def Let_def bytes_int_bytes)

lemma first_closed:
  assumes "(if p ! LINE_INFO \<noteq> 0 then swap_line_numbers cf None p mem else Some (False, p, mem)) = Some (x, p1, mem1)"
    and "closed_empty (swapping mem)"
  shows "(swap_file_open (swapping mem1) \<longrightarrow> swap_file_open (swapping mem) \<or> can_open cf) \<and> closed_empty (swapping mem1)"
proof (cases "p ! LINE_INFO = 0")
  case True
  then show ?thesis using assms by simp
next
  case False
  then obtain info ok loc st where out: "swap_out (can_open cf) (time_to_swap cf) None (take (nat (info_short 0 info)) info)
        (info_short 0 info) (sint (p ! LINE_SWAP_INDEX)) (swapping mem) = (ok, loc, st)"
      and "swapping mem1 = st \<or> swapping mem1 = st\<lparr>line_num_bytes_swapped := line_num_bytes_swapped st + info_short 0 info\<rparr>"
    using assms(1) by (auto simp: swap_line_numbers_def Let_def split: option.splits prod.splits if_splits)
  then show ?thesis using swap_out_opens [OF out] assms(2) by (auto simp: closed_empty_def)
qed

text \<open>C40. A program swapped out comes back: whatever happens to the rest of the swap file in between, loading the object
  gives the same program at its new address, with every pointer into the block moved along, the same line numbers, and
  everything else in the file as it was.\<close>

theorem swapped_program_comes_back:
  assumes h: "holds (swapping mem) M" and p: "prog ob = Some (a, p)" "well_sized p" "int (length p) < 2 ^ 29" "p ! TYPE_START \<noteq> a"
    and lines: "lines_are M mem p info"
    and copy: "swap_num ob = -1 \<or> sint (p ! LINE_SWAP_INDEX) \<noteq> -1 \<and>
      M (swap_num ob) = Some (block_bytes (locate_out a (p[FILE_INFO := 0, LINE_INFO := 0])))"
    and run: "swap cf simul None None ob mem = Some (True, ob', mem')" and small: "small_file mem'"
  shows "prog ob' = None \<and> o_swapped ob' \<and>
    (\<exists>M' l. holds (swapping mem') M' \<and> M \<subseteq>\<^sub>m M' \<and> (no_leak (swapping mem) M \<longrightarrow> no_leak (swapping mem') M') \<and>
      (\<forall>mem2 M2 addr. holds (swapping mem2) M2 \<and> M2 (swap_num ob') = M' (swap_num ob') \<and> M2 l = M' l \<longrightarrow>
        (\<exists>q mem3. load_ob_from_swap addr ob' mem2 = Some (ob'\<lparr>prog := Some (addr, q), o_swapped := False\<rparr>, mem3) \<and>
          holds (swapping mem3) M2 \<and> lines_are M2 mem3 q info \<and> length q = length p \<and>
          (\<forall>i<length p. i \<notin> {LINE_INFO, FILE_INFO, LINE_SWAP_INDEX} \<longrightarrow>
             q ! i = (if i \<in> pointers p then p ! i - a + addr else p ! i)))))"
proof -
  obtain x p1 mem1 st
    where first: "(if p ! LINE_INFO \<noteq> 0 then swap_line_numbers cf None p mem else Some (False, p, mem)) = Some (x, p1, mem1)"
      and out: "swap_out (can_open cf) (time_to_swap cf) None (block_bytes (locate_out a p1)) (sint (locate_out a p1 ! TOTAL_SIZE))
        (swap_num ob) (swapping mem1) = (True, swap_num ob', st)"
      and mem': "swapping mem' = st\<lparr>num_swapped := num_swapped st + 1\<rparr>" "prog ob' = None" "o_swapped ob'"
    using swap_success [OF run p(1)] by blast
  have len: "TYPE_START < length p" using p(2) by (simp add: well_sized_def)
  let ?bs = "block_bytes (locate_out a p1)"
  note st0 = first_closed [OF first closed_emptyI [OF h]]
  have on: "time_to_swap cf \<noteq> 0 \<and> (swap_file_open (swapping mem) \<or> can_open cf)"
    using swap_out_ok [of "can_open cf" "time_to_swap cf" ?bs "sint (locate_out a p1 ! TOTAL_SIZE)" "swap_num ob" "swapping mem1"] out st0
    by auto
  have same: "length p1 = length p" "\<And>i. i \<notin> {LINE_INFO, FILE_INFO, LINE_SWAP_INDEX} \<Longrightarrow> p1 ! i = p ! i"
    using lines_frame [OF first] by blast+
  have ptr: "pointers p1 = pointers p" using same(2) by (intro pointers_cong) simp
  have n: "sint (locate_out a p1 ! TOTAL_SIZE) = int (length ?bs)" "int (length ?bs) < 2 ^ 31"
    using p(2,3) same len by (simp_all add: nth_locate pointers_facts well_sized_def length_block_bytes)
  have "small_file mem1"
    using swap_out_grows [OF out] st0 n(1) small mem'(1) by (simp add: small_file_def)
  from lines_written_first [OF h lines len first on this]
  obtain M1 where M1: "holds (swapping mem1) M1" "M \<subseteq>\<^sub>m M1" "no_leak (swapping mem) M \<longrightarrow> no_leak (swapping mem1) M1"
      "lines_are M1 mem1 p1 info" "p1 ! LINE_INFO = 0"
      "sint (p ! LINE_SWAP_INDEX) \<noteq> -1 \<longrightarrow> p1 = p[FILE_INFO := 0, LINE_INFO := 0]"
    by blast
  have "swap_num ob = -1 \<or> M1 (swap_num ob) = Some ?bs"
  proof (cases "swap_num ob = -1")
    case False
    then have "M (swap_num ob) = Some ?bs" using copy M1(6) by auto
    then show ?thesis using M1(2) by (auto simp: map_le_def dom_def)
  qed simp
  from swap_out_stored [OF M1(1) n(2) this out [unfolded n(1)]]
  obtain M' where M': "holds st M'" "M1 \<subseteq>\<^sub>m M'" "M' (swap_num ob') = Some ?bs" "no_leak (swapping mem1) M1 \<longrightarrow> no_leak st M'"
    by blast
  let ?l = "sint (p1 ! LINE_SWAP_INDEX)"
  have l: "M' ?l = M1 ?l" using M1(4,5) M'(2) by (auto simp: lines_are_def map_le_def dom_def)
  have "\<exists>q mem3. load_ob_from_swap addr ob' mem2 = Some (ob'\<lparr>prog := Some (addr, q), o_swapped := False\<rparr>, mem3) \<and>
      holds (swapping mem3) M2 \<and> lines_are M2 mem3 q info \<and> length q = length p \<and>
      (\<forall>i<length p. i \<notin> {LINE_INFO, FILE_INFO, LINE_SWAP_INDEX} \<longrightarrow>
         q ! i = (if i \<in> pointers p then p ! i - a + addr else p ! i))"
    if later: "holds (swapping mem2) M2 \<and> M2 (swap_num ob') = M' (swap_num ob') \<and> M2 ?l = M' ?l" for mem2 M2 addr
  proof -
    let ?q = "locate_in addr (locate_out a p1)"
    have at: "M2 (swap_num ob') = Some ?bs" using later M'(3) by simp
    have q: "?q ! i = (if i \<in> pointers p then p1 ! i - a + addr else p1 ! i)" if "i < length p" for i
      using locate_in_out [of p1 a i addr] that same len p(4) ptr by simp
    obtain mem3 where load: "load_ob_from_swap addr ob' mem2 = Some (ob'\<lparr>prog := Some (addr, ?q), o_swapped := False\<rparr>, mem3)"
        and mem3: "holds (swapping mem3) M2"
      using swap_in_stored [of "swapping mem2" M2 "swap_num ob'" ?bs] at later by (simp add: load_ob_from_swap_def Let_def bytes_block_bytes)
    have "lines_are M2 mem3 ?q info"
      using q len later l by (intro lines_in_file [OF M1(4,5)]) (simp_all add: pointers_facts)
    moreover have "\<forall>i<length p. i \<notin> {LINE_INFO, FILE_INFO, LINE_SWAP_INDEX} \<longrightarrow>
        ?q ! i = (if i \<in> pointers p then p ! i - a + addr else p ! i)"
      using q same(2) by simp
    ultimately show ?thesis using load mem3 same(1) by auto
  qed
  moreover have "holds (swapping mem') M'" "no_leak (swapping mem) M \<longrightarrow> no_leak (swapping mem') M'"
    using M'(1,4) M1(3) mem'(1) by simp_all
  moreover have "M \<subseteq>\<^sub>m M'" using map_le_trans [OF M1(2) M'(2)] .
  ultimately show ?thesis using mem'(2,3) by blast
qed


text \<open>A program of 23 words at address 1000, with four bytes of line numbers at 500, never swapped before.\<close>

definition small_program :: words where
  "small_program = [1, 0, 1, 1084, 7, 504, 500, -1, 0, 0, 0, 0, 0, 0, 0, 0, 0, 0, 92, -1, 0, 0, 0x11223344]"

definition small_object :: swap_object where
  "small_object = \<lparr>o_heart_beat = False, o_clone = False, o_destructed = False, o_swapped = False, o_interactive = False,
     swap_num = -1, prog = Some (1000, small_program)\<rparr>"

definition small_memory :: memory where
  "small_memory = \<lparr>swapping = one_hole, line_blocks = [500 \<mapsto> [4, 0, 2, 0]], total_prog_block_size = 92, total_num_prog_blocks = 1\<rparr>"

definition swapping_on :: swap_setup where "swapping_on = \<lparr>can_open = True, time_to_swap = 1\<rparr>"

lemma small_swap:
  "(case swap swapping_on False None None small_object small_memory of
      Some (True, ob, mem) \<Rightarrow> swap_num ob = 20 \<and> last_data (swapping mem) = 116 | _ \<Rightarrow> False)"
  by code_simp

lemma swapped_program_comes_back_witness:
  "\<exists>ob' mem' q mem3. swap swapping_on False None None small_object small_memory = Some (True, ob', mem') \<and>
     load_ob_from_swap 5000 ob' mem' = Some (ob'\<lparr>prog := Some (5000, q), o_swapped := False\<rparr>, mem3) \<and>
     q ! PROGRAM = 5084 \<and> q ! 22 = 0x11223344"
proof -
  have len: "length small_program = 23" by (simp add: small_program_def)
  have ptr: "PROGRAM \<in> pointers small_program" "22 \<notin> pointers small_program"
    by (simp_all add: pointers_def located_def small_program_def)
  have size: "well_sized small_program" "int (length small_program) < 2 ^ 29" by (simp_all add: well_sized_def small_program_def)
  have start: "small_program ! TYPE_START \<noteq> 1000" by (simp add: small_program_def)
  have ob: "prog small_object = Some (1000, small_program)" "swap_num small_object = -1" by (simp_all add: small_object_def)
  have h: "holds (swapping small_memory) [6 \<mapsto> [8, 9]]" using one_hole_holds by (simp add: small_memory_def)
  have lines: "lines_are [6 \<mapsto> [8, 9]] small_memory small_program [4, 0, 2, 0]"
    by (simp add: lines_are_def small_program_def small_memory_def info_short_def)
  obtain ob' mem' where run: "swap swapping_on False None None small_object small_memory = Some (True, ob', mem')"
      and l: "last_data (swapping mem') = 116"
    using small_swap by (auto split: option.splits prod.splits bool.splits)
  have small: "small_file mem'" using l by (simp add: small_file_def)
  obtain M' l where M': "holds (swapping mem') M'"
      and later: "\<forall>mem2 M2 addr. holds (swapping mem2) M2 \<and> M2 (swap_num ob') = M' (swap_num ob') \<and> M2 l = M' l \<longrightarrow>
        (\<exists>q mem3. load_ob_from_swap addr ob' mem2 = Some (ob'\<lparr>prog := Some (addr, q), o_swapped := False\<rparr>, mem3) \<and>
          holds (swapping mem3) M2 \<and> lines_are M2 mem3 q [4, 0, 2, 0] \<and> length q = length small_program \<and>
          (\<forall>i<length small_program. i \<notin> {LINE_INFO, FILE_INFO, LINE_SWAP_INDEX} \<longrightarrow>
             q ! i = (if i \<in> pointers small_program then small_program ! i - 1000 + addr else small_program ! i)))"
    using swapped_program_comes_back [OF h ob(1) size start lines disjI1 [OF ob(2)] run small] by blast
  obtain q mem3 where q: "load_ob_from_swap 5000 ob' mem' = Some (ob'\<lparr>prog := Some (5000, q), o_swapped := False\<rparr>, mem3)"
      "\<forall>i<length small_program. i \<notin> {LINE_INFO, FILE_INFO, LINE_SWAP_INDEX} \<longrightarrow>
         q ! i = (if i \<in> pointers small_program then small_program ! i - 1000 + 5000 else small_program ! i)"
    using later M' by blast
  have "q ! PROGRAM = small_program ! PROGRAM - 1000 + 5000" "q ! 22 = small_program ! 22" using q(2) len ptr by simp_all
  then have "q ! PROGRAM = 5084" "q ! 22 = 0x11223344" by (simp_all add: small_program_def)
  then show ?thesis using run q(1) by blast
qed

section \<open>What goes wrong\<close>

text \<open>A write that fails takes the place it had found in the list of free blocks with it.\<close>

lemma failed_write_leaks:
  "no_leak one_hole [6 \<mapsto> [8, 9]] \<and>
   (case swap_out True 1 (Some 0) [1, 2] 2 (-1) one_hole of
      (ok, loc, st) \<Rightarrow> \<not> ok \<and> swap_free st = [] \<and> last_data st = 12 \<and> \<not> no_leak st [6 \<mapsto> [8, 9]])"
proof -
  have r: "swap_out True 1 (Some 0) [1, 2] 2 (-1) one_hole = (False, -1, one_hole\<lparr>swap_free := []\<rparr>)"
    by (simp add: swap_out_def assert_swap_file_def alloc_swap_def one_hole_def sizeof_int_def) (auto simp: write_at_def)
  have used: "used [6 \<mapsto> [8, 9 :: byte]] = {6..<12}" by (auto simp: used_def region_def sizeof_int_def split: if_splits)
  have "no_leak one_hole [6 \<mapsto> [8, 9]]" unfolding no_leak_def used by (auto simp: one_hole_def)
  moreover have "0 \<in> {0..<last_data (one_hole\<lparr>swap_free := []\<rparr>)}" by (simp add: one_hole_def)
  then have "\<not> no_leak (one_hole\<lparr>swap_free := []\<rparr>) [6 \<mapsto> [8, 9]]"
    unfolding no_leak_def used by (simp add: subset_iff) force
  ultimately show ?thesis unfolding r by (simp add: one_hole_def)
qed

text \<open>
  When the line numbers could not be written and the program was, the copy in the file has the pointer to
  them. If they are written and freed the next time the program is swapped, the old copy is still kept, and what is
  loaded from it points to freed memory.
\<close>

lemma swap_out_placed:
  assumes "holds st M" "loc \<noteq> -1" "swap_out cd t None bs n loc st = (True, loc', st')"
  shows "loc' = loc \<and> holds st' M"
proof -
  obtain opened st0 where a: "assert_swap_file cd st = (opened, st0)" by fastforce
  have "holds st0 M"
    using a assms(1) by (auto simp: assert_swap_file_def holds_def no_leak_def stored_def split: if_splits)
  then show ?thesis using assms(2,3) a by (auto simp: swap_out_def split: if_splits bool.splits)
qed

lemma stale_line_numbers:
  assumes h: "holds (swapping mem) M" and p: "prog ob = Some (a, p)" "well_sized p" "p ! TYPE_START \<noteq> a"
    and on: "p ! LINE_INFO \<noteq> 0" and copy: "swap_num ob \<noteq> -1" "M (swap_num ob) = Some (block_bytes (locate_out a p))"
    and lines: "lines_are M mem p info"
    and run: "swap cf simul None None ob mem = Some (True, ob', mem')" and small: "small_file mem'"
  shows "\<exists>q mem2. load_ob_from_swap addr ob' mem' = Some (ob'\<lparr>prog := Some (addr, q), o_swapped := False\<rparr>, mem2) \<and>
    q ! LINE_INFO = p ! LINE_INFO \<and> q ! FILE_INFO = p ! FILE_INFO \<and> line_blocks mem2 (q ! FILE_INFO) = None"
proof -
  obtain x p1 mem1 st
    where first: "(if p ! LINE_INFO \<noteq> 0 then swap_line_numbers cf None p mem else Some (False, p, mem)) = Some (x, p1, mem1)"
      and out: "swap_out (can_open cf) (time_to_swap cf) None (block_bytes (locate_out a p1)) (sint (locate_out a p1 ! TOTAL_SIZE))
        (swap_num ob) (swapping mem1) = (True, swap_num ob', st)"
      and mem': "swapping mem' = st\<lparr>num_swapped := num_swapped st + 1\<rparr>" "line_blocks mem' = line_blocks mem1"
    using swap_success [OF run p(1)] by blast
  have len: "TYPE_START < length p" using p(2) by (simp add: well_sized_def)
  have cl: "closed_empty (swapping mem1)" and on': "time_to_swap cf \<noteq> 0 \<and> (swap_file_open (swapping mem) \<or> can_open cf)"
    using first_closed [OF first closed_emptyI [OF h]] swap_out_ok [of "can_open cf" "time_to_swap cf" "block_bytes (locate_out a p1)"
        "sint (locate_out a p1 ! TOTAL_SIZE)" "swap_num ob" "swapping mem1"] out
    by auto
  have "p1 ! TOTAL_SIZE = p ! TOTAL_SIZE" "length p1 = length p" using lines_frame [OF first] by simp_all
  then have "0 \<le> sint (locate_out a p1 ! TOTAL_SIZE)" using p(2) len by (simp add: nth_locate pointers_facts well_sized_def)
  then have "small_file mem1" using swap_out_grows [OF out cl] small mem'(1) by (simp add: small_file_def)
  from lines_written_first [OF h lines len first on' this]
  obtain M1 where M1: "holds (swapping mem1) M1" "M \<subseteq>\<^sub>m M1" "p1 ! LINE_INFO = 0" by blast
  have "holds st M1" "swap_num ob' = swap_num ob" using swap_out_placed [OF M1(1) copy(1) out] by simp_all
  moreover have "M1 (swap_num ob) = Some (block_bytes (locate_out a p))" using copy(2) M1(2) by (auto simp: map_le_def dom_def)
  ultimately have read: "\<exists>st2. swap_in (swap_num ob') (swapping mem') =
      (int (length (block_bytes (locate_out a p))), Some (block_bytes (locate_out a p)), st2)"
    using swap_in_stored [of "swapping mem'" M1 "swap_num ob" "block_bytes (locate_out a p)"] mem'(1) by simp
  have "line_blocks mem1 (p ! FILE_INFO) = None"
    using first on M1(3) len by (auto simp: swap_line_numbers_def Let_def split: option.splits prod.splits if_splits)
  moreover have "locate_in addr (locate_out a p) ! LINE_INFO = p ! LINE_INFO" "locate_in addr (locate_out a p) ! FILE_INFO = p ! FILE_INFO"
    using locate_in_out [OF len p(3)] len by (simp_all add: pointers_facts)
  moreover obtain st2 where "swap_in (swap_num ob') (swapping mem') =
      (int (length (block_bytes (locate_out a p))), Some (block_bytes (locate_out a p)), st2)"
    using read by blast
  ultimately show ?thesis using mem'(2)
    by (auto simp: load_ob_from_swap_def Let_def bytes_block_bytes intro!: exI [of _ "locate_in addr (locate_out a p)"])
qed

end
