(* ===== verification/Spec2Isabelle.thy ===== *)
theory Spec2Isabelle
  imports Avl_Tree Hash_Function String_Table Call_Out Lpc_Mapping Save_Restore Object_Table Uids Comm_Output Comm_Input
    Quick_Sort Sort_Array Array_Sets Explode Environment Commands Inventory Heart_Beat Swap_File
begin

text \<open>
  MudOS is the driver of a multi-user game: a C program that compiles and interprets the game's objects, written
  in LPC, keeps their data, moves objects into each other, and talks to the players. This development models
  the data structures and services under the interpreter. The interpreter, the compiler and the system
  calls are outside of it; where the modelled code calls them, the call is a parameter of the definitions.

  \<^bold>\<open>The parts.\<close> File names are those under \<open>src/\<close>; the definitions have the names of the C functions, with
  a name of their own for a loop or a piece of a function.

  \<^item> \<open>Prelude\<close>: C arithmetic (\<open>c_int\<close>, \<open>c_div\<close>, \<open>c_mod\<close>), tables of chains, and the locale \<open>comparator\<close>.
  \<^item> \<open>Avl_Tree\<close> (\<open>avltree.c\<close>): insertion, deletion and search with their rotations. The laws of the comparison are
    the locale \<open>comparator\<close>; a tree in order is an index (\<open>key_index\<close>).
  \<^item> \<open>Hash_Function\<close> (\<open>hash.c\<close>) and \<open>String_Table\<close> (\<open>stralloc.c\<close>): shared strings with their 16 bit reference
    counts. The locales \<open>interner\<close> and \<open>name_store\<close> are what other parts rely on.
  \<^item> \<open>Uids\<close> (\<open>packages/uids.c\<close>): the tree and the shared strings together; its comparison of addresses
    is the interpretation \<open>uc\<close>.
  \<^item> \<open>Object_Table\<close> (\<open>otable.c\<close>, living names in \<open>object.c\<close>): finding objects by name.
  \<^item> \<open>Call_Out\<close> (\<open>call_out.c\<close>): the wheel of delayed calls. \<open>Heart_Beat\<close> (\<open>backend.c\<close>): the periodic calls.
  \<^item> \<open>Lpc_Mapping\<close> (\<open>mapping.c\<close>): hash tables of LPC values with their counts and limits.
  \<^item> \<open>Save_Restore\<close> (\<open>object.c\<close>): the text that objects are saved as.
  \<^item> \<open>Quick_Sort\<close> (\<open>qsort.c\<close>), \<open>Sort_Array\<close>, \<open>Array_Sets\<close> and \<open>Explode\<close> (\<open>array.c\<close>): arrays. The comparison of
    the sort is the locale \<open>comparison\<close>, interpreted by the two built-in comparisons as \<open>fwd\<close> and \<open>rev\<close>.
  \<^item> \<open>Environment\<close> (\<open>simulate.c\<close>): \<open>move_object\<close> and \<open>destruct_object\<close> over the pointers of \<open>object_t\<close>;
    \<open>Commands\<close>: the sentences of objects and \<open>user_parser\<close>; \<open>Inventory\<close>: looking into objects. The three
    share the record \<open>object\<close> and the state \<open>world\<close>.
  \<^item> \<open>Comm_Output\<close> and \<open>Comm_Input\<close> (\<open>comm.c\<close>): the ring buffer to a player, the telnet protocol and the
    lines typed, and whose turn it is.
  \<^item> \<open>Swap_File\<close> (\<open>swap.c\<close>): the free list and contents of the swap file, relocation of programs.

  \<^bold>\<open>What is shown.\<close> Each theory has the invariant of its state, that the operations keep it, and what they do.
  Refinements: the object table, the user ids and the swap file are maps, the ring buffer is a queue.
  Equivalence with a reference: sorting, array subtraction and intersection, \<open>explode\<close>, the command parser.
  Round trips: saving and restoring, \<open>explode\<close> and \<open>implode\<close>, lines typed and commands taken, swapping out
  and in. Service: delayed calls are made when due, every waiting player is served, every string is freed by its
  last reference, every heart beat that stays on gets its turn. Where the code does not do what it means to,
  a theorem or a lemma runs the case (for instance \<open>Commands.nested_command_uses_freed_command\<close>,
  \<open>Environment.destructed_twice\<close>, \<open>Swap_File.stale_line_numbers\<close>).

  \<^bold>\<open>Conventions.\<close> Pointers are addresses into a store that is part of the state, or None for the null pointer.
  A result None is an access through a null or dangling pointer, or a loop that does not end; the theorems show that it
  does not occur. Loops with a measure are \<open>function\<close>s; loops over linked structures, and loops in which LPC
  code runs, are \<open>partial_function (option)\<close>, and that they end is proved. The scanners of \<open>Save_Restore\<close>
  take fuel; one more than the length of the text is shown to be enough. Errors, crashes and \<open>fatal\<close> are
  values of datatypes.

  \<^bold>\<open>Configuration and machine.\<close> The options are those of \<open>options.h\<close> (\<open>STRING_STATS\<close>, \<open>ARRAY_STATS\<close>,
  \<open>CALLOUT_HANDLES\<close>, \<open>SANE_EXPLODE_STRING\<close>, \<open>PACKAGE_UIDS\<close>, \<open>RECEIVE_SNOOP\<close>, \<open>COMPRESS_FUNCTION_TABLES\<close> and
  so on; \<open>DEBUG\<close> is off, shadows, environments and commands are on). Run time options are arguments.
  \<open>int\<close>, \<open>long\<close> and pointers have 32 bits, \<open>short\<close> 16; integers are words, or wrap where they can
  overflow. Allocation succeeds.

  \<^bold>\<open>Parameters and hypotheses.\<close> LPC functions and calls into parts that are not modelled are functions of the whole
  state, restricted only where a theorem needs it: \<open>Environment.lawful\<close> (calls keep the object structure
  consistent and destructed objects destructed), \<open>Environment.inits_by\<close> and \<open>Environment.indifferent\<close> (calls that
  leave the objects alone), \<open>Commands.plain_verbs\<close> (verb functions that leave the commands alone), \<open>Commands.removals_seen\<close>
  (a removal is flagged in \<open>illegal_sentence_action\<close>), \<open>Heart_Beat.all_shadows_end\<close> (no cycle of shadows). In
  \<open>Call_Out\<close> and \<open>Heart_Beat\<close> a function is the list of the calls it makes back into the module. Comparison of
  floats and printing them are arguments.

  \<^bold>\<open>Not modelled.\<close> The interpreter and its efuns apart from those above, the lexer and the compiler, the
  translation to C and saved binaries, the editor, the natural language parser, regular expressions, \<open>sprintf\<close>, files,
  sockets and the address server, the memory allocators, and reports of statistics: they work
  on LPC code and system calls, or are adapted from elsewhere. Of \<open>mapping.c\<close> \<open>unique_mapping\<close> is left out, of \<open>object.c\<close> the
  file access around saving, and the creation, reset and reloading of objects, which need the interpreter.
\<close>

end
